(* ===== verification/Xv6_Prelude.thy ===== *)
theory Xv6_Prelude
  imports "HOL-Library.Word"
begin

unbundle bit_operations_syntax

section \<open>Shared vocabulary of the development\<close>

text \<open>
  This theory holds what every component uses: the C integer types as words, the names of the
  kernel objects that are locked or slept on, the outcome type of kernel code with its sequencing
  combinators and a weakest-precondition calculus over them, frames, and the induction over
  interleaved executions.
\<close>

subsection \<open>C integer types\<close>

text \<open>
  The unsigned types of \<^verbatim>\<open>types.h\<close>. A C \<^verbatim>\<open>int\<close> is modelled by
  \<open>int\<close> where the code cannot overflow it (signed overflow is undefined in C), and by the word
  it is converted to or from where a conversion matters.
\<close>

type_synonym u8 = "8 word"
type_synonym u16 = "16 word"
type_synonym u32 = "32 word"
type_synonym u64 = "64 word"

text \<open>Testing one flag bit with a mask.\<close>

lemma and_push_bit_1: "w AND push_bit n 1 = 0 \<longleftrightarrow> \<not> bit (w :: 'a::len word) n"
  by (simp only: push_bit_of_1 and_exp_eq_0_iff_not_bit)

subsection \<open>Automation shared by the components\<close>

named_theorems wp_simps \<open>weakest preconditions of the combinators and of the kernel operations\<close>
named_theorems layout_defs \<open>the constants and address macros of the C headers\<close>

subsection \<open>Names of kernel objects\<close>

text \<open>
  Locks and sleep channels are identified in C by the address of an object. The model names these
  addresses by constructors: \<open>ProcLock i\<close> is \<^verbatim>\<open>&proc[i].lock\<close>, \<open>SleepLk l\<close> is
  the spinlock inside the sleep-lock \<open>l\<close>, \<open>ChanPipeRead p\<close> is \<^verbatim>\<open>&pi->nread\<close>
  of the pipe at address \<open>p\<close>, and so on. \<open>NoChan\<close> is the null channel.
\<close>

datatype sleepid = BufLock nat | InodeLock nat

datatype lockid =
    KmemLock | PidLock | WaitLock | ProcLock nat | BcacheLock | LogLock | ItableLock | FtableLock
  | TicksLock | ConsLock | UartTxLock | PrLock | VdiskLock | PipeLock u64 | SleepLk sleepid

datatype chan =
    NoChan | ChanProc nat | ChanTicks | ChanSleep sleepid | ChanLog | ChanPipeRead u64
  | ChanPipeWrite u64 | ChanDiskFree | ChanBuf nat | ChanCons | ChanUartTx

subsection \<open>Outcomes of kernel code\<close>

text \<open>
  A kernel function run by one kernel thread either returns (\<open>Done\<close>, with its value and the
  new state), calls \<^verbatim>\<open>panic\<close>, spins on a lock that is held, gives up the CPU inside
  \<^verbatim>\<open>sched\<close> (\<open>Asleep\<close>, with the channel it sleeps on and the state left behind), loops
  forever on the CPU (\<open>Hung\<close>), or does something C leaves undefined such as following a null
  pointer (\<open>Fault\<close>).
\<close>

datatype ('a, 's) outcome =
    Done 'a 's
  | Panicked string
  | Spinning lockid
  | Asleep chan 's
  | Hung string
  | Fault string

type_synonym ('s, 'a) kern = "'s \<Rightarrow> ('a, 's) outcome"

definition kret :: "'a \<Rightarrow> ('s, 'a) kern" where
  "kret x s = Done x s"

definition kbind :: "('s, 'a) kern \<Rightarrow> ('a \<Rightarrow> ('s, 'b) kern) \<Rightarrow> ('s, 'b) kern" where
  "kbind m f s =
     (case m s of
        Done x t \<Rightarrow> f x t
      | Panicked e \<Rightarrow> Panicked e
      | Spinning l \<Rightarrow> Spinning l
      | Asleep c t \<Rightarrow> Asleep c t
      | Hung e \<Rightarrow> Hung e
      | Fault e \<Rightarrow> Fault e)"

definition kget :: "('s \<Rightarrow> 'a) \<Rightarrow> ('s, 'a) kern" where
  "kget f s = Done (f s) s"

definition kmodify :: "('s \<Rightarrow> 's) \<Rightarrow> ('s, unit) kern" where
  "kmodify f s = Done () (f s)"

definition kpanic :: "string \<Rightarrow> ('s, 'a) kern" where
  "kpanic e s = Panicked e"

definition kfault :: "string \<Rightarrow> ('s, 'a) kern" where
  "kfault e s = Fault e"

definition kasleep :: "chan \<Rightarrow> ('s, 'a) kern" where
  "kasleep c s = Asleep c s"

definition khang :: "string \<Rightarrow> ('s, 'a) kern" where
  "khang e s = Hung e"

definition kspin :: "lockid \<Rightarrow> ('s, 'a) kern" where
  "kspin l s = Spinning l"

text \<open>\<open>kdo m n\<close> is the statement sequence \<^verbatim>\<open>m; n\<close>; \<open>kwhen b m\<close> is
  \<^verbatim>\<open>if(b) m;\<close>; \<open>kfor xs f\<close> runs \<open>f\<close> for each element in order.\<close>

definition kdo :: "('s, 'a) kern \<Rightarrow> ('s, 'b) kern \<Rightarrow> ('s, 'b) kern" where
  "kdo m n = kbind m (\<lambda>_. n)"

definition kwhen :: "bool \<Rightarrow> ('s, unit) kern \<Rightarrow> ('s, unit) kern" where
  "kwhen b m = (if b then m else kret ())"

fun kfor :: "'b list \<Rightarrow> ('b \<Rightarrow> ('s, unit) kern) \<Rightarrow> ('s, unit) kern" where
  "kfor [] f = kret ()"
| "kfor (x # xs) f = kdo (f x) (kfor xs f)"

lemmas kern_defs = kret_def kbind_def kget_def kmodify_def kpanic_def kfault_def kasleep_def
  khang_def kspin_def kdo_def kwhen_def

lemma kbind_Done_iff:
  "kbind m f s = Done r t \<longleftrightarrow> (\<exists>x u. m s = Done x u \<and> f x u = Done r t)"
  by (simp add: kbind_def split: outcome.splits)

lemma kbind_Done [simp]: "m s = Done x u \<Longrightarrow> kbind m f s = f x u"
  by (simp add: kbind_def)

lemma kdo_Done [simp]: "m s = Done x u \<Longrightarrow> kdo m n s = n u"
  by (simp add: kdo_def)

text \<open>Running code on a known state, one primitive at a time.\<close>

lemma kbind_stops [simp]:
  "m s = Panicked e \<Longrightarrow> kbind m f s = Panicked e" "m s = Spinning l \<Longrightarrow> kbind m f s = Spinning l"
  "m s = Asleep c t \<Longrightarrow> kbind m f s = Asleep c t" "m s = Hung e \<Longrightarrow> kbind m f s = Hung e"
  "m s = Fault e \<Longrightarrow> kbind m f s = Fault e"
  by (simp_all add: kbind_def)

lemma kdo_stops [simp]:
  "m s = Panicked e \<Longrightarrow> kdo m n s = Panicked e" "m s = Spinning l \<Longrightarrow> kdo m n s = Spinning l"
  "m s = Asleep c t \<Longrightarrow> kdo m n s = Asleep c t" "m s = Hung e \<Longrightarrow> kdo m n s = Hung e"
  "m s = Fault e \<Longrightarrow> kdo m n s = Fault e"
  by (simp_all add: kdo_def)

lemma kif_apply: "(if b then m else n) s = (if b then m s else n s)"
  by simp

lemma kbind_kret: "kbind (kret x) f = f x"
  by (rule ext) (simp add: kbind_def kret_def)

lemma kbind_kget: "kbind (kget g) f s = f (g s) s"
  by (simp add: kbind_def kget_def)

lemma kdo_kmodify: "kdo (kmodify g) m s = m (g s)"
  by (simp add: kdo_def kbind_def kmodify_def)

lemma kdo_kret: "kdo (kret x) m = m"
  by (simp add: kdo_def kbind_kret)

lemmas kern_run = kbind_kret kbind_kget kdo_kmodify kdo_kret kret_def kget_def kmodify_def kpanic_def kfault_def kasleep_def khang_def kspin_def
  kwhen_def kif_apply

text \<open>Congruence rules that let a recursive kernel function assume, in the termination proof of a
  loop, that what precedes the recursive call has returned.\<close>

lemma kbind_cong [fundef_cong]:
  "m s = m' s \<Longrightarrow> (\<And>x t. m' s = Done x t \<Longrightarrow> f x t = f' x t) \<Longrightarrow> kbind m f s = kbind m' f' s"
  by (simp add: kbind_def split: outcome.split)

lemma kdo_cong [fundef_cong]:
  "m s = m' s \<Longrightarrow> (\<And>x t. m' s = Done x t \<Longrightarrow> n t = n' t) \<Longrightarrow> kdo m n s = kdo m' n' s"
  unfolding kdo_def by (rule kbind_cong) auto

lemma kif_cong [fundef_cong]:
  "b = c \<Longrightarrow> (c \<Longrightarrow> m s = m' s) \<Longrightarrow> (\<not> c \<Longrightarrow> n s = n' s) \<Longrightarrow>
   (if b then m else n) s = (if c then m' else n') s"
  by simp

lemma kbind_assoc: "kbind (kbind m f) g = kbind m (\<lambda>x. kbind (f x) g)"
  by (rule ext) (simp add: kbind_def split: outcome.split)

lemma kfor_append: "kfor (xs @ ys) f = kdo (kfor xs f) (kfor ys f)"
proof (induction xs)
  case Nil
  show ?case by (rule ext) (simp add: kern_defs)
next
  case (Cons x xs)
  then show ?case by (simp add: kdo_def kbind_assoc)
qed

subsection \<open>Weakest preconditions\<close>

text \<open>
  \<open>wp m Q s\<close> says that \<open>m\<close>, started in \<open>s\<close>, returns, and that its value and final
  state satisfy \<open>Q\<close>. It is a total-correctness statement: a panic, an endless spin, a sleep or
  undefined behaviour makes it false.
\<close>

definition wp :: "('s, 'a) kern \<Rightarrow> ('a \<Rightarrow> 's \<Rightarrow> bool) \<Rightarrow> 's \<Rightarrow> bool" where
  "wp m Q s \<longleftrightarrow> (case m s of Done r t \<Rightarrow> Q r t | _ \<Rightarrow> False)"

lemma wp_iff: "wp m Q s \<longleftrightarrow> (\<exists>r t. m s = Done r t \<and> Q r t)"
  by (simp add: wp_def split: outcome.split)

lemma wp_Done: "m s = Done r t \<Longrightarrow> wp m Q s \<longleftrightarrow> Q r t"
  by (simp add: wp_def)

lemma wp_mono: "wp m P s \<Longrightarrow> (\<And>r t. P r t \<Longrightarrow> Q r t) \<Longrightarrow> wp m Q s"
  by (auto simp: wp_iff)

lemma wp_kret [wp_simps]: "wp (kret x) Q = Q x"
  by (rule ext) (simp add: wp_def kret_def)

lemma wp_kbind [wp_simps]: "wp (kbind m f) Q = wp m (\<lambda>x. wp (f x) Q)"
  by (rule ext) (simp add: wp_def kbind_def split: outcome.split)

lemma wp_kdo [wp_simps]: "wp (kdo m n) Q = wp m (\<lambda>_. wp n Q)"
  by (simp add: kdo_def wp_kbind)

lemma wp_kget [wp_simps]: "wp (kget f) Q = (\<lambda>s. Q (f s) s)"
  by (rule ext) (simp add: wp_def kget_def)

lemma wp_kmodify [wp_simps]: "wp (kmodify f) Q = (\<lambda>s. Q () (f s))"
  by (rule ext) (simp add: wp_def kmodify_def)

lemma wp_kpanic [wp_simps]: "wp (kpanic e) Q = (\<lambda>s. False)"
  by (rule ext) (simp add: wp_def kpanic_def)

lemma wp_kfault [wp_simps]: "wp (kfault e) Q = (\<lambda>s. False)"
  by (rule ext) (simp add: wp_def kfault_def)

lemma wp_khang [wp_simps]: "wp (khang e) Q = (\<lambda>s. False)"
  by (rule ext) (simp add: wp_def khang_def)

lemma wp_kwhen [wp_simps]: "wp (kwhen b m) Q = (if b then wp m Q else Q ())"
  by (simp add: kwhen_def wp_kret)

lemma wp_if [wp_simps]: "wp (if b then m else n) Q = (if b then wp m Q else wp n Q)"
  by simp

text \<open>A loop over a list keeps an invariant indexed by what is still to be done.\<close>

lemma wp_kfor:
  assumes "I xs s"
    and "\<And>us x ys t. xs = us @ x # ys \<Longrightarrow> I (x # ys) t \<Longrightarrow> wp (f x) (\<lambda>_. I ys) t"
  shows "wp (kfor xs f) (\<lambda>_. I []) s"
  using assms
proof (induction xs arbitrary: s)
  case Nil
  then show ?case by (simp add: wp_kret)
next
  case (Cons x xs)
  have "wp (f x) (\<lambda>_. I xs) s"
    using Cons.prems(1) by (intro Cons.prems(2) [of "[]"]) simp_all
  moreover have "wp (kfor xs f) (\<lambda>_. I []) t" if "I xs t" for t
    using that Cons.prems(2) [of "x # _"] by (intro Cons.IH) simp_all
  ultimately show ?case
    by (auto simp: wp_kdo intro: wp_mono)
qed

subsection \<open>Frames\<close>

text \<open>\<open>keeps f m\<close>: code \<open>m\<close> leaves the part \<open>f\<close> of the state alone whenever it returns.\<close>

definition keeps :: "('s \<Rightarrow> 'b) \<Rightarrow> ('s, 'a) kern \<Rightarrow> bool" where
  "keeps f m \<longleftrightarrow> (\<forall>s r t. m s = Done r t \<longrightarrow> f t = f s)"

named_theorems keeps_intros \<open>frames of the combinators and of the kernel operations\<close>

lemma keepsI: "(\<And>s r t. m s = Done r t \<Longrightarrow> f t = f s) \<Longrightarrow> keeps f m"
  by (simp add: keeps_def)

lemma keepsD: "keeps f m \<Longrightarrow> m s = Done r t \<Longrightarrow> f t = f s"
  by (simp add: keeps_def)

lemma keeps_basic [keeps_intros]:
  "keeps f (kret x)" "keeps f (kget g)" "keeps f (kpanic e)" "keeps f (kfault e)" "keeps f (khang e)"
  "keeps f (kasleep c)" "keeps f (kspin l)"
  by (simp_all add: keeps_def kern_run)

lemma keeps_kbind [keeps_intros]: "keeps f m \<Longrightarrow> (\<And>x. keeps f (g x)) \<Longrightarrow> keeps f (kbind m g)"
  unfolding keeps_def kbind_Done_iff by metis

lemma keeps_kdo [keeps_intros]: "keeps f m \<Longrightarrow> keeps f n \<Longrightarrow> keeps f (kdo m n)"
  by (simp add: kdo_def keeps_kbind)

lemma keeps_kwhen [keeps_intros]: "keeps f m \<Longrightarrow> keeps f (kwhen b m)"
  by (simp add: kwhen_def keeps_basic)

lemma keeps_if [keeps_intros]: "keeps f m \<Longrightarrow> keeps f n \<Longrightarrow> keeps f (if b then m else n)"
  by simp

lemma keeps_kfor [keeps_intros]: "(\<And>x. keeps f (g x)) \<Longrightarrow> keeps f (kfor xs g)"
  by (induction xs) (simp_all add: keeps_basic keeps_kdo)

subsection \<open>Interleaved executions\<close>

text \<open>
  The concurrent parts of the kernel are step relations over a shared state. \<open>reachable\<close> is the
  set of states some execution visits; the locale is the interface between such a component and the
  induction that lifts a one-step argument to every execution.
\<close>

inductive reachable :: "('s \<Rightarrow> bool) \<Rightarrow> ('s \<Rightarrow> 's \<Rightarrow> bool) \<Rightarrow> 's \<Rightarrow> bool"
  for init :: "'s \<Rightarrow> bool" and step :: "'s \<Rightarrow> 's \<Rightarrow> bool"
where
  start: "init s \<Longrightarrow> reachable init step s"
| next_step: "reachable init step s \<Longrightarrow> step s t \<Longrightarrow> reachable init step t"

locale invariant_system =
  fixes init :: "'s \<Rightarrow> bool" and step :: "'s \<Rightarrow> 's \<Rightarrow> bool" and invar :: "'s \<Rightarrow> bool"
  assumes invar_init: "init s \<Longrightarrow> invar s"
    and invar_step: "step s t \<Longrightarrow> invar s \<Longrightarrow> invar t"
begin

lemma reachable_invar: "reachable init step s \<Longrightarrow> invar s"
proof (induction rule: reachable.induct)
  case (start s)
  then show ?case by (rule invar_init)
next
  case (next_step s t)
  then show ?case by (blast intro: invar_step)
qed

lemma reachable_run: "step\<^sup>*\<^sup>* s t \<Longrightarrow> reachable init step s \<Longrightarrow> reachable init step t"
  by (induction rule: rtranclp_induct) (blast intro: reachable.next_step)+

end

end
