(* ===== verification/Memory.thy ===== *)
theory Memory
  imports Xv6_Prelude
begin

section \<open>Byte encodings and flat memory\<close>

text \<open>
  RISC-V is little-endian. \<open>le_bytes n w\<close> lists the \<open>n\<close> low bytes of a word, least
  significant first, and \<open>le_word\<close> reads such a list back. Physical memory is a total map from
  64-bit addresses to bytes; a multi-byte access loads or stores the bytes of the encoding.
\<close>

subsection \<open>Little-endian words\<close>

fun le_word :: "u8 list \<Rightarrow> 'a::len word" where
  "le_word [] = 0"
| "le_word (b # bs) = ucast b OR push_bit 8 (le_word bs)"

fun le_bytes :: "nat \<Rightarrow> 'a::len word \<Rightarrow> u8 list" where
  "le_bytes 0 w = []"
| "le_bytes (Suc n) w = ucast w # le_bytes n (drop_bit 8 w)"

lemma length_le_bytes [simp]: "length (le_bytes n w) = n"
  by (induction n arbitrary: w) auto

lemma le_word_le_bytes: "le_word (le_bytes n w) = take_bit (8 * n) (w :: 'a::len word)"
proof (induction n arbitrary: w)
  case 0
  show ?case by simp
next
  case (Suc n)
  show ?case
    by (rule bit_word_eqI) (auto simp: Suc.IH bit_simps)
qed

lemma le_word_le_bytes_full [simp]:
  "LENGTH('a) \<le> 8 * n \<Longrightarrow> le_word (le_bytes n w) = (w :: 'a::len word)"
  by (simp add: le_word_le_bytes take_bit_word_eq_self)

lemma le_bytes_le_word:
  "8 * length bs \<le> LENGTH('a) \<Longrightarrow> le_bytes (length bs) (le_word bs :: 'a::len word) = bs"
proof (induction bs)
  case Nil
  show ?case by simp
next
  case (Cons b bs)
  have small: "bit (le_word bs :: 'a word) k \<Longrightarrow> k < 8 * length bs" for k
  proof (induction bs arbitrary: k)
    case (Cons c cs)
    then show ?case
      using bit_imp_le_length by (fastforce simp: bit_simps)
  qed simp
  have "drop_bit 8 (ucast b OR push_bit 8 (le_word bs) :: 'a word) = le_word bs"
    by (rule bit_word_eqI)
      (use Cons.prems small bit_imp_le_length in \<open>fastforce simp: bit_simps\<close>)
  moreover have "ucast (ucast b OR push_bit 8 (le_word bs) :: 'a word) = b"
    by (rule bit_word_eqI)
      (use Cons.prems bit_imp_le_length in \<open>auto simp: bit_simps\<close>)
  ultimately show ?case
    using Cons by simp
qed

subsection \<open>Loading and storing byte ranges\<close>

type_synonym memory = "u64 \<Rightarrow> u8"

definition load_bytes :: "memory \<Rightarrow> u64 \<Rightarrow> nat \<Rightarrow> u8 list" where
  "load_bytes m a n = map (\<lambda>i. m (a + of_nat i)) [0..<n]"

definition store_bytes :: "memory \<Rightarrow> u64 \<Rightarrow> u8 list \<Rightarrow> memory" where
  "store_bytes m a bs = (\<lambda>x. if unat (x - a) < length bs then bs ! unat (x - a) else m x)"

text \<open>\<open>separate a n b k\<close>: the \<open>n\<close> bytes at \<open>a\<close> and the \<open>k\<close> bytes at \<open>b\<close> do not
  overlap, also when a range wraps around the address space.\<close>

definition separate :: "u64 \<Rightarrow> nat \<Rightarrow> u64 \<Rightarrow> nat \<Rightarrow> bool" where
  "separate a n b k \<longleftrightarrow> (\<forall>x. \<not> (unat (x - a) < n \<and> unat (x - b) < k))"

lemma length_load_bytes [simp]: "length (load_bytes m a n) = n"
  by (simp add: load_bytes_def)

lemma nth_load_bytes [simp]: "i < n \<Longrightarrow> load_bytes m a n ! i = m (a + of_nat i)"
  by (simp add: load_bytes_def)

lemma separate_sym: "separate a n b k \<Longrightarrow> separate b k a n"
  by (auto simp: separate_def)

lemma separate_mono: "separate a n b k \<Longrightarrow> n' \<le> n \<Longrightarrow> k' \<le> k \<Longrightarrow> separate a n' b k'"
  unfolding separate_def by (meson less_le_trans)

lemma unat_of_nat_u64: "i < 2 ^ 64 \<Longrightarrow> unat (of_nat i :: u64) = i"
  by (simp add: unat_of_nat take_bit_nat_eq_self)

lemma load_store_same:
  "n = length bs \<Longrightarrow> length bs \<le> 2 ^ 64 \<Longrightarrow> load_bytes (store_bytes m a bs) a n = bs"
  by (rule nth_equalityI) (auto simp: store_bytes_def unat_of_nat_u64)

lemma load_store_other:
  assumes "separate a (length bs) b n" and "n \<le> 2 ^ 64"
  shows "load_bytes (store_bytes m a bs) b n = load_bytes m b n"
proof (rule nth_equalityI)
  fix i
  assume "i < length (load_bytes (store_bytes m a bs) b n)"
  then have "i < n" by simp
  then have "unat (b + of_nat i - b) < n"
    using assms(2) by (simp add: unat_of_nat_u64)
  then have "\<not> unat (b + of_nat i - a) < length bs"
    using assms(1) by (auto simp: separate_def)
  with \<open>i < n\<close> show "load_bytes (store_bytes m a bs) b n ! i = load_bytes m b n ! i"
    by (simp add: store_bytes_def)
qed simp

lemma store_bytes_outside:
  "\<not> unat (x - a) < length bs \<Longrightarrow> store_bytes m a bs x = m x"
  by (simp add: store_bytes_def)

lemma store_store_same:
  "length bs = length cs \<Longrightarrow> store_bytes (store_bytes m a bs) a cs = store_bytes m a cs"
  by (auto simp: store_bytes_def)

lemma load_bytes_append:
  "load_bytes m a (n + k) = load_bytes m a n @ load_bytes m (a + of_nat n) k"
  by (rule nth_equalityI) (auto simp: nth_append)

lemma store_bytes_append:
  assumes "length bs + length cs \<le> 2 ^ 64"
  shows "store_bytes m a (bs @ cs) = store_bytes (store_bytes m a bs) (a + of_nat (length bs)) cs"
proof (rule ext)
  fix x :: u64
  define d where "d = unat (x - a)"
  have x: "x = a + of_nat d" by (simp add: d_def)
  have d: "d < 2 ^ 64" using unsigned_less [of "x - a", where 'a = nat] by (simp add: d_def)
  show "store_bytes m a (bs @ cs) x =
      store_bytes (store_bytes m a bs) (a + of_nat (length bs)) cs x"
  proof (cases "d < length bs")
    case True
    define e where "e = 2 ^ 64 - (length bs - d)"
    have "(of_nat d :: u64) - of_nat (length bs) = of_nat e"
    proof -
      have "(of_nat (e + length bs) :: u64) = of_nat (2 ^ 64 + d)"
        using True assms by (simp add: e_def)
      also have "\<dots> = of_nat d"
        by simp
      finally show ?thesis by (simp add: algebra_simps)
    qed
    moreover have "e < 2 ^ 64" "length cs \<le> e"
      using True assms by (auto simp: e_def)
    ultimately have "\<not> unat (x - (a + of_nat (length bs))) < length cs"
      by (simp add: x unat_of_nat_u64)
    with True show ?thesis
      by (simp add: store_bytes_def d_def [symmetric] nth_append)
  next
    case False
    then have "x - (a + of_nat (length bs)) = of_nat (d - length bs)"
      by (simp add: x of_nat_diff)
    then have "unat (x - (a + of_nat (length bs))) = d - length bs"
      using d by (simp add: unat_of_nat_u64)
    with False show ?thesis
      by (auto simp: store_bytes_def d_def [symmetric] nth_append)
  qed
qed

subsection \<open>Words in memory\<close>

definition load64 :: "memory \<Rightarrow> u64 \<Rightarrow> u64" where
  "load64 m a = le_word (load_bytes m a 8)"

definition store64 :: "memory \<Rightarrow> u64 \<Rightarrow> u64 \<Rightarrow> memory" where
  "store64 m a v = store_bytes m a (le_bytes 8 v)"

lemma load64_store64_same [simp]: "load64 (store64 m a v) a = v"
  by (simp add: load64_def store64_def load_store_same)

lemma load64_store64_other:
  "separate a 8 b 8 \<Longrightarrow> load64 (store64 m a v) b = load64 m b"
  by (simp add: load64_def store64_def load_store_other)

lemma load64_store_bytes_other:
  "separate a (length bs) b 8 \<Longrightarrow> load64 (store_bytes m a bs) b = load64 m b"
  by (simp add: load64_def load_store_other)

lemma load_bytes_store64_other:
  "separate a 8 b n \<Longrightarrow> n \<le> 2 ^ 64 \<Longrightarrow> load_bytes (store64 m a v) b n = load_bytes m b n"
  by (simp add: store64_def load_store_other)

text \<open>Reading a word from a run of equal zero bytes.\<close>

lemma le_word_replicate_0 [simp]: "le_word (replicate n 0) = 0"
  by (induction n) simp_all

end
