(* ===== verification/Layout.thy ===== *)
theory Layout
  imports Memory
begin

section \<open>Constants and address macros of the headers\<close>

text \<open>
  The constants of \<^verbatim>\<open>kernel/param.h\<close> (as configured by \<^verbatim>\<open>conf/lab.mk\<close>,
  which defines \<^verbatim>\<open>LAB_UTIL\<close>), the physical and virtual memory layout of
  \<^verbatim>\<open>kernel/memlayout.h\<close> and the page-table macros at the end of
  \<^verbatim>\<open>kernel/riscv.h\<close>, with the facts about them that the components use.
\<close>

subsection \<open>kernel/param.h\<close>

definition NPROC :: nat where [layout_defs]: "NPROC = 64"
definition NCPU :: nat where [layout_defs]: "NCPU = 8"
definition NOFILE :: nat where [layout_defs]: "NOFILE = 16"
definition NFILE :: nat where [layout_defs]: "NFILE = 100"
definition NINODE :: nat where [layout_defs]: "NINODE = 50"
definition NDEV :: nat where [layout_defs]: "NDEV = 10"
definition ROOTDEV :: u32 where [layout_defs]: "ROOTDEV = 1"
definition MAXARG :: nat where [layout_defs]: "MAXARG = 32"
definition MAXOPBLOCKS :: nat where [layout_defs]: "MAXOPBLOCKS = 10"
definition LOGSIZE :: nat where [layout_defs]: "LOGSIZE = MAXOPBLOCKS * 3"
definition NBUF :: nat where [layout_defs]: "NBUF = MAXOPBLOCKS * 3"
definition FSSIZE :: nat where [layout_defs]: "FSSIZE = 2000"
definition MAXPATH :: nat where [layout_defs]: "MAXPATH = 128"
definition USERSTACK :: u64 where [layout_defs]: "USERSTACK = 2"

subsection \<open>kernel/riscv.h: pages and page-table entries\<close>

definition PGSIZE :: u64 where [layout_defs]: "PGSIZE = 4096"
definition PGSHIFT :: nat where [layout_defs]: "PGSHIFT = 12"

definition PGROUNDUP :: "u64 \<Rightarrow> u64" where
  "PGROUNDUP sz = (sz + PGSIZE - 1) AND NOT (PGSIZE - 1)"

definition PGROUNDDOWN :: "u64 \<Rightarrow> u64" where
  "PGROUNDDOWN a = a AND NOT (PGSIZE - 1)"

definition PTE_V :: u64 where [layout_defs]: "PTE_V = push_bit 0 1"
definition PTE_R :: u64 where [layout_defs]: "PTE_R = push_bit 1 1"
definition PTE_W :: u64 where [layout_defs]: "PTE_W = push_bit 2 1"
definition PTE_X :: u64 where [layout_defs]: "PTE_X = push_bit 3 1"
definition PTE_U :: u64 where [layout_defs]: "PTE_U = push_bit 4 1"

definition PA2PTE :: "u64 \<Rightarrow> u64" where
  "PA2PTE pa = push_bit 10 (drop_bit 12 pa)"

definition PTE2PA :: "u64 \<Rightarrow> u64" where
  "PTE2PA pte = push_bit 12 (drop_bit 10 pte)"

definition PTE_FLAGS :: "u64 \<Rightarrow> u64" where
  "PTE_FLAGS pte = pte AND 0x3FF"

definition PXMASK :: u64 where [layout_defs]: "PXMASK = 0x1FF"

definition PXSHIFT :: "nat \<Rightarrow> nat" where
  "PXSHIFT level = PGSHIFT + 9 * level"

definition PX :: "nat \<Rightarrow> u64 \<Rightarrow> u64" where
  "PX level va = drop_bit (PXSHIFT level) va AND PXMASK"

definition MAXVA :: u64 where [layout_defs]: "MAXVA = push_bit (9 + 9 + 9 + 12 - 1) 1"

definition SATP_SV39 :: u64 where [layout_defs]: "SATP_SV39 = push_bit 60 8"

definition MAKE_SATP :: "u64 \<Rightarrow> u64" where
  "MAKE_SATP pagetable = SATP_SV39 OR drop_bit 12 pagetable"

subsection \<open>kernel/memlayout.h\<close>

definition UART0 :: u64 where [layout_defs]: "UART0 = 0x10000000"
definition UART0_IRQ :: nat where [layout_defs]: "UART0_IRQ = 10"
definition VIRTIO0 :: u64 where [layout_defs]: "VIRTIO0 = 0x10001000"
definition VIRTIO0_IRQ :: nat where [layout_defs]: "VIRTIO0_IRQ = 1"
definition PLIC :: u64 where [layout_defs]: "PLIC = 0x0c000000"
definition KERNBASE :: u64 where [layout_defs]: "KERNBASE = 0x80000000"
definition PHYSTOP :: u64 where [layout_defs]: "PHYSTOP = KERNBASE + 128 * 1024 * 1024"
definition TRAMPOLINE :: u64 where [layout_defs]: "TRAMPOLINE = MAXVA - PGSIZE"
definition TRAPFRAME :: u64 where [layout_defs]: "TRAPFRAME = TRAMPOLINE - PGSIZE"

definition KSTACK :: "nat \<Rightarrow> u64" where
  "KSTACK p = TRAMPOLINE - (of_nat p + 1) * 2 * PGSIZE"

subsection \<open>Page arithmetic\<close>

definition page_aligned :: "u64 \<Rightarrow> bool" where
  "page_aligned a \<longleftrightarrow> a mod PGSIZE = 0"

lemma PGSIZE_mask: "PGSIZE - 1 = mask 12"
  by (simp add: PGSIZE_def mask_eq_exp_minus_1)

lemma mod_PGSIZE: "a mod PGSIZE = take_bit 12 a"
  by (simp add: PGSIZE_def take_bit_eq_mod)

lemma page_aligned_bit: "page_aligned a \<longleftrightarrow> (\<forall>n < 12. \<not> bit a n)"
  by (auto simp: page_aligned_def mod_PGSIZE bit_eq_iff bit_simps)

lemma bit_PGROUNDDOWN [simp]: "bit (PGROUNDDOWN a) n \<longleftrightarrow> 12 \<le> n \<and> bit a n"
  using bit_imp_le_length [of a n]
  by (auto simp: PGROUNDDOWN_def PGSIZE_mask bit_simps)

lemma page_aligned_PGROUNDDOWN [simp]: "page_aligned (PGROUNDDOWN a)"
  by (simp add: page_aligned_bit)

lemma PGROUNDDOWN_aligned [simp]: "page_aligned a \<Longrightarrow> PGROUNDDOWN a = a"
  by (rule bit_word_eqI) (metis bit_PGROUNDDOWN not_le page_aligned_bit)

lemma unat_PGROUNDDOWN: "unat (PGROUNDDOWN a) = unat a div 4096 * 4096"
proof -
  have "PGROUNDDOWN a = push_bit 12 (drop_bit 12 a)"
    by (rule bit_word_eqI) (auto simp: bit_simps)
  also have "\<dots> = a div 4096 * 4096"
    by (simp add: push_bit_eq_mult drop_bit_eq_div)
  finally have "unat (PGROUNDDOWN a) = (unat a div 4096 * 4096) mod 2 ^ 64"
    by (simp add: unat_word_ariths unat_div_distrib mod_mult_left_eq)
  moreover have "unat a div 4096 * 4096 < 2 ^ 64"
    using unsigned_less [of a, where 'a = nat] by simp
  ultimately show ?thesis by (simp only: mod_less)
qed

lemma page_aligned_unat: "page_aligned a \<longleftrightarrow> unat a mod 4096 = 0"
  by (simp add: page_aligned_def PGSIZE_def unat_eq_0 [symmetric] unat_mod_distrib)

text \<open>The bytes of the page at an aligned address are those that round down to it.\<close>

lemma in_page:
  assumes "page_aligned a"
  shows "unat (x - a) < 4096 \<longleftrightarrow> PGROUNDDOWN x = a"
proof -
  obtain p where p: "unat a = 4096 * p"
    using assms by (auto simp: page_aligned_unat dvd_eq_mod_eq_0 [symmetric])
  define q r where "q = unat x div 4096" and "r = unat x mod 4096"
  have x: "unat x = 4096 * q + r" and r: "r < 4096"
    by (simp_all add: q_def r_def)
  have bounds: "unat x < 2 ^ 64" "unat a < 2 ^ 64"
    using unsigned_less [of x, where 'a = nat] unsigned_less [of a, where 'a = nat] by simp_all
  have "unat (x - a) < 4096 \<longleftrightarrow> q = p"
  proof (cases "unat a \<le> unat x")
    case True
    then have "unat (x - a) = unat x - unat a"
      by (simp add: unat_sub_if')
    then show ?thesis using True x p r by auto
  next
    case False
    then have "unat (x - a) = unat x + 2 ^ 64 - unat a"
      by (simp add: unat_sub_if')
    then show ?thesis using False x p r bounds by auto
  qed
  moreover have "PGROUNDDOWN x = a \<longleftrightarrow> q = p"
    by (simp add: word_unat_eq_iff unat_PGROUNDDOWN p q_def)
  ultimately show ?thesis by simp
qed

lemma separate_pages:
  assumes "page_aligned a" "page_aligned b" "a \<noteq> b" "n \<le> 4096" "k \<le> 4096"
  shows "separate a n b k"
  unfolding separate_def
proof (intro allI notI)
  fix x
  assume "unat (x - a) < n \<and> unat (x - b) < k"
  then have "PGROUNDDOWN x = a" "PGROUNDDOWN x = b"
    using assms in_page [of a x] in_page [of b x] by auto
  with assms(3) show False by simp
qed

lemma PGROUNDUP_eq: "PGROUNDUP a = PGROUNDDOWN (a + 4095)"
proof -
  have "a + PGSIZE - 1 = a + 4095" by (simp add: PGSIZE_def)
  then show ?thesis by (simp only: PGROUNDUP_def PGROUNDDOWN_def)
qed

lemma page_aligned_PGROUNDUP [simp]: "page_aligned (PGROUNDUP a)"
  by (simp add: PGROUNDUP_eq)

lemma unat_PGROUNDUP:
  assumes "unat a + 4095 < 2 ^ 64"
  shows "unat (PGROUNDUP a) = (unat a + 4095) div 4096 * 4096"
proof -
  have "unat (a + 4095) = unat a + 4095"
    using assms by (simp add: unat_add_lem [THEN iffD1])
  then show ?thesis by (simp add: PGROUNDUP_eq unat_PGROUNDDOWN)
qed

text \<open>Rounding up gives the least aligned address that is not below.\<close>

lemma PGROUNDUP_le_iff:
  assumes "unat a + 4095 < 2 ^ 64" and "page_aligned q"
  shows "PGROUNDUP a \<le> q \<longleftrightarrow> a \<le> q"
proof -
  obtain k where k: "unat q = 4096 * k"
    using assms(2) by (auto simp: page_aligned_unat dvd_eq_mod_eq_0 [symmetric])
  have "(unat a + 4095) div 4096 \<le> k \<longleftrightarrow> (unat a + 4095) div 4096 < Suc k"
    by (simp only: less_Suc_eq_le)
  also have "\<dots> \<longleftrightarrow> unat a \<le> 4096 * k"
    by (subst div_less_iff_less_mult) (simp_all, linarith)
  finally have "(unat a + 4095) div 4096 * 4096 \<le> 4096 * k \<longleftrightarrow> unat a \<le> 4096 * k"
    by simp
  then show ?thesis
    by (simp add: word_le_nat_alt unat_PGROUNDUP [OF assms(1)] k)
qed

lemma PGROUNDUP_aligned: "page_aligned a \<Longrightarrow> PGROUNDUP a = a"
proof -
  assume al: "page_aligned a"
  then have "unat (a + 4095 - a) < 4096 \<longleftrightarrow> PGROUNDDOWN (a + 4095) = a" by (rule in_page)
  then show ?thesis by (simp add: PGROUNDUP_eq)
qed

lemma aligned_next:
  assumes "page_aligned a" "page_aligned b" "a < b"
  shows "a + PGSIZE \<le> b" and "a < a + PGSIZE" and "page_aligned (a + PGSIZE)"
    and "unat (a + PGSIZE) = unat a + 4096"
proof -
  from assms(1,2) have "4096 dvd unat a" "4096 dvd unat b" by (simp_all add: page_aligned_unat dvd_eq_mod_eq_0)
  then obtain j k where jk: "unat a = 4096 * j" "unat b = 4096 * k" by (elim dvdE)
  then have le: "unat a + 4096 \<le> unat b"
    using assms(3) by (simp add: word_less_nat_alt)
  moreover have "unat b < 2 ^ 64" using unsigned_less [of b, where 'a = nat] by simp
  ultimately have "unat a + unat (4096 :: u64) < 2 ^ LENGTH(64)" by simp
  then show nxt: "unat (a + PGSIZE) = unat a + 4096"
    by (simp add: PGSIZE_def unat_add_lem [THEN iffD1])
  from nxt le show "a + PGSIZE \<le> b" by (simp add: word_le_nat_alt)
  from nxt show "a < a + PGSIZE" by (simp add: word_less_nat_alt)
  from nxt jk show "page_aligned (a + PGSIZE)" by (simp add: page_aligned_unat)
qed

lemma page_aligned_PHYSTOP [simp]: "page_aligned PHYSTOP"
  by (simp add: page_aligned_unat layout_defs)

text \<open>The offset of an address in its page.\<close>

lemma page_offset: "unat (a - PGROUNDDOWN a) = unat a mod 4096"
proof -
  have "unat (PGROUNDDOWN a) \<le> unat a"
    by (simp add: unat_PGROUNDDOWN)
  then have "unat (a - PGROUNDDOWN a) = unat a - unat a div 4096 * 4096"
    by (simp add: unat_sub word_le_nat_alt unat_PGROUNDDOWN)
  then show ?thesis by (simp add: minus_div_mult_eq_mod)
qed

lemma unat_page_rest: "unat (PGSIZE - (a - PGROUNDDOWN a)) = 4096 - unat a mod 4096"
proof -
  have "a - PGROUNDDOWN a \<le> PGSIZE"
    by (simp add: word_le_nat_alt page_offset PGSIZE_def less_imp_le)
  then show ?thesis by (simp add: unat_sub page_offset) (simp add: PGSIZE_def)
qed

end
