(* ===== verification/Machine.thy ===== *)
theory Machine
  imports Layout
begin

section \<open>Harts, per-CPU state and locks: the base of the kernel state\<close>

text \<open>
  \<open>machine\<close> is the part of the state that belongs to the processors. It holds the hart that runs the modelled thread (register \<^verbatim>\<open>tp\<close>), the \<^verbatim>\<open>struct cpu\<close>
  array of \<^verbatim>\<open>kernel/proc.h\<close>, the control registers of every hart
  (\<^verbatim>\<open>kernel/riscv.h\<close>), the spinlocks by name, and the addresses that the linker gives to
  symbols of the kernel image, which are parameters of the model.
\<close>

record kcontext =
  ctx_ra :: u64
  ctx_sp :: u64
  ctx_s :: "nat \<Rightarrow> u64" \<comment> \<open>the callee-saved registers s0 to s11\<close>

record cpu =
  cpu_proc :: "nat option" \<comment> \<open>index into \<^verbatim>\<open>proc[]\<close>, or null\<close>
  cpu_context :: kcontext
  noff :: int
  intena :: bool

record csrs =
  c_mhartid :: u64
  c_mstatus :: u64
  c_mepc :: u64
  c_sstatus :: u64
  c_sie :: u64
  c_mie :: u64
  c_sepc :: u64
  c_medeleg :: u64
  c_mideleg :: u64
  c_stvec :: u64
  c_stimecmp :: u64
  c_menvcfg :: u64
  c_pmpcfg0 :: u64
  c_pmpaddr0 :: u64
  c_satp :: u64
  c_scause :: u64
  c_stval :: u64
  c_mcounteren :: u64
  c_time :: u64

record spinlock =
  locked :: u32
  lk_name :: string
  lk_cpu :: "nat option" \<comment> \<open>the cpu holding the lock, or null\<close>

record symbols =
  sym_end :: u64
  sym_etext :: u64
  sym_trampoline :: u64
  sym_uservec :: u64
  sym_userret :: u64
  sym_kernelvec :: u64
  sym_usertrap :: u64
  sym_forkret :: u64
  sym_main :: u64

record machine =
  tp :: nat
  cpus :: "nat \<Rightarrow> cpu"
  csr :: "nat \<Rightarrow> csrs"
  locks :: "lockid \<Rightarrow> spinlock"
  syms :: symbols

text \<open>A machine whose words are all zero, as the loader leaves the data segment; the concrete
  inputs of the development start from it.\<close>

definition zero_context :: kcontext where
  "zero_context = \<lparr>ctx_ra = 0, ctx_sp = 0, ctx_s = (\<lambda>_. 0)\<rparr>"

definition zero_csrs :: csrs where
  "zero_csrs = \<lparr>c_mhartid = 0, c_mstatus = 0, c_mepc = 0, c_sstatus = 0, c_sie = 0, c_mie = 0,
     c_sepc = 0, c_medeleg = 0, c_mideleg = 0, c_stvec = 0, c_stimecmp = 0, c_menvcfg = 0,
     c_pmpcfg0 = 0, c_pmpaddr0 = 0, c_satp = 0, c_scause = 0, c_stval = 0, c_mcounteren = 0,
     c_time = 0\<rparr>"

definition zero_symbols :: symbols where
  "zero_symbols = \<lparr>sym_end = 0, sym_etext = 0, sym_trampoline = 0, sym_uservec = 0, sym_userret = 0,
     sym_kernelvec = 0, sym_usertrap = 0, sym_forkret = 0, sym_main = 0\<rparr>"

definition zero_machine :: machine where
  "zero_machine = \<lparr>tp = 0,
     cpus = (\<lambda>_. \<lparr>cpu_proc = None, cpu_context = zero_context, noff = 0, intena = False\<rparr>),
     csr = (\<lambda>_. zero_csrs), locks = (\<lambda>_. \<lparr>locked = 0, lk_name = '''', lk_cpu = None\<rparr>),
     syms = zero_symbols\<rparr>"

subsection \<open>Control registers\<close>

definition mycsr :: "machine \<Rightarrow> csrs" where
  "mycsr s = csr s (tp s)"

definition upd_csr :: "(csrs \<Rightarrow> csrs) \<Rightarrow> machine \<Rightarrow> machine" where
  "upd_csr f s = s\<lparr>csr := (csr s)(tp s := f (csr s (tp s)))\<rparr>"

definition r_sstatus :: "machine \<Rightarrow> u64" where
  "r_sstatus s = c_sstatus (mycsr s)"

definition w_sstatus :: "u64 \<Rightarrow> machine \<Rightarrow> machine" where
  "w_sstatus x = upd_csr (c_sstatus_update (\<lambda>_. x))"

definition SSTATUS_SPP :: u64 where [layout_defs]: "SSTATUS_SPP = push_bit 8 1"
definition SSTATUS_SPIE :: u64 where [layout_defs]: "SSTATUS_SPIE = push_bit 5 1"
definition SSTATUS_SIE :: u64 where [layout_defs]: "SSTATUS_SIE = push_bit 1 1"

definition intr_on :: "machine \<Rightarrow> machine" where
  "intr_on s = w_sstatus (r_sstatus s OR SSTATUS_SIE) s"

definition intr_off :: "machine \<Rightarrow> machine" where
  "intr_off s = w_sstatus (r_sstatus s AND NOT SSTATUS_SIE) s"

definition intr_get :: "machine \<Rightarrow> bool" where
  "intr_get s = (r_sstatus s AND SSTATUS_SIE \<noteq> 0)"

subsection \<open>The current CPU (kernel/proc.c)\<close>

definition cpuid :: "machine \<Rightarrow> nat" where
  "cpuid s = tp s"

definition mycpu :: "machine \<Rightarrow> cpu" where
  "mycpu s = cpus s (cpuid s)"

definition upd_mycpu :: "(cpu \<Rightarrow> cpu) \<Rightarrow> machine \<Rightarrow> machine" where
  "upd_mycpu f s = s\<lparr>cpus := (cpus s)(cpuid s := f (cpus s (cpuid s)))\<rparr>"

subsection \<open>The interrupt-enable bit\<close>

lemma intr_get_bit: "intr_get s \<longleftrightarrow> bit (r_sstatus s) 1"
  unfolding intr_get_def SSTATUS_SIE_def and_push_bit_1 by simp

lemma r_w_sstatus [simp]: "r_sstatus (w_sstatus x s) = x"
  by (simp add: r_sstatus_def w_sstatus_def mycsr_def upd_csr_def)

lemma w_w_sstatus [simp]: "w_sstatus x (w_sstatus y s) = w_sstatus x s"
  by (simp add: w_sstatus_def upd_csr_def)

lemma w_r_sstatus [simp]: "w_sstatus (r_sstatus s) s = s"
  by (simp add: r_sstatus_def w_sstatus_def mycsr_def upd_csr_def)

lemma intr_get_intr_off [simp]: "\<not> intr_get (intr_off s)"
  by (simp add: intr_get_bit intr_off_def SSTATUS_SIE_def bit_simps)

lemma intr_get_intr_on [simp]: "intr_get (intr_on s)"
  by (simp add: intr_get_bit intr_on_def SSTATUS_SIE_def bit_simps)

lemma intr_on_intr_off: "intr_get s \<Longrightarrow> intr_on (intr_off s) = s"
proof -
  assume on: "intr_get s"
  have "(r_sstatus s AND NOT SSTATUS_SIE) OR SSTATUS_SIE = r_sstatus s"
    by (rule bit_word_eqI) (use on in \<open>auto simp: intr_get_bit SSTATUS_SIE_def bit_simps\<close>)
  then show ?thesis by (simp add: intr_on_def intr_off_def)
qed

lemma intr_off_idle: "\<not> intr_get s \<Longrightarrow> intr_off s = s"
proof -
  assume off: "\<not> intr_get s"
  have "r_sstatus s AND NOT SSTATUS_SIE = r_sstatus s"
    by (rule bit_word_eqI) (use off in \<open>auto simp: intr_get_bit SSTATUS_SIE_def bit_simps\<close>)
  then show ?thesis by (simp add: intr_off_def)
qed

end
