(* ===== verification/Spinlock.thy ===== *)
theory Spinlock
  imports Machine
begin

section \<open>kernel/spinlock.c\<close>

text \<open>
  Interrupt nesting (\<^verbatim>\<open>push_off\<close>, \<^verbatim>\<open>pop_off\<close>) and spinlocks. The functions
  are modelled as one thread runs them: taking a lock that is held is \<open>Spinning\<close>. Theory
  \<open>Spinlock_Protocol\<close> breaks \<^verbatim>\<open>acquire\<close> and \<^verbatim>\<open>release\<close> into their memory accesses and
  interleaves any number of harts, which is where mutual exclusion is proved.
\<close>

subsection \<open>The functions\<close>

definition upd_lock :: "lockid \<Rightarrow> (spinlock \<Rightarrow> spinlock) \<Rightarrow> machine \<Rightarrow> machine" where
  "upd_lock l f s = s\<lparr>locks := (locks s)(l := f (locks s l))\<rparr>"

definition initlock :: "lockid \<Rightarrow> string \<Rightarrow> (machine, unit) kern" where
  "initlock l nm = kmodify (upd_lock l (\<lambda>k. k\<lparr>lk_name := nm, locked := 0, lk_cpu := None\<rparr>))"

definition holding :: "lockid \<Rightarrow> machine \<Rightarrow> bool" where
  "holding l s = (locked (locks s l) \<noteq> 0 \<and> lk_cpu (locks s l) = Some (cpuid s))"

definition push_off :: "(machine, unit) kern" where
  "push_off =
     kbind (kget intr_get) (\<lambda>old.
     kdo (kmodify intr_off)
     (kdo (kmodify (upd_mycpu (\<lambda>c. if noff c = 0 then c\<lparr>intena := old\<rparr> else c)))
     (kmodify (upd_mycpu (\<lambda>c. c\<lparr>noff := noff c + 1\<rparr>)))))"

definition pop_off :: "(machine, unit) kern" where
  "pop_off =
     kbind (kget intr_get) (\<lambda>on.
     if on then kpanic ''pop_off - interruptible''
     else kbind (kget mycpu) (\<lambda>c.
     if noff c < 1 then kpanic ''pop_off''
     else kdo (kmodify (upd_mycpu (\<lambda>c. c\<lparr>noff := noff c - 1\<rparr>)))
     (kbind (kget mycpu) (\<lambda>c.
     kwhen (noff c = 0 \<and> intena c) (kmodify intr_on)))))"

definition acquire :: "lockid \<Rightarrow> (machine, unit) kern" where
  "acquire l =
     kdo push_off
     (kbind (kget (holding l)) (\<lambda>h.
     if h then kpanic ''acquire''
     else kbind (kget (\<lambda>s. locked (locks s l))) (\<lambda>old. \<comment> \<open>the atomic swap returns the old value\<close>
     if old \<noteq> 0 then kspin l
     else kdo (kmodify (upd_lock l (\<lambda>k. k\<lparr>locked := 1\<rparr>)))
     (kmodify (\<lambda>s. upd_lock l (\<lambda>k. k\<lparr>lk_cpu := Some (cpuid s)\<rparr>) s)))))"

definition release :: "lockid \<Rightarrow> (machine, unit) kern" where
  "release l =
     kbind (kget (holding l)) (\<lambda>h.
     if \<not> h then kpanic ''release''
     else kdo (kmodify (upd_lock l (\<lambda>k. k\<lparr>lk_cpu := None\<rparr>)))
     (kdo (kmodify (upd_lock l (\<lambda>k. k\<lparr>locked := 0\<rparr>)))
     pop_off))"

subsection \<open>What the functions do when they return\<close>

text \<open>A CPU is consistent when interrupts are off whenever \<^verbatim>\<open>noff\<close> is positive.\<close>

definition cpu_ok :: "machine \<Rightarrow> bool" where
  "cpu_ok s \<longleftrightarrow> 0 \<le> noff (mycpu s) \<and> (0 < noff (mycpu s) \<longrightarrow> \<not> intr_get s)"

definition lock_free :: "lockid \<Rightarrow> machine \<Rightarrow> bool" where
  "lock_free l s \<longleftrightarrow> locked (locks s l) = 0 \<and> lk_cpu (locks s l) = None"

text \<open>The state after \<^verbatim>\<open>push_off\<close>, after taking a free lock, and after giving back a held
  one.\<close>

definition pushed :: "machine \<Rightarrow> machine" where
  "pushed s = upd_mycpu (\<lambda>c. c\<lparr>intena := (if noff c = 0 then intr_get s else intena c),
     noff := noff c + 1\<rparr>) (intr_off s)"

definition popped :: "machine \<Rightarrow> machine" where
  "popped s = (let t = upd_mycpu (\<lambda>c. c\<lparr>noff := noff c - 1\<rparr>) s
     in if noff (mycpu s) = 1 \<and> intena (mycpu s) then intr_on t else t)"

definition taken :: "lockid \<Rightarrow> machine \<Rightarrow> machine" where
  "taken l s = upd_lock l (\<lambda>k. k\<lparr>locked := 1, lk_cpu := Some (cpuid s)\<rparr>) (pushed s)"

definition given :: "lockid \<Rightarrow> machine \<Rightarrow> machine" where
  "given l s = popped (upd_lock l (\<lambda>k. k\<lparr>lk_cpu := None, locked := 0\<rparr>) s)"

text \<open>
  A matched pair leaves the state as it was but for \<^verbatim>\<open>intena\<close>, which
  \<^verbatim>\<open>push_off\<close> overwrites when the CPU held no lock and which means nothing then.
\<close>

definition settle :: "machine \<Rightarrow> machine" where
  "settle s = upd_mycpu (\<lambda>c. c\<lparr>intena := (if noff c = 0 then intr_get s else intena c)\<rparr>) s"

lemmas csr_defs = intr_get_def intr_on_def intr_off_def r_sstatus_def w_sstatus_def mycsr_def
  upd_csr_def

lemmas machine_defs = upd_mycpu_def mycpu_def cpuid_def upd_lock_def

lemma mycpu_intr [simp]: "mycpu (intr_off s) = mycpu s" "mycpu (intr_on s) = mycpu s"
  by (simp_all add: csr_defs machine_defs)

lemma cpuid_simps [simp]:
  "cpuid (intr_off s) = cpuid s" "cpuid (intr_on s) = cpuid s" "cpuid (upd_mycpu f s) = cpuid s"
  "cpuid (upd_lock l g s) = cpuid s"
  by (simp_all add: csr_defs machine_defs)

lemma locks_simps [simp]:
  "locks (intr_off s) = locks s" "locks (intr_on s) = locks s" "locks (upd_mycpu f s) = locks s"
  "locks (upd_lock l g s) = (locks s)(l := g (locks s l))"
  by (simp_all add: csr_defs machine_defs)

lemma upd_mycpu_upd_mycpu [simp]: "upd_mycpu f (upd_mycpu g s) = upd_mycpu (\<lambda>c. f (g c)) s"
  by (simp add: machine_defs)

lemma mycpu_upd_mycpu [simp]: "mycpu (upd_mycpu f s) = f (mycpu s)"
  by (simp add: machine_defs)

lemma mycpu_upd_lock [simp]: "mycpu (upd_lock l f s) = mycpu s"
  by (simp add: machine_defs)

lemma intr_get_upd [simp]:
  "intr_get (upd_mycpu f s) = intr_get s" "intr_get (upd_lock l g s) = intr_get s"
  by (simp_all add: csr_defs machine_defs)

lemma push_off_Done: "push_off s = Done () (pushed s)"
  by (simp add: push_off_def pushed_def kern_defs upd_mycpu_def cpuid_def)

lemma pop_off_Done:
  "\<not> intr_get s \<Longrightarrow> 1 \<le> noff (mycpu s) \<Longrightarrow> pop_off s = Done () (popped s)"
  by (simp add: pop_off_def popped_def kern_defs Let_def)

lemma pop_off_panics:
  "intr_get s \<or> noff (mycpu s) < 1 \<Longrightarrow>
   pop_off s = Panicked (if intr_get s then ''pop_off - interruptible'' else ''pop_off'')"
  by (auto simp: pop_off_def kern_defs)

lemma holding_pushed [simp]: "holding l (pushed s) = holding l s"
  by (simp add: holding_def pushed_def)

lemma acquire_Done: "lock_free l s \<Longrightarrow> acquire l s = Done () (taken l s)"
proof -
  assume free: "lock_free l s"
  have "acquire l s = Done () (upd_lock l (\<lambda>k. k\<lparr>lk_cpu := Some (cpuid (pushed s))\<rparr>)
      (upd_lock l (\<lambda>k. k\<lparr>locked := 1\<rparr>) (pushed s)))"
    using free
    by (simp add: acquire_def kdo_def push_off_Done)
      (simp add: kern_defs holding_def lock_free_def pushed_def)
  then show ?thesis
    by (simp add: taken_def upd_lock_def pushed_def)
qed

lemma acquire_held:
  "locked (locks s l) \<noteq> 0 \<Longrightarrow>
   acquire l s = (if lk_cpu (locks s l) = Some (cpuid s) then Panicked ''acquire'' else Spinning l)"
  by (simp add: acquire_def kdo_def push_off_Done)
    (simp add: kern_defs holding_def pushed_def)

lemma release_Done:
  "holding l s \<Longrightarrow> \<not> intr_get s \<Longrightarrow> 1 \<le> noff (mycpu s) \<Longrightarrow> release l s = Done () (given l s)"
  by (simp add: release_def given_def kern_defs)
    (simp add: pop_off_Done upd_lock_def mycpu_def cpuid_def csr_defs)

lemma release_panics: "\<not> holding l s \<Longrightarrow> release l s = Panicked ''release''"
  by (simp add: release_def kern_defs)

text \<open>A matched \<^verbatim>\<open>acquire\<close> and \<^verbatim>\<open>release\<close>.\<close>

lemma popped_pushed: "cpu_ok s \<Longrightarrow> popped (pushed s) = settle s"
proof -
  assume ok: "cpu_ok s"
  let ?f = "\<lambda>c. c\<lparr>intena := (if noff c = 0 then intr_get s else intena c)\<rparr>"
  have undo: "upd_mycpu (\<lambda>c. c\<lparr>noff := noff c - 1\<rparr>) (pushed s) = upd_mycpu ?f (intr_off s)"
    by (simp add: pushed_def)
  show ?thesis
  proof (cases "noff (mycpu s) = 0 \<and> intr_get s")
    case True
    then have "popped (pushed s) = intr_on (upd_mycpu ?f (intr_off s))"
      by (simp add: popped_def undo Let_def pushed_def)
    also have "\<dots> = upd_mycpu ?f (intr_on (intr_off s))"
      by (simp add: csr_defs machine_defs)
    finally show ?thesis
      using True by (simp add: intr_on_intr_off settle_def)
  next
    case False
    with ok have "\<not> intr_get s" by (auto simp: cpu_ok_def)
    with False show ?thesis
      using ok
      by (simp add: popped_def undo Let_def settle_def intr_off_idle cpu_ok_def)
        (auto simp: pushed_def)
  qed
qed

lemma given_taken:
  assumes "lock_free l s" and "cpu_ok s"
  shows "given l (taken l s) = settle s"
proof -
  have "upd_lock l (\<lambda>k. k\<lparr>lk_cpu := None, locked := 0\<rparr>) (taken l s) = pushed s"
  proof -
    have "(locks s l)\<lparr>lk_cpu := None, locked := 0\<rparr> = locks s l"
      using assms(1) by (simp add: lock_free_def)
    moreover have "locks (pushed s) = locks s" by (simp add: pushed_def)
    ultimately show ?thesis
      by (simp add: taken_def upd_lock_def)
  qed
  then show ?thesis
    using assms(2) by (simp add: given_def popped_pushed)
qed

lemma holding_taken [simp]: "holding l (taken l s)"
  by (simp add: holding_def taken_def pushed_def)

lemma intr_get_taken [simp]: "\<not> intr_get (taken l s)"
  by (simp add: taken_def pushed_def)

lemma noff_taken [simp]: "noff (mycpu (taken l s)) = noff (mycpu s) + 1"
  by (simp add: taken_def pushed_def)

lemma release_taken:
  assumes "lock_free l s" and "cpu_ok s"
  shows "release l (taken l s) = Done () (settle s)"
  using assms by (simp add: release_Done given_taken cpu_ok_def)

lemma cpu_ok_taken [simp]: "cpu_ok s \<Longrightarrow> cpu_ok (taken l s)"
  by (simp add: cpu_ok_def)

lemma cpu_ok_settle [simp]: "cpu_ok (settle s) = cpu_ok s"
  by (simp add: cpu_ok_def settle_def)

lemma settle_settle [simp]: "settle (settle s) = settle s"
  by (simp add: settle_def cong: if_cong)

lemma locks_settle [simp]: "locks (settle s) = locks s"
  by (simp add: settle_def)

lemma settle_fields [simp]:
  "tp (settle s) = tp s" "csr (settle s) = csr s" "syms (settle s) = syms s"
  "intr_get (settle s) = intr_get s" "noff (mycpu (settle s)) = noff (mycpu s)"
  "cpuid (settle s) = cpuid s" "cpu_proc (mycpu (settle s)) = cpu_proc (mycpu s)"
  by (simp_all add: settle_def) (simp_all add: machine_defs)

lemma lock_free_settle [simp]: "lock_free l (settle s) = lock_free l s"
  by (simp add: lock_free_def)

lemma locks_taken: "locks (taken l s) = (locks s)(l := (locks s l)\<lparr>locked := 1, lk_cpu := Some (cpuid s)\<rparr>)"
  by (simp add: taken_def pushed_def)

lemma lock_free_taken [simp]: "l \<noteq> k \<Longrightarrow> lock_free k (taken l s) = lock_free k s"
  by (simp add: lock_free_def locks_taken)

lemma taken_fields [simp]:
  "tp (taken l s) = tp s" "syms (taken l s) = syms s" "cpuid (taken l s) = cpuid s"
  "cpu_proc (mycpu (taken l s)) = cpu_proc (mycpu s)"
  by (simp_all add: taken_def pushed_def csr_defs machine_defs)

lemma settle_locked: "noff (mycpu s) \<noteq> 0 \<Longrightarrow> settle s = s"
  by (simp add: settle_def upd_mycpu_def mycpu_def)

lemma settle_taken [simp]: "cpu_ok s \<Longrightarrow> settle (taken l s) = taken l s"
  by (rule settle_locked) (simp add: cpu_ok_def)

subsection \<open>The kernel state\<close>

text \<open>
  The state of the kernel is one record that later theories extend field by field. \<open>hw\<close> is its
  processor part. \<open>kacquire\<close> and \<open>krelease\<close> are \<^verbatim>\<open>acquire\<close> and
  \<^verbatim>\<open>release\<close> on any such extension.
\<close>

record kbase =
  hw :: machine

definition lift_hw :: "(machine, 'b) kern \<Rightarrow> ('a kbase_scheme, 'b) kern" where
  "lift_hw m s =
     (case m (hw s) of
        Done x t \<Rightarrow> Done x (s\<lparr>hw := t\<rparr>)
      | Panicked e \<Rightarrow> Panicked e
      | Spinning l \<Rightarrow> Spinning l
      | Asleep c t \<Rightarrow> Asleep c (s\<lparr>hw := t\<rparr>)
      | Hung e \<Rightarrow> Hung e
      | Fault e \<Rightarrow> Fault e)"

definition kacquire :: "lockid \<Rightarrow> ('a kbase_scheme, unit) kern" where
  "kacquire l = lift_hw (acquire l)"

definition krelease :: "lockid \<Rightarrow> ('a kbase_scheme, unit) kern" where
  "krelease l = lift_hw (release l)"

definition kinitlock :: "lockid \<Rightarrow> string \<Rightarrow> ('a kbase_scheme, unit) kern" where
  "kinitlock l nm = lift_hw (initlock l nm)"

abbreviation can_lock :: "lockid \<Rightarrow> 'a kbase_scheme \<Rightarrow> bool" where
  "can_lock l s \<equiv> lock_free l (hw s) \<and> cpu_ok (hw s)"

lemma kacquire_Done [simp]: "lock_free l (hw s) \<Longrightarrow> kacquire l s = Done () (s\<lparr>hw := taken l (hw s)\<rparr>)"
  by (simp add: kacquire_def lift_hw_def acquire_Done)

lemma krelease_taken [simp]:
  "hw s = taken l m \<Longrightarrow> lock_free l m \<Longrightarrow> cpu_ok m \<Longrightarrow>
   krelease l s = Done () (s\<lparr>hw := settle m\<rparr>)"
  by (simp add: krelease_def lift_hw_def release_taken)

lemma wp_kacquire [wp_simps]:
  "lock_free l (hw s) \<Longrightarrow> wp (kacquire l) Q s \<longleftrightarrow> Q () (s\<lparr>hw := taken l (hw s)\<rparr>)"
  by (simp add: wp_Done [OF kacquire_Done])

lemma wp_krelease [wp_simps]:
  "hw s = taken l m \<Longrightarrow> lock_free l m \<Longrightarrow> cpu_ok m \<Longrightarrow>
   wp (krelease l) Q s \<longleftrightarrow> Q () (s\<lparr>hw := settle m\<rparr>)"
  by (simp add: wp_Done [OF krelease_taken])

end
