(* ===== verification/Spinlock_Protocol.thy ===== *)
theory Spinlock_Protocol
  imports Spinlock
begin

section \<open>Spinlocks under interleaving\<close>

text \<open>
  Any number of harts repeatedly run \<^verbatim>\<open>acquire(lk)\<close>, a critical section and
  \<^verbatim>\<open>release(lk)\<close> on one lock. A step is one shared-memory access of the C code (the two reads
  of \<^verbatim>\<open>holding\<close>, the atomic swap, the store to \<^verbatim>\<open>lk->cpu\<close>, and so on) by
  one hart; which hart moves next is not determined. \<open>tp\<close> is set to the moving hart.
\<close>

datatype lpc =
    LIdle          \<comment> \<open>outside; about to call \<^verbatim>\<open>acquire\<close>\<close>
  | LAcqLocked     \<comment> \<open>interrupts off; about to read \<^verbatim>\<open>lk->locked\<close> in \<^verbatim>\<open>holding\<close>\<close>
  | LAcqCpu        \<comment> \<open>about to read \<^verbatim>\<open>lk->cpu\<close> in \<^verbatim>\<open>holding\<close>\<close>
  | LSpin          \<comment> \<open>about to swap 1 into \<^verbatim>\<open>lk->locked\<close>\<close>
  | LSetCpu        \<comment> \<open>has the lock; about to store \<^verbatim>\<open>lk->cpu\<close>\<close>
  | LCrit          \<comment> \<open>in the critical section; then reads \<^verbatim>\<open>lk->locked\<close> in \<^verbatim>\<open>release\<close>\<close>
  | LRelCpu        \<comment> \<open>about to read \<^verbatim>\<open>lk->cpu\<close> in \<^verbatim>\<open>release\<close>\<close>
  | LClear         \<comment> \<open>about to clear \<^verbatim>\<open>lk->cpu\<close>\<close>
  | LUnlock        \<comment> \<open>about to clear \<^verbatim>\<open>lk->locked\<close>\<close>
  | LPop           \<comment> \<open>about to call \<^verbatim>\<open>pop_off\<close>\<close>
  | LPanic         \<comment> \<open>has called \<^verbatim>\<open>panic\<close>\<close>

type_synonym lock_world = "(nat \<Rightarrow> lpc) \<times> machine"

definition on_hart :: "nat \<Rightarrow> machine \<Rightarrow> machine" where
  "on_hart h m = m\<lparr>tp := h\<rparr>"

text \<open>One access by hart \<open>h\<close>: its next control point and the machine it leaves.\<close>

fun lock_access :: "lockid \<Rightarrow> lpc \<Rightarrow> machine \<Rightarrow> lpc \<times> machine" where
  "lock_access l LIdle m = (LAcqLocked, pushed m)"
| "lock_access l LAcqLocked m = (if locked (locks m l) \<noteq> 0 then LAcqCpu else LSpin, m)"
| "lock_access l LAcqCpu m = (if lk_cpu (locks m l) = Some (cpuid m) then LPanic else LSpin, m)"
| "lock_access l LSpin m =
     (if locked (locks m l) \<noteq> 0 then LSpin else LSetCpu, upd_lock l (\<lambda>k. k\<lparr>locked := 1\<rparr>) m)"
| "lock_access l LSetCpu m = (LCrit, upd_lock l (\<lambda>k. k\<lparr>lk_cpu := Some (cpuid m)\<rparr>) m)"
| "lock_access l LCrit m = (if locked (locks m l) \<noteq> 0 then LRelCpu else LPanic, m)"
| "lock_access l LRelCpu m = (if lk_cpu (locks m l) = Some (cpuid m) then LClear else LPanic, m)"
| "lock_access l LClear m = (LUnlock, upd_lock l (\<lambda>k. k\<lparr>lk_cpu := None\<rparr>) m)"
| "lock_access l LUnlock m = (LPop, upd_lock l (\<lambda>k. k\<lparr>locked := 0\<rparr>) m)"
| "lock_access l LPop m = (case pop_off m of Done _ m' \<Rightarrow> (LIdle, m') | _ \<Rightarrow> (LPanic, m))"
| "lock_access l LPanic m = (LPanic, m)"

inductive lock_step :: "lockid \<Rightarrow> lock_world \<Rightarrow> lock_world \<Rightarrow> bool" for l :: lockid where
  hart_step: "lock_access l (pc h) (on_hart h m) = (p', m') \<Longrightarrow>
     lock_step l (pc, m) (pc(h := p'), m')"

inductive_cases lock_stepE: "lock_step l (pc, m) w"

text \<open>At the start no hart is inside, the lock is free and no hart has pushed.\<close>

fun lock_init :: "machine \<Rightarrow> lockid \<Rightarrow> lock_world \<Rightarrow> bool" where
  "lock_init m0 l (pc, m) \<longleftrightarrow>
     (\<forall>h. pc h = LIdle) \<and> m = m0 \<and> lock_free l m0 \<and> (\<forall>h. noff (cpus m0 h) = 0)"

subsection \<open>The invariant\<close>

definition owns :: "lpc \<Rightarrow> bool" where
  "owns p \<longleftrightarrow> p \<in> {LSetCpu, LCrit, LRelCpu, LClear, LUnlock}"

definition named :: "lpc \<Rightarrow> bool" where
  "named p \<longleftrightarrow> p \<in> {LCrit, LRelCpu, LClear}"

definition hart_intr :: "nat \<Rightarrow> machine \<Rightarrow> bool" where
  "hart_intr h m \<longleftrightarrow> intr_get (on_hart h m)"

definition hart_ok :: "machine \<Rightarrow> nat \<Rightarrow> lpc \<Rightarrow> machine \<Rightarrow> bool" where
  "hart_ok m0 h p m \<longleftrightarrow>
     (if p = LIdle then noff (cpus m h) = 0 \<and> csr m h = csr m0 h
      else noff (cpus m h) = 1 \<and> intena (cpus m h) = hart_intr h m0 \<and>
        csr m h = csr (intr_off (on_hart h m0)) h)"

text \<open>How the two words of the lock and the control points agree: the lock word says whether some
  hart owns the lock, at most one does, and \<^verbatim>\<open>lk->cpu\<close> names it while its name is set.\<close>

definition lock_view :: "(nat \<Rightarrow> lpc) \<Rightarrow> bool \<Rightarrow> nat option \<Rightarrow> bool" where
  "lock_view pc lkd cp \<longleftrightarrow>
     (\<exists>owner. (\<forall>h. owns (pc h) \<longleftrightarrow> owner = Some h) \<and> (lkd \<longleftrightarrow> owner \<noteq> None)) \<and>
     (\<forall>h. cp = Some h \<longleftrightarrow> named (pc h))"

fun lock_invar :: "machine \<Rightarrow> lockid \<Rightarrow> lock_world \<Rightarrow> bool" where
  "lock_invar m0 l (pc, m) \<longleftrightarrow>
     lock_view pc (locked (locks m l) \<noteq> 0) (lk_cpu (locks m l)) \<and>
     (\<forall>h. pc h \<noteq> LPanic \<and> hart_ok m0 h (pc h) m)"

lemma on_hart_simps [simp]:
  "locks (on_hart h m) = locks m" "cpuid (on_hart h m) = h" "cpus (on_hart h m) = cpus m"
  "csr (on_hart h m) = csr m" "tp (on_hart h m) = h"
  by (simp_all add: on_hart_def cpuid_def)

lemma mycpu_on_hart [simp]: "mycpu (on_hart h m) = cpus m h"
  by (simp add: mycpu_def)

lemma hart_ok_cong:
  "cpus m' h = cpus m h \<Longrightarrow> csr m' h = csr m h \<Longrightarrow> hart_ok m0 h p m' = hart_ok m0 h p m"
  by (simp add: hart_ok_def)

lemma upd_lock_cpu_csr [simp]: "cpus (upd_lock l f m) = cpus m" "csr (upd_lock l f m) = csr m"
  by (simp_all add: upd_lock_def)

lemma intr_off_other [simp]: "h \<noteq> tp m \<Longrightarrow> csr (intr_off m) h = csr m h"
  "h \<noteq> tp m \<Longrightarrow> csr (intr_on m) h = csr m h"
  by (simp_all add: csr_defs)

lemma cpus_intr [simp]: "cpus (intr_off m) = cpus m" "cpus (intr_on m) = cpus m"
  by (simp_all add: csr_defs)

lemma csr_intr_off_cong: "csr m (tp m) = csr n (tp n) \<Longrightarrow> csr (intr_off m) (tp m) = csr (intr_off n) (tp n)"
  by (simp add: csr_defs)

lemma intr_get_cong: "csr m (tp m) = csr n (tp n) \<Longrightarrow> intr_get m = intr_get n"
  by (simp add: csr_defs)

text \<open>Entering: the hart remembers whether interrupts were on and turns them off.\<close>

lemma hart_ok_pushed:
  assumes "hart_ok m0 h LIdle m"
  shows "hart_ok m0 h LAcqLocked (pushed (on_hart h m))"
    and "k \<noteq> h \<Longrightarrow> hart_ok m0 k p (pushed (on_hart h m)) = hart_ok m0 k p m"
    and "locks (pushed (on_hart h m)) = locks m"
proof -
  have "csr (on_hart h m) (tp (on_hart h m)) = csr (on_hart h m0) (tp (on_hart h m0))"
    using assms by (simp add: hart_ok_def)
  from csr_intr_off_cong [OF this] intr_get_cong [OF this]
  show "hart_ok m0 h LAcqLocked (pushed (on_hart h m))"
    using assms by (simp add: hart_ok_def pushed_def upd_mycpu_def hart_intr_def)
  show "hart_ok m0 k p (pushed (on_hart h m)) = hart_ok m0 k p m" if "k \<noteq> h"
    using that by (intro hart_ok_cong) (simp_all add: pushed_def upd_mycpu_def)
  show "locks (pushed (on_hart h m)) = locks m"
    by (simp add: pushed_def)
qed

text \<open>Leaving: \<^verbatim>\<open>pop_off\<close> returns, and interrupts are as they were.\<close>

lemma hart_ok_popped:
  assumes "hart_ok m0 h LPop m"
  shows "pop_off (on_hart h m) = Done () (popped (on_hart h m))"
    and "hart_ok m0 h LIdle (popped (on_hart h m))"
    and "k \<noteq> h \<Longrightarrow> hart_ok m0 k p (popped (on_hart h m)) = hart_ok m0 k p m"
    and "locks (popped (on_hart h m)) = locks m"
proof -
  let ?i = "intr_off (on_hart h m0)"
  have h: "noff (cpus m h) = 1" "intena (cpus m h) = hart_intr h m0" "csr m h = csr ?i h"
    using assms by (simp_all add: hart_ok_def)
  have same: "csr (on_hart h m) (tp (on_hart h m)) = csr ?i (tp ?i)"
    using h(3) by (simp add: csr_defs)
  have off: "\<not> intr_get (on_hart h m)"
    using intr_get_cong [OF same] by simp
  then show "pop_off (on_hart h m) = Done () (popped (on_hart h m))"
    using h(1) by (simp add: pop_off_Done)
  have "csr (popped (on_hart h m)) h = csr m0 h"
  proof (cases "hart_intr h m0")
    case True
    then have "intr_on ?i = on_hart h m0"
      by (simp add: hart_intr_def intr_on_intr_off)
    then have "csr (intr_on ?i) h = csr m0 h" by simp
    moreover have "csr (popped (on_hart h m)) h = csr (intr_on ?i) h"
      using True h by (simp add: popped_def Let_def csr_defs machine_defs)
    ultimately show ?thesis by simp
  next
    case False
    then have "?i = on_hart h m0"
      by (simp add: hart_intr_def intr_off_idle)
    with False h show ?thesis
      by (simp add: popped_def Let_def machine_defs)
  qed
  with h show "hart_ok m0 h LIdle (popped (on_hart h m))"
    by (simp add: hart_ok_def popped_def Let_def upd_mycpu_def)
  show "hart_ok m0 k p (popped (on_hart h m)) = hart_ok m0 k p m" if "k \<noteq> h"
    using that by (intro hart_ok_cong) (simp_all add: popped_def Let_def upd_mycpu_def)
  show "locks (popped (on_hart h m)) = locks m"
    by (simp add: popped_def Let_def)
qed

lemma hart_ok_on_hart [simp]: "hart_ok m0 k p (on_hart h m) = hart_ok m0 k p m"
  by (simp add: hart_ok_def)

lemma hart_ok_upd_lock [simp]: "hart_ok m0 k p (upd_lock l f m) = hart_ok m0 k p m"
  by (simp add: hart_ok_def)

lemma hart_ok_inside: "p \<noteq> LIdle \<Longrightarrow> q \<noteq> LIdle \<Longrightarrow> hart_ok m0 h p m \<Longrightarrow> hart_ok m0 h q m"
  by (simp add: hart_ok_def)

lemma owns_simps [simp]:
  "\<not> owns LIdle" "\<not> owns LAcqLocked" "\<not> owns LAcqCpu" "\<not> owns LSpin" "owns LSetCpu" "owns LCrit"
  "owns LRelCpu" "owns LClear" "owns LUnlock" "\<not> owns LPop" "\<not> owns LPanic"
  by (simp_all add: owns_def)

lemma named_simps [simp]:
  "\<not> named LIdle" "\<not> named LAcqLocked" "\<not> named LAcqCpu" "\<not> named LSpin" "\<not> named LSetCpu"
  "named LCrit" "named LRelCpu" "named LClear" "\<not> named LUnlock" "\<not> named LPop" "\<not> named LPanic"
  by (simp_all add: named_def)

lemma named_owns: "named p \<Longrightarrow> owns p"
  by (auto simp: named_def)

text \<open>The steps that change who owns the lock or whose name it carries.\<close>

lemma lock_viewI:
  "(\<And>h. owns (pc h) \<longleftrightarrow> owner = Some h) \<Longrightarrow> (lkd \<longleftrightarrow> owner \<noteq> None) \<Longrightarrow>
   (\<And>h. cp = Some h \<longleftrightarrow> named (pc h)) \<Longrightarrow> lock_view pc lkd cp"
  unfolding lock_view_def by blast

lemma lock_viewE:
  assumes "lock_view pc lkd cp"
  obtains owner where "\<And>h. owns (pc h) \<longleftrightarrow> owner = Some h" "lkd \<longleftrightarrow> owner \<noteq> None"
    "\<And>h. cp = Some h \<longleftrightarrow> named (pc h)"
  using assms unfolding lock_view_def by blast

lemma lock_view_keep:
  assumes "lock_view pc b c" "owns p \<longleftrightarrow> owns (pc h)" "named p \<longleftrightarrow> named (pc h)"
  shows "lock_view (pc(h := p)) b c"
  using assms(1) by (elim lock_viewE, intro lock_viewI) (auto simp: assms(2,3))

lemma lock_view_swap:
  assumes "lock_view pc False c"
  shows "lock_view (pc(h := LSetCpu)) True c"
proof -
  from assms obtain o: "\<not> owns (pc k)" "c = Some k \<longleftrightarrow> named (pc k)" for k
    by (elim lock_viewE) simp
  then have "\<not> named (pc k)" for k using named_owns by blast
  with o show ?thesis by (intro lock_viewI [where owner = "Some h"]) auto
qed

lemma lock_view_name:
  assumes "lock_view pc b c" "pc h = LSetCpu"
  shows "lock_view (pc(h := LCrit)) b (Some h)"
proof -
  from assms obtain owner where o: "owns (pc k) \<longleftrightarrow> owner = Some k" "b \<longleftrightarrow> owner \<noteq> None" for k
    by (elim lock_viewE) (rule that)
  from o(1) [of h] assms(2) have w: "owner = Some h" by simp
  have "\<not> named (pc k)" if "k \<noteq> h" for k
    using that o(1) [of k] w named_owns by auto
  with o w show ?thesis by (intro lock_viewI [where owner = "Some h"]) auto
qed

lemma lock_view_clear:
  assumes "lock_view pc b c" "pc h = LClear"
  shows "lock_view (pc(h := LUnlock)) b None"
proof -
  from assms obtain owner where o: "owns (pc k) \<longleftrightarrow> owner = Some k" "b \<longleftrightarrow> owner \<noteq> None" for k
    by (elim lock_viewE) (rule that)
  from o(1) [of h] assms(2) have w: "owner = Some h" by simp
  have "\<not> named (pc k)" if "k \<noteq> h" for k
    using that o(1) [of k] w named_owns by auto
  with o w show ?thesis by (intro lock_viewI [where owner = "Some h"]) auto
qed

lemma lock_view_unlock:
  assumes "lock_view pc b c" "pc h = LUnlock"
  shows "lock_view (pc(h := LPop)) False c"
proof -
  from assms obtain owner where o: "owns (pc k) \<longleftrightarrow> owner = Some k" "c = Some k \<longleftrightarrow> named (pc k)" for k
    by (elim lock_viewE) (rule that)
  from o(1) [of h] assms(2) have w: "owner = Some h" by simp
  with o assms(2) show ?thesis by (intro lock_viewI [where owner = None]) auto
qed

lemma lock_view_owner: "lock_view pc b c \<Longrightarrow> owns (pc h) \<Longrightarrow> b"
  "lock_view pc b c \<Longrightarrow> named (pc h) \<Longrightarrow> c = Some h"
  "lock_view pc b c \<Longrightarrow> \<not> named (pc h) \<Longrightarrow> c \<noteq> Some h"
  by (elim lock_viewE, simp)+

lemma lock_access_view:
  assumes view: "lock_view pc (locked (locks m l) \<noteq> 0) (lk_cpu (locks m l))"
    and acc: "lock_access l (pc h) (on_hart h m) = (p', m')" and h: "pc h \<noteq> LIdle" "pc h \<noteq> LPop"
  shows "lock_view (pc(h := p')) (locked (locks m' l) \<noteq> 0) (lk_cpu (locks m' l)) \<and>
    (pc h \<noteq> LPanic \<longrightarrow> p' \<noteq> LPanic)"
proof (cases "pc h")
  case LSpin
  then show ?thesis
    using view acc lock_view_swap [of pc _ h] lock_view_keep [OF view, of LSpin h]
    by (cases "locked (locks m l) = 0") auto
next
  case LSetCpu
  then show ?thesis using acc lock_view_name [OF view LSetCpu] by auto
next
  case LClear
  then show ?thesis using acc lock_view_clear [OF view LClear] by auto
next
  case LUnlock
  then show ?thesis using acc lock_view_unlock [OF view LUnlock] by auto
qed (use h acc lock_view_owner [OF view, of h] lock_view_keep [OF view, of p' h] in
    \<open>auto split: if_splits\<close>)

lemma lock_access_inside:
  assumes "lock_access l p (on_hart h m) = (p', m')" "p \<noteq> LIdle" "p \<noteq> LPop"
  shows "p' \<noteq> LIdle \<and> cpus m' = cpus m \<and> csr m' = csr m"
  using assms by (cases p) (auto split: if_splits)

lemma lock_access_hart:
  assumes ok: "hart_ok m0 h p m" and acc: "lock_access l p (on_hart h m) = (p', m')"
  shows "hart_ok m0 h p' m' \<and> (\<forall>k q. k \<noteq> h \<longrightarrow> hart_ok m0 k q m' = hart_ok m0 k q m)"
proof (cases "p = LIdle \<or> p = LPop")
  case True
  then show ?thesis
    using ok acc hart_ok_pushed(1,2) [of m0 h m] hart_ok_popped(1-3) [of m0 h m] by auto
next
  case False
  with lock_access_inside [OF acc] have inside: "p' \<noteq> LIdle" "cpus m' = cpus m" "csr m' = csr m"
    by simp_all
  then have same: "hart_ok m0 k q m' = hart_ok m0 k q m" for k q
    by (intro hart_ok_cong) simp_all
  moreover have "hart_ok m0 h p' m"
    using hart_ok_inside [OF _ inside(1) ok] False by simp
  ultimately show ?thesis by simp
qed

lemma lock_access_invar:
  assumes inv: "lock_invar m0 l (pc, m)" and acc: "lock_access l (pc h) (on_hart h m) = (p', m')"
  shows "lock_invar m0 l (pc(h := p'), m')"
proof -
  have ok: "hart_ok m0 k (pc k) m" and no_panic: "pc k \<noteq> LPanic" for k
    using inv by simp_all
  have view: "lock_view pc (locked (locks m l) \<noteq> 0) (lk_cpu (locks m l))"
    using inv by simp
  have "lock_view (pc(h := p')) (locked (locks m' l) \<noteq> 0) (lk_cpu (locks m' l)) \<and> p' \<noteq> LPanic"
  proof (cases "pc h = LIdle \<or> pc h = LPop")
    case True
    then have "locks m' = locks m \<and> \<not> owns p' \<and> \<not> named p' \<and> p' \<noteq> LPanic"
      using hart_ok_pushed(3) [of m0 h m] hart_ok_popped(1,4) [of m0 h m] ok [of h] acc by auto
    with True lock_view_keep [OF view, of p' h] show ?thesis by auto
  next
    case False
    with lock_access_view [OF view acc] no_panic [of h] show ?thesis by blast
  qed
  with lock_access_hart [OF ok [of h] acc] ok no_panic show ?thesis by auto
qed

interpretation lk: invariant_system "lock_init m0 l" "lock_step l" "lock_invar m0 l" for m0 l
proof
  fix s
  assume "lock_init m0 l s"
  then show "lock_invar m0 l s"
    by (cases s) (auto simp: lock_view_def hart_ok_def lock_free_def)
next
  fix s t
  assume step: "lock_step l s t" and inv: "lock_invar m0 l s"
  obtain pc m where s: "s = (pc, m)" by (cases s)
  from step [unfolded s] obtain h p' m' where "t = (pc(h := p'), m')"
    and "lock_access l (pc h) (on_hart h m) = (p', m')"
    by (rule lock_stepE)
  with lock_access_invar inv [unfolded s] show "lock_invar m0 l t" by blast
qed

subsection \<open>Mutual exclusion\<close>

text \<open>Harts taking the accesses in the order a schedule names them.\<close>

fun lock_run :: "lockid \<Rightarrow> nat list \<Rightarrow> lock_world \<Rightarrow> lock_world" where
  "lock_run l [] w = w"
| "lock_run l (h # hs) (pc, m) =
     (let (p', m') = lock_access l (pc h) (on_hart h m) in lock_run l hs (pc(h := p'), m'))"

lemma lock_run_steps: "(lock_step l)\<^sup>*\<^sup>* w (lock_run l hs w)"
proof (induction l hs w rule: lock_run.induct)
  case (2 l h hs pc m)
  obtain p' m' where acc: "lock_access l (pc h) (on_hart h m) = (p', m')" by fastforce
  have "lock_step l (pc, m) (pc(h := p'), m')"
    using acc by (rule hart_step)
  moreover have "(lock_step l)\<^sup>*\<^sup>* (pc(h := p'), m') (lock_run l hs (pc(h := p'), m'))"
    using 2 [OF acc [symmetric] refl] .
  ultimately show ?case
    using acc by (simp add: converse_rtranclp_into_rtranclp)
qed simp

lemma hart_ok_intr:
  assumes "hart_ok m0 h p m"
  shows "p = LIdle \<Longrightarrow> hart_intr h m = hart_intr h m0" and "p \<noteq> LIdle \<Longrightarrow> \<not> hart_intr h m"
proof -
  show "hart_intr h m = hart_intr h m0" if "p = LIdle"
    using assms that unfolding hart_intr_def by (intro intr_get_cong) (simp add: hart_ok_def)
  let ?i = "intr_off (on_hart h m0)"
  have tp: "tp ?i = h" by (simp add: csr_defs)
  show "\<not> hart_intr h m" if "p \<noteq> LIdle"
  proof -
    have "intr_get (on_hart h m) = intr_get ?i"
      using assms that by (intro intr_get_cong) (simp add: hart_ok_def tp)
    then show ?thesis by (simp add: hart_intr_def)
  qed
qed

text \<open>C6. However the memory accesses of \<^verbatim>\<open>acquire\<close> and \<^verbatim>\<open>release\<close> of any number
  of harts interleave, at most one hart is between winning the atomic swap and clearing the lock
  word, so at most one is in the critical section; no hart panics in
  \<^verbatim>\<open>acquire\<close>, \<^verbatim>\<open>release\<close> or \<^verbatim>\<open>pop_off\<close>; a hart in the critical section has
  interrupts off and \<^verbatim>\<open>lk->cpu\<close> names it; and a hart that is outside has the
  interrupt-enable bit it started with.\<close>

theorem lock_mutual_exclusion:
  assumes "reachable (lock_init m0 l) (lock_step l) (pc, m)"
  shows "(owns (pc i) \<longrightarrow> owns (pc j) \<longrightarrow> i = j) \<and> pc i \<noteq> LPanic \<and>
    (pc i = LCrit \<longrightarrow> \<not> hart_intr i m \<and> holding l (on_hart i m)) \<and>
    (pc i = LIdle \<longrightarrow> hart_intr i m = hart_intr i m0)"
proof -
  have inv: "lock_invar m0 l (pc, m)"
    using assms by (rule lk.reachable_invar)
  then have view: "lock_view pc (locked (locks m l) \<noteq> 0) (lk_cpu (locks m l))"
    and ok: "hart_ok m0 i (pc i) m" and "pc i \<noteq> LPanic"
    by simp_all
  moreover have "i = j" if "owns (pc i)" "owns (pc j)"
    using view that by (elim lock_viewE) simp
  moreover have "holding l (on_hart i m)" if "pc i = LCrit"
    using lock_view_owner(1,2) [OF view, of i] that by (simp add: holding_def)
  moreover note hart_ok_intr [OF ok]
  ultimately show ?thesis by simp
qed

text \<open>Two harts race for \<^verbatim>\<open>kmem.lock\<close>: hart 0 is in its critical section while hart 1 spins.\<close>

definition race :: lock_world where
  "race = lock_run KmemLock [0, 1, 0, 1, 0, 0, 1, 1] (\<lambda>_. LIdle, zero_machine)"

lemma race_reachable: "reachable (lock_init zero_machine KmemLock) (lock_step KmemLock) (fst race, snd race)"
proof -
  have "reachable (lock_init zero_machine KmemLock) (lock_step KmemLock) (\<lambda>_. LIdle, zero_machine)"
    by (rule reachable.start) (simp add: zero_machine_def lock_free_def)
  then show ?thesis
    unfolding prod.collapse race_def by (rule lk.reachable_run [OF lock_run_steps])
qed

lemma race_points: "fst race 0 = LCrit \<and> fst race 1 = LSpin"
  by (simp add: race_def Let_def zero_machine_def pushed_def csr_defs machine_defs)

theorem lock_mutual_exclusion_witness:
  "reachable (lock_init zero_machine KmemLock) (lock_step KmemLock) (fst race, snd race) \<and>
   fst race 0 = LCrit \<and> fst race 1 = LSpin \<and> \<not> hart_intr 0 (snd race) \<and> \<not> owns (fst race 1)"
  using race_reachable race_points lock_mutual_exclusion [OF race_reachable, of 0 1] by simp

end
