(* ===== verification/CString.thy ===== *)
theory CString
  imports Layout
begin

section \<open>kernel/string.c\<close>

text \<open>
  The memory and string routines. \<^verbatim>\<open>memset\<close>, \<^verbatim>\<open>memmove\<close> and
  \<^verbatim>\<open>memcpy\<close> act on the flat memory, byte by byte and in the order of the C loops. For the
  routines that only read through a pointer, a pointer argument is the map from offsets to the bytes
  found there (\<open>\<lambda>i. m (p + of_nat i)\<close> for a pointer \<open>p\<close> into memory, \<open>(!) xs\<close> for an
  array \<open>xs\<close>), and advancing the pointer shifts that map. The routines that write into a
  kernel array take and return the array.
\<close>

type_synonym cptr = "nat \<Rightarrow> u8"

abbreviation advance :: "cptr \<Rightarrow> cptr" where
  "advance p \<equiv> (\<lambda>i. p (Suc i))"

subsection \<open>Definitions\<close>

function memset_from :: "memory \<Rightarrow> u64 \<Rightarrow> u8 \<Rightarrow> nat \<Rightarrow> nat \<Rightarrow> memory" where
  "memset_from m cdst c i n =
     (if i < n then memset_from (m(cdst + of_nat i := c)) cdst c (Suc i) n else m)"
  by pat_completeness auto
termination
  by (relation "measure (\<lambda>(m, cdst, c, i, n). n - i)") auto

declare memset_from.simps [simp del]

definition memset :: "memory \<Rightarrow> u64 \<Rightarrow> int \<Rightarrow> u32 \<Rightarrow> memory" where
  "memset m dst c n = memset_from m dst (word_of_int c) 0 (unat n)"

fun memcmp :: "cptr \<Rightarrow> cptr \<Rightarrow> nat \<Rightarrow> int" where
  "memcmp s1 s2 0 = 0"
| "memcmp s1 s2 (Suc n) =
     (if s1 0 \<noteq> s2 0 then uint (s1 0) - uint (s2 0) else memcmp (advance s1) (advance s2) n)"

text \<open>The two loops of \<^verbatim>\<open>memmove\<close>: upwards from the start, downwards from the end.\<close>

fun copy_up :: "memory \<Rightarrow> u64 \<Rightarrow> u64 \<Rightarrow> nat \<Rightarrow> memory" where
  "copy_up m d s 0 = m"
| "copy_up m d s (Suc n) = copy_up (m(d := m s)) (d + 1) (s + 1) n"

fun copy_down :: "memory \<Rightarrow> u64 \<Rightarrow> u64 \<Rightarrow> nat \<Rightarrow> memory" where
  "copy_down m d s 0 = m"
| "copy_down m d s (Suc n) = copy_down (m(d - 1 := m (s - 1))) (d - 1) (s - 1) n"

definition memmove :: "memory \<Rightarrow> u64 \<Rightarrow> u64 \<Rightarrow> u32 \<Rightarrow> memory" where
  "memmove m dst src n =
     (if n = 0 then m
      else if src < dst \<and> src + ucast n > dst
      then copy_down m (dst + ucast n) (src + ucast n) (unat n)
      else copy_up m dst src (unat n))"

definition memcpy :: "memory \<Rightarrow> u64 \<Rightarrow> u64 \<Rightarrow> u32 \<Rightarrow> memory" where
  "memcpy m dst src n = memmove m dst src n"

fun strncmp :: "cptr \<Rightarrow> cptr \<Rightarrow> nat \<Rightarrow> int" where
  "strncmp p q 0 = 0"
| "strncmp p q (Suc n) =
     (if p 0 \<noteq> 0 \<and> p 0 = q 0 then strncmp (advance p) (advance q) n
      else uint (p 0) - uint (q 0))"

text \<open>
  \<^verbatim>\<open>strncpy\<close>: the first loop copies up to and including a NUL and leaves the number of
  bytes still to be written, which the second loop fills with zeros.
\<close>

fun strncpy_copy :: "cptr \<Rightarrow> nat \<Rightarrow> u8 list \<times> nat" where
  "strncpy_copy t 0 = ([], 0)"
| "strncpy_copy t (Suc n) =
     (if t 0 \<noteq> 0 then (let (bs, k) = strncpy_copy (advance t) n in (t 0 # bs, k))
      else ([t 0], n))"

definition overwrite :: "u8 list \<Rightarrow> u8 list \<Rightarrow> u8 list" where
  "overwrite s bs = bs @ drop (length bs) s"

definition strncpy :: "u8 list \<Rightarrow> cptr \<Rightarrow> int \<Rightarrow> u8 list" where
  "strncpy s t n = (let (bs, k) = strncpy_copy t (nat n) in overwrite s (bs @ replicate k 0))"

fun safestrcpy_copy :: "cptr \<Rightarrow> nat \<Rightarrow> u8 list" where
  "safestrcpy_copy t 0 = []"
| "safestrcpy_copy t (Suc n) =
     (if t 0 \<noteq> 0 then t 0 # safestrcpy_copy (advance t) n else [t 0])"

definition safestrcpy :: "u8 list \<Rightarrow> cptr \<Rightarrow> int \<Rightarrow> u8 list" where
  "safestrcpy s t n =
     (if n \<le> 0 then s else overwrite s (safestrcpy_copy t (nat (n - 1)) @ [0]))"

text \<open>\<^verbatim>\<open>strlen\<close> does not return on a string without a terminator.\<close>

partial_function (option) strlen_from :: "cptr \<Rightarrow> nat \<Rightarrow> nat option" where
  "strlen_from s n = (if s n = 0 then Some n else strlen_from s (n + 1))"

definition strlen :: "cptr \<Rightarrow> nat option" where
  "strlen s = strlen_from s 0"

subsection \<open>The C string behind a pointer\<close>

text \<open>\<open>cstr p n\<close> is the string at \<open>p\<close>, cut at the first NUL or after \<open>n\<close> bytes.\<close>

definition cstr :: "cptr \<Rightarrow> nat \<Rightarrow> u8 list" where
  "cstr p n = takeWhile (\<lambda>c. c \<noteq> 0) (map p [0..<n])"

lemma cstr_0 [simp]: "cstr p 0 = []"
  by (simp add: cstr_def)

lemma cstr_Suc: "cstr p (Suc n) = (if p 0 = 0 then [] else p 0 # cstr (advance p) n)"
proof -
  have "map p [0..<Suc n] = p 0 # map (advance p) [0..<n]"
    by (simp add: map_upt_Suc del: upt_Suc)
  then show ?thesis by (simp add: cstr_def)
qed

lemma length_cstr: "length (cstr p n) \<le> n"
  by (simp add: cstr_def) (metis length_map length_takeWhile_le length_upt minus_nat.diff_0)

lemma cstr_cong: "(\<And>i. i < n \<Longrightarrow> p i = q i) \<Longrightarrow> cstr p n = cstr q n"
  unfolding cstr_def by (rule arg_cong [where f = "takeWhile _"]) simp

subsection \<open>Memory routines\<close>

lemma store_bytes_Nil [simp]: "store_bytes m a [] = m"
  by (simp add: store_bytes_def)

lemma store_bytes_single: "store_bytes m a [b] = m(a := b)"
  by (auto simp: store_bytes_def fun_eq_iff unat_eq_0)

lemma store_bytes_Cons:
  assumes "length bs < 2 ^ 64"
  shows "store_bytes m a (b # bs) = store_bytes (m(a := b)) (a + 1) bs"
  using store_bytes_append [of "[b]" bs m a] assms by (simp add: store_bytes_single)

lemma store_bytes_snoc:
  assumes "length bs < 2 ^ 64"
  shows "store_bytes m a (bs @ [b]) = (store_bytes m a bs)(a + of_nat (length bs) := b)"
  using store_bytes_append [of bs "[b]" m a] assms by (simp add: store_bytes_single)

lemma memset_from_eq:
  "i \<le> n \<Longrightarrow> n < 2 ^ 64 \<Longrightarrow>
   memset_from m d c i n = store_bytes m (d + of_nat i) (replicate (n - i) c)"
proof (induction m d c i n rule: memset_from.induct)
  case (1 m d c i n)
  show ?case
  proof (cases "i < n")
    case True
    then have "n - i = Suc (n - Suc i)" by simp
    then have "store_bytes m (d + of_nat i) (replicate (n - i) c) =
        store_bytes (m(d + of_nat i := c)) (d + of_nat (Suc i)) (replicate (n - Suc i) c)"
      using "1.prems" by (simp add: store_bytes_Cons add.commute add.left_commute)
    also have "\<dots> = memset_from (m(d + of_nat i := c)) d c (Suc i) n"
      using True "1.prems" by (intro "1.IH" [symmetric]) simp_all
    finally show ?thesis
      using True by (simp add: memset_from.simps [of m])
  next
    case False
    with 1 show ?thesis by (subst memset_from.simps) simp
  qed
qed

lemma unat_u32_less: "unat (n :: u32) < 2 ^ 64"
  using unsigned_less [of n, where 'a = nat] by simp

lemma memset_eq: "memset m dst c n = store_bytes m dst (replicate (unat n) (word_of_int c))"
  by (simp add: memset_def memset_from_eq [OF _ unat_u32_less])

lemma load_bytes_Suc: "load_bytes m a (Suc n) = m a # load_bytes m (a + 1) n"
  using load_bytes_append [of m a 1 n] by (simp add: load_bytes_def)

lemma load_bytes_Suc_end: "load_bytes m a (Suc n) = load_bytes m a n @ [m (a + of_nat n)]"
  using load_bytes_append [of m a n 1] by (simp add: load_bytes_def)

lemma load_bytes_upd_outside:
  "(\<And>i. i < n \<Longrightarrow> a + of_nat i \<noteq> x) \<Longrightarrow> load_bytes (m(x := v)) a n = load_bytes m a n"
  by (simp add: load_bytes_def)

text \<open>Copying upwards is right when no byte is overwritten before it is read.\<close>

lemma copy_up_eq:
  assumes "n < 2 ^ 64" and "\<And>i j. i < j \<Longrightarrow> j < n \<Longrightarrow> s + of_nat j \<noteq> d + of_nat i"
  shows "copy_up m d s n = store_bytes m d (load_bytes m s n)"
  using assms
proof (induction n arbitrary: m d s)
  case 0
  show ?case by (simp add: load_bytes_def)
next
  case (Suc n)
  have reads: "load_bytes (m(d := m s)) (s + 1) n = load_bytes m (s + 1) n"
    using Suc.prems(2) [of 0 "Suc _"] by (intro load_bytes_upd_outside) (simp add: add.assoc)
  have "copy_up (m(d := m s)) (d + 1) (s + 1) n =
      store_bytes (m(d := m s)) (d + 1) (load_bytes (m(d := m s)) (s + 1) n)"
  proof (rule Suc.IH)
    show "n < 2 ^ 64" using Suc.prems(1) by simp
    show "s + 1 + of_nat j \<noteq> d + 1 + of_nat i" if "i < j" "j < n" for i j
      using Suc.prems(2) [of "Suc i" "Suc j"] that by (simp add: algebra_simps)
  qed
  then show ?case
    using Suc.prems(1) by (simp add: reads load_bytes_Suc store_bytes_Cons)
qed

lemma store_bytes_upd:
  assumes "\<not> unat (x - a) < length bs"
  shows "store_bytes (m(x := v)) a bs = (store_bytes m a bs)(x := v)"
  using assms by (auto simp: store_bytes_def)

text \<open>Copying downwards is right when no byte is overwritten before it is read.\<close>

lemma copy_down_eq:
  assumes "n < 2 ^ 64" and "\<And>i j. i < j \<Longrightarrow> j < n \<Longrightarrow> s + of_nat i \<noteq> d + of_nat j"
  shows "copy_down m (d + of_nat n) (s + of_nat n) n = store_bytes m d (load_bytes m s n)"
  using assms
proof (induction n arbitrary: m)
  case 0
  show ?case by (simp add: load_bytes_def)
next
  case (Suc n)
  define m' where "m' = m(d + of_nat n := m (s + of_nat n))"
  have reads: "load_bytes m' s n = load_bytes m s n"
    unfolding m'_def using Suc.prems(2) [of _ n] by (intro load_bytes_upd_outside) simp
  have "copy_down m (d + of_nat (Suc n)) (s + of_nat (Suc n)) (Suc n) =
      copy_down m' (d + of_nat n) (s + of_nat n) n"
    by (simp add: m'_def algebra_simps)
  also have "\<dots> = store_bytes m' d (load_bytes m' s n)"
    using Suc.prems by (intro Suc.IH) simp_all
  also have "\<dots> = store_bytes m' d (load_bytes m s n)"
    by (simp only: reads)
  also have "\<dots> = (store_bytes m d (load_bytes m s n))(d + of_nat n := m (s + of_nat n))"
    unfolding m'_def using Suc.prems(1) by (intro store_bytes_upd) (simp add: unat_of_nat_u64)
  also have "\<dots> = store_bytes m d (load_bytes m s (Suc n))"
    using Suc.prems(1) by (simp add: load_bytes_Suc_end store_bytes_snoc)
  finally show ?case .
qed

lemma unat_offset:
  fixes a :: u64
  assumes "unat a + i < 2 ^ 64"
  shows "unat (a + of_nat i) = unat a + i"
  using assms by (simp add: unat_word_ariths unat_of_nat_u64)

lemma offset_eq_iff:
  fixes a b :: u64
  assumes "unat a + i < 2 ^ 64" and "unat b + j < 2 ^ 64"
  shows "a + of_nat i = b + of_nat j \<longleftrightarrow> unat a + i = unat b + j"
  using unat_offset [OF assms(1)] unat_offset [OF assms(2)] by (metis word_unat_eq_iff)

lemma memmove_eq:
  assumes "unat src + unat n < 2 ^ 64" and "unat dst + unat n \<le> 2 ^ 64"
  shows "memmove m dst src n = store_bytes m dst (load_bytes m src (unat n))"
proof -
  have cast: "(ucast n :: u64) = of_nat (unat n)"
    by simp
  have send: "unat (src + ucast n) = unat src + unat n"
    unfolding cast using assms(1) by (rule unat_offset)
  consider (zero) "n = 0" | (down) "n \<noteq> 0" "src < dst" "src + ucast n > dst"
    | (up) "n \<noteq> 0" "\<not> (src < dst \<and> src + ucast n > dst)"
    by blast
  then show ?thesis
  proof cases
    case zero
    then show ?thesis by (simp add: memmove_def load_bytes_def)
  next
    case down
    have "src + of_nat i \<noteq> dst + of_nat j" if "i < j" "j < unat n" for i j
    proof
      assume "src + of_nat i = dst + of_nat j"
      then have "unat src + i = unat dst + j"
        using assms that by (simp add: offset_eq_iff)
      with that down show False by (simp add: word_less_nat_alt)
    qed
    with down show ?thesis
      unfolding memmove_def cast by (subst copy_down_eq [OF unat_u32_less]) simp_all
  next
    case up
    have "src + of_nat j \<noteq> dst + of_nat i" if "i < j" "j < unat n" for i j
    proof
      assume "src + of_nat j = dst + of_nat i"
      then have "unat src + j = unat dst + i"
        using assms that by (simp add: offset_eq_iff)
      with that up send show False by (auto simp: word_less_nat_alt)
    qed
    then have "copy_up m dst src (unat n) = store_bytes m dst (load_bytes m src (unat n))"
      by (rule copy_up_eq [OF unat_u32_less])
    with up show ?thesis by (auto simp: memmove_def)
  qed
qed

subsection \<open>String routines\<close>

lemma memcmp_eq_0_iff: "memcmp s1 s2 n = 0 \<longleftrightarrow> (\<forall>i < n. s1 i = s2 i)"
proof (induction n arbitrary: s1 s2)
  case 0
  show ?case by simp
next
  case (Suc n)
  then show ?case by (auto simp: less_Suc_eq_0_disj dest: unsigned_word_eqI)
qed

lemma strncmp_eq_0_iff: "strncmp p q n = 0 \<longleftrightarrow> cstr p n = cstr q n"
  by (induction p q n rule: strncmp.induct) (auto simp: cstr_Suc unsigned_eq_0_iff dest: unsigned_word_eqI)

lemma strncpy_copy_spec:
  "strncpy_copy t n = (bs, k) \<Longrightarrow>
   length bs + k = n \<and> bs @ replicate k 0 = cstr t n @ replicate (n - length (cstr t n)) 0"
proof (induction t n arbitrary: bs k rule: strncpy_copy.induct)
  case (1 t)
  then show ?case by simp
next
  case (2 t n)
  show ?case
  proof (cases "t 0 = 0")
    case True
    with 2 show ?thesis by (auto simp: cstr_Suc)
  next
    case False
    with "2.prems" obtain cs where "strncpy_copy (advance t) n = (cs, k)" "bs = t 0 # cs"
      by (auto split: prod.splits)
    with "2.IH" [OF False] False show ?thesis by (auto simp: cstr_Suc)
  qed
qed

lemma strncpy_eq:
  "strncpy s t (int n) = (cstr t n @ replicate (n - length (cstr t n)) 0) @ drop n s"
proof -
  obtain bs k where split: "strncpy_copy t n = (bs, k)" by fastforce
  have "length (bs @ replicate k 0) = n"
    using strncpy_copy_spec [OF split, THEN conjunct1] by simp
  with split show ?thesis
    using strncpy_copy_spec [OF split] length_cstr [of t n] by (simp add: strncpy_def overwrite_def)
qed

lemma safestrcpy_copy_eq:
  "safestrcpy_copy t n = cstr t n @ (if length (cstr t n) < n then [0] else [])"
  by (induction t n rule: safestrcpy_copy.induct) (auto simp: cstr_Suc)

lemma cstr_append_nul:
  assumes "0 \<notin> set bs"
  shows "cstr ((!) (bs @ 0 # cs)) (Suc (length bs + k)) = bs"
proof -
  have "map ((!) (bs @ 0 # cs)) [0..<Suc (length bs + k)] =
      bs @ 0 # map ((!) (bs @ 0 # cs)) [Suc (length bs)..<Suc (length bs + k)]"
  proof -
    have "[0..<Suc (length bs + k)] =
        [0..<length bs] @ length bs # [Suc (length bs)..<Suc (length bs + k)]"
      by (metis Suc_leI add_Suc_right le_add1 less_add_Suc1 upt_add_eq_append upt_conv_Cons zero_le)
    moreover have "map ((!) (bs @ 0 # cs)) [0..<length bs] = bs"
      by (rule nth_equalityI) (auto simp: nth_append)
    ultimately show ?thesis by (simp add: nth_append)
  qed
  moreover have "\<forall>c \<in> set bs. c \<noteq> 0" using assms by auto
  ultimately show ?thesis
    by (simp add: cstr_def takeWhile_append2 del: upt_Suc)
qed

lemma zero_notin_cstr [simp]: "0 \<notin> set (cstr p n)"
  by (auto simp: cstr_def dest: set_takeWhileD)

lemma strlen_from_Some:
  "s (n + k) = 0 \<Longrightarrow> (\<And>i. i < k \<Longrightarrow> s (n + i) \<noteq> 0) \<Longrightarrow> strlen_from s n = Some (n + k)"
proof (induction k arbitrary: n)
  case 0
  then show ?case by (subst strlen_from.simps) simp
next
  case (Suc k)
  have "s n \<noteq> 0" using Suc.prems(2) [of 0] by simp
  moreover have "strlen_from s (n + 1) = Some (n + 1 + k)"
    using Suc.prems(1) Suc.prems(2) [of "Suc _"] by (intro Suc.IH) simp_all
  ultimately show ?case by (subst strlen_from.simps) simp
qed

lemma strlen_eq_Some:
  "s k = 0 \<Longrightarrow> (\<And>i. i < k \<Longrightarrow> s i \<noteq> 0) \<Longrightarrow> strlen s = Some k"
  using strlen_from_Some [of s 0 k] by (simp add: strlen_def)

subsection \<open>What the routines guarantee\<close>

text \<open>C11. \<^verbatim>\<open>memmove\<close> copies correctly also when the two ranges overlap: afterwards the destination
  holds what the source held before, and no other byte of memory has changed.\<close>

theorem memmove_correct:
  assumes "unat src + unat n < 2 ^ 64" and "unat dst + unat n \<le> 2 ^ 64"
  shows "load_bytes (memmove m dst src n) dst (unat n) = load_bytes m src (unat n)
    \<and> (\<forall>x. \<not> unat (x - dst) < unat n \<longrightarrow> memmove m dst src n x = m x)"
  using unat_u32_less [of n]
  by (simp add: memmove_eq [OF assms] load_store_same store_bytes_outside)

theorem memmove_correct_witness:
  "load_bytes (memmove (\<lambda>a. ucast a) 0x1002 0x1000 4) 0x1002 4 = [0, 1, 2, 3]
   \<and> memmove (\<lambda>a. ucast a) 0x1002 0x1000 4 0x1006 = 6"
proof -
  have "load_bytes (\<lambda>a. ucast a) 0x1000 4 = [0, 1, 2, 3]" by code_simp
  then show ?thesis using memmove_correct [of "0x1000" 4 "0x1002" "\<lambda>a. ucast a"] by simp
qed

lemma drop_overwrite: "length bs \<le> n \<Longrightarrow> drop n (overwrite s bs) = drop n s"
  by (simp add: overwrite_def)

lemma safestrcpy_eq:
  assumes "0 < n"
  shows "safestrcpy s t (int n) =
    overwrite s (cstr t (n - 1) @ (if length (cstr t (n - 1)) < n - 1 then [0] else []) @ [0])"
  using assms by (simp add: safestrcpy_def safestrcpy_copy_eq nat_diff_distrib)

lemma strlen_iff: "strlen s = Some k \<longleftrightarrow> s k = 0 \<and> (\<forall>i < k. s i \<noteq> 0)"
proof
  assume k: "strlen s = Some k"
  have "s k = 0"
    using k unfolding strlen_def by (rule strlen_from.raw_induct [rotated]) (auto split: if_splits)
  then have l: "s (LEAST j. s j = 0) = 0" by (rule LeastI)
  have "strlen s = Some (LEAST j. s j = 0)" by (rule strlen_eq_Some [where s = s]) (rule l, rule not_less_Least)
  then have "k = (LEAST j. s j = 0)" using k by simp
  then show "s k = 0 \<and> (\<forall>i < k. s i \<noteq> 0)" using l not_less_Least by auto
qed (simp add: strlen_eq_Some)

lemma strncmp_value:
  "k < n \<Longrightarrow> (\<And>i. i < k \<Longrightarrow> p i = q i \<and> p i \<noteq> 0) \<Longrightarrow> p k \<noteq> q k \<Longrightarrow> strncmp p q n = uint (p k) - uint (q k)"
proof (induction p q n arbitrary: k rule: strncmp.induct)
  case (2 p q n)
  show ?case
  proof (cases k)
    case 0
    then show ?thesis using "2.prems"(3) by simp
  next
    case (Suc j)
    have "p 0 \<noteq> 0 \<and> p 0 = q 0" using "2.prems"(2) [of 0] Suc by auto
    moreover have "strncmp (advance p) (advance q) n = uint (advance p j) - uint (advance q j)"
      using "2.prems"(1,3) "2.prems"(2) [of "Suc _"] Suc calculation by (intro "2.IH") (metis | simp)+
    ultimately show ?thesis using Suc by auto
  qed
qed simp

text \<open>C12. The string routines: \<^verbatim>\<open>strncmp\<close> is zero exactly when the two strings, cut after
  \<open>n\<close> bytes, are equal, and otherwise the difference of the first two bytes, taken as unsigned, in
  which they differ; \<^verbatim>\<open>strncpy\<close> writes the string padded with zeros and nothing behind the
  first \<open>n\<close> bytes; \<^verbatim>\<open>safestrcpy\<close> leaves a terminated string, the longest prefix of the source
  that fits, and also keeps within \<open>n\<close> bytes; \<^verbatim>\<open>strlen\<close> returns the position of the first NUL,
  and does not return when there is none.\<close>

theorem string_routines:
  assumes "0 < n" and "n \<le> length s"
  shows "(strncmp p q n = 0 \<longleftrightarrow> cstr p n = cstr q n)
    \<and> (\<forall>k < n. (\<forall>i < k. p i = q i \<and> p i \<noteq> 0) \<and> p k \<noteq> q k \<longrightarrow> strncmp p q n = uint (p k) - uint (q k))
    \<and> take n (strncpy s t (int n)) = cstr t n @ replicate (n - length (cstr t n)) 0
    \<and> drop n (strncpy s t (int n)) = drop n s
    \<and> cstr ((!) (safestrcpy s t (int n))) n = cstr t (n - 1)
    \<and> drop n (safestrcpy s t (int n)) = drop n s
    \<and> (strlen t = Some k \<longleftrightarrow> t k = 0 \<and> (\<forall>i < k. t i \<noteq> 0))"
proof -
  let ?c = "cstr t (n - 1)"
  let ?pad = "if length ?c < n - 1 then [0] else [] :: u8 list"
  have len: "length ?c \<le> n - 1" by (rule length_cstr)
  have safe: "safestrcpy s t (int n) = ?c @ ?pad @ [0] @ drop (length (?c @ ?pad @ [0])) s"
    using safestrcpy_eq [OF assms(1)] by (simp add: overwrite_def)
  obtain cs where cs: "safestrcpy s t (int n) = ?c @ 0 # cs"
    using safe by (cases "length ?c < n - 1") auto
  have "cstr ((!) (safestrcpy s t (int n))) (Suc (length ?c + (n - 1 - length ?c))) = ?c"
    unfolding cs by (rule cstr_append_nul) simp
  then have "cstr ((!) (safestrcpy s t (int n))) n = ?c" using len assms(1) by simp
  moreover have "drop n (safestrcpy s t (int n)) = drop n s"
    unfolding safestrcpy_eq [OF assms(1)] using len assms(1) by (intro drop_overwrite) auto
  ultimately show ?thesis
    using length_cstr [of t n] by (auto simp: strncmp_eq_0_iff strncpy_eq strlen_iff intro: strncmp_value)
qed

theorem string_routines_witness:
  "strncpy [9, 9, 9, 9, 9] (\<lambda>i. [65, 66, 0, 7] ! i) 4 = [65, 66, 0, 0, 9]
   \<and> cstr ((!) (safestrcpy [9, 9, 9, 9, 9] (\<lambda>i. [65, 66, 67, 68, 0] ! i) 3)) 3 = [65, 66]
   \<and> strncmp (\<lambda>i. [65, 66, 0] ! i) (\<lambda>i. [65, 200, 0] ! i) 3 = - 134
   \<and> strlen (\<lambda>i. [65, 66, 67, 68, 0] ! i) = Some 4"
proof -
  have c: "cstr (\<lambda>i. [65, 66, 0, 7] ! i) 4 = [65, 66]" "cstr (\<lambda>i. [65, 66, 67, 68, 0] ! i) 2 = [65, 66]"
    by code_simp+
  let ?r = "strncpy [9, 9, 9, 9, 9] (\<lambda>i. [65, 66, 0, 7] ! i) 4"
  have "take 4 ?r = [65, 66, 0, 0]" "drop 4 ?r = [9]"
    using string_routines [of 4 "[9, 9, 9, 9, 9]" "\<lambda>_. 0" "\<lambda>_. 0" "\<lambda>i. [65, 66, 0, 7] ! i"]
    by (simp_all add: c numeral_2_eq_2)
  then have "?r = [65, 66, 0, 0, 9]"
    using append_take_drop_id [of 4 ?r] by simp
  moreover have "strncmp (\<lambda>i. [65, 66, 0] ! i) (\<lambda>i. [65, 200, 0] ! i) 3 = - 134"
  proof -
    have "\<forall>k < 3. (\<forall>i < k. [65, 66, 0] ! i = [65, 200, 0 :: u8] ! i \<and> [65, 66, 0 :: u8] ! i \<noteq> 0) \<and> [65, 66, 0] ! k \<noteq> [65, 200, 0 :: u8] ! k \<longrightarrow>
        strncmp (\<lambda>i. [65, 66, 0] ! i) (\<lambda>i. [65, 200, 0] ! i) 3 = uint ([65, 66, 0 :: u8] ! k) - uint ([65, 200, 0 :: u8] ! k)"
      using string_routines [of 3 "[9, 9, 9]" "\<lambda>i. [65, 66, 0] ! i" "\<lambda>i. [65, 200, 0] ! i" "\<lambda>_. 0" 0, THEN conjunct2, THEN conjunct1] by simp
    from this [THEN spec, of 1] show ?thesis by simp
  qed
  moreover have "strlen (\<lambda>i. [65, 66, 67, 68, 0] ! i) = Some 4"
  proof -
    have "[65, 66, 67, 68, 0 :: u8] ! 4 = 0 \<and> (\<forall>i < 4. [65, 66, 67, 68, 0 :: u8] ! i \<noteq> 0)" by code_simp
    then show ?thesis
      using string_routines [of 3 "[9, 9, 9]" "\<lambda>_. 0" "\<lambda>_. 0" "\<lambda>i. [65, 66, 67, 68, 0] ! i" 4,
        THEN conjunct2, THEN conjunct2, THEN conjunct2, THEN conjunct2, THEN conjunct2, THEN conjunct2] by simp
  qed
  ultimately show ?thesis
    using string_routines [of 3 "[9, 9, 9, 9, 9]" "\<lambda>_. 0" "\<lambda>_. 0" "\<lambda>i. [65, 66, 67, 68, 0] ! i"]
    by (simp add: c)
qed

end
