(* ===== verification/Kalloc.thy ===== *)
theory Kalloc
  imports Spinlock CString
begin

section \<open>kernel/kalloc.c: the physical page allocator\<close>

text \<open>
  The free pages form a linked list threaded through the pages themselves: the first eight bytes of
  a free page hold the address of the next one, and \<^verbatim>\<open>kmem.freelist\<close> holds the first. The
  model keeps exactly that representation in the flat physical memory. \<open>kmem_inv s ps\<close> says that
  the list spells out the distinct pages \<open>ps\<close>, all of them pages the allocator manages; the
  lemmas give the effect of \<^verbatim>\<open>kalloc\<close>, \<^verbatim>\<open>kfree\<close> and \<^verbatim>\<open>kinit\<close> on that list and
  on memory.
\<close>

record kmem_state = kbase +
  mem :: memory
  kmem_freelist :: u64

subsection \<open>The functions\<close>

definition kfree :: "u64 \<Rightarrow> ('a kmem_state_scheme, unit) kern" where
  "kfree pa =
     kbind (kget (\<lambda>s. sym_end (syms (hw s)))) (\<lambda>kend.
     if pa mod PGSIZE \<noteq> 0 \<or> pa < kend \<or> pa \<ge> PHYSTOP then kpanic ''kfree''
     else kdo (kmodify (\<lambda>s. s\<lparr>mem := memset (mem s) pa 1 (ucast PGSIZE)\<rparr>))
     (kdo (kacquire KmemLock)
     (kdo (kmodify (\<lambda>s. s\<lparr>mem := store64 (mem s) pa (kmem_freelist s)\<rparr>))
     (kdo (kmodify (\<lambda>s. s\<lparr>kmem_freelist := pa\<rparr>))
     (krelease KmemLock)))))"

text \<open>The loop of \<^verbatim>\<open>freerange\<close>. Its pointer stepping past the end of the address space is
  undefined in C.\<close>

function freerange_from :: "u64 \<Rightarrow> u64 \<Rightarrow> ('a kmem_state_scheme, unit) kern" where
  "freerange_from p pa_end =
     (if p + PGSIZE < p then kfault ''freerange: pointer overflow''
      else if p + PGSIZE \<le> pa_end then kdo (kfree p) (freerange_from (p + PGSIZE) pa_end)
      else kret ())"
  by pat_completeness auto

termination
proof (relation "measure (\<lambda>(p, pa_end). 2 ^ 64 - unat p)", goal_cases)
  case (2 p pa_end)
  have "p + PGSIZE \<noteq> p" by (simp add: PGSIZE_def)
  with 2(1) have "unat p < unat (p + PGSIZE)"
    by (metis not_less order_less_le word_less_nat_alt)
  moreover have "unat p < 2 ^ 64" using unsigned_less [of p, where 'a = nat] by simp
  ultimately show ?case unfolding in_measure prod.case by (rule diff_less_mono2)
qed (rule wf_measure)

definition freerange :: "u64 \<Rightarrow> u64 \<Rightarrow> ('a kmem_state_scheme, unit) kern" where
  "freerange pa_start pa_end = freerange_from (PGROUNDUP pa_start) pa_end"

definition kinit :: "('a kmem_state_scheme, unit) kern" where
  "kinit =
     kdo (kinitlock KmemLock ''kmem'')
     (kbind (kget (\<lambda>s. sym_end (syms (hw s)))) (\<lambda>kend. freerange kend PHYSTOP))"

definition kalloc :: "('a kmem_state_scheme, u64) kern" where
  "kalloc =
     kdo (kacquire KmemLock)
     (kbind (kget kmem_freelist) (\<lambda>r.
     kdo (kwhen (r \<noteq> 0) (kmodify (\<lambda>s. s\<lparr>kmem_freelist := load64 (mem s) r\<rparr>)))
     (kdo (krelease KmemLock)
     (kdo (kwhen (r \<noteq> 0) (kmodify (\<lambda>s. s\<lparr>mem := memset (mem s) r 5 (ucast PGSIZE)\<rparr>)))
     (kret r)))))"

declare freerange_from.simps [simp del]

subsection \<open>The invariant of the free list\<close>

fun free_path :: "memory \<Rightarrow> u64 \<Rightarrow> u64 list \<Rightarrow> bool" where
  "free_path m p [] \<longleftrightarrow> p = 0"
| "free_path m p (q # qs) \<longleftrightarrow> p = q \<and> q \<noteq> 0 \<and> free_path m (load64 m q) qs"

definition managed :: "'a kbase_scheme \<Rightarrow> u64 \<Rightarrow> bool" where
  "managed s p \<longleftrightarrow> page_aligned p \<and> sym_end (syms (hw s)) \<le> p \<and> p < PHYSTOP \<and> p \<noteq> 0"

definition kmem_inv :: "'a kmem_state_scheme \<Rightarrow> u64 list \<Rightarrow> bool" where
  "kmem_inv s ps \<longleftrightarrow>
     free_path (mem s) (kmem_freelist s) ps \<and> distinct ps \<and> (\<forall>p \<in> set ps. managed s p)"

text \<open>Filling a page with one byte value.\<close>

definition fill_page :: "memory \<Rightarrow> u64 \<Rightarrow> u8 \<Rightarrow> memory" where
  "fill_page m p b = store_bytes m p (replicate 4096 b)"

lemma memset_page: "memset m p c (ucast PGSIZE) = fill_page m p (word_of_int c)"
proof -
  have "unat (ucast PGSIZE :: u32) = 4096" by (simp add: PGSIZE_def)
  then show ?thesis by (simp add: memset_eq fill_page_def)
qed

lemma fill_page_inside: "page_aligned p \<Longrightarrow> PGROUNDDOWN x = p \<Longrightarrow> fill_page m p b x = b"
  using in_page [of p x] by (simp add: fill_page_def store_bytes_def)

lemma fill_page_outside: "page_aligned p \<Longrightarrow> PGROUNDDOWN x \<noteq> p \<Longrightarrow> fill_page m p b x = m x"
  using in_page [of p x] by (simp add: fill_page_def store_bytes_def)

lemma store64_outside_page:
  "page_aligned p \<Longrightarrow> PGROUNDDOWN x \<noteq> p \<Longrightarrow> store64 m p v x = m x"
  using in_page [of p x] by (simp add: store64_def store_bytes_def)

lemma page_writes_elsewhere:
  assumes "page_aligned p" "PGROUNDDOWN x \<in> A" "p \<notin> A"
  shows "fill_page m p b x = m x" and "store64 m p v x = m x"
proof -
  have "PGROUNDDOWN x \<noteq> p" using assms(2,3) by auto
  with assms(1) show "fill_page m p b x = m x" "store64 m p v x = m x"
    by (simp_all add: fill_page_outside store64_outside_page)
qed

lemma page_offset_bound:
  assumes "page_aligned p" and "i < 4096"
  shows "PGROUNDDOWN (p + of_nat i) = p"
proof -
  have "unat (p + of_nat i - p) = i" using assms(2) by (simp add: unat_of_nat_u64)
  then show ?thesis using assms in_page [of p "p + of_nat i"] by simp
qed

lemma load64_page_cong:
  assumes "page_aligned p" and "\<And>x. PGROUNDDOWN x = p \<Longrightarrow> m x = n x"
  shows "load64 m p = load64 n p"
proof -
  have "load_bytes m p 8 = load_bytes n p 8"
    by (rule nth_equalityI) (simp_all add: assms(2) page_offset_bound [OF assms(1)])
  then show ?thesis by (simp add: load64_def)
qed

lemma free_path_cong:
  assumes "\<And>x. PGROUNDDOWN x \<in> set ps \<Longrightarrow> m x = n x" and "\<forall>q \<in> set ps. page_aligned q"
  shows "free_path m p ps = free_path n p ps"
  using assms
proof (induction ps arbitrary: p)
  case (Cons q qs)
  have "load64 m q = load64 n q"
    by (rule load64_page_cong) (use Cons.prems in simp_all)
  moreover have "free_path m r qs = free_path n r qs" for r
    by (rule Cons.IH) (use Cons.prems in simp_all)
  ultimately show ?case by (simp cong: conj_cong)
qed simp

subsection \<open>What the functions do\<close>

text \<open>\<^verbatim>\<open>kfree\<close> refuses an address that is not one of the pages it manages, and otherwise
  pushes the page on the list.\<close>

lemma kfree_panics: "\<not> managed s pa \<Longrightarrow> pa \<noteq> 0 \<Longrightarrow> kfree pa s = Panicked ''kfree''"
  by (auto simp: kfree_def managed_def kern_run page_aligned_def not_less not_le)

lemma kfree_Done:
  assumes "managed s pa" and "can_lock KmemLock s"
  shows "kfree pa s = Done () (s\<lparr>hw := settle (hw s),
     mem := store64 (fill_page (mem s) pa 1) pa (kmem_freelist s), kmem_freelist := pa\<rparr>)"
  using assms by (simp add: kfree_def managed_def page_aligned_def not_less not_le kern_run memset_page)

lemma kfree_inv:
  assumes "kmem_inv s ps" and "managed s pa" and "pa \<notin> set ps"
    and "syms (hw t) = syms (hw s)"
    and "mem t = store64 (fill_page (mem s) pa 1) pa (kmem_freelist s)" and "kmem_freelist t = pa"
  shows "kmem_inv t (pa # ps)"
proof -
  have "free_path (mem t) (kmem_freelist s) ps = free_path (mem s) (kmem_freelist s) ps"
    using assms page_writes_elsewhere [of pa _ "set ps"]
    by (intro free_path_cong) (auto simp: kmem_inv_def managed_def)
  then show ?thesis
    using assms by (auto simp: kmem_inv_def managed_def)
qed

lemma kalloc_Nil:
  assumes "kmem_inv s []" and "can_lock KmemLock s"
  shows "kalloc s = Done 0 (s\<lparr>hw := settle (hw s)\<rparr>)"
  using assms by (simp add: kalloc_def kmem_inv_def kern_run)

lemma kalloc_Cons:
  assumes "kmem_inv s (p # ps)" and "can_lock KmemLock s"
  shows "kalloc s = Done p (s\<lparr>kmem_freelist := load64 (mem s) p, hw := settle (hw s),
     mem := fill_page (mem s) p 5\<rparr>)"
  using assms by (auto simp: kalloc_def kmem_inv_def kern_run memset_page)

lemma kmem_invD:
  assumes "kmem_inv s (p # ps)"
  shows "page_aligned p" "p \<notin> set ps" "p \<noteq> 0" "managed s p" "kmem_freelist s = p"
    "free_path (mem s) (load64 (mem s) p) ps" "distinct ps" "\<forall>q \<in> set ps. managed s q"
  using assms by (simp_all add: kmem_inv_def managed_def)

lemma kmem_inv_aligned: "kmem_inv s ps \<Longrightarrow> \<forall>q \<in> set ps. page_aligned q"
  by (simp add: kmem_inv_def managed_def)

lemma kalloc_inv:
  assumes inv: "kmem_inv s (p # ps)" and "syms (hw t) = syms (hw s)"
    and mem: "mem t = fill_page (mem s) p 5" and "kmem_freelist t = load64 (mem s) p"
  shows "kmem_inv t ps"
proof -
  note h = kmem_invD [OF inv]
  have "free_path (mem t) (load64 (mem s) p) ps = free_path (mem s) (load64 (mem s) p) ps"
    unfolding mem
    by (rule free_path_cong) (use h(1,2,8) page_writes_elsewhere [of p _ "set ps"] in \<open>auto simp: managed_def\<close>)
  then show ?thesis
    using h assms(2,4) by (simp add: kmem_inv_def managed_def)
qed

text \<open>Memory that belongs to no free page can change freely.\<close>

lemma kmem_inv_frame:
  assumes inv: "kmem_inv s ps" and "syms (hw t) = syms (hw s)" "kmem_freelist t = kmem_freelist s"
    and same: "\<And>x. PGROUNDDOWN x \<in> set ps \<Longrightarrow> mem t x = mem s x"
  shows "kmem_inv t ps"
proof -
  have "free_path (mem t) (kmem_freelist s) ps = free_path (mem s) (kmem_freelist s) ps"
    by (rule free_path_cong [OF same kmem_inv_aligned [OF inv]])
  then show ?thesis
    using inv assms(2,3) by (simp add: kmem_inv_def managed_def)
qed

subsection \<open>Building the free list\<close>

lemma freerange_from_Done:
  assumes "kmem_inv s ps" "can_lock KmemLock s" "page_aligned p" "p \<le> PHYSTOP" "p \<noteq> 0"
    "sym_end (syms (hw s)) \<le> p" "\<forall>q \<in> set ps. q < p"
  shows "wp (freerange_from p PHYSTOP) (\<lambda>_ t. \<exists>qs. kmem_inv t qs \<and> syms (hw t) = syms (hw s) \<and>
    set qs = set ps \<union> {q. page_aligned q \<and> p \<le> q \<and> q < PHYSTOP}) s"
  using assms
proof (induction "unat PHYSTOP - unat p" arbitrary: p s ps rule: less_induct)
  case less
  show ?case
  proof (cases "p < PHYSTOP")
    case True
    note up = aligned_next [OF less.prems(3) page_aligned_PHYSTOP True]
    have free: "managed s p"
      using less.prems True by (simp add: managed_def)
    define t where "t = s\<lparr>hw := settle (hw s),
      mem := store64 (fill_page (mem s) p 1) p (kmem_freelist s), kmem_freelist := p\<rparr>"
    have inv: "kmem_inv t (p # ps)"
      using less.prems free by (intro kfree_inv [of s ps p]) (auto simp: t_def)
    have "wp (freerange_from (p + PGSIZE) PHYSTOP) (\<lambda>_ u. \<exists>qs. kmem_inv u qs \<and>
        syms (hw u) = syms (hw t) \<and>
        set qs = set (p # ps) \<union> {q. page_aligned q \<and> p + PGSIZE \<le> q \<and> q < PHYSTOP}) t"
    proof (rule less.hyps [OF _ inv])
      show "unat PHYSTOP - unat (p + PGSIZE) < unat PHYSTOP - unat p"
        using up True by (simp add: word_less_nat_alt)
      show "can_lock KmemLock t" "sym_end (syms (hw t)) \<le> p + PGSIZE" "p + PGSIZE \<noteq> 0"
        "\<forall>q \<in> set (p # ps). q < p + PGSIZE"
        using less.prems up by (auto simp: t_def)
    qed (use up in simp_all)
    moreover have "{q. page_aligned q \<and> p \<le> q \<and> q < PHYSTOP} =
        insert p {q. page_aligned q \<and> p + PGSIZE \<le> q \<and> q < PHYSTOP}"
      using less.prems(3) True up aligned_next(1) [of p] by (auto simp: le_less)
    ultimately have "wp (freerange_from (p + PGSIZE) PHYSTOP) (\<lambda>_ u. \<exists>qs. kmem_inv u qs \<and>
        syms (hw u) = syms (hw s) \<and>
        set qs = set ps \<union> {q. page_aligned q \<and> p \<le> q \<and> q < PHYSTOP}) t"
      by (simp add: t_def)
    then show ?thesis
      using up kfree_Done [OF free less.prems(2)]
      by (subst freerange_from.simps) (simp add: t_def wp_def not_less [THEN iffD2])
  next
    case False
    with less.prems(4) have "p = PHYSTOP" by simp
    then show ?thesis
      using less.prems by (subst freerange_from.simps) (auto simp: wp_simps layout_defs)
  qed
qed

text \<open>C4. On a kernel image whose end lies below \<^verbatim>\<open>PHYSTOP\<close>, with the zeroed free-list head of
  the data segment, \<^verbatim>\<open>kinit\<close> returns and leaves a well-formed free list that holds exactly
  the whole pages between the end of the kernel and \<^verbatim>\<open>PHYSTOP\<close>, each of them once.\<close>

theorem kinit_frees_all:
  assumes "kmem_freelist s = 0" "cpu_ok (hw s)" "sym_end (syms (hw s)) \<noteq> 0"
    "sym_end (syms (hw s)) \<le> PHYSTOP"
  shows "\<exists>t ps. kinit s = Done () t \<and> kmem_inv t ps \<and> distinct ps \<and>
    set ps = {q. page_aligned q \<and> sym_end (syms (hw s)) \<le> q \<and> q < PHYSTOP}"
proof -
  let ?e = "sym_end (syms (hw s))"
  define t where "t = s\<lparr>hw := upd_lock KmemLock
    (\<lambda>k. k\<lparr>lk_name := ''kmem'', locked := 0, lk_cpu := None\<rparr>) (hw s)\<rparr>"
  have init: "kinitlock KmemLock ''kmem'' s = Done () t"
    by (simp add: kinitlock_def lift_hw_def initlock_def kmodify_def t_def)
  have small: "unat ?e + 4095 < 2 ^ 64"
    using assms(4) by (simp add: word_le_nat_alt layout_defs)
  have ge: "?e \<le> PGROUNDUP ?e" "PGROUNDUP ?e \<le> PHYSTOP" "PGROUNDUP ?e \<noteq> 0"
    using assms(3,4) PGROUNDUP_le_iff [OF small, of "PGROUNDUP ?e"]
      PGROUNDUP_le_iff [OF small, of PHYSTOP] by (auto simp: word_le_nat_alt unat_eq_0)
  have "wp (freerange_from (PGROUNDUP ?e) PHYSTOP) (\<lambda>_ u. \<exists>qs. kmem_inv u qs \<and>
      syms (hw u) = syms (hw t) \<and>
      set qs = set [] \<union> {q. page_aligned q \<and> PGROUNDUP ?e \<le> q \<and> q < PHYSTOP}) t"
    using assms ge
    by (intro freerange_from_Done)
      (auto simp: t_def kmem_inv_def lock_free_def cpu_ok_def upd_lock_def machine_defs csr_defs)
  moreover have "{q. page_aligned q \<and> PGROUNDUP ?e \<le> q \<and> q < PHYSTOP} =
      {q. page_aligned q \<and> ?e \<le> q \<and> q < PHYSTOP}"
    using PGROUNDUP_le_iff [OF small] by auto
  moreover have "syms (hw t) = syms (hw s)"
    by (simp add: t_def upd_lock_def)
  ultimately show ?thesis
    by (auto simp: wp_iff kinit_def init freerange_def kern_run kmem_inv_def)
qed

text \<open>A kernel of 132 KiB loaded at \<^verbatim>\<open>KERNBASE\<close>, before \<^verbatim>\<open>kinit\<close>.\<close>

definition boot_kmem :: kmem_state where
  "boot_kmem = \<lparr>hw = zero_machine\<lparr>syms := zero_symbols\<lparr>sym_end := 0x80021000\<rparr>\<rparr>, mem = (\<lambda>_. 0),
     kmem_freelist = 0\<rparr>"

lemma boot_kmem_simps [simp]:
  "kmem_freelist boot_kmem = 0" "cpu_ok (hw boot_kmem)" "sym_end (syms (hw boot_kmem)) = 0x80021000"
  "lock_free l (hw boot_kmem)" "mem boot_kmem = (\<lambda>_. 0)"
  by (simp_all add: boot_kmem_def zero_machine_def cpu_ok_def machine_defs zero_symbols_def
      lock_free_def)

theorem kinit_frees_all_witness:
  "kmem_freelist boot_kmem = 0 \<and> cpu_ok (hw boot_kmem) \<and> sym_end (syms (hw boot_kmem)) = 0x80021000 \<and>
   (\<exists>t ps. kinit boot_kmem = Done () t \<and> kmem_inv t ps \<and> 0x87FFF000 \<in> set ps)"
proof -
  have "page_aligned 0x87FFF000" by (simp add: page_aligned_unat)
  with kinit_frees_all [of boot_kmem] show ?thesis
    by (force simp: layout_defs)
qed

subsection \<open>The allocator as a set of pages\<close>

text \<open>
  What the clients of the allocator rely on: allocation takes a page out of a set of free pages, or
  reports that the set is empty, and freeing puts a page back. \<open>alloc_list\<close> asks for a number of
  pages one after the other, as the loops of the callers do.
\<close>

fun alloc_list :: "('s, u64) kern \<Rightarrow> nat \<Rightarrow> ('s, u64 list) kern" where
  "alloc_list alloc 0 = kret []"
| "alloc_list alloc (Suc n) = kbind alloc (\<lambda>p. kbind (alloc_list alloc n) (\<lambda>ps. kret (p # ps)))"

locale page_allocator =
  fixes alloc :: "('s, u64) kern" and dealloc :: "u64 \<Rightarrow> ('s, unit) kern"
    and free_pages :: "'s \<Rightarrow> u64 set \<Rightarrow> bool" and owned :: "'s \<Rightarrow> u64 \<Rightarrow> bool"
  assumes alloc_some:
      "free_pages s A \<Longrightarrow> A \<noteq> {} \<Longrightarrow> wp alloc (\<lambda>p t. p \<in> A \<and> p \<noteq> 0 \<and> free_pages t (A - {p})) s"
    and alloc_none: "free_pages s {} \<Longrightarrow> wp alloc (\<lambda>p t. p = 0 \<and> free_pages t {}) s"
    and dealloc_adds: "free_pages s A \<Longrightarrow> owned s p \<Longrightarrow> p \<notin> A \<Longrightarrow>
      wp (dealloc p) (\<lambda>_ t. free_pages t (insert p A)) s"
    and finite_pages: "free_pages s A \<Longrightarrow> finite A"
begin

lemma alloc_list_distinct:
  "free_pages s A \<Longrightarrow> n \<le> card A \<Longrightarrow>
   wp (alloc_list alloc n) (\<lambda>ps t. length ps = n \<and> distinct ps \<and> set ps \<subseteq> A \<and> 0 \<notin> set ps \<and>
     free_pages t (A - set ps)) s"
proof (induction n arbitrary: s A)
  case 0
  then show ?case by (simp add: wp_simps)
next
  case (Suc n)
  have "finite A" using Suc.prems(1) by (rule finite_pages)
  with Suc.prems have "A \<noteq> {}" by auto
  from alloc_some [OF Suc.prems(1) this] obtain p t
    where p: "alloc s = Done p t" "p \<in> A" "p \<noteq> 0" "free_pages t (A - {p})"
    by (auto simp: wp_iff)
  have "n \<le> card (A - {p})" using Suc.prems p \<open>finite A\<close> by simp
  from Suc.IH [OF p(4) this] obtain ps u where "alloc_list alloc n t = Done ps u" "length ps = n"
    "distinct ps" "set ps \<subseteq> A - {p}" "0 \<notin> set ps" "free_pages u (A - {p} - set ps)"
    by (auto simp: wp_iff)
  with p show ?case
    by (auto simp: wp_iff kern_run set_diff_eq)
qed

end

definition free_pages :: "'a kmem_state_scheme \<Rightarrow> u64 set \<Rightarrow> bool" where
  "free_pages s A \<longleftrightarrow> (\<exists>ps. kmem_inv s ps \<and> set ps = A) \<and> can_lock KmemLock s"

interpretation pages: page_allocator kalloc kfree free_pages managed
proof
  fix s :: "'a kmem_state_scheme" and A p
  show "wp kalloc (\<lambda>p t. p \<in> A \<and> p \<noteq> 0 \<and> free_pages t (A - {p})) s"
    if "free_pages s A" "A \<noteq> {}"
  proof -
    from that(1) obtain qs where qs: "kmem_inv s qs" "set qs = A" and lock: "can_lock KmemLock s"
      by (auto simp: free_pages_def)
    from qs(2) that(2) obtain p ps where "qs = p # ps" by (cases qs) auto
    with qs lock have ps: "kmem_inv s (p # ps)" "set (p # ps) = A" "can_lock KmemLock s" by simp_all
    note h = kmem_invD [OF ps(1)]
    let ?t = "s\<lparr>kmem_freelist := load64 (mem s) p, hw := settle (hw s), mem := fill_page (mem s) p 5\<rparr>"
    have "kmem_inv ?t ps" by (rule kalloc_inv [OF ps(1)]) simp_all
    moreover have "A - {p} = set ps" using ps(2) h(2) by auto
    ultimately show ?thesis
      using h ps by (auto simp: wp_iff kalloc_Cons [OF ps(1,3)] free_pages_def)
  qed
  show "wp kalloc (\<lambda>p t. p = 0 \<and> free_pages t {}) s" if "free_pages s {}"
    using that by (auto simp: free_pages_def wp_iff kalloc_Nil kmem_inv_def)
  show "wp (kfree p) (\<lambda>_ t. free_pages t (insert p A)) s"
    if "free_pages s A" "managed s p" "p \<notin> A"
  proof -
    from that obtain ps where ps: "kmem_inv s ps" "set ps = A" "can_lock KmemLock s"
      by (auto simp: free_pages_def)
    let ?t = "s\<lparr>hw := settle (hw s), mem := store64 (fill_page (mem s) p 1) p (kmem_freelist s),
      kmem_freelist := p\<rparr>"
    have "kmem_inv ?t (p # ps)"
      by (rule kfree_inv [OF ps(1) that(2)]) (use ps that in simp_all)
    then show ?thesis
      using ps by (auto simp: wp_iff kfree_Done [OF that(2) ps(3)] free_pages_def intro!: exI [of _ "p # ps"])
  qed
  show "finite A" if "free_pages s A"
    using that by (auto simp: free_pages_def)
qed

text \<open>C3. On a well-formed free list \<^verbatim>\<open>kalloc\<close> returns null when the list is empty and
  otherwise unlinks the first page, fills it with the byte 5 and changes no other byte of memory;
  \<^verbatim>\<open>kfree\<close> of a managed page that is not free links it in front and changes no byte outside
  it; and \<^verbatim>\<open>kfree\<close> of any other non-null address panics.\<close>

theorem kalloc_kfree_correct:
  assumes inv: "kmem_inv s ps" and lock: "can_lock KmemLock s"
  shows "(case ps of
      [] \<Rightarrow> \<exists>t. kalloc s = Done 0 t \<and> kmem_inv t [] \<and> mem t = mem s
    | p # qs \<Rightarrow> \<exists>t. kalloc s = Done p t \<and> p \<noteq> 0 \<and> p \<notin> set qs \<and> kmem_inv t qs \<and>
        (\<forall>x. mem t x = (if PGROUNDDOWN x = p then 5 else mem s x))) \<and>
    (managed s pa \<and> pa \<notin> set ps \<longrightarrow> (\<exists>t. kfree pa s = Done () t \<and> kmem_inv t (pa # ps) \<and>
        (\<forall>x. PGROUNDDOWN x \<noteq> pa \<longrightarrow> mem t x = mem s x))) \<and>
    (pa \<noteq> 0 \<and> \<not> managed s pa \<longrightarrow> kfree pa s = Panicked ''kfree'')"
proof (intro conjI impI)
  show "case ps of
      [] \<Rightarrow> \<exists>t. kalloc s = Done 0 t \<and> kmem_inv t [] \<and> mem t = mem s
    | p # qs \<Rightarrow> \<exists>t. kalloc s = Done p t \<and> p \<noteq> 0 \<and> p \<notin> set qs \<and> kmem_inv t qs \<and>
        (\<forall>x. mem t x = (if PGROUNDDOWN x = p then 5 else mem s x))"
  proof (cases ps)
    case Nil
    with inv lock show ?thesis by (simp add: kalloc_Nil kmem_inv_def)
  next
    case (Cons p qs)
    with inv have inv': "kmem_inv s (p # qs)" by simp
    note h = kmem_invD [OF inv']
    have "kmem_inv (s\<lparr>kmem_freelist := load64 (mem s) p, hw := settle (hw s),
        mem := fill_page (mem s) p 5\<rparr>) qs"
      by (rule kalloc_inv [OF inv']) simp_all
    with h lock show ?thesis
      by (simp add: Cons kalloc_Cons [OF inv'] fill_page_inside fill_page_outside)
  qed
  assume pa: "managed s pa \<and> pa \<notin> set ps"
  have "kmem_inv (s\<lparr>hw := settle (hw s), mem := store64 (fill_page (mem s) pa 1) pa (kmem_freelist s),
      kmem_freelist := pa\<rparr>) (pa # ps)"
    by (rule kfree_inv [OF inv]) (use pa in simp_all)
  moreover have "page_aligned pa" using pa by (simp add: managed_def)
  ultimately show "\<exists>t. kfree pa s = Done () t \<and> kmem_inv t (pa # ps) \<and>
        (\<forall>x. PGROUNDDOWN x \<noteq> pa \<longrightarrow> mem t x = mem s x)"
    using pa lock by (simp add: kfree_Done store64_outside_page fill_page_outside)
qed (simp add: kfree_panics)

text \<open>A free list of two pages.\<close>

definition two_pages :: kmem_state where
  "two_pages = boot_kmem\<lparr>mem := store64 (\<lambda>_. 0) 0x80022000 0x80023000, kmem_freelist := 0x80022000\<rparr>"

lemma two_pages_inv: "kmem_inv two_pages [0x80022000, 0x80023000]"
proof -
  have al: "page_aligned 0x80022000" "page_aligned 0x80023000"
    by (simp_all add: page_aligned_unat)
  have "load64 (store64 (\<lambda>_. 0) 0x80022000 0x80023000) 0x80023000 = load64 (\<lambda>_. 0) 0x80023000"
    by (rule load64_store64_other, rule separate_pages) (use al in simp_all)
  also have "\<dots> = 0" by (simp add: load64_def load_bytes_def map_replicate_const)
  finally show ?thesis
    using al by (simp add: kmem_inv_def two_pages_def managed_def boot_kmem_def zero_symbols_def layout_defs)
qed

theorem kalloc_kfree_correct_witness:
  "kmem_inv two_pages [0x80022000, 0x80023000] \<and> can_lock KmemLock two_pages \<and>
   (\<exists>t. kalloc two_pages = Done 0x80022000 t \<and> kmem_inv t [0x80023000] \<and> mem t 0x80022FFF = 5) \<and>
   kfree 0x80022008 two_pages = Panicked ''kfree''"
proof -
  have lock: "can_lock KmemLock two_pages" by (simp add: two_pages_def)
  have "PGROUNDDOWN 0x80022FFF = 0x80022000"
    by (simp add: word_unat_eq_iff unat_PGROUNDDOWN)
  moreover have "\<not> managed two_pages 0x80022008"
    by (simp add: managed_def page_aligned_unat)
  ultimately show ?thesis
    using kalloc_kfree_correct [OF two_pages_inv lock, where pa = "0x80022008"] two_pages_inv lock by auto
qed

text \<open>C5. As long as \<open>n\<close> pages are free, \<open>n\<close> calls of \<^verbatim>\<open>kalloc\<close> in a row return \<open>n\<close>
  different non-null pages that were free, and exactly the others stay free: no page is handed out
  twice.\<close>

theorem kalloc_distinct:
  assumes "free_pages s A" and "n \<le> card A"
  shows "wp (alloc_list kalloc n) (\<lambda>ps t. length ps = n \<and> distinct ps \<and> set ps \<subseteq> A \<and> 0 \<notin> set ps \<and>
     free_pages t (A - set ps)) s"
  using assms by (rule pages.alloc_list_distinct)

theorem kalloc_distinct_witness:
  "free_pages two_pages {0x80022000, 0x80023000} \<and>
   wp (alloc_list kalloc 2) (\<lambda>ps t. length ps = 2 \<and> distinct ps \<and> free_pages t ({0x80022000, 0x80023000} - set ps))
     two_pages"
proof -
  have free: "free_pages two_pages {0x80022000, 0x80023000}"
    using two_pages_inv
    by (auto simp: free_pages_def two_pages_def intro!: exI [of _ "[0x80022000, 0x80023000]"])
  then show ?thesis
    using kalloc_distinct [OF free, where n = 2] by (auto elim: wp_mono)
qed

end
