(* ===== verification/Vm.thy ===== *)
theory Vm
  imports Kalloc
begin

section \<open>kernel/vm.c: page tables and user memory\<close>

text \<open>
  Page tables live in physical memory as the hardware reads them: a page of 512 eight-byte entries
  per node, three levels. Every function works on that representation and allocates its pages with
  \<^verbatim>\<open>kalloc\<close>. The kernel maps physical memory one to one, so a kernel pointer is a physical
  address. Where a function copies between user memory and a kernel object that is not itself in
  modelled memory (a struct on a kernel stack, the data of a buffer), the bytes of that object are
  an argument of the model or a part of its result.

  The loops recurse on the state, so that their termination can use what the loop body did:
  \<^verbatim>\<open>walk\<close> panics above \<^verbatim>\<open>MAXVA\<close>, which is what bounds them.
\<close>

record vm_state = kmem_state +
  kernel_pagetable :: u64

subsection \<open>Walking a page table\<close>

abbreviation set_mem :: "(memory \<Rightarrow> memory) \<Rightarrow> ('a kmem_state_scheme, unit) kern" where
  "set_mem f \<equiv> kmodify (\<lambda>s. s\<lparr>mem := f (mem s)\<rparr>)"

abbreviation load_word :: "u64 \<Rightarrow> ('a kmem_state_scheme, u64) kern" where
  "load_word a \<equiv> kget (\<lambda>s. load64 (mem s) a)"

fun walk_level :: "nat \<Rightarrow> u64 \<Rightarrow> u64 \<Rightarrow> bool \<Rightarrow> ('a kmem_state_scheme, u64) kern" where
  "walk_level 0 pagetable va alloc = kret (pagetable + 8 * PX 0 va)"
| "walk_level (Suc l) pagetable va alloc =
     (let ptep = pagetable + 8 * PX (Suc l) va in
      kbind (load_word ptep) (\<lambda>pte.
      if pte AND PTE_V \<noteq> 0 then walk_level l (PTE2PA pte) va alloc
      else if \<not> alloc then kret 0
      else kbind kalloc (\<lambda>pg.
        if pg = 0 then kret 0
        else kdo (set_mem (\<lambda>m. memset m pg 0 (ucast PGSIZE)))
          (kdo (set_mem (\<lambda>m. store64 m ptep (PA2PTE pg OR PTE_V)))
          (walk_level l pg va alloc)))))"

definition walk :: "u64 \<Rightarrow> u64 \<Rightarrow> bool \<Rightarrow> ('a kmem_state_scheme, u64) kern" where
  "walk pagetable va alloc =
     (if va \<ge> MAXVA then kpanic ''walk'' else walk_level 2 pagetable va alloc)"

definition walkaddr :: "u64 \<Rightarrow> u64 \<Rightarrow> ('a kmem_state_scheme, u64) kern" where
  "walkaddr pagetable va =
     (if va \<ge> MAXVA then kret 0
      else kbind (walk pagetable va False) (\<lambda>ptep.
        if ptep = 0 then kret 0
        else kbind (load_word ptep) (\<lambda>pte.
          if pte AND PTE_V = 0 then kret 0
          else if pte AND PTE_U = 0 then kret 0
          else kret (PTE2PA pte))))"

lemma walk_Done_bound: "walk pagetable va alloc s = Done p t \<Longrightarrow> va < MAXVA"
  by (simp add: walk_def kpanic_def not_le split: if_splits)

text \<open>Stepping an address below \<^verbatim>\<open>MAXVA\<close> by a page does not wrap.\<close>

lemma next_page_measure:
  "a < MAXVA \<Longrightarrow> 2 ^ 64 - unat (a + PGSIZE) < 2 ^ 64 - unat a"
proof -
  assume "a < MAXVA"
  then have a: "unat a < 2 ^ 38"
    by (simp add: MAXVA_def word_less_nat_alt push_bit_of_1)
  then have "unat (a + PGSIZE) = unat a + 4096"
    by (simp add: PGSIZE_def unat_add_lem [THEN iffD1])
  with a show ?thesis by simp
qed

subsection \<open>Installing and removing mappings\<close>

function mappages_from :: "u64 \<Rightarrow> u64 \<Rightarrow> u64 \<Rightarrow> u64 \<Rightarrow> u64 \<Rightarrow> ('a kmem_state_scheme, int) kern" where
  "mappages_from pagetable a lst pa perm s =
     kbind (walk pagetable a True) (\<lambda>ptep.
     if ptep = 0 then kret (- 1)
     else kbind (load_word ptep) (\<lambda>pte.
       if pte AND PTE_V \<noteq> 0 then kpanic ''mappages: remap''
       else kdo (set_mem (\<lambda>m. store64 m ptep (PA2PTE pa OR perm OR PTE_V)))
         (if a = lst then kret 0
          else (\<lambda>s. mappages_from pagetable (a + PGSIZE) lst (pa + PGSIZE) perm s)))) s"
  by pat_completeness auto

termination
  by (relation "measure (\<lambda>(pagetable, a, l, pa, perm, s). 2 ^ 64 - unat a)")
    (simp_all only: wf_measure in_measure prod.case next_page_measure walk_Done_bound)

definition mappages :: "u64 \<Rightarrow> u64 \<Rightarrow> u64 \<Rightarrow> u64 \<Rightarrow> u64 \<Rightarrow> ('a kmem_state_scheme, int) kern" where
  "mappages pagetable va sz pa perm =
     (if va mod PGSIZE \<noteq> 0 then kpanic ''mappages: va not aligned''
      else if sz mod PGSIZE \<noteq> 0 then kpanic ''mappages: size not aligned''
      else if sz = 0 then kpanic ''mappages: size''
      else mappages_from pagetable va (va + sz - PGSIZE) pa perm)"

declare mappages_from.simps [simp del]

lemma mappages_from_Done_bound: "mappages_from pagetable a lst pa perm s = Done r t \<Longrightarrow> a < MAXVA"
  by (subst (asm) mappages_from.simps) (auto simp: kbind_Done_iff walk_Done_bound)

lemma mappages_Done_bound: "mappages pagetable va sz pa perm s = Done r t \<Longrightarrow> va < MAXVA"
  by (auto simp: mappages_def kpanic_def mappages_from_Done_bound split: if_splits)

definition kvmmap :: "u64 \<Rightarrow> u64 \<Rightarrow> u64 \<Rightarrow> u64 \<Rightarrow> u64 \<Rightarrow> ('a kmem_state_scheme, unit) kern" where
  "kvmmap kpgtbl va pa sz perm =
     kbind (mappages kpgtbl va sz pa perm) (\<lambda>r. kwhen (r \<noteq> 0) (kpanic ''kvmmap''))"

function uvmunmap_from :: "u64 \<Rightarrow> u64 \<Rightarrow> u64 \<Rightarrow> bool \<Rightarrow> ('a kmem_state_scheme, unit) kern" where
  "uvmunmap_from pagetable a lim do_free s =
     (if a < lim then
       kbind (walk pagetable a False) (\<lambda>ptep.
       if ptep = 0 then kpanic ''uvmunmap: walk''
       else kbind (load_word ptep) (\<lambda>pte.
         if pte AND PTE_V = 0 then kpanic ''uvmunmap: not mapped''
         else if PTE_FLAGS pte = PTE_V then kpanic ''uvmunmap: not a leaf''
         else kdo (kwhen do_free (kfree (PTE2PA pte)))
           (kdo (set_mem (\<lambda>m. store64 m ptep 0))
           (\<lambda>s. uvmunmap_from pagetable (a + PGSIZE) lim do_free s)))) s
      else Done () s)"
  by pat_completeness auto

termination
  by (relation "measure (\<lambda>(pagetable, a, lim, do_free, s). 2 ^ 64 - unat a)")
    (simp_all only: wf_measure in_measure prod.case next_page_measure walk_Done_bound)

declare uvmunmap_from.simps [simp del]

definition uvmunmap :: "u64 \<Rightarrow> u64 \<Rightarrow> u64 \<Rightarrow> bool \<Rightarrow> ('a kmem_state_scheme, unit) kern" where
  "uvmunmap pagetable va npages do_free =
     (if va mod PGSIZE \<noteq> 0 then kpanic ''uvmunmap: not aligned''
      else uvmunmap_from pagetable va (va + npages * PGSIZE) do_free)"

subsection \<open>The kernel page table\<close>

text \<open>\<^verbatim>\<open>proc_mapstacks\<close> is in \<^verbatim>\<open>kernel/proc.c\<close>; it uses nothing of processes but their
  number.\<close>

definition proc_mapstacks :: "u64 \<Rightarrow> ('a kmem_state_scheme, unit) kern" where
  "proc_mapstacks kpgtbl =
     kfor [0..<NPROC] (\<lambda>i.
       kbind kalloc (\<lambda>pa.
       if pa = 0 then kpanic ''kalloc''
       else kvmmap kpgtbl (KSTACK i) pa PGSIZE (PTE_R OR PTE_W)))"

definition kvmmake :: "('a kmem_state_scheme, u64) kern" where
  "kvmmake =
     kbind kalloc (\<lambda>kpgtbl.
     if kpgtbl = 0 then kfault ''memset of a null page table''
     else kdo (set_mem (\<lambda>m. memset m kpgtbl 0 (ucast PGSIZE)))
     (kdo (kvmmap kpgtbl UART0 UART0 PGSIZE (PTE_R OR PTE_W))
     (kdo (kvmmap kpgtbl VIRTIO0 VIRTIO0 PGSIZE (PTE_R OR PTE_W))
     (kdo (kvmmap kpgtbl PLIC PLIC 0x4000000 (PTE_R OR PTE_W))
     (kbind (kget (\<lambda>s. sym_etext (syms (hw s)))) (\<lambda>etext.
     kbind (kget (\<lambda>s. sym_trampoline (syms (hw s)))) (\<lambda>tramp.
     kdo (kvmmap kpgtbl KERNBASE KERNBASE (etext - KERNBASE) (PTE_R OR PTE_X))
     (kdo (kvmmap kpgtbl etext etext (PHYSTOP - etext) (PTE_R OR PTE_W))
     (kdo (kvmmap kpgtbl TRAMPOLINE tramp PGSIZE (PTE_R OR PTE_X))
     (kdo (proc_mapstacks kpgtbl)
     (kret kpgtbl)))))))))))"

definition kvminit :: "('a vm_state_scheme, unit) kern" where
  "kvminit = kbind kvmmake (\<lambda>pt. kmodify (\<lambda>s. s\<lparr>kernel_pagetable := pt\<rparr>))"

text \<open>\<^verbatim>\<open>sfence_vma\<close> orders page-table writes and flushes the TLB, which the model does not
  have.\<close>

definition kvminithart :: "('a vm_state_scheme, unit) kern" where
  "kvminithart =
     kmodify (\<lambda>s. s\<lparr>hw := upd_csr (c_satp_update (\<lambda>_. MAKE_SATP (kernel_pagetable s))) (hw s)\<rparr>)"

subsection \<open>User address spaces\<close>

definition uvmcreate :: "('a kmem_state_scheme, u64) kern" where
  "uvmcreate =
     kbind kalloc (\<lambda>pagetable.
     if pagetable = 0 then kret 0
     else kdo (set_mem (\<lambda>m. memset m pagetable 0 (ucast PGSIZE))) (kret pagetable))"

definition uvmfirst :: "u64 \<Rightarrow> u8 list \<Rightarrow> ('a kmem_state_scheme, unit) kern" where
  "uvmfirst pagetable src =
     (if of_nat (length src) \<ge> PGSIZE then kpanic ''uvmfirst: more than a page''
      else kbind kalloc (\<lambda>pg.
        if pg = 0 then kfault ''memset of a null page''
        else kdo (set_mem (\<lambda>m. memset m pg 0 (ucast PGSIZE)))
        (kdo (mappages pagetable 0 PGSIZE pg (PTE_W OR PTE_R OR PTE_X OR PTE_U))
        (set_mem (\<lambda>m. store_bytes m pg src)))))"

definition uvmdealloc :: "u64 \<Rightarrow> u64 \<Rightarrow> u64 \<Rightarrow> ('a kmem_state_scheme, u64) kern" where
  "uvmdealloc pagetable oldsz newsz =
     (if newsz \<ge> oldsz then kret oldsz
      else kdo (kwhen (PGROUNDUP newsz < PGROUNDUP oldsz)
          (let npages = (ucast ((PGROUNDUP oldsz - PGROUNDUP newsz) div PGSIZE) :: 32 word)
           in uvmunmap pagetable (PGROUNDUP newsz) (scast npages) True))
        (kret newsz))"

function uvmalloc_from :: "u64 \<Rightarrow> u64 \<Rightarrow> u64 \<Rightarrow> u64 \<Rightarrow> u64 \<Rightarrow> ('a kmem_state_scheme, u64) kern" where
  "uvmalloc_from pagetable a oldsz newsz xperm s =
     (if a < newsz then
       kbind kalloc (\<lambda>pg.
       if pg = 0 then kdo (uvmdealloc pagetable a oldsz) (kret 0)
       else kdo (set_mem (\<lambda>m. memset m pg 0 (ucast PGSIZE)))
         (kbind (mappages pagetable a PGSIZE pg (PTE_R OR PTE_U OR xperm)) (\<lambda>r.
         if r \<noteq> 0 then kdo (kfree pg) (kdo (uvmdealloc pagetable a oldsz) (kret 0))
         else (\<lambda>s. uvmalloc_from pagetable (a + PGSIZE) oldsz newsz xperm s)))) s
      else Done newsz s)"
  by pat_completeness auto

termination
  by (relation "measure (\<lambda>(pagetable, a, oldsz, newsz, xperm, s). 2 ^ 64 - unat a)")
    (simp_all only: wf_measure in_measure prod.case next_page_measure mappages_Done_bound)

declare uvmalloc_from.simps [simp del]

definition uvmalloc :: "u64 \<Rightarrow> u64 \<Rightarrow> u64 \<Rightarrow> u64 \<Rightarrow> ('a kmem_state_scheme, u64) kern" where
  "uvmalloc pagetable oldsz newsz xperm =
     (if newsz < oldsz then kret oldsz
      else uvmalloc_from pagetable (PGROUNDUP oldsz) (PGROUNDUP oldsz) newsz xperm)"

text \<open>\<^verbatim>\<open>freewalk\<close> calls itself for every interior entry. Page tables are three levels deep; on
  memory that is not a page table the recursion could go deeper than the one-page kernel stack
  allows. The depth is bounded by the number of its stack frames that fit there.\<close>

fun freewalk_depth :: "nat \<Rightarrow> u64 \<Rightarrow> ('a kmem_state_scheme, unit) kern" where
  "freewalk_depth 0 pagetable = kfault ''kernel stack overflow''"
| "freewalk_depth (Suc d) pagetable =
     kdo (kfor [0..<512] (\<lambda>i.
       let ptep = pagetable + 8 * of_nat i in
       kbind (load_word ptep) (\<lambda>pte.
       if pte AND PTE_V \<noteq> 0 \<and> pte AND (PTE_R OR PTE_W OR PTE_X) = 0
       then kdo (freewalk_depth d (PTE2PA pte)) (set_mem (\<lambda>m. store64 m ptep 0))
       else kwhen (pte AND PTE_V \<noteq> 0) (kpanic ''freewalk: leaf''))))
     (kfree pagetable)"

definition freewalk :: "u64 \<Rightarrow> ('a kmem_state_scheme, unit) kern" where
  "freewalk = freewalk_depth 64"

definition uvmfree :: "u64 \<Rightarrow> u64 \<Rightarrow> ('a kmem_state_scheme, unit) kern" where
  "uvmfree pagetable sz =
     kdo (kwhen (sz > 0) (uvmunmap pagetable 0 (PGROUNDUP sz div PGSIZE) True))
     (freewalk pagetable)"

function uvmcopy_from :: "u64 \<Rightarrow> u64 \<Rightarrow> u64 \<Rightarrow> u64 \<Rightarrow> ('a kmem_state_scheme, int) kern" where
  "uvmcopy_from old new i sz s =
     (if i < sz then
       kbind (walk old i False) (\<lambda>ptep.
       if ptep = 0 then kpanic ''uvmcopy: pte should exist''
       else kbind (load_word ptep) (\<lambda>pte.
         if pte AND PTE_V = 0 then kpanic ''uvmcopy: page not present''
         else kbind kalloc (\<lambda>pg.
           if pg = 0 then kdo (uvmunmap new 0 (i div PGSIZE) True) (kret (- 1))
           else kdo (set_mem (\<lambda>m. memmove m pg (PTE2PA pte) (ucast PGSIZE)))
             (kbind (mappages new i PGSIZE pg (PTE_FLAGS pte)) (\<lambda>r.
             if r \<noteq> 0
             then kdo (kfree pg) (kdo (uvmunmap new 0 (i div PGSIZE) True) (kret (- 1)))
             else (\<lambda>s. uvmcopy_from old new (i + PGSIZE) sz s)))))) s
      else Done 0 s)"
  by pat_completeness auto

termination
  by (relation "measure (\<lambda>(old, new, i, sz, s). 2 ^ 64 - unat i)")
    (simp_all only: wf_measure in_measure prod.case next_page_measure mappages_Done_bound)

declare uvmcopy_from.simps [simp del]

definition uvmcopy :: "u64 \<Rightarrow> u64 \<Rightarrow> u64 \<Rightarrow> ('a kmem_state_scheme, int) kern" where
  "uvmcopy old new sz = uvmcopy_from old new 0 sz"

definition uvmclear :: "u64 \<Rightarrow> u64 \<Rightarrow> ('a kmem_state_scheme, unit) kern" where
  "uvmclear pagetable va =
     kbind (walk pagetable va False) (\<lambda>ptep.
     if ptep = 0 then kpanic ''uvmclear''
     else set_mem (\<lambda>m. store64 m ptep (load64 m ptep AND NOT PTE_U)))"

subsection \<open>Copying between the kernel and user memory\<close>

text \<open>The arguments \<^verbatim>\<open>src\<close> and \<^verbatim>\<open>len\<close> of \<^verbatim>\<open>copyout\<close> are the list of bytes to
  copy. \<^verbatim>\<open>copyin\<close> and \<^verbatim>\<open>copyinstr\<close> return, besides their result, the bytes they have
  written at \<^verbatim>\<open>dst\<close>.\<close>

lemma page_rest_pos: "0 < unat (PGSIZE - (a - PGROUNDDOWN a))"
  by (simp add: unat_page_rest)

function copyout :: "u64 \<Rightarrow> u64 \<Rightarrow> u8 list \<Rightarrow> ('a kmem_state_scheme, int) kern" where
  "copyout pagetable dstva src s =
     (if src = [] then Done 0 s
      else let va0 = PGROUNDDOWN dstva in
      if va0 \<ge> MAXVA then Done (- 1) s
      else kbind (walk pagetable va0 False) (\<lambda>ptep.
        kbind (load_word ptep) (\<lambda>pte.
        if ptep = 0 \<or> pte AND PTE_V = 0 \<or> pte AND PTE_U = 0 \<or> pte AND PTE_W = 0 then kret (- 1)
        else let pa0 = PTE2PA pte; n = min (unat (PGSIZE - (dstva - va0))) (length src) in
          kdo (set_mem (\<lambda>m. store_bytes m (pa0 + (dstva - va0)) (take n src)))
          (\<lambda>s. copyout pagetable (va0 + PGSIZE) (drop n src) s))) s)"
  by pat_completeness auto

termination
  by (relation "measure (\<lambda>(pagetable, dstva, src, s). length src)")
    (auto intro!: diff_less simp: page_rest_pos)

function copyin :: "u64 \<Rightarrow> u64 \<Rightarrow> u64 \<Rightarrow> ('a kmem_state_scheme, int \<times> u8 list) kern" where
  "copyin pagetable srcva len s =
     (if len = 0 then Done (0, []) s
      else let va0 = PGROUNDDOWN srcva in
      kbind (walkaddr pagetable va0) (\<lambda>pa0.
      if pa0 = 0 then kret (- 1, [])
      else let n = min (PGSIZE - (srcva - va0)) len in
        kbind (kget (\<lambda>s. load_bytes (mem s) (pa0 + (srcva - va0)) (unat n))) (\<lambda>bs.
        kbind (\<lambda>s. copyin pagetable (va0 + PGSIZE) (len - n) s) (\<lambda>(r, bs').
        kret (r, bs @ bs')))) s)"
  by pat_completeness auto

termination
proof (relation "measure (\<lambda>(pagetable, srcva, len, s). unat len)", goal_cases)
  case (2 pagetable srcva len s va0 pa0 t n bs u)
  have "0 < n" "n \<le> len"
    using page_rest_pos [of srcva] 2 by (simp_all add: min_def word_gt_0 unat_gt_0)
  then show ?case by (simp add: unat_sub word_less_nat_alt word_le_nat_alt)
qed simp

text \<open>The inner loop of \<^verbatim>\<open>copyinstr\<close>: the bytes at \<open>p\<close>, at most \<open>n\<close> of them, up to and
  including the first null byte.\<close>

fun copy_until_null :: "memory \<Rightarrow> u64 \<Rightarrow> nat \<Rightarrow> bool \<times> u8 list" where
  "copy_until_null m p 0 = (False, [])"
| "copy_until_null m p (Suc n) =
     (if m p = 0 then (True, [0])
      else let (got_null, bs) = copy_until_null m (p + 1) n in (got_null, m p # bs))"

function copyinstr :: "u64 \<Rightarrow> u64 \<Rightarrow> u64 \<Rightarrow> ('a kmem_state_scheme, int \<times> u8 list) kern" where
  "copyinstr pagetable srcva mx s =
     (if mx = 0 then Done (- 1, []) s
      else let va0 = PGROUNDDOWN srcva in
      kbind (walkaddr pagetable va0) (\<lambda>pa0.
      if pa0 = 0 then kret (- 1, [])
      else let n = min (PGSIZE - (srcva - va0)) mx in
        kbind (kget (\<lambda>s. copy_until_null (mem s) (pa0 + (srcva - va0)) (unat n))) (\<lambda>r.
        if fst r then kret (0, snd r)
        else kbind (\<lambda>s. copyinstr pagetable (va0 + PGSIZE) (mx - n) s) (\<lambda>(c, bs').
          kret (c, snd r @ bs')))) s)"
  by pat_completeness auto

termination
proof (relation "measure (\<lambda>(pagetable, srcva, mx, s). unat mx)", goal_cases)
  case (2 pagetable srcva mx s va0 pa0 t n r u)
  have "0 < n" "n \<le> mx"
    using page_rest_pos [of srcva] 2 by (simp_all add: min_def word_gt_0 unat_gt_0)
  then show ?case by (simp add: unat_sub word_less_nat_alt word_le_nat_alt)
qed simp

declare copyout.simps [simp del] copyin.simps [simp del] copyinstr.simps [simp del]

end
