(* ===== verification/Proc.thy ===== *)
theory Proc
  imports Vm
begin

section \<open>kernel/proc.c: the process table\<close>

text \<open>
  Processes as slots of a table, their states, sleeping and waking, and the parts of a process that
  live in memory (page table, trapframe page). A kernel thread that calls \<^verbatim>\<open>sched\<close> gives up the
  CPU: the outcome \<open>Asleep\<close> carries the state it leaves behind. Where the code loops around
  \<^verbatim>\<open>sleep\<close>, the loop is a definition of its own, because it is where a thread that has been woken
  continues after \<open>sleep_resume\<close>, the part of \<^verbatim>\<open>sleep\<close> behind \<^verbatim>\<open>sched\<close>.

  \<^verbatim>\<open>fork\<close>, \<^verbatim>\<open>exit\<close> and \<^verbatim>\<open>userinit\<close> use the file system; they are in theory
  \<open>Proc_Life\<close>. Sleep-locks (\<^verbatim>\<open>kernel/sleeplock.c\<close>), which need \<^verbatim>\<open>sleep\<close> and
  \<^verbatim>\<open>wakeup\<close>, are here too.
\<close>

datatype procstate = UNUSED | USED | SLEEPING | RUNNABLE | RUNNING | ZOMBIE

record proc =
  pstate :: procstate
  pchan :: chan
  pkilled :: int
  xstate :: int
  pid :: int
  parent :: "nat option"
  kstack :: u64
  sz :: u64
  pagetable :: u64
  trapframe :: u64 \<comment> \<open>physical address of the trapframe page\<close>
  pcontext :: kcontext
  ofile :: "nat option list" \<comment> \<open>indices into the file table\<close>
  cwd :: "nat option" \<comment> \<open>index into the inode table\<close>
  pname :: "u8 list"

record sleeplock =
  sl_locked :: u32
  sl_name :: string
  sl_pid :: int

record proc_state = vm_state +
  procs :: "nat \<Rightarrow> proc"
  nextpid :: int
  initproc :: "nat option"
  ticks :: u32
  sleeplocks :: "sleepid \<Rightarrow> sleeplock"

text \<open>Byte offsets of the fields of \<^verbatim>\<open>struct trapframe\<close>.\<close>

definition TF_kernel_satp :: u64 where [layout_defs]: "TF_kernel_satp = 0"
definition TF_kernel_sp :: u64 where [layout_defs]: "TF_kernel_sp = 8"
definition TF_kernel_trap :: u64 where [layout_defs]: "TF_kernel_trap = 16"
definition TF_epc :: u64 where [layout_defs]: "TF_epc = 24"
definition TF_kernel_hartid :: u64 where [layout_defs]: "TF_kernel_hartid = 32"
definition TF_sp :: u64 where [layout_defs]: "TF_sp = 48"
definition TF_a0 :: u64 where [layout_defs]: "TF_a0 = 112"
definition TF_a1 :: u64 where [layout_defs]: "TF_a1 = 120"
definition TF_a7 :: u64 where [layout_defs]: "TF_a7 = 168"
definition sizeof_trapframe :: nat where [layout_defs]: "sizeof_trapframe = 288"

subsection \<open>Access to a slot\<close>

definition upd_proc :: "nat \<Rightarrow> (proc \<Rightarrow> proc) \<Rightarrow> ('a proc_state_scheme, unit) kern" where
  "upd_proc i f = kmodify (\<lambda>s. s\<lparr>procs := (procs s)(i := f (procs s i))\<rparr>)"

abbreviation get_proc :: "nat \<Rightarrow> (proc \<Rightarrow> 'b) \<Rightarrow> ('a proc_state_scheme, 'b) kern" where
  "get_proc i f \<equiv> kget (\<lambda>s. f (procs s i))"

definition myproc :: "('a kbase_scheme, nat option) kern" where
  "myproc =
     kdo (lift_hw push_off)
     (kbind (kget (\<lambda>s. cpu_proc (mycpu (hw s)))) (\<lambda>p.
     kdo (lift_hw pop_off)
     (kret p)))"

text \<open>Code that dereferences the result of \<^verbatim>\<open>myproc()\<close>.\<close>

definition with_myproc :: "(nat \<Rightarrow> ('a kbase_scheme, 'b) kern) \<Rightarrow> ('a kbase_scheme, 'b) kern" where
  "with_myproc f = kbind myproc (\<lambda>me. case me of None \<Rightarrow> kfault ''null process'' | Some p \<Rightarrow> f p)"

definition procinit :: "('a proc_state_scheme, unit) kern" where
  "procinit =
     kdo (kinitlock PidLock ''nextpid'')
     (kdo (kinitlock WaitLock ''wait_lock'')
     (kfor [0..<NPROC] (\<lambda>i.
       kdo (kinitlock (ProcLock i) ''proc'')
       (upd_proc i (\<lambda>p. p\<lparr>pstate := UNUSED, kstack := KSTACK i\<rparr>)))))"

definition allocpid :: "('a proc_state_scheme, int) kern" where
  "allocpid =
     kdo (kacquire PidLock)
     (kbind (kget nextpid) (\<lambda>pid.
     kdo (kmodify (\<lambda>s. s\<lparr>nextpid := nextpid s + 1\<rparr>))
     (kdo (krelease PidLock)
     (kret pid))))"

subsection \<open>Page tables of processes\<close>

definition proc_pagetable :: "nat \<Rightarrow> ('a proc_state_scheme, u64) kern" where
  "proc_pagetable i =
     kbind uvmcreate (\<lambda>pt.
     if pt = 0 then kret 0
     else kbind (kget (\<lambda>s. sym_trampoline (syms (hw s)))) (\<lambda>tramp.
     kbind (mappages pt TRAMPOLINE PGSIZE tramp (PTE_R OR PTE_X)) (\<lambda>r.
     if r < 0 then kdo (uvmfree pt 0) (kret 0)
     else kbind (get_proc i trapframe) (\<lambda>tf.
     kbind (mappages pt TRAPFRAME PGSIZE tf (PTE_R OR PTE_W)) (\<lambda>r.
     if r < 0 then kdo (uvmunmap pt TRAMPOLINE 1 False) (kdo (uvmfree pt 0) (kret 0))
     else kret pt)))))"

definition proc_freepagetable :: "u64 \<Rightarrow> u64 \<Rightarrow> ('a kmem_state_scheme, unit) kern" where
  "proc_freepagetable pt psz =
     kdo (uvmunmap pt TRAMPOLINE 1 False)
     (kdo (uvmunmap pt TRAPFRAME 1 False)
     (uvmfree pt psz))"

subsection \<open>Allocating and freeing a slot\<close>

definition freeproc :: "nat \<Rightarrow> ('a proc_state_scheme, unit) kern" where
  "freeproc i =
     kbind (get_proc i trapframe) (\<lambda>tf.
     kdo (kwhen (tf \<noteq> 0) (kfree tf))
     (kdo (upd_proc i (\<lambda>p. p\<lparr>trapframe := 0\<rparr>))
     (kbind (get_proc i pagetable) (\<lambda>pt.
     kbind (get_proc i sz) (\<lambda>psz.
     kdo (kwhen (pt \<noteq> 0) (proc_freepagetable pt psz))
     (upd_proc i (\<lambda>p. p\<lparr>pagetable := 0, sz := 0, pid := 0, parent := None,
        pname := (pname p)[0 := 0], pchan := NoChan, pkilled := 0, xstate := 0,
        pstate := UNUSED\<rparr>)))))))"

text \<open>The scan of \<^verbatim>\<open>allocproc\<close> leaves the lock of the slot it finds held.\<close>

fun find_unused :: "nat list \<Rightarrow> ('a proc_state_scheme, nat option) kern" where
  "find_unused [] = kret None"
| "find_unused (i # is) =
     kdo (kacquire (ProcLock i))
     (kbind (get_proc i pstate) (\<lambda>st.
     if st = UNUSED then kret (Some i)
     else kdo (krelease (ProcLock i)) (find_unused is)))"

definition allocproc :: "('a proc_state_scheme, nat option) kern" where
  "allocproc =
     kbind (find_unused [0..<NPROC]) (\<lambda>found.
     case found of None \<Rightarrow> kret None
     | Some i \<Rightarrow>
       kbind allocpid (\<lambda>n.
       kdo (upd_proc i (\<lambda>p. p\<lparr>pid := n, pstate := USED\<rparr>))
       (kbind kalloc (\<lambda>tf.
       kdo (upd_proc i (\<lambda>p. p\<lparr>trapframe := tf\<rparr>))
       (if tf = 0 then kdo (freeproc i) (kdo (krelease (ProcLock i)) (kret None))
        else kbind (proc_pagetable i) (\<lambda>pt.
        kdo (upd_proc i (\<lambda>p. p\<lparr>pagetable := pt\<rparr>))
        (if pt = 0 then kdo (freeproc i) (kdo (krelease (ProcLock i)) (kret None))
         else kbind (kget (\<lambda>s. sym_forkret (syms (hw s)))) (\<lambda>fr.
         kdo (upd_proc i (\<lambda>p. p\<lparr>pcontext := zero_context\<lparr>ctx_ra := fr, ctx_sp := kstack p + PGSIZE\<rparr>\<rparr>))
         (kret (Some i))))))))))"

definition growproc :: "int \<Rightarrow> ('a proc_state_scheme, int) kern" where
  "growproc n =
     with_myproc (\<lambda>p.
     kbind (get_proc p sz) (\<lambda>psz.
     kbind (get_proc p pagetable) (\<lambda>pt.
     if n > 0 then
       kbind (uvmalloc pt psz (psz + word_of_int n) PTE_W) (\<lambda>psz'.
       if psz' = 0 then kret (- 1)
       else kdo (upd_proc p (\<lambda>q. q\<lparr>sz := psz'\<rparr>)) (kret 0))
     else if n < 0 then
       kbind (uvmdealloc pt psz (psz + word_of_int n)) (\<lambda>psz'.
       kdo (upd_proc p (\<lambda>q. q\<lparr>sz := psz'\<rparr>)) (kret 0))
     else kdo (upd_proc p (\<lambda>q. q\<lparr>sz := psz\<rparr>)) (kret 0))))"

subsection \<open>Giving up the CPU\<close>

definition sched :: "('a proc_state_scheme, 'b) kern" where
  "sched =
     with_myproc (\<lambda>p.
     kbind (kget (\<lambda>s. holding (ProcLock p) (hw s))) (\<lambda>held.
     if \<not> held then kpanic ''sched p->lock''
     else kbind (kget (\<lambda>s. noff (mycpu (hw s)))) (\<lambda>n.
     if n \<noteq> 1 then kpanic ''sched locks''
     else kbind (get_proc p pstate) (\<lambda>st.
     if st = RUNNING then kpanic ''sched running''
     else kbind (kget (\<lambda>s. intr_get (hw s))) (\<lambda>on.
     if on then kpanic ''sched interruptible''
     else kbind (get_proc p pchan) (\<lambda>c. kasleep c))))))"

definition yield :: "('a proc_state_scheme, unit) kern" where
  "yield =
     with_myproc (\<lambda>p.
     kdo (kacquire (ProcLock p))
     (kdo (upd_proc p (\<lambda>q. q\<lparr>pstate := RUNNABLE\<rparr>))
     sched))"

text \<open>What a thread does when it is switched to again: the last line of \<^verbatim>\<open>sched\<close>, where
  \<open>ie\<close> is the local variable \<^verbatim>\<open>intena\<close>, and the rest of \<^verbatim>\<open>yield\<close>.\<close>

definition sched_resume :: "bool \<Rightarrow> ('a kbase_scheme, unit) kern" where
  "sched_resume ie = kmodify (\<lambda>s. s\<lparr>hw := upd_mycpu (\<lambda>c. c\<lparr>intena := ie\<rparr>) (hw s)\<rparr>)"

definition yield_resume :: "bool \<Rightarrow> ('a proc_state_scheme, unit) kern" where
  "yield_resume ie = kdo (sched_resume ie) (with_myproc (\<lambda>p. krelease (ProcLock p)))"

definition sleep :: "chan \<Rightarrow> lockid \<Rightarrow> ('a proc_state_scheme, 'b) kern" where
  "sleep c lk =
     with_myproc (\<lambda>p.
     kdo (kacquire (ProcLock p))
     (kdo (krelease lk)
     (kdo (upd_proc p (\<lambda>q. q\<lparr>pchan := c, pstate := SLEEPING\<rparr>))
     sched)))"

definition sleep_resume :: "bool \<Rightarrow> lockid \<Rightarrow> ('a proc_state_scheme, unit) kern" where
  "sleep_resume ie lk =
     kdo (sched_resume ie)
     (with_myproc (\<lambda>p.
     kdo (upd_proc p (\<lambda>q. q\<lparr>pchan := NoChan\<rparr>))
     (kdo (krelease (ProcLock p))
     (kacquire lk))))"

definition wakeup :: "chan \<Rightarrow> ('a proc_state_scheme, unit) kern" where
  "wakeup c =
     kfor [0..<NPROC] (\<lambda>i.
       kbind myproc (\<lambda>me.
       kwhen (Some i \<noteq> me)
         (kdo (kacquire (ProcLock i))
         (kbind (get_proc i (\<lambda>p. pstate p = SLEEPING \<and> pchan p = c)) (\<lambda>waits.
         kdo (kwhen waits (upd_proc i (\<lambda>p. p\<lparr>pstate := RUNNABLE\<rparr>)))
         (krelease (ProcLock i)))))))"

text \<open>One visit of \<^verbatim>\<open>scheduler\<close> to a slot: \<open>True\<close> when it has switched to the process, whose
  lock it then holds; \<open>scheduler_return\<close> is what it does when the process switches back.\<close>

definition scheduler_visit :: "nat \<Rightarrow> ('a proc_state_scheme, bool) kern" where
  "scheduler_visit i =
     kdo (kacquire (ProcLock i))
     (kbind (get_proc i pstate) (\<lambda>st.
     if st = RUNNABLE then
       kdo (upd_proc i (\<lambda>p. p\<lparr>pstate := RUNNING\<rparr>))
       (kdo (kmodify (\<lambda>s. s\<lparr>hw := upd_mycpu (\<lambda>c. c\<lparr>cpu_proc := Some i\<rparr>) (hw s)\<rparr>))
       (kret True))
     else kdo (krelease (ProcLock i)) (kret False)))"

definition scheduler_return :: "nat \<Rightarrow> ('a proc_state_scheme, unit) kern" where
  "scheduler_return i =
     kdo (kmodify (\<lambda>s. s\<lparr>hw := upd_mycpu (\<lambda>c. c\<lparr>cpu_proc := None\<rparr>) (hw s)\<rparr>))
     (krelease (ProcLock i))"

text \<open>The inner loop of \<^verbatim>\<open>scheduler\<close> from a slot on, up to the process it switches to.\<close>

fun scheduler_scan :: "nat list \<Rightarrow> ('a proc_state_scheme, nat option) kern" where
  "scheduler_scan [] = kret None"
| "scheduler_scan (i # is) =
     kbind (scheduler_visit i) (\<lambda>switched. if switched then kret (Some i) else scheduler_scan is)"

definition scheduler_pass :: "('a proc_state_scheme, nat option) kern" where
  "scheduler_pass =
     kdo (kmodify (\<lambda>s. s\<lparr>hw := intr_on (hw s)\<rparr>))
     (scheduler_scan [0..<NPROC])"

subsection \<open>Killing\<close>

fun kill_scan :: "int \<Rightarrow> nat list \<Rightarrow> ('a proc_state_scheme, int) kern" where
  "kill_scan n [] = kret (- 1)"
| "kill_scan n (i # is) =
     kdo (kacquire (ProcLock i))
     (kbind (get_proc i pid) (\<lambda>q.
     if q = n then
       kdo (upd_proc i (\<lambda>p. p\<lparr>pkilled := 1\<rparr>))
       (kbind (get_proc i pstate) (\<lambda>st.
       kdo (kwhen (st = SLEEPING) (upd_proc i (\<lambda>p. p\<lparr>pstate := RUNNABLE\<rparr>)))
       (kdo (krelease (ProcLock i))
       (kret 0))))
     else kdo (krelease (ProcLock i)) (kill_scan n is)))"

definition kill :: "int \<Rightarrow> ('a proc_state_scheme, int) kern" where
  "kill n = kill_scan n [0..<NPROC]"

definition setkilled :: "nat \<Rightarrow> ('a proc_state_scheme, unit) kern" where
  "setkilled i =
     kdo (kacquire (ProcLock i))
     (kdo (upd_proc i (\<lambda>p. p\<lparr>pkilled := 1\<rparr>))
     (krelease (ProcLock i)))"

definition killed :: "nat \<Rightarrow> ('a proc_state_scheme, int) kern" where
  "killed i =
     kdo (kacquire (ProcLock i))
     (kbind (get_proc i pkilled) (\<lambda>k.
     kdo (krelease (ProcLock i))
     (kret k)))"

subsection \<open>Copying to and from either address space\<close>

text \<open>The arguments \<^verbatim>\<open>user_dst\<close> and \<^verbatim>\<open>dst\<close> as one value. \<open>ObjDst\<close> is a kernel object that
  is not in modelled memory, such as a local variable of the caller, which gets the bytes from the
  result of the operation; \<open>ObjSrc\<close> is such an object with its bytes.\<close>

datatype copy_dst = UserDst u64 | KernDst u64 | ObjDst
datatype copy_src = UserSrc u64 | KernSrc u64 | ObjSrc "u8 list"

definition either_copyout :: "copy_dst \<Rightarrow> u8 list \<Rightarrow> ('a proc_state_scheme, int) kern" where
  "either_copyout dst src =
     with_myproc (\<lambda>p.
     case dst of
       UserDst va \<Rightarrow> kbind (get_proc p pagetable) (\<lambda>pt. copyout pt va src)
     | KernDst a \<Rightarrow> kdo (set_mem (\<lambda>m. store_bytes m a src)) (kret 0)
     | ObjDst \<Rightarrow> kret 0)"

definition either_copyin :: "copy_src \<Rightarrow> u64 \<Rightarrow> ('a proc_state_scheme, int \<times> u8 list) kern" where
  "either_copyin src len =
     with_myproc (\<lambda>p.
     case src of
       UserSrc va \<Rightarrow> kbind (get_proc p pagetable) (\<lambda>pt. copyin pt va len)
     | KernSrc a \<Rightarrow> kbind (kget (\<lambda>s. load_bytes (mem s) a (unat len))) (\<lambda>bs. kret (0, bs))
     | ObjSrc bs \<Rightarrow> kret (0, take (unat len) bs))"

fun advance_dst :: "copy_dst \<Rightarrow> u64 \<Rightarrow> copy_dst" where
  "advance_dst (UserDst a) n = UserDst (a + n)"
| "advance_dst (KernDst a) n = KernDst (a + n)"
| "advance_dst ObjDst n = ObjDst"

fun advance_src :: "copy_src \<Rightarrow> u64 \<Rightarrow> copy_src" where
  "advance_src (UserSrc a) n = UserSrc (a + n)"
| "advance_src (KernSrc a) n = KernSrc (a + n)"
| "advance_src (ObjSrc bs) n = ObjSrc (drop (unat n) bs)"

subsection \<open>Parents and children\<close>

definition reparent :: "nat \<Rightarrow> ('a proc_state_scheme, unit) kern" where
  "reparent p =
     kfor [0..<NPROC] (\<lambda>i.
       kbind (get_proc i parent) (\<lambda>q.
       kwhen (q = Some p)
         (kbind (kget initproc) (\<lambda>ini.
         kdo (upd_proc i (\<lambda>pp. pp\<lparr>parent := ini\<rparr>))
         (wakeup (case ini of None \<Rightarrow> NoChan | Some j \<Rightarrow> ChanProc j))))))"

text \<open>The scan of \<^verbatim>\<open>wait\<close> over the table: the result of \<^verbatim>\<open>wait\<close> when it has one, otherwise
  whether there are children.\<close>

fun wait_scan :: "nat \<Rightarrow> u64 \<Rightarrow> bool \<Rightarrow> nat list \<Rightarrow> ('a proc_state_scheme, int option \<times> bool) kern" where
  "wait_scan p addr havekids [] = kret (None, havekids)"
| "wait_scan p addr havekids (i # is) =
     kbind (get_proc i parent) (\<lambda>q.
     if q = Some p then
       kdo (kacquire (ProcLock i))
       (kbind (get_proc i pstate) (\<lambda>st.
       if st = ZOMBIE then
         kbind (get_proc i pid) (\<lambda>n.
         kbind (get_proc i xstate) (\<lambda>x.
         kbind (get_proc p pagetable) (\<lambda>pt.
         kbind (if addr \<noteq> 0 then copyout pt addr (le_bytes 4 (word_of_int x :: u32)) else kret 0) (\<lambda>r.
         if r < 0 then
           kdo (krelease (ProcLock i)) (kdo (krelease WaitLock) (kret (Some (- 1), True)))
         else
           kdo (freeproc i)
           (kdo (krelease (ProcLock i))
           (kdo (krelease WaitLock)
           (kret (Some n, True))))))))
       else kdo (krelease (ProcLock i)) (wait_scan p addr True is)))
     else wait_scan p addr havekids is)"

text \<open>The body of the loop of \<^verbatim>\<open>wait\<close>, with \<^verbatim>\<open>wait_lock\<close> held.\<close>

definition wait_loop :: "nat \<Rightarrow> u64 \<Rightarrow> ('a proc_state_scheme, int) kern" where
  "wait_loop p addr =
     kbind (wait_scan p addr False [0..<NPROC]) (\<lambda>(res, havekids).
     case res of
       Some n \<Rightarrow> kret n
     | None \<Rightarrow>
         kbind (if \<not> havekids then kret True else kbind (killed p) (\<lambda>k. kret (k \<noteq> 0))) (\<lambda>stop.
         if stop then kdo (krelease WaitLock) (kret (- 1))
         else sleep (ChanProc p) WaitLock))"

definition wait :: "u64 \<Rightarrow> ('a proc_state_scheme, int) kern" where
  "wait addr = with_myproc (\<lambda>p. kdo (kacquire WaitLock) (wait_loop p addr))"

subsection \<open>kernel/sleeplock.c\<close>

definition upd_sleeplock :: "sleepid \<Rightarrow> (sleeplock \<Rightarrow> sleeplock) \<Rightarrow> ('a proc_state_scheme, unit) kern" where
  "upd_sleeplock l f = kmodify (\<lambda>s. s\<lparr>sleeplocks := (sleeplocks s)(l := f (sleeplocks s l))\<rparr>)"

definition initsleeplock :: "sleepid \<Rightarrow> string \<Rightarrow> ('a proc_state_scheme, unit) kern" where
  "initsleeplock l nm =
     kdo (kinitlock (SleepLk l) ''sleep lock'')
     (upd_sleeplock l (\<lambda>k. k\<lparr>sl_name := nm, sl_locked := 0, sl_pid := 0\<rparr>))"

text \<open>The loop of \<^verbatim>\<open>acquiresleep\<close> with \<^verbatim>\<open>lk->lk\<close> held.\<close>

definition acquiresleep_loop :: "sleepid \<Rightarrow> ('a proc_state_scheme, unit) kern" where
  "acquiresleep_loop l =
     kbind (kget (\<lambda>s. sl_locked (sleeplocks s l))) (\<lambda>b.
     if b \<noteq> 0 then sleep (ChanSleep l) (SleepLk l)
     else kdo (upd_sleeplock l (\<lambda>k. k\<lparr>sl_locked := 1\<rparr>))
       (with_myproc (\<lambda>p.
       kbind (get_proc p pid) (\<lambda>n.
       kdo (upd_sleeplock l (\<lambda>k. k\<lparr>sl_pid := n\<rparr>))
       (krelease (SleepLk l))))))"

definition acquiresleep :: "sleepid \<Rightarrow> ('a proc_state_scheme, unit) kern" where
  "acquiresleep l = kdo (kacquire (SleepLk l)) (acquiresleep_loop l)"

definition releasesleep :: "sleepid \<Rightarrow> ('a proc_state_scheme, unit) kern" where
  "releasesleep l =
     kdo (kacquire (SleepLk l))
     (kdo (upd_sleeplock l (\<lambda>k. k\<lparr>sl_locked := 0, sl_pid := 0\<rparr>))
     (kdo (wakeup (ChanSleep l))
     (krelease (SleepLk l))))"

definition holdingsleep :: "sleepid \<Rightarrow> ('a proc_state_scheme, bool) kern" where
  "holdingsleep l =
     kdo (kacquire (SleepLk l))
     (kbind (kget (\<lambda>s. sl_locked (sleeplocks s l))) (\<lambda>b.
     kbind (if b = 0 then kret False
            else with_myproc (\<lambda>p. kget (\<lambda>s. sl_pid (sleeplocks s l) = pid (procs s p)))) (\<lambda>r.
     kdo (krelease (SleepLk l))
     (kret r))))"

subsection \<open>Operations that only touch processors and processes\<close>

text \<open>Locking and waking change nothing but the processor part and the process table; this frame
  holds on every extension of the state.\<close>

definition hw_procs_only :: "('a proc_state_scheme, 'b) kern \<Rightarrow> bool" where
  "hw_procs_only m \<longleftrightarrow> (\<forall>s r t. m s = Done r t \<longrightarrow> (\<exists>h P. t = s\<lparr>hw := h, procs := P\<rparr>))"

lemma hw_procs_onlyD: "hw_procs_only m \<Longrightarrow> m s = Done r t \<Longrightarrow> \<exists>h P. t = s\<lparr>hw := h, procs := P\<rparr>"
  unfolding hw_procs_only_def by blast

lemma same_hw_procs: "\<exists>h P. s = s\<lparr>hw := h, procs := P\<rparr>" for s :: "'a proc_state_scheme"
  by (rule exI [of _ "hw s"], rule exI [of _ "procs s"]) simp

lemma hw_procs_only_kret: "hw_procs_only (kret x)" "hw_procs_only (kget f)" "hw_procs_only (kpanic e)"
  by (simp_all add: hw_procs_only_def kern_run same_hw_procs)

lemma hw_procs_only_kbind:
  assumes "hw_procs_only m" and "\<And>x. hw_procs_only (f x)"
  shows "hw_procs_only (kbind m f)"
  unfolding hw_procs_only_def
proof (intro allI impI)
  fix s r t
  assume "kbind m f s = Done r t"
  then obtain x u where m: "m s = Done x u" and f: "f x u = Done r t"
    by (auto simp: kbind_Done_iff)
  obtain h P where u: "u = s\<lparr>hw := h, procs := P\<rparr>"
    using hw_procs_onlyD [OF assms(1) m] by blast
  obtain h' P' where "t = u\<lparr>hw := h', procs := P'\<rparr>"
    using hw_procs_onlyD [OF assms(2) f] by blast
  then have "t = s\<lparr>hw := h', procs := P'\<rparr>" by (simp add: u)
  then show "\<exists>h P. t = s\<lparr>hw := h, procs := P\<rparr>" by blast
qed

lemma hw_procs_only_kdo: "hw_procs_only m \<Longrightarrow> hw_procs_only n \<Longrightarrow> hw_procs_only (kdo m n)"
  by (simp add: kdo_def hw_procs_only_kbind)

lemma hw_procs_only_kwhen: "hw_procs_only m \<Longrightarrow> hw_procs_only (kwhen b m)"
  by (simp add: kwhen_def hw_procs_only_kret)

lemma hw_procs_only_kfor: "(\<And>x. hw_procs_only (f x)) \<Longrightarrow> hw_procs_only (kfor xs f)"
  by (induction xs) (simp_all add: hw_procs_only_kret hw_procs_only_kdo)

lemma hw_procs_only_lift_hw: "hw_procs_only (lift_hw m)"
proof -
  have "\<exists>h P. s\<lparr>hw := g\<rparr> = s\<lparr>hw := h, procs := P\<rparr>" for s :: "'a proc_state_scheme" and g
    by (rule exI [of _ g], rule exI [of _ "procs s"]) simp
  then show ?thesis
    by (simp add: hw_procs_only_def lift_hw_def split: outcome.split)
qed

lemma hw_procs_only_upd_proc: "hw_procs_only (upd_proc i f)"
proof -
  have "\<exists>h P. s\<lparr>procs := Q\<rparr> = s\<lparr>hw := h, procs := P\<rparr>" for s :: "'a proc_state_scheme" and Q
    by (rule exI [of _ "hw s"], rule exI [of _ Q]) simp
  then show ?thesis by (simp add: hw_procs_only_def upd_proc_def kern_run)
qed

lemmas hw_procs_only_intros = hw_procs_only_kret hw_procs_only_kbind hw_procs_only_kdo
  hw_procs_only_kwhen hw_procs_only_kfor hw_procs_only_lift_hw hw_procs_only_upd_proc

lemma hw_procs_only_locks: "hw_procs_only (kacquire l)" "hw_procs_only (krelease l)"
  by (simp_all add: kacquire_def krelease_def hw_procs_only_lift_hw)

lemma hw_procs_only_wakeup: "hw_procs_only (wakeup c)"
  unfolding wakeup_def myproc_def by (intro hw_procs_only_intros hw_procs_only_locks)

end
