(* ===== verification/Sleep_Protocol.thy ===== *)
theory Sleep_Protocol
  imports Proc
begin

section \<open>Sleeping and waking under interleaving\<close>

text \<open>
  The processes repeatedly take and give back one sleep-lock, so each runs
  \<^verbatim>\<open>acquiresleep\<close> and \<^verbatim>\<open>releasesleep\<close> of \<^verbatim>\<open>kernel/sleeplock.c\<close> and, inside them,
  \<^verbatim>\<open>sleep\<close> and \<^verbatim>\<open>wakeup\<close> of \<^verbatim>\<open>kernel/proc.c\<close>. A step is one acquisition or
  release of a spinlock, or one access to the fields it protects; which process moves next is not
  determined. Two more steps belong to the environment: a scheduler switches to a runnable process,
  and \<^verbatim>\<open>kill\<close> makes a sleeping process runnable at any moment.

  Spinlocks are taken as the locks theory \<open>Spinlock_Protocol\<close> shows them to be: at most one
  holder. The lock of a process that is switched out or in is handed over between its thread and a
  scheduler; it counts as held by the thread.
\<close>

datatype spc =
    AEnter       \<comment> \<open>outside; about to acquire \<^verbatim>\<open>lk->lk\<close> in \<^verbatim>\<open>acquiresleep\<close>\<close>
  | ATest        \<comment> \<open>about to test \<^verbatim>\<open>lk->locked\<close>\<close>
  | APid         \<comment> \<open>about to set \<^verbatim>\<open>lk->pid\<close>\<close>
  | ARel         \<comment> \<open>about to release \<^verbatim>\<open>lk->lk\<close>\<close>
  | ACrit        \<comment> \<open>has the sleep-lock; about to acquire \<^verbatim>\<open>lk->lk\<close> in \<^verbatim>\<open>releasesleep\<close>\<close>
  | RClear       \<comment> \<open>about to clear \<^verbatim>\<open>lk->locked\<close> and \<^verbatim>\<open>lk->pid\<close>\<close>
  | RWake nat    \<comment> \<open>in \<^verbatim>\<open>wakeup\<close>, before a slot of the table\<close>
  | RTest nat    \<comment> \<open>holds the lock of the slot; about to test it\<close>
  | RUnlock nat  \<comment> \<open>about to release the lock of the slot\<close>
  | RRel         \<comment> \<open>about to release \<^verbatim>\<open>lk->lk\<close>\<close>
  | ZLock        \<comment> \<open>in \<^verbatim>\<open>sleep\<close>, about to acquire \<^verbatim>\<open>p->lock\<close>\<close>
  | ZRel         \<comment> \<open>about to release \<^verbatim>\<open>lk->lk\<close>\<close>
  | ZSet         \<comment> \<open>about to set \<^verbatim>\<open>p->chan\<close> and \<^verbatim>\<open>p->state\<close>\<close>
  | ZSched       \<comment> \<open>about to switch to the scheduler, which releases \<^verbatim>\<open>p->lock\<close>\<close>
  | ZOff         \<comment> \<open>switched out\<close>
  | ZChan        \<comment> \<open>switched in with \<^verbatim>\<open>p->lock\<close> held; about to clear \<^verbatim>\<open>p->chan\<close>\<close>
  | ZUnlock      \<comment> \<open>about to release \<^verbatim>\<open>p->lock\<close>\<close>
  | ZBack        \<comment> \<open>about to acquire \<^verbatim>\<open>lk->lk\<close> again\<close>

record sl_world =
  w_pc :: "nat \<Rightarrow> spc"
  w_lk :: "nat option"           \<comment> \<open>holder of \<^verbatim>\<open>lk->lk\<close>\<close>
  w_plk :: "nat \<Rightarrow> nat option"   \<comment> \<open>holder of the lock of each slot\<close>
  w_sl :: sleeplock
  w_procs :: "nat \<Rightarrow> proc"

definition lk_acquire :: "nat \<Rightarrow> spc \<Rightarrow> sl_world \<Rightarrow> (spc \<times> sl_world) option" where
  "lk_acquire p q w = (if w_lk w = None then Some (q, w\<lparr>w_lk := Some p\<rparr>) else None)"

definition plk_acquire :: "nat \<Rightarrow> nat \<Rightarrow> spc \<Rightarrow> sl_world \<Rightarrow> (spc \<times> sl_world) option" where
  "plk_acquire p i q w =
     (if w_plk w i = None then Some (q, w\<lparr>w_plk := (w_plk w)(i := Some p)\<rparr>) else None)"

definition w_proc :: "nat \<Rightarrow> (proc \<Rightarrow> proc) \<Rightarrow> sl_world \<Rightarrow> sl_world" where
  "w_proc i f w = w\<lparr>w_procs := (w_procs w)(i := f (w_procs w i))\<rparr>"

text \<open>The next step of process \<open>p\<close>; \<open>None\<close> when it spins for a lock or is switched out. First the
  steps inside \<^verbatim>\<open>sleep\<close>, then those inside \<^verbatim>\<open>wakeup\<close>, then the functions of the
  sleep-lock, which call them.\<close>

fun sleep_access :: "sleepid \<Rightarrow> nat \<Rightarrow> spc \<Rightarrow> sl_world \<Rightarrow> (spc \<times> sl_world) option" where
  "sleep_access l p ZLock w = plk_acquire p p ZRel w"
| "sleep_access l p ZRel w = Some (ZSet, w\<lparr>w_lk := None\<rparr>)"
| "sleep_access l p ZSet w = Some (ZSched, w_proc p (\<lambda>q. q\<lparr>pchan := ChanSleep l, pstate := SLEEPING\<rparr>) w)"
| "sleep_access l p ZSched w = Some (ZOff, w\<lparr>w_plk := (w_plk w)(p := None)\<rparr>)"
| "sleep_access l p ZChan w = Some (ZUnlock, w_proc p (\<lambda>q. q\<lparr>pchan := NoChan\<rparr>) w)"
| "sleep_access l p ZUnlock w = Some (ZBack, w\<lparr>w_plk := (w_plk w)(p := None)\<rparr>)"
| "sleep_access l p ZBack w = lk_acquire p ATest w"
| "sleep_access l p _ w = None"

fun wakeup_access :: "sleepid \<Rightarrow> nat \<Rightarrow> spc \<Rightarrow> sl_world \<Rightarrow> (spc \<times> sl_world) option" where
  "wakeup_access l p (RWake i) w =
     (if i < NPROC then if i \<noteq> p then plk_acquire p i (RTest i) w else Some (RWake (Suc i), w)
      else Some (RRel, w))"
| "wakeup_access l p (RTest i) w =
     Some (RUnlock i,
       if pstate (w_procs w i) = SLEEPING \<and> pchan (w_procs w i) = ChanSleep l
       then w_proc i (\<lambda>q. q\<lparr>pstate := RUNNABLE\<rparr>) w else w)"
| "wakeup_access l p (RUnlock i) w = Some (RWake (Suc i), w\<lparr>w_plk := (w_plk w)(i := None)\<rparr>)"
| "wakeup_access l p _ w = None"

fun sl_access :: "sleepid \<Rightarrow> nat \<Rightarrow> spc \<Rightarrow> sl_world \<Rightarrow> (spc \<times> sl_world) option" where
  "sl_access l p AEnter w = lk_acquire p ATest w"
| "sl_access l p ATest w =
     (if sl_locked (w_sl w) \<noteq> 0 then Some (ZLock, w)
      else Some (APid, w\<lparr>w_sl := (w_sl w)\<lparr>sl_locked := 1\<rparr>\<rparr>))"
| "sl_access l p APid w = Some (ARel, w\<lparr>w_sl := (w_sl w)\<lparr>sl_pid := pid (w_procs w p)\<rparr>\<rparr>)"
| "sl_access l p ARel w = Some (ACrit, w\<lparr>w_lk := None\<rparr>)"
| "sl_access l p ACrit w = lk_acquire p RClear w"
| "sl_access l p RClear w = Some (RWake 0, w\<lparr>w_sl := (w_sl w)\<lparr>sl_locked := 0, sl_pid := 0\<rparr>\<rparr>)"
| "sl_access l p RRel w = Some (AEnter, w\<lparr>w_lk := None\<rparr>)"
| "sl_access l p (RWake i) w = wakeup_access l p (RWake i) w"
| "sl_access l p (RTest i) w = wakeup_access l p (RTest i) w"
| "sl_access l p (RUnlock i) w = wakeup_access l p (RUnlock i) w"
| "sl_access l p q w = sleep_access l p q w"

text \<open>A scheduler finds the slot runnable and switches to it, with its lock held.\<close>

definition sched_access :: "nat \<Rightarrow> sl_world \<Rightarrow> sl_world option" where
  "sched_access i w =
     (if w_plk w i = None \<and> pstate (w_procs w i) = RUNNABLE
      then Some (w_proc i (\<lambda>q. q\<lparr>pstate := RUNNING\<rparr>) (w\<lparr>w_plk := (w_plk w)(i := Some i)\<rparr>)) else None)"

definition kill_access :: "nat \<Rightarrow> sl_world \<Rightarrow> sl_world option" where
  "kill_access i w =
     (if w_plk w i = None
      then Some (w_proc i (\<lambda>q. q\<lparr>pkilled := 1,
        pstate := (if pstate q = SLEEPING then RUNNABLE else pstate q)\<rparr>) w) else None)"

inductive sl_step :: "sleepid \<Rightarrow> sl_world \<Rightarrow> sl_world \<Rightarrow> bool" for l :: sleepid where
  thread_step: "p < NPROC \<Longrightarrow> sl_access l p (w_pc w p) w = Some (q, w') \<Longrightarrow>
     sl_step l w (w'\<lparr>w_pc := (w_pc w)(p := q)\<rparr>)"
| sched_step: "p < NPROC \<Longrightarrow> w_pc w p = ZOff \<Longrightarrow> sched_access p w = Some w' \<Longrightarrow>
     sl_step l w (w'\<lparr>w_pc := (w_pc w)(p := ZChan)\<rparr>)"
| kill_step: "kill_access i w = Some w' \<Longrightarrow> sl_step l w w'"

definition sl_init :: "sl_world \<Rightarrow> bool" where
  "sl_init w \<longleftrightarrow> (\<forall>p. w_pc w p = AEnter \<and> w_plk w p = None) \<and> w_lk w = None \<and> sl_locked (w_sl w) = 0
     \<and> (\<forall>p. pstate (w_procs w p) = RUNNING)"

subsection \<open>The invariant\<close>

text \<open>What a control point holds: the spinlock of the sleep-lock, the lock of a slot, the
  sleep-lock itself.\<close>

fun holds_lk :: "spc \<Rightarrow> bool" where
  "holds_lk (RWake _) = True" | "holds_lk (RTest _) = True" | "holds_lk (RUnlock _) = True"
| "holds_lk q = (q \<in> {ATest, APid, ARel, RClear, RRel, ZLock, ZRel})"

fun holds_plk :: "nat \<Rightarrow> spc \<Rightarrow> nat \<Rightarrow> bool" where
  "holds_plk p (RTest j) i = (j = i)" | "holds_plk p (RUnlock j) i = (j = i)"
| "holds_plk p q i = (i = p \<and> q \<in> {ZRel, ZSet, ZSched, ZChan, ZUnlock})"

definition has_sl :: "spc \<Rightarrow> bool" where
  "has_sl q \<longleftrightarrow> q \<in> {APid, ARel, ACrit, RClear}"

text \<open>A \<^verbatim>\<open>wakeup\<close> at this point will still test slot \<open>i\<close>.\<close>

fun waking :: "spc \<Rightarrow> nat \<Rightarrow> bool" where
  "waking (RWake j) i = (j \<le> i)" | "waking (RTest j) i = (j \<le> i)" | "waking (RUnlock j) i = (j < i)"
| "waking q i = False"

text \<open>A process on its way into the sleep it needs to be woken from.\<close>

definition drowsy :: "spc \<Rightarrow> proc \<Rightarrow> bool" where
  "drowsy q pr \<longleftrightarrow> q \<in> {ZLock, ZRel, ZSet, ZSched} \<or> q = ZOff \<and> pstate pr = SLEEPING"

definition state_ok :: "sleepid \<Rightarrow> spc \<Rightarrow> proc \<Rightarrow> bool" where
  "state_ok l q pr \<longleftrightarrow>
     (if q = ZSched then pstate pr = SLEEPING \<and> pchan pr = ChanSleep l
      else if q = ZOff then pstate pr \<in> {SLEEPING, RUNNABLE} \<and> pchan pr = ChanSleep l
      else pstate pr = RUNNING)"

definition sl_parts :: "sleepid \<Rightarrow> sl_world \<Rightarrow> nat option \<Rightarrow> bool" where
  "sl_parts l w own \<longleftrightarrow>
     (\<forall>p. holds_lk (w_pc w p) \<longleftrightarrow> w_lk w = Some p)
     \<and> (\<forall>i p. holds_plk p (w_pc w p) i \<longleftrightarrow> w_plk w i = Some p)
     \<and> (\<forall>p. has_sl (w_pc w p) \<longleftrightarrow> own = Some p) \<and> (sl_locked (w_sl w) \<noteq> 0 \<longleftrightarrow> own \<noteq> None)
     \<and> (\<forall>p. state_ok l (w_pc w p) (w_procs w p))
     \<and> (\<forall>p. w_pc w p \<in> {ARel, ACrit, RClear} \<longrightarrow> sl_pid (w_sl w) = pid (w_procs w p))
     \<and> (\<forall>p \<ge> NPROC. w_pc w p = AEnter)
     \<and> (\<forall>p. drowsy (w_pc w p) (w_procs w p) \<longrightarrow>
          sl_locked (w_sl w) \<noteq> 0 \<or> (\<exists>t. w_lk w = Some t \<and> waking (w_pc w t) p))"

definition sl_inv :: "sleepid \<Rightarrow> sl_world \<Rightarrow> bool" where
  "sl_inv l w \<longleftrightarrow> (\<exists>own. sl_parts l w own)"

lemma sl_partsD:
  assumes "sl_parts l w own"
  shows "\<And>p. holds_lk (w_pc w p) \<longleftrightarrow> w_lk w = Some p"
    "\<And>i p. holds_plk p (w_pc w p) i \<longleftrightarrow> w_plk w i = Some p"
    "\<And>p. has_sl (w_pc w p) \<longleftrightarrow> own = Some p" "sl_locked (w_sl w) \<noteq> 0 \<longleftrightarrow> own \<noteq> None"
    "\<And>p. state_ok l (w_pc w p) (w_procs w p)"
    "\<And>p. w_pc w p \<in> {ARel, ACrit, RClear} \<Longrightarrow> sl_pid (w_sl w) = pid (w_procs w p)"
    "\<And>p. p \<ge> NPROC \<Longrightarrow> w_pc w p = AEnter"
    "\<And>p. drowsy (w_pc w p) (w_procs w p) \<Longrightarrow>
      sl_locked (w_sl w) \<noteq> 0 \<or> (\<exists>t. w_lk w = Some t \<and> waking (w_pc w t) p)"
  using assms unfolding sl_parts_def by blast+

lemmas sl_access_defs = lk_acquire_def plk_acquire_def w_proc_def

lemma access_pc: "sl_access l p q w = Some (q', w') \<Longrightarrow> w_pc w' = w_pc w"
  by (cases q) (auto simp: sl_access_defs split: if_splits)

lemma access_lk:
  assumes "sl_access l p (w_pc w p) w = Some (q, w')" and "\<And>r. holds_lk (w_pc w r) \<longleftrightarrow> w_lk w = Some r"
  shows "holds_lk (((w_pc w)(p := q)) r) \<longleftrightarrow> w_lk w' = Some r"
  using assms(1) assms(2) [of r] assms(2) [of p]
  by (cases "w_pc w p") (auto simp: sl_access_defs split: if_splits)

lemma access_plk:
  assumes "sl_access l p (w_pc w p) w = Some (q, w')"
    and "\<And>i r. holds_plk r (w_pc w r) i \<longleftrightarrow> w_plk w i = Some r"
  shows "holds_plk r (((w_pc w)(p := q)) r) i \<longleftrightarrow> w_plk w' i = Some r"
  using assms(1) assms(2) [of r i] assms(2) [of p i]
  by (cases "w_pc w p") (auto simp: sl_access_defs split: if_splits)

lemma access_state:
  assumes "sl_access l p (w_pc w p) w = Some (q, w')"
    and "\<And>i r. holds_plk r (w_pc w r) i \<longleftrightarrow> w_plk w i = Some r"
    and "\<And>r. state_ok l (w_pc w r) (w_procs w r)"
  shows "state_ok l (((w_pc w)(p := q)) r) (w_procs w' r)"
  using assms(1) assms(3) [of r] assms(3) [of p] assms(2) [of r r] assms(2) [of p r]
  by (cases "w_pc w p") (auto simp: sl_access_defs state_ok_def split: if_splits)

lemma access_locked:
  assumes "sl_access l p q w = Some (q', w')"
  shows "sl_locked (w_sl w') = (if q = ATest then 1 else if q = RClear then 0 else sl_locked (w_sl w))
      \<or> q = ATest \<and> w' = w \<and> sl_locked (w_sl w) \<noteq> 0"
    and "has_sl q' \<longleftrightarrow> (if q = ATest then sl_locked (w_sl w) = 0 else q \<noteq> RClear \<and> has_sl q)"
  using assms by (cases q; auto simp: sl_access_defs has_sl_def split: if_splits)+

lemma access_owner:
  assumes acc: "sl_access l p (w_pc w p) w = Some (q, w')"
    and own: "\<And>r. has_sl (w_pc w r) \<longleftrightarrow> own = Some r" and lkd: "sl_locked (w_sl w) \<noteq> 0 \<longleftrightarrow> own \<noteq> None"
  shows "\<exists>own'. (\<forall>r. has_sl (((w_pc w)(p := q)) r) \<longleftrightarrow> own' = Some r)
    \<and> (sl_locked (w_sl w') \<noteq> 0 \<longleftrightarrow> own' \<noteq> None)"
proof -
  define own' where "own' = (if w_pc w p = ATest \<and> sl_locked (w_sl w) = 0 then Some p
    else if w_pc w p = RClear then None else own)"
  have no: "\<not> has_sl ATest" "has_sl RClear" by (simp_all add: has_sl_def)
  have "has_sl (((w_pc w)(p := q)) r) \<longleftrightarrow> own' = Some r" for r
    using own [of r] own [of p] lkd no by (auto simp: own'_def access_locked(2) [OF acc])
  moreover have "sl_locked (w_sl w') \<noteq> 0 \<longleftrightarrow> own' \<noteq> None"
    using access_locked(1) [OF acc] lkd by (auto simp: own'_def split: if_splits)
  ultimately show ?thesis by blast
qed

lemma access_pid:
  assumes "sl_access l p (w_pc w p) w = Some (q, w')"
    and "\<And>r. has_sl (w_pc w r) \<longleftrightarrow> own = Some r" and "sl_locked (w_sl w) \<noteq> 0 \<longleftrightarrow> own \<noteq> None"
    and "\<And>r. w_pc w r \<in> {ARel, ACrit, RClear} \<Longrightarrow> sl_pid (w_sl w) = pid (w_procs w r)"
    and "((w_pc w)(p := q)) r \<in> {ARel, ACrit, RClear}"
  shows "sl_pid (w_sl w') = pid (w_procs w' r)"
  using assms(1,3,5) assms(2) [of r] assms(2) [of p] assms(4) [of r] assms(4) [of p]
  by (cases "w_pc w p") (auto simp: sl_access_defs has_sl_def split: if_splits)

lemma access_lk_other:
  assumes "sl_access l p (w_pc w p) w = Some (q, w')" and "holds_lk (w_pc w p) \<longleftrightarrow> w_lk w = Some p"
    and "w_lk w = Some t" and "t \<noteq> p"
  shows "w_lk w' = Some t"
  using assms by (cases "w_pc w p") (auto simp: sl_access_defs split: if_splits)

lemma access_becomes_drowsy:
  assumes "sl_access l p q w = Some (q', w')" and "drowsy q' pr"
  shows "q = ATest \<and> sl_locked (w_sl w') \<noteq> 0 \<or>
    q \<in> {ZLock, ZRel, ZSet, ZSched} \<and> w_sl w' = w_sl w \<and> \<not> waking q i"
  using assms by (cases q) (auto simp: sl_access_defs drowsy_def split: if_splits)

lemma access_still_drowsy:
  assumes "sl_access l p q w = Some (q', w')" and "r \<noteq> p" and "drowsy a (w_procs w' r)"
  shows "drowsy a (w_procs w r)"
  using assms by (cases q) (auto simp: sl_access_defs drowsy_def split: if_splits)

lemma access_still_locked:
  assumes "sl_access l p q w = Some (q', w')" and "sl_locked (w_sl w) \<noteq> 0"
  shows "sl_locked (w_sl w') \<noteq> 0 \<or> q = RClear \<and> q' = RWake 0 \<and> w_lk w' = w_lk w"
  using assms by (cases q) (auto simp: sl_access_defs split: if_splits)

text \<open>The scan of \<^verbatim>\<open>wakeup\<close> leaves no sleeper behind.\<close>

lemma access_waking:
  assumes "sl_access l p q w = Some (q', w')" and "waking q r" and "r \<noteq> p" and "r < NPROC"
    and "q = RTest r \<Longrightarrow> a = ZOff \<and> pchan (w_procs w r) = ChanSleep l" and "drowsy a (w_procs w' r)"
  shows "waking q' r \<and> w_lk w' = w_lk w"
proof (cases q)
  case (RTest j)
  show ?thesis
  proof (cases "j = r")
    case True
    with RTest assms show ?thesis by (auto simp: sl_access_defs drowsy_def split: if_splits)
  qed (use RTest assms(1,2) in \<open>auto simp: w_proc_def\<close>)
qed (use assms in \<open>auto simp: sl_access_defs split: if_splits\<close>)

lemma access_drowsy:
  assumes acc: "sl_access l p (w_pc w p) w = Some (q, w')"
    and lk: "\<And>r. holds_lk (w_pc w r) \<longleftrightarrow> w_lk w = Some r"
    and plk: "\<And>i r. holds_plk r (w_pc w r) i \<longleftrightarrow> w_plk w i = Some r"
    and st: "\<And>r. state_ok l (w_pc w r) (w_procs w r)"
    and idle: "\<And>r. r \<ge> NPROC \<Longrightarrow> w_pc w r = AEnter"
    and inv: "drowsy (w_pc w r) (w_procs w r) \<Longrightarrow>
      sl_locked (w_sl w) \<noteq> 0 \<or> (\<exists>t. w_lk w = Some t \<and> waking (w_pc w t) r)"
    and new: "drowsy (((w_pc w)(p := q)) r) (w_procs w' r)"
  shows "sl_locked (w_sl w') \<noteq> 0 \<or> (\<exists>t. w_lk w' = Some t \<and> waking (((w_pc w)(p := q)) t) r)"
proof (cases "p = r")
  case True
  with access_becomes_drowsy [OF acc, where i = r] new consider "sl_locked (w_sl w') \<noteq> 0"
    | "w_pc w r \<in> {ZLock, ZRel, ZSet, ZSched}" "w_sl w' = w_sl w" "\<not> waking (w_pc w r) r"
    by auto
  then show ?thesis
  proof cases
    case 2
    then have "drowsy (w_pc w r) (w_procs w r)" by (auto simp: drowsy_def)
    from inv [OF this] 2(2,3) show ?thesis
      using access_lk_other [OF acc lk [of p]] True by (metis fun_upd_apply)
  qed simp
next
  case False
  then have r: "drowsy (w_pc w r) (w_procs w r)"
    using access_still_drowsy [OF acc, of r] new by simp
  have "r < NPROC" using r idle [of r] by (cases "r < NPROC") (auto simp: drowsy_def)
  from inv [OF r] show ?thesis
  proof (elim disjE exE conjE)
    assume "sl_locked (w_sl w) \<noteq> 0"
    then show ?thesis
      using access_still_locked [OF acc] lk [of p] by auto
  next
    fix t
    assume t: "w_lk w = Some t" "waking (w_pc w t) r"
    show ?thesis
    proof (cases "t = p")
      case True
      have "w_pc w r = ZOff \<and> pchan (w_procs w r) = ChanSleep l" if "w_pc w p = RTest r"
        using that plk [of r r] plk [of p r] lk [of r] lk [of p] st [of r] r False
        by (auto simp: drowsy_def state_ok_def)
      then show ?thesis
        using access_waking [OF acc _ _ \<open>r < NPROC\<close>, of "w_pc w r"] t True False new by auto
    next
      case False
      then have "w_lk w' = Some t" using access_lk_other [OF acc lk t(1)] by simp
      with t(2) False show ?thesis by simp
    qed
  qed
qed

lemma thread_inv:
  assumes "p < NPROC" and acc: "sl_access l p (w_pc w p) w = Some (q, w')" and "sl_inv l w"
  shows "sl_inv l (w'\<lparr>w_pc := (w_pc w)(p := q)\<rparr>)"
proof -
  from assms(3) obtain own where "sl_parts l w own" by (auto simp: sl_inv_def)
  note inv = sl_partsD [OF this]
  from access_owner [OF acc inv(3,4)] obtain own' where
    "\<And>r. has_sl (((w_pc w)(p := q)) r) \<longleftrightarrow> own' = Some r" "sl_locked (w_sl w') \<noteq> 0 \<longleftrightarrow> own' \<noteq> None"
    by blast
  then have "sl_parts l (w'\<lparr>w_pc := (w_pc w)(p := q)\<rparr>) own'"
    unfolding sl_parts_def
    using access_lk [OF acc inv(1)] access_plk [OF acc inv(2)] access_state [OF acc inv(2,5)]
      access_pid [OF acc inv(3,4,6)] access_drowsy [OF acc inv(1,2,5,7,8)] inv(7) assms(1)
    by simp
  then show ?thesis by (auto simp: sl_inv_def)
qed

lemma sched_inv:
  assumes "p < NPROC" and off: "w_pc w p = ZOff" and acc: "sched_access p w = Some w'" and "sl_inv l w"
  shows "sl_inv l (w'\<lparr>w_pc := (w_pc w)(p := ZChan)\<rparr>)"
proof -
  have w': "w' = w\<lparr>w_plk := (w_plk w)(p := Some p), w_procs := (w_procs w)(p := (w_procs w p)\<lparr>pstate := RUNNING\<rparr>)\<rparr>"
    and free: "w_plk w p = None"
    using acc by (auto simp: sched_access_def w_proc_def split: if_splits)
  from assms(4) obtain own where "sl_parts l w own" by (auto simp: sl_inv_def)
  note inv = sl_partsD [OF this]
  have "holds_lk (((w_pc w)(p := ZChan)) r) \<longleftrightarrow> w_lk w = Some r" for r
    using inv(1) [of r] off by auto
  moreover have "holds_plk r (((w_pc w)(p := ZChan)) r) i \<longleftrightarrow> ((w_plk w)(p := Some p)) i = Some r" for r i
    using inv(2) [of r i] inv(2) [of p i] free off by auto
  moreover have "has_sl (((w_pc w)(p := ZChan)) r) \<longleftrightarrow> own = Some r" for r
    using inv(3) [of r] off by (auto simp: has_sl_def)
  moreover have "state_ok l (((w_pc w)(p := ZChan)) r) (w_procs w' r)" for r
    using inv(5) [of r] by (cases "r = p") (simp_all add: w' state_ok_def)
  moreover have "sl_pid (w_sl w) = pid (w_procs w' r)" if "((w_pc w)(p := ZChan)) r \<in> {ARel, ACrit, RClear}" for r
    using inv(6) [of r] that by (simp add: w' split: if_splits)
  moreover have "sl_locked (w_sl w) \<noteq> 0 \<or> (\<exists>t. w_lk w = Some t \<and> waking (((w_pc w)(p := ZChan)) t) r)"
    if "drowsy (((w_pc w)(p := ZChan)) r) (w_procs w' r)" for r
  proof -
    have "drowsy (w_pc w r) (w_procs w r)" using that by (cases "r = p") (simp_all add: w' drowsy_def)
    moreover have "w_lk w \<noteq> Some p" using inv(1) [of p] off by simp
    ultimately show ?thesis using inv(8) [of r] by (metis fun_upd_other)
  qed
  ultimately have "sl_parts l (w'\<lparr>w_pc := (w_pc w)(p := ZChan)\<rparr>) own"
    unfolding sl_parts_def using inv(4,7) assms(1) by (simp add: w')
  then show ?thesis by (auto simp: sl_inv_def)
qed

lemma kill_inv:
  assumes acc: "kill_access i w = Some w'" and "sl_inv l w"
  shows "sl_inv l w'"
proof -
  have w': "w' = w\<lparr>w_procs := (w_procs w)(i := (w_procs w i)\<lparr>pkilled := 1,
      pstate := (if pstate (w_procs w i) = SLEEPING then RUNNABLE else pstate (w_procs w i))\<rparr>)\<rparr>"
    and free: "w_plk w i = None"
    using acc by (auto simp: kill_access_def w_proc_def split: if_splits)
  from assms(2) obtain own where "sl_parts l w own" by (auto simp: sl_inv_def)
  note inv = sl_partsD [OF this]
  have "state_ok l (w_pc w r) (w_procs w' r)" for r
    using inv(5) [of r] inv(2) [of r r] free by (auto simp: w' state_ok_def split: if_splits)
  moreover have "drowsy (w_pc w r) (w_procs w r)" if "drowsy (w_pc w r) (w_procs w' r)" for r
    using that by (auto simp: w' drowsy_def split: if_splits)
  moreover have "pid (w_procs w' r) = pid (w_procs w r)" for r by (simp add: w')
  ultimately have "sl_parts l w' own"
    unfolding sl_parts_def using inv(1-4,6-8) by (simp add: w')
  then show ?thesis by (auto simp: sl_inv_def)
qed

interpretation sl: invariant_system sl_init "sl_step l" "sl_inv l" for l
proof
  fix w
  assume "sl_init w"
  then have "sl_parts l w None"
    by (simp add: sl_parts_def sl_init_def state_ok_def drowsy_def has_sl_def)
  then show "sl_inv l w" by (auto simp: sl_inv_def)
next
  fix w w'
  assume "sl_step l w w'" and "sl_inv l w"
  then show "sl_inv l w'"
    by (induction rule: sl_step.induct) (blast intro: thread_inv sched_inv kill_inv)+
qed

subsection \<open>Exclusion, no lost wakeup, progress\<close>

text \<open>C15. However the steps of the processes interleave with schedulers and with \<^verbatim>\<open>kill\<close>, at most
  one process has the sleep-lock, and while a process is between \<^verbatim>\<open>acquiresleep\<close> and
  \<^verbatim>\<open>releasesleep\<close> the lock is marked as taken by it, so \<^verbatim>\<open>holdingsleep\<close> is true for it. No
  wakeup is lost: when the sleep-lock is free and no process is inside the functions, no process is
  asleep waiting for it; and a process can only be on its way into such a sleep if the lock is taken or
  a \<^verbatim>\<open>wakeup\<close> in progress will still come to its slot.\<close>

theorem sleeplock_protocol:
  assumes "reachable sl_init (sl_step l) w"
  shows "(has_sl (w_pc w p) \<longrightarrow> has_sl (w_pc w r) \<longrightarrow> p = r)
    \<and> (w_pc w p = ACrit \<longrightarrow> sl_locked (w_sl w) \<noteq> 0 \<and> sl_pid (w_sl w) = pid (w_procs w p))
    \<and> (sl_locked (w_sl w) = 0 \<longrightarrow> w_lk w = None \<longrightarrow> pstate (w_procs w p) \<noteq> SLEEPING)
    \<and> (drowsy (w_pc w p) (w_procs w p) \<longrightarrow>
        sl_locked (w_sl w) \<noteq> 0 \<or> (\<exists>t. w_lk w = Some t \<and> waking (w_pc w t) p))"
proof -
  from sl.reachable_invar [OF assms] obtain own where "sl_parts l w own" by (auto simp: sl_inv_def)
  note inv = sl_partsD [OF this]
  have "w_pc w p \<in> {ZSched, ZOff}" if "pstate (w_procs w p) = SLEEPING"
    using inv(5) [of p] that by (auto simp: state_ok_def split: if_splits)
  then have "drowsy (w_pc w p) (w_procs w p)" if "pstate (w_procs w p) = SLEEPING"
    using that by (auto simp: drowsy_def)
  moreover have "own = Some p" if "w_pc w p = ACrit"
    using inv(3) [of p] that by (simp add: has_sl_def)
  ultimately show ?thesis
    using inv(3) [of p] inv(3) [of r] inv(4) inv(6) [of p] inv(8) [of p] by auto
qed

text \<open>Steps in the order a schedule names them: \<open>Inl p\<close> is a step of process \<open>p\<close>, \<open>Inr p\<close> a switch
  to it.\<close>

fun sl_run :: "sleepid \<Rightarrow> (nat + nat) list \<Rightarrow> sl_world \<Rightarrow> sl_world" where
  "sl_run l [] w = w"
| "sl_run l (Inl p # es) w =
     (case sl_access l p (w_pc w p) w of Some (q, w') \<Rightarrow>
        if p < NPROC then sl_run l es (w'\<lparr>w_pc := (w_pc w)(p := q)\<rparr>) else w
      | None \<Rightarrow> w)"
| "sl_run l (Inr p # es) w =
     (case sched_access p w of Some w' \<Rightarrow>
        if p < NPROC \<and> w_pc w p = ZOff then sl_run l es (w'\<lparr>w_pc := (w_pc w)(p := ZChan)\<rparr>) else w
      | None \<Rightarrow> w)"

lemma sl_run_steps: "(sl_step l)\<^sup>*\<^sup>* w (sl_run l es w)"
proof (induction l es w rule: sl_run.induct)
  case (2 l p es w)
  then show ?case
    by (auto split: option.split intro: converse_rtranclp_into_rtranclp thread_step)
next
  case (3 l p es w)
  then show ?case
    by (auto split: option.split intro: converse_rtranclp_into_rtranclp sched_step)
qed simp

text \<open>Process 0 takes the lock, process 1 finds it taken and falls asleep; process 0 then gives the
  lock back, and is in the middle of its \<^verbatim>\<open>wakeup\<close>.\<close>

definition sl_start :: sl_world where
  "sl_start = \<lparr>w_pc = (\<lambda>_. AEnter), w_lk = None, w_plk = (\<lambda>_. None),
     w_sl = \<lparr>sl_locked = 0, sl_name = [], sl_pid = 0\<rparr>,
     w_procs = (\<lambda>i. \<lparr>pstate = RUNNING, pchan = NoChan, pkilled = 0, xstate = 0, pid = int i + 1, parent = None,
       kstack = 0, sz = 0, pagetable = 0, trapframe = 0, pcontext = zero_context,
       ofile = replicate NOFILE None, cwd = None, pname = replicate 16 0\<rparr>)\<rparr>"

definition sl_scene :: sl_world where
  "sl_scene = sl_run (BufLock 0) (map Inl [0, 0, 0, 0, 1, 1, 1, 1, 1, 1]) sl_start"

definition sl_scene2 :: sl_world where
  "sl_scene2 = sl_run (BufLock 0) (map Inl [0, 0, 0, 0]) sl_scene"

lemma sl_start_reachable: "reachable sl_init (sl_step l) sl_start"
  by (rule reachable.start) (simp add: sl_init_def sl_start_def)

lemma sl_scene_reachable: "reachable sl_init (sl_step (BufLock 0)) sl_scene"
  unfolding sl_scene_def by (rule sl.reachable_run [OF sl_run_steps sl_start_reachable])

lemma sl_scene2_reachable: "reachable sl_init (sl_step (BufLock 0)) sl_scene2"
  unfolding sl_scene2_def by (rule sl.reachable_run [OF sl_run_steps sl_scene_reachable])

lemma sl_scene_points: "w_pc sl_scene 0 = ACrit \<and> w_pc sl_scene 1 = ZOff \<and> pstate (w_procs sl_scene 1) = SLEEPING"
  "w_pc sl_scene2 0 = RTest 1 \<and> w_pc sl_scene2 1 = ZOff \<and> pstate (w_procs sl_scene2 1) = SLEEPING
   \<and> sl_locked (w_sl sl_scene2) = 0"
  by (simp_all add: sl_scene_def sl_scene2_def sl_start_def sl_access_defs NPROC_def)

theorem sleeplock_protocol_witness:
  "w_pc sl_scene 0 = ACrit \<and> sl_pid (w_sl sl_scene) = pid (w_procs sl_scene 0) \<and> \<not> has_sl (w_pc sl_scene 1)
   \<and> (\<exists>t. w_lk sl_scene2 = Some t \<and> waking (w_pc sl_scene2 t) 1)"
proof -
  have "drowsy (w_pc sl_scene2 1) (w_procs sl_scene2 1)" "sl_locked (w_sl sl_scene2) = 0"
    using sl_scene_points(2) by (simp_all add: drowsy_def)
  then have "\<exists>t. w_lk sl_scene2 = Some t \<and> waking (w_pc sl_scene2 t) 1"
    using sleeplock_protocol [OF sl_scene2_reachable, of 1 1] by blast
  moreover have "has_sl (w_pc sl_scene 0)" using sl_scene_points(1) by (simp add: has_sl_def)
  then have "\<not> has_sl (w_pc sl_scene 1)" "sl_pid (w_sl sl_scene) = pid (w_procs sl_scene 0)"
    using sleeplock_protocol [OF sl_scene_reachable, of 0 1] sl_scene_points(1) zero_neq_one by blast+
  ultimately show ?thesis using sl_scene_points(1) by blast
qed

text \<open>A process that holds the spinlock of the sleep-lock can move, unless it waits for the lock of a
  slot, whose holder can move.\<close>

definition can_move :: "sleepid \<Rightarrow> sl_world \<Rightarrow> nat \<Rightarrow> bool" where
  "can_move l w p \<longleftrightarrow> p < NPROC \<and>
     (sl_access l p (w_pc w p) w \<noteq> None \<or> w_pc w p = ZOff \<and> sched_access p w \<noteq> None)"

lemma busy_pc: "sl_parts l w own \<Longrightarrow> w_pc w p \<noteq> AEnter \<Longrightarrow> p < NPROC"
  using sl_partsD(7) [of l w own p] by (cases "p < NPROC") auto

lemma holder_moves:
  assumes parts: "sl_parts l w own" and lk: "w_lk w = Some t"
  shows "\<exists>p. can_move l w p"
proof -
  note inv = sl_partsD [OF parts]
  have h: "holds_lk (w_pc w t)" using inv(1) [of t] lk by simp
  have t: "t < NPROC" using busy_pc [OF parts, of t] h by (cases "w_pc w t = AEnter") auto
  show ?thesis
  proof (cases "sl_access l t (w_pc w t) w")
    case None
    with h obtain i where i: "i \<noteq> t \<and> w_pc w t = RWake i \<or> i = t \<and> w_pc w t = ZLock" "w_plk w i \<noteq> None"
      by (cases "w_pc w t") (auto simp: sl_access_defs split: if_splits)
    then obtain k where k: "holds_plk k (w_pc w k) i" using inv(2) by auto
    moreover have "k \<noteq> t" using k i by auto
    then have "\<not> holds_lk (w_pc w k)" using inv(1) [of k] lk by simp
    ultimately have "w_pc w k \<in> {ZSet, ZSched, ZChan, ZUnlock}" by (cases "w_pc w k") auto
    then have "sl_access l k (w_pc w k) w \<noteq> None" "k < NPROC" using busy_pc [OF parts, of k] by auto
    then show ?thesis by (auto simp: can_move_def)
  qed (use t in \<open>auto simp: can_move_def\<close>)
qed

text \<open>C16. The protocol never gets stuck: in every reachable state some process can take a step, or a
  scheduler can switch to one.\<close>

theorem sleeplock_progress:
  assumes "reachable sl_init (sl_step l) w"
  shows "\<exists>p < NPROC. sl_access l p (w_pc w p) w \<noteq> None \<or> w_pc w p = ZOff \<and> sched_access p w \<noteq> None"
proof -
  from sl.reachable_invar [OF assms] obtain own where parts: "sl_parts l w own" by (auto simp: sl_inv_def)
  note inv = sl_partsD [OF parts]
  have "\<exists>p. can_move l w p"
  proof (cases "w_lk w")
    case None
    have N: "0 < NPROC" by (simp add: NPROC_def)
    have idle: "\<not> holds_lk (w_pc w p)" for p using inv(1) [of p] None by simp
    have crit: "\<exists>p. can_move l w p" if own: "own = Some r" for r
    proof -
      have "w_pc w r = ACrit" using inv(3) [of r] own idle [of r] by (auto simp: has_sl_def)
      then show ?thesis using busy_pc [OF parts, of r] None by (auto simp: can_move_def lk_acquire_def)
    qed
    have unheld: "w_plk w 0 = None" if "w_pc w 0 = ZOff"
    proof (rule ccontr)
      assume "w_plk w 0 \<noteq> None"
      then obtain k where k: "holds_plk k (w_pc w k) 0" using inv(2) by auto
      with idle [of k] that show False by (cases "w_pc w k") auto
    qed
    show ?thesis
    proof (cases "w_pc w 0 = ZOff")
      case True
      with inv(5) [of 0] have "pstate (w_procs w 0) = RUNNABLE \<or> drowsy (w_pc w 0) (w_procs w 0)"
        by (auto simp: state_ok_def drowsy_def)
      then show ?thesis
      proof
        assume "drowsy (w_pc w 0) (w_procs w 0)"
        then have "own \<noteq> None" using inv(4) inv(8) [of 0] None by simp
        then show ?thesis using crit by auto
      qed (use True unheld N in \<open>auto simp: can_move_def sched_access_def\<close>)
    next
      case False
      then have "sl_access l 0 (w_pc w 0) w \<noteq> None"
        using idle [of 0] None by (cases "w_pc w 0") (auto simp: lk_acquire_def)
      then show ?thesis using N by (auto simp: can_move_def)
    qed
  qed (rule holder_moves [OF parts])
  then show ?thesis by (auto simp: can_move_def)
qed

theorem sleeplock_progress_witness:
  "\<exists>p < NPROC. sl_access (BufLock 0) p (w_pc sl_scene p) sl_scene \<noteq> None
     \<or> w_pc sl_scene p = ZOff \<and> sched_access p sl_scene \<noteq> None"
  by (rule sleeplock_progress [OF sl_scene_reachable])

end
