(* ===== verification/Uart.thy ===== *)
theory Uart
  imports Proc
begin

section \<open>kernel/uart.c: the serial port driver\<close>

text \<open>
  The UART itself is not part of the sources. The model of the driver sees it through its registers:
  \<open>uart_lsr\<close> lists what the next reads of the line status register return (0, nothing ready, from
  then on), \<open>uart_rx\<close> the bytes the receive register will deliver, and \<open>uart_log\<close> is the
  sequence of register writes the driver has made, so that the bytes sent on the line are the writes
  to \<^verbatim>\<open>THR\<close> in \<open>uart_log\<close>. The record also has the state of \<^verbatim>\<open>kernel/console.c\<close> and
  \<^verbatim>\<open>kernel/printf.c\<close>.
\<close>

record dev_state = proc_state +
  uart_lsr :: "u8 list"
  uart_rx :: "u8 list"
  uart_log :: "(nat \<times> u8) list"
  uart_tx_buf :: "u8 list"
  uart_tx_w :: u64
  uart_tx_r :: u64
  panicked :: int
  pr_locking :: int
  cons_buf :: "u8 list"
  cons_r :: u32
  cons_w :: u32
  cons_e :: u32

definition RHR :: nat where [layout_defs]: "RHR = 0"
definition THR :: nat where [layout_defs]: "THR = 0"
definition IER :: nat where [layout_defs]: "IER = 1"
definition IER_RX_ENABLE :: u8 where [layout_defs]: "IER_RX_ENABLE = push_bit 0 1"
definition IER_TX_ENABLE :: u8 where [layout_defs]: "IER_TX_ENABLE = push_bit 1 1"
definition FCR :: nat where [layout_defs]: "FCR = 2"
definition FCR_FIFO_ENABLE :: u8 where [layout_defs]: "FCR_FIFO_ENABLE = push_bit 0 1"
definition FCR_FIFO_CLEAR :: u8 where [layout_defs]: "FCR_FIFO_CLEAR = push_bit 1 3"
definition LCR :: nat where [layout_defs]: "LCR = 3"
definition LCR_EIGHT_BITS :: u8 where [layout_defs]: "LCR_EIGHT_BITS = push_bit 0 3"
definition LCR_BAUD_LATCH :: u8 where [layout_defs]: "LCR_BAUD_LATCH = push_bit 7 1"
definition LSR_RX_READY :: u8 where [layout_defs]: "LSR_RX_READY = push_bit 0 1"
definition LSR_TX_IDLE :: u8 where [layout_defs]: "LSR_TX_IDLE = push_bit 5 1"
definition UART_TX_BUF_SIZE :: u64 where [layout_defs]: "UART_TX_BUF_SIZE = 32"

definition WriteReg :: "nat \<Rightarrow> u8 \<Rightarrow> ('a dev_state_scheme, unit) kern" where
  "WriteReg reg v = kmodify (\<lambda>s. s\<lparr>uart_log := uart_log s @ [(reg, v)]\<rparr>)"

text \<open>\<^verbatim>\<open>ReadReg(LSR)\<close> and \<^verbatim>\<open>ReadReg(RHR)\<close>.\<close>

definition ReadLSR :: "('a dev_state_scheme, u8) kern" where
  "ReadLSR =
     kbind (kget uart_lsr) (\<lambda>l.
     case l of [] \<Rightarrow> kret 0 | x # xs \<Rightarrow> kdo (kmodify (\<lambda>s. s\<lparr>uart_lsr := xs\<rparr>)) (kret x))"

definition ReadRHR :: "('a dev_state_scheme, u8) kern" where
  "ReadRHR =
     kbind (kget uart_rx) (\<lambda>l.
     case l of [] \<Rightarrow> kret 0 | x # xs \<Rightarrow> kdo (kmodify (\<lambda>s. s\<lparr>uart_rx := xs\<rparr>)) (kret x))"

definition uartinit :: "('a dev_state_scheme, unit) kern" where
  "uartinit =
     kdo (WriteReg IER 0)
     (kdo (WriteReg LCR LCR_BAUD_LATCH)
     (kdo (WriteReg 0 0x03)
     (kdo (WriteReg 1 0x00)
     (kdo (WriteReg LCR LCR_EIGHT_BITS)
     (kdo (WriteReg FCR (FCR_FIFO_ENABLE OR FCR_FIFO_CLEAR))
     (kdo (WriteReg IER (IER_TX_ENABLE OR IER_RX_ENABLE))
     (kinitlock UartTxLock ''uart'')))))))"

text \<open>\<^verbatim>\<open>uartstart\<close> takes one byte out of the ring in every iteration; \<open>n\<close> is the number of
  bytes in it.\<close>

fun uartstart_loop :: "nat \<Rightarrow> ('a dev_state_scheme, unit) kern" where
  "uartstart_loop n =
     kbind (kget (\<lambda>s. uart_tx_w s = uart_tx_r s)) (\<lambda>empty.
     if empty \<or> n = 0 then kret ()
     else kbind ReadLSR (\<lambda>lsr.
       if lsr AND LSR_TX_IDLE = 0 then kret ()
       else kbind (kget (\<lambda>s. uart_tx_buf s ! unat (uart_tx_r s mod UART_TX_BUF_SIZE))) (\<lambda>c.
         kdo (kmodify (\<lambda>s. s\<lparr>uart_tx_r := uart_tx_r s + 1\<rparr>))
         (kdo (wakeup ChanUartTx)
         (kdo (WriteReg THR c)
         (uartstart_loop (n - 1)))))))"

definition uartstart :: "('a dev_state_scheme, unit) kern" where
  "uartstart = kbind (kget (\<lambda>s. unat (uart_tx_w s - uart_tx_r s))) uartstart_loop"

text \<open>The rest of \<^verbatim>\<open>uartputc\<close> once the lock is held; a writer that slept comes back here.\<close>

definition uartputc_loop :: "u8 \<Rightarrow> ('a dev_state_scheme, unit) kern" where
  "uartputc_loop c =
     kbind (kget (\<lambda>s. uart_tx_w s = uart_tx_r s + UART_TX_BUF_SIZE)) (\<lambda>full.
     if full then sleep ChanUartTx UartTxLock
     else kdo (kmodify (\<lambda>s. s\<lparr>uart_tx_buf := (uart_tx_buf s)[unat (uart_tx_w s mod UART_TX_BUF_SIZE) := c]\<rparr>))
       (kdo (kmodify (\<lambda>s. s\<lparr>uart_tx_w := uart_tx_w s + 1\<rparr>))
       (kdo uartstart
       (krelease UartTxLock))))"

definition uartputc :: "u8 \<Rightarrow> ('a dev_state_scheme, unit) kern" where
  "uartputc c =
     kdo (kacquire UartTxLock)
     (kbind (kget panicked) (\<lambda>pk.
     if pk \<noteq> 0 then khang ''panicked'' else uartputc_loop c))"

text \<open>\<^verbatim>\<open>uartputc_sync\<close> polls the line status until the transmitter is idle.\<close>

definition uart_wait_idle :: "('a dev_state_scheme, unit) kern" where
  "uart_wait_idle =
     kbind (kget (\<lambda>s. dropWhile (\<lambda>x. x AND LSR_TX_IDLE = 0) (uart_lsr s))) (\<lambda>l.
     case l of [] \<Rightarrow> khang ''uart never idle'' | x # xs \<Rightarrow> kmodify (\<lambda>s. s\<lparr>uart_lsr := xs\<rparr>))"

definition uartputc_sync :: "u8 \<Rightarrow> ('a dev_state_scheme, unit) kern" where
  "uartputc_sync c =
     kdo (lift_hw push_off)
     (kbind (kget panicked) (\<lambda>pk.
     if pk \<noteq> 0 then khang ''panicked''
     else kdo uart_wait_idle
       (kdo (WriteReg THR c)
       (lift_hw pop_off))))"

definition uartgetc :: "('a dev_state_scheme, int) kern" where
  "uartgetc =
     kbind ReadLSR (\<lambda>lsr.
     if lsr AND 0x01 \<noteq> 0 then kbind ReadRHR (\<lambda>c. kret (uint c)) else kret (- 1))"

end
