(* ===== verification/Printf.thy ===== *)
theory Printf
  imports Uart
begin

section \<open>kernel/printf.c\<close>

text \<open>
  The formatted output of the kernel, with \<^verbatim>\<open>consputc\<close> of \<^verbatim>\<open>kernel/console.c\<close> and
  \<^verbatim>\<open>procdump\<close> of \<^verbatim>\<open>kernel/proc.c\<close>, which are its only neighbours. A format is the list of its
  bytes up to the terminating null; the variable arguments are a list of values that carry the type
  they are passed with. Taking an argument that is not there, or of another type, and writing past the
  end of the buffer of \<^verbatim>\<open>printint\<close> are undefined behaviour.
\<close>

definition byte :: "char \<Rightarrow> u8" where
  "byte c = of_char c"

definition bytes :: "string \<Rightarrow> u8 list" where
  "bytes s = map byte s"

definition BACKSPACE :: int where [layout_defs]: "BACKSPACE = 0x100"

definition consputc :: "int \<Rightarrow> ('a dev_state_scheme, unit) kern" where
  "consputc c =
     (if c = BACKSPACE
      then kdo (uartputc_sync 8) (kdo (uartputc_sync (byte CHR '' '')) (uartputc_sync 8))
      else uartputc_sync (word_of_int c))"

definition digits :: "u8 list" where
  "digits = bytes ''0123456789abcdef''"

text \<open>The digits of a number, least significant first.\<close>

function printint_digits :: "u64 \<Rightarrow> u64 \<Rightarrow> u8 list" where
  "printint_digits x base =
     (let d = digits ! unat (x mod base) in
      if base \<le> 1 \<or> x div base = 0 then [d] else d # printint_digits (x div base) base)"
  by pat_completeness auto

termination
proof (relation "measure (\<lambda>(x, base). unat x)", goal_cases)
  case (2 x base d)
  then have "1 < unat base" "0 < unat x"
    by (auto simp: word_le_nat_alt unat_gt_0 not_le intro: ccontr)
  then show ?case by (simp add: unat_div_distrib)
qed simp

declare printint_digits.simps [simp del]

definition sizeof_printint_buf :: nat where "sizeof_printint_buf = 16"

definition printint :: "64 word \<Rightarrow> u64 \<Rightarrow> bool \<Rightarrow> ('a dev_state_scheme, unit) kern" where
  "printint xx base sign =
     (let neg = sign \<and> sint xx < 0;
          buf = printint_digits (if neg then - xx else xx) base @ (if neg then [byte CHR ''-''] else [])
      in if length buf > sizeof_printint_buf then kfault ''printint: buf overflow''
         else kfor (rev buf) (\<lambda>c. consputc (uint c)))"

fun printptr_loop :: "nat \<Rightarrow> u64 \<Rightarrow> ('a dev_state_scheme, unit) kern" where
  "printptr_loop 0 x = kret ()"
| "printptr_loop (Suc n) x =
     kdo (consputc (uint (digits ! unat (drop_bit 60 x)))) (printptr_loop n (push_bit 4 x))"

definition printptr :: "u64 \<Rightarrow> ('a dev_state_scheme, unit) kern" where
  "printptr x =
     kdo (consputc (uint (byte CHR ''0'')))
     (kdo (consputc (uint (byte CHR ''x'')))
     (printptr_loop 16 x))"

subsection \<open>The format loop\<close>

datatype vaarg = VInt "32 word" | VLong u64 | VStr "u8 list option"

text \<open>A conversion: how many bytes behind the percent sign it takes, and what it prints. \<open>fmt_at\<close>
  reads the null byte behind the end of the format.\<close>

datatype conv = CInt u64 bool | CLong u64 bool | CPtr | CStr | CPercent | CEnd | CUnknown u8

definition fmt_at :: "u8 list \<Rightarrow> nat \<Rightarrow> u8" where
  "fmt_at f i = (if i < length f then f ! i else 0)"

definition printf_conv :: "u8 list \<Rightarrow> conv \<times> nat" where
  "printf_conv f =
     (let c0 = fmt_at f 0;
          c1 = (if c0 \<noteq> 0 then fmt_at f 1 else 0);
          c2 = (if c1 \<noteq> 0 then fmt_at f 2 else 0);
          d = byte CHR ''d''; l = byte CHR ''l''; u = byte CHR ''u''; x = byte CHR ''x''
      in if c0 = d then (CInt 10 True, 1)
         else if c0 = l \<and> c1 = d then (CLong 10 True, 2)
         else if c0 = l \<and> c1 = l \<and> c2 = d then (CLong 10 True, 3)
         else if c0 = u then (CInt 10 False, 1)
         else if c0 = l \<and> c1 = u then (CLong 10 False, 2)
         else if c0 = l \<and> c1 = l \<and> c2 = u then (CLong 10 False, 3)
         else if c0 = x then (CInt 16 False, 1)
         else if c0 = l \<and> c1 = x then (CLong 16 False, 2)
         else if c0 = l \<and> c1 = l \<and> c2 = x then (CLong 16 False, 3)
         else if c0 = byte CHR ''p'' then (CPtr, 1)
         else if c0 = byte CHR ''s'' then (CStr, 1)
         else if c0 = byte CHR ''%'' then (CPercent, 1)
         else if c0 = 0 then (CEnd, 0)
         else (CUnknown c0, 1))"

definition puts :: "u8 list \<Rightarrow> ('a dev_state_scheme, unit) kern" where
  "puts bs = kfor bs (\<lambda>c. consputc (uint c))"

text \<open>What a conversion prints, and the arguments that are left.\<close>

fun printf_arg :: "conv \<Rightarrow> vaarg list \<Rightarrow> ('a dev_state_scheme, vaarg list) kern" where
  "printf_arg (CInt base sign) (VInt v # as) = kdo (printint (scast v) base sign) (kret as)"
| "printf_arg (CLong base sign) (VLong v # as) = kdo (printint v base sign) (kret as)"
| "printf_arg CPtr (VLong v # as) = kdo (printptr v) (kret as)"
| "printf_arg CStr (VStr None # as) = kdo (puts (bytes ''(null)'')) (kret as)"
| "printf_arg CStr (VStr (Some bs) # as) = kdo (puts bs) (kret as)"
| "printf_arg CPercent as = kdo (consputc (uint (byte CHR ''%''))) (kret as)"
| "printf_arg (CUnknown c) as =
     kdo (consputc (uint (byte CHR ''%''))) (kdo (consputc (uint c)) (kret as))"
| "printf_arg _ as = kfault ''va_arg''"

function printf_loop :: "u8 list \<Rightarrow> vaarg list \<Rightarrow> ('a dev_state_scheme, unit) kern" where
  "printf_loop [] as = kret ()"
| "printf_loop (cx # f) as =
     (if cx = 0 then kret ()
      else if cx \<noteq> byte CHR ''%'' then kdo (consputc (uint cx)) (printf_loop f as)
      else let (c, n) = printf_conv f in
        if c = CEnd then kret ()
        else kbind (printf_arg c as) (\<lambda>as'. printf_loop (drop n f) as'))"
  by pat_completeness auto

termination
  by (relation "measure (\<lambda>(f, as). length f)") auto

definition printf :: "u8 list \<Rightarrow> vaarg list \<Rightarrow> ('a dev_state_scheme, int) kern" where
  "printf fmt as =
     kbind (kget pr_locking) (\<lambda>locking.
     kdo (kwhen (locking \<noteq> 0) (kacquire PrLock))
     (kdo (printf_loop fmt as)
     (kdo (kwhen (locking \<noteq> 0) (krelease PrLock))
     (kret 0))))"

definition panic :: "string \<Rightarrow> ('a dev_state_scheme, 'b) kern" where
  "panic e =
     kdo (kmodify (\<lambda>s. s\<lparr>pr_locking := 0\<rparr>))
     (kdo (printf (bytes ''panic: '') [])
     (kdo (printf (bytes ''%s'' @ [10]) [VStr (Some (bytes e))])
     (kdo (kmodify (\<lambda>s. s\<lparr>panicked := 1\<rparr>))
     (kpanic e))))"

definition printfinit :: "('a dev_state_scheme, unit) kern" where
  "printfinit = kdo (kinitlock PrLock ''pr'') (kmodify (\<lambda>s. s\<lparr>pr_locking := 1\<rparr>))"

subsection \<open>Listing the processes\<close>

fun state_name :: "procstate \<Rightarrow> string" where
  "state_name UNUSED = ''unused''"
| "state_name USED = ''used''"
| "state_name SLEEPING = ''sleep ''"
| "state_name RUNNABLE = ''runble''"
| "state_name RUNNING = ''run   ''"
| "state_name ZOMBIE = ''zombie''"

definition procdump :: "('a dev_state_scheme, unit) kern" where
  "procdump =
     kdo (printf [10] [])
     (kfor [0..<NPROC] (\<lambda>i.
       kbind (get_proc i id) (\<lambda>p.
       kwhen (pstate p \<noteq> UNUSED)
         (kdo (printf (bytes ''%d %s %s'')
            [VInt (word_of_int (pid p)), VStr (Some (bytes (state_name (pstate p)))),
             VStr (Some (takeWhile (\<lambda>c. c \<noteq> 0) (pname p)))])
         (kdo (printf [10] []) (kret ()))))))"

end
