(* ===== verification/Console.thy ===== *)
theory Console
  imports Printf
begin

section \<open>kernel/console.c: lines from and to the console\<close>

text \<open>
  Input bytes arrive in \<^verbatim>\<open>consoleintr\<close>, which edits the current line in a ring of 128 bytes and
  publishes it, by advancing \<^verbatim>\<open>cons.w\<close>, when it is complete; \<^verbatim>\<open>consoleread\<close> takes bytes
  between \<^verbatim>\<open>cons.r\<close> and \<^verbatim>\<open>cons.w\<close>. The three indices are 32-bit counters that wrap around.
  \<^verbatim>\<open>uartintr\<close> of \<^verbatim>\<open>kernel/uart.c\<close>, which feeds \<^verbatim>\<open>consoleintr\<close>, is here too.
\<close>

definition INPUT_BUF_SIZE :: u32 where [layout_defs]: "INPUT_BUF_SIZE = 128"

definition ctrl :: "char \<Rightarrow> int" where
  "ctrl x = of_char x - of_char CHR ''@''"

definition cons_at :: "u32 \<Rightarrow> 'a dev_state_scheme \<Rightarrow> u8" where
  "cons_at i s = cons_buf s ! unat (i mod INPUT_BUF_SIZE)"

subsection \<open>Reading and writing\<close>

fun consolewrite_loop :: "copy_src \<Rightarrow> nat \<Rightarrow> int \<Rightarrow> ('a dev_state_scheme, int) kern" where
  "consolewrite_loop src 0 i = kret i"
| "consolewrite_loop src (Suc k) i =
     kbind (either_copyin src 1) (\<lambda>(r, bs).
     if r = - 1 then kret i
     else kdo (uartputc (hd bs)) (consolewrite_loop (advance_src src 1) k (i + 1)))"

definition consolewrite :: "copy_src \<Rightarrow> int \<Rightarrow> ('a dev_state_scheme, int) kern" where
  "consolewrite src n = consolewrite_loop src (nat n) 0"

text \<open>The loop of \<^verbatim>\<open>consoleread\<close>, with \<^verbatim>\<open>cons.lock\<close> held and \<open>k\<close> bytes still to be read;
  \<open>target\<close> is the number the caller asked for.\<close>

fun consoleread_loop :: "u32 \<Rightarrow> copy_dst \<Rightarrow> nat \<Rightarrow> ('a dev_state_scheme, int) kern" where
  "consoleread_loop target dst 0 = kdo (krelease ConsLock) (kret (sint target))"
| "consoleread_loop target dst (Suc k) =
     kbind (kget (\<lambda>s. cons_r s = cons_w s)) (\<lambda>empty.
     if empty then
       with_myproc (\<lambda>p.
       kbind (killed p) (\<lambda>kd.
       if kd \<noteq> 0 then kdo (krelease ConsLock) (kret (- 1))
       else sleep ChanCons ConsLock))
     else
       kbind (kget (\<lambda>s. cons_at (cons_r s) s)) (\<lambda>c.
       kdo (kmodify (\<lambda>s. s\<lparr>cons_r := cons_r s + 1\<rparr>))
       (if uint c = ctrl CHR ''D'' then
         kdo (kwhen (of_nat (Suc k) < target) (kmodify (\<lambda>s. s\<lparr>cons_r := cons_r s - 1\<rparr>)))
         (kdo (krelease ConsLock) (kret (sint (target - of_nat (Suc k)))))
        else
         kbind (either_copyout dst [c]) (\<lambda>r.
         if r = - 1 then kdo (krelease ConsLock) (kret (sint (target - of_nat (Suc k))))
         else if c = 10 then kdo (krelease ConsLock) (kret (sint (target - of_nat k)))
         else consoleread_loop target (advance_dst dst 1) k))))"

definition consoleread :: "copy_dst \<Rightarrow> int \<Rightarrow> ('a dev_state_scheme, int) kern" where
  "consoleread dst n =
     kdo (kacquire ConsLock)
     (if n > 0 then consoleread_loop (word_of_int n) dst (nat n)
      else kdo (krelease ConsLock) (kret 0))"

subsection \<open>Input interrupts\<close>

text \<open>Control-U: the loop that erases the current line; it has at most as many iterations as there are
  bytes to edit.\<close>

fun cons_kill_line :: "nat \<Rightarrow> ('a dev_state_scheme, unit) kern" where
  "cons_kill_line 0 = kret ()"
| "cons_kill_line (Suc k) =
     kbind (kget (\<lambda>s. cons_e s \<noteq> cons_w s \<and> cons_at (cons_e s - 1) s \<noteq> 10)) (\<lambda>more.
     kwhen more
       (kdo (kmodify (\<lambda>s. s\<lparr>cons_e := cons_e s - 1\<rparr>))
       (kdo (consputc BACKSPACE)
       (cons_kill_line k))))"

text \<open>The default case: store the character, echo it, and publish a complete line.\<close>

definition cons_store :: "int \<Rightarrow> ('a dev_state_scheme, unit) kern" where
  "cons_store c0 =
     kbind (kget (\<lambda>s. cons_e s - cons_r s < INPUT_BUF_SIZE)) (\<lambda>room.
     kwhen (c0 \<noteq> 0 \<and> room)
       (let c = (if c0 = 13 then 10 else c0) in
        kdo (consputc c)
        (kdo (kmodify (\<lambda>s. s\<lparr>cons_buf := (cons_buf s)[unat (cons_e s mod INPUT_BUF_SIZE) := word_of_int c],
           cons_e := cons_e s + 1\<rparr>))
        (kbind (kget (\<lambda>s. c = 10 \<or> c = ctrl CHR ''D'' \<or> cons_e s - cons_r s = INPUT_BUF_SIZE)) (\<lambda>line.
        kwhen line
          (kdo (kmodify (\<lambda>s. s\<lparr>cons_w := cons_e s\<rparr>))
          (wakeup ChanCons)))))))"

definition consoleintr :: "int \<Rightarrow> ('a dev_state_scheme, unit) kern" where
  "consoleintr c =
     kdo (kacquire ConsLock)
     (kdo (if c = ctrl CHR ''P'' then procdump
           else if c = ctrl CHR ''U'' then kbind (kget (\<lambda>s. unat (cons_e s - cons_w s))) cons_kill_line
           else if c = ctrl CHR ''H'' \<or> c = 0x7f then
             kbind (kget (\<lambda>s. cons_e s \<noteq> cons_w s)) (\<lambda>some.
             kwhen some (kdo (kmodify (\<lambda>s. s\<lparr>cons_e := cons_e s - 1\<rparr>)) (consputc BACKSPACE)))
           else cons_store c)
     (krelease ConsLock))"

text \<open>Every iteration of \<^verbatim>\<open>uartintr\<close> reads the line status register at least once, so the number
  of answers it still has bounds the loop.\<close>

fun uartintr_loop :: "nat \<Rightarrow> ('a dev_state_scheme, unit) kern" where
  "uartintr_loop 0 = kret ()"
| "uartintr_loop (Suc k) =
     kbind uartgetc (\<lambda>c.
     if c = - 1 then kret ()
     else kdo (consoleintr c) (uartintr_loop k))"

definition uartintr :: "('a dev_state_scheme, unit) kern" where
  "uartintr =
     kbind (kget (\<lambda>s. Suc (length (uart_lsr s)))) (\<lambda>k.
     kdo (uartintr_loop k)
     (kdo (kacquire UartTxLock)
     (kdo uartstart
     (krelease UartTxLock))))"

end
