(* ===== verification/Virtio.thy ===== *)
theory Virtio
  imports Console
begin

section \<open>kernel/virtio_disk.c: the disk driver\<close>

text \<open>
  The driver of the virtio block device, with \<^verbatim>\<open>struct buf\<close> of \<^verbatim>\<open>kernel/buf.h\<close>, which it
  transfers. The queue pages that driver and device share hold typed tables and are modelled as such;
  an address in a descriptor names the object it points to.

  The device is not part of the sources. It is the field \<open>disk_hw\<close>: what the device does to the
  shared tables, to the buffers it has been pointed to and to its sectors when it serves the queue.
  \<open>virtio_regs\<close> are the values its registers answer with and \<open>virtio_log\<close> the register writes
  made so far. \<open>disk_image\<close> holds the sectors, and \<open>disk_trace\<close> the sequence of sector writes
  that led to it, which is what a crash can cut.
\<close>

subsection \<open>Data\<close>

definition BSIZE :: nat where [layout_defs]: "BSIZE = 1024"
definition NUM :: nat where [layout_defs]: "NUM = 8"
definition VRING_DESC_F_NEXT :: u16 where [layout_defs]: "VRING_DESC_F_NEXT = 1"
definition VRING_DESC_F_WRITE :: u16 where [layout_defs]: "VRING_DESC_F_WRITE = 2"
definition VIRTIO_BLK_T_IN :: u32 where [layout_defs]: "VIRTIO_BLK_T_IN = 0"
definition VIRTIO_BLK_T_OUT :: u32 where [layout_defs]: "VIRTIO_BLK_T_OUT = 1"

record buf =
  valid :: int
  bdisk :: int \<comment> \<open>does the disk own the buffer?\<close>
  bdev :: u32
  blockno :: u32
  refcnt :: u32
  bprev :: nat \<comment> \<open>index into the cache, \<^verbatim>\<open>NBUF\<close> for the list head\<close>
  bnext :: nat
  bdata :: "u8 list"

datatype dma = DmaNull | DmaOp nat | DmaData nat | DmaStatus nat

record virtq_desc =
  d_addr :: dma
  d_len :: u32
  d_flags :: u16
  d_next :: u16

record virtio_blk_req =
  r_type :: u32
  r_reserved :: u32
  r_sector :: u64

text \<open>\<^verbatim>\<open>struct disk\<close> with the three tables it points to, and the addresses of their pages.\<close>

record vdisk =
  vd_desc_page :: u64
  vd_avail_page :: u64
  vd_used_page :: u64
  vd_desc :: "nat \<Rightarrow> virtq_desc"
  vd_avail_idx :: u16
  vd_avail_ring :: "nat \<Rightarrow> u16"
  vd_used_dev_idx :: u16 \<comment> \<open>\<^verbatim>\<open>disk.used->idx\<close>\<close>
  vd_used_ring :: "nat \<Rightarrow> u32"
  vd_free :: "nat \<Rightarrow> bool"
  vd_used_idx :: u16 \<comment> \<open>\<^verbatim>\<open>disk.used_idx\<close>\<close>
  vd_info_b :: "nat \<Rightarrow> nat option"
  vd_info_status :: "nat \<Rightarrow> u8"
  vd_ops :: "nat \<Rightarrow> virtio_blk_req"

type_synonym sectors = "u64 \<Rightarrow> u8 list"

type_synonym disk_view = "vdisk \<times> (nat \<Rightarrow> buf) \<times> (u64 \<times> u8 list) list \<times> sectors"

record bio_state = dev_state +
  bufs :: "nat \<Rightarrow> buf"
  vdisk :: vdisk
  disk_image :: sectors
  disk_trace :: "(u64 \<times> u8 list) list"
  disk_hw :: "disk_view \<Rightarrow> disk_view"
  virtio_regs :: "u64 \<Rightarrow> u32"
  virtio_log :: "(u64 \<times> u32) list"

definition upd_buf :: "nat \<Rightarrow> (buf \<Rightarrow> buf) \<Rightarrow> ('a bio_state_scheme, unit) kern" where
  "upd_buf b f = kmodify (\<lambda>s. s\<lparr>bufs := (bufs s)(b := f (bufs s b))\<rparr>)"

abbreviation get_buf :: "nat \<Rightarrow> (buf \<Rightarrow> 'b) \<Rightarrow> ('a bio_state_scheme, 'b) kern" where
  "get_buf b f \<equiv> kget (\<lambda>s. f (bufs s b))"

definition upd_vdisk :: "(vdisk \<Rightarrow> vdisk) \<Rightarrow> ('a bio_state_scheme, unit) kern" where
  "upd_vdisk f = kmodify (\<lambda>s. s\<lparr>vdisk := f (vdisk s)\<rparr>)"

abbreviation get_vdisk :: "(vdisk \<Rightarrow> 'b) \<Rightarrow> ('a bio_state_scheme, 'b) kern" where
  "get_vdisk f \<equiv> kget (\<lambda>s. f (vdisk s))"

text \<open>The registers of the device and their offsets.\<close>

datatype virtio_reg =
    VIRTIO_MMIO_MAGIC_VALUE | VIRTIO_MMIO_VERSION | VIRTIO_MMIO_DEVICE_ID | VIRTIO_MMIO_VENDOR_ID
  | VIRTIO_MMIO_DEVICE_FEATURES | VIRTIO_MMIO_DRIVER_FEATURES | VIRTIO_MMIO_QUEUE_SEL
  | VIRTIO_MMIO_QUEUE_NUM_MAX | VIRTIO_MMIO_QUEUE_NUM | VIRTIO_MMIO_QUEUE_READY | VIRTIO_MMIO_QUEUE_NOTIFY
  | VIRTIO_MMIO_INTERRUPT_STATUS | VIRTIO_MMIO_INTERRUPT_ACK | VIRTIO_MMIO_STATUS | VIRTIO_MMIO_QUEUE_DESC_LOW
  | VIRTIO_MMIO_QUEUE_DESC_HIGH | VIRTIO_MMIO_DRIVER_DESC_LOW | VIRTIO_MMIO_DRIVER_DESC_HIGH
  | VIRTIO_MMIO_DEVICE_DESC_LOW | VIRTIO_MMIO_DEVICE_DESC_HIGH

primrec virtio_off :: "virtio_reg \<Rightarrow> u64" where
  "virtio_off VIRTIO_MMIO_MAGIC_VALUE = 0x000"
| "virtio_off VIRTIO_MMIO_VERSION = 0x004"
| "virtio_off VIRTIO_MMIO_DEVICE_ID = 0x008"
| "virtio_off VIRTIO_MMIO_VENDOR_ID = 0x00c"
| "virtio_off VIRTIO_MMIO_DEVICE_FEATURES = 0x010"
| "virtio_off VIRTIO_MMIO_DRIVER_FEATURES = 0x020"
| "virtio_off VIRTIO_MMIO_QUEUE_SEL = 0x030"
| "virtio_off VIRTIO_MMIO_QUEUE_NUM_MAX = 0x034"
| "virtio_off VIRTIO_MMIO_QUEUE_NUM = 0x038"
| "virtio_off VIRTIO_MMIO_QUEUE_READY = 0x044"
| "virtio_off VIRTIO_MMIO_QUEUE_NOTIFY = 0x050"
| "virtio_off VIRTIO_MMIO_INTERRUPT_STATUS = 0x060"
| "virtio_off VIRTIO_MMIO_INTERRUPT_ACK = 0x064"
| "virtio_off VIRTIO_MMIO_STATUS = 0x070"
| "virtio_off VIRTIO_MMIO_QUEUE_DESC_LOW = 0x080"
| "virtio_off VIRTIO_MMIO_QUEUE_DESC_HIGH = 0x084"
| "virtio_off VIRTIO_MMIO_DRIVER_DESC_LOW = 0x090"
| "virtio_off VIRTIO_MMIO_DRIVER_DESC_HIGH = 0x094"
| "virtio_off VIRTIO_MMIO_DEVICE_DESC_LOW = 0x0a0"
| "virtio_off VIRTIO_MMIO_DEVICE_DESC_HIGH = 0x0a4"

declare virtio_off.simps [simp del]

text \<open>Register access through \<^verbatim>\<open>*R(r)\<close>.\<close>

definition read_R :: "virtio_reg \<Rightarrow> ('a bio_state_scheme, u32) kern" where
  "read_R r = kget (\<lambda>s. virtio_regs s (virtio_off r))"

definition write_R :: "virtio_reg \<Rightarrow> u32 \<Rightarrow> ('a bio_state_scheme, unit) kern" where
  "write_R r v = kmodify (\<lambda>s. s\<lparr>virtio_log := virtio_log s @ [(virtio_off r, v)]\<rparr>)"

subsection \<open>Initialisation\<close>

definition VIRTIO_CONFIG_S_ACKNOWLEDGE :: u32 where [layout_defs]: "VIRTIO_CONFIG_S_ACKNOWLEDGE = 1"
definition VIRTIO_CONFIG_S_DRIVER :: u32 where [layout_defs]: "VIRTIO_CONFIG_S_DRIVER = 2"
definition VIRTIO_CONFIG_S_DRIVER_OK :: u32 where [layout_defs]: "VIRTIO_CONFIG_S_DRIVER_OK = 4"
definition VIRTIO_CONFIG_S_FEATURES_OK :: u32 where [layout_defs]: "VIRTIO_CONFIG_S_FEATURES_OK = 8"

datatype virtio_feature =
    VIRTIO_BLK_F_RO | VIRTIO_BLK_F_SCSI | VIRTIO_BLK_F_CONFIG_WCE | VIRTIO_BLK_F_MQ | VIRTIO_F_ANY_LAYOUT
  | VIRTIO_RING_F_INDIRECT_DESC | VIRTIO_RING_F_EVENT_IDX

primrec feature_bit :: "virtio_feature \<Rightarrow> nat" where
  "feature_bit VIRTIO_BLK_F_RO = 5"
| "feature_bit VIRTIO_BLK_F_SCSI = 7"
| "feature_bit VIRTIO_BLK_F_CONFIG_WCE = 11"
| "feature_bit VIRTIO_BLK_F_MQ = 12"
| "feature_bit VIRTIO_F_ANY_LAYOUT = 27"
| "feature_bit VIRTIO_RING_F_INDIRECT_DESC = 28"
| "feature_bit VIRTIO_RING_F_EVENT_IDX = 29"

definition zero_desc :: virtq_desc where
  "zero_desc = \<lparr>d_addr = DmaNull, d_len = 0, d_flags = 0, d_next = 0\<rparr>"

definition virtio_features :: "u32 \<Rightarrow> u32" where
  "virtio_features dev =
     ucast (fold (\<lambda>k f. f AND NOT (push_bit (feature_bit k) 1))
       [VIRTIO_BLK_F_RO, VIRTIO_BLK_F_SCSI, VIRTIO_BLK_F_CONFIG_WCE, VIRTIO_BLK_F_MQ,
        VIRTIO_F_ANY_LAYOUT, VIRTIO_RING_F_EVENT_IDX, VIRTIO_RING_F_INDIRECT_DESC]
       (ucast dev :: u64))"

text \<open>The part of \<^verbatim>\<open>virtio_disk_init\<close> that sets up the queue, after the negotiation.\<close>

definition virtio_queue_init :: "('a bio_state_scheme, unit) kern" where
  "virtio_queue_init =
     kbind kalloc (\<lambda>de.
     kbind kalloc (\<lambda>av.
     kbind kalloc (\<lambda>us.
     kdo (upd_vdisk (\<lambda>v. v\<lparr>vd_desc_page := de, vd_avail_page := av, vd_used_page := us\<rparr>))
     (if de = 0 \<or> av = 0 \<or> us = 0 then kpanic ''virtio disk kalloc''
      else kdo (kfor [de, av, us] (\<lambda>pg. set_mem (\<lambda>m. memset m pg 0 (ucast PGSIZE))))
       (kdo (upd_vdisk (\<lambda>v. v\<lparr>vd_desc := (\<lambda>_. zero_desc), vd_avail_idx := 0,
          vd_avail_ring := (\<lambda>_. 0), vd_used_dev_idx := 0, vd_used_ring := (\<lambda>_. 0)\<rparr>))
       (kdo (write_R VIRTIO_MMIO_QUEUE_NUM (of_nat NUM))
       (kdo (write_R VIRTIO_MMIO_QUEUE_DESC_LOW (ucast de))
       (kdo (write_R VIRTIO_MMIO_QUEUE_DESC_HIGH (ucast (drop_bit 32 de)))
       (kdo (write_R VIRTIO_MMIO_DRIVER_DESC_LOW (ucast av))
       (kdo (write_R VIRTIO_MMIO_DRIVER_DESC_HIGH (ucast (drop_bit 32 av)))
       (kdo (write_R VIRTIO_MMIO_DEVICE_DESC_LOW (ucast us))
       (kdo (write_R VIRTIO_MMIO_DEVICE_DESC_HIGH (ucast (drop_bit 32 us)))
       (kdo (write_R VIRTIO_MMIO_QUEUE_READY 1)
       (upd_vdisk (\<lambda>v. v\<lparr>vd_free := (\<lambda>i. if i < NUM then True else vd_free v i)\<rparr>)))))))))))))))"

definition virtio_disk_init :: "('a bio_state_scheme, unit) kern" where
  "virtio_disk_init =
     kdo (kinitlock VdiskLock ''virtio_disk'')
     (kbind (read_R VIRTIO_MMIO_MAGIC_VALUE) (\<lambda>magic.
     kbind (read_R VIRTIO_MMIO_VERSION) (\<lambda>version.
     kbind (read_R VIRTIO_MMIO_DEVICE_ID) (\<lambda>device.
     kbind (read_R VIRTIO_MMIO_VENDOR_ID) (\<lambda>vendor.
     if magic \<noteq> 0x74726976 \<or> version \<noteq> 2 \<or> device \<noteq> 2 \<or> vendor \<noteq> 0x554d4551
     then kpanic ''could not find virtio disk''
     else kdo (write_R VIRTIO_MMIO_STATUS 0)
      (kdo (write_R VIRTIO_MMIO_STATUS VIRTIO_CONFIG_S_ACKNOWLEDGE)
      (kdo (write_R VIRTIO_MMIO_STATUS (VIRTIO_CONFIG_S_ACKNOWLEDGE OR VIRTIO_CONFIG_S_DRIVER))
      (kbind (read_R VIRTIO_MMIO_DEVICE_FEATURES) (\<lambda>features.
      kdo (write_R VIRTIO_MMIO_DRIVER_FEATURES (virtio_features features))
      (kdo (write_R VIRTIO_MMIO_STATUS
         (VIRTIO_CONFIG_S_ACKNOWLEDGE OR VIRTIO_CONFIG_S_DRIVER OR VIRTIO_CONFIG_S_FEATURES_OK))
      (kbind (read_R VIRTIO_MMIO_STATUS) (\<lambda>status.
      if status AND VIRTIO_CONFIG_S_FEATURES_OK = 0 then kpanic ''virtio disk FEATURES_OK unset''
      else kdo (write_R VIRTIO_MMIO_QUEUE_SEL 0)
      (kbind (read_R VIRTIO_MMIO_QUEUE_READY) (\<lambda>ready.
      if ready \<noteq> 0 then kpanic ''virtio disk should not be ready''
      else kbind (read_R VIRTIO_MMIO_QUEUE_NUM_MAX) (\<lambda>mx.
      if mx = 0 then kpanic ''virtio disk has no queue 0''
      else if mx < of_nat NUM then kpanic ''virtio disk max queue too short''
      else kdo virtio_queue_init
      (write_R VIRTIO_MMIO_STATUS (status OR VIRTIO_CONFIG_S_DRIVER_OK)))))))))))))))))"

subsection \<open>Descriptors\<close>

fun alloc_desc_from :: "nat list \<Rightarrow> ('a bio_state_scheme, nat option) kern" where
  "alloc_desc_from [] = kret None"
| "alloc_desc_from (i # is) =
     kbind (get_vdisk (\<lambda>v. vd_free v i)) (\<lambda>f.
     if f then kdo (upd_vdisk (\<lambda>v. v\<lparr>vd_free := (vd_free v)(i := False)\<rparr>)) (kret (Some i))
     else alloc_desc_from is)"

definition alloc_desc :: "('a bio_state_scheme, nat option) kern" where
  "alloc_desc = alloc_desc_from [0..<NUM]"

definition free_desc :: "nat \<Rightarrow> ('a bio_state_scheme, unit) kern" where
  "free_desc i =
     (if i \<ge> NUM then kpanic ''free_desc 1''
      else kbind (get_vdisk (\<lambda>v. vd_free v i)) (\<lambda>f.
      if f then kpanic ''free_desc 2''
      else kdo (upd_vdisk (\<lambda>v. v\<lparr>vd_desc := (vd_desc v)(i := zero_desc)\<rparr>))
       (kdo (upd_vdisk (\<lambda>v. v\<lparr>vd_free := (vd_free v)(i := True)\<rparr>))
       (wakeup ChanDiskFree))))"

text \<open>\<^verbatim>\<open>free_chain\<close> ends because freeing a descriptor twice panics.\<close>

definition taken_descs :: "vdisk \<Rightarrow> nat set" where
  "taken_descs v = {i. i < NUM \<and> \<not> vd_free v i}"

lemma free_desc_Done:
  assumes "free_desc i s = Done r t"
  shows "i < NUM" "\<not> vd_free (vdisk s) i"
    and "\<exists>h P. t = s\<lparr>vdisk := (vdisk s)\<lparr>vd_desc := (vd_desc (vdisk s))(i := zero_desc),
        vd_free := (vd_free (vdisk s))(i := True)\<rparr>, hw := h, procs := P\<rparr>"
proof -
  have i: "i < NUM"
    using assms by (rule contrapos_pp) (simp add: free_desc_def kern_run)
  then show "i < NUM" .
  show nf: "\<not> vd_free (vdisk s) i"
    using assms i by (auto simp: free_desc_def kern_defs)
  have w: "wakeup ChanDiskFree (s\<lparr>vdisk := (vdisk s)\<lparr>vd_desc := (vd_desc (vdisk s))(i := zero_desc),
        vd_free := (vd_free (vdisk s))(i := True)\<rparr>\<rparr>) = Done r t"
    using assms i nf by (simp add: free_desc_def upd_vdisk_def kern_defs)
  show "\<exists>h P. t = s\<lparr>vdisk := (vdisk s)\<lparr>vd_desc := (vd_desc (vdisk s))(i := zero_desc),
        vd_free := (vd_free (vdisk s))(i := True)\<rparr>, hw := h, procs := P\<rparr>"
    using hw_procs_onlyD [OF hw_procs_only_wakeup w] .
qed

lemma free_desc_fewer:
  assumes "free_desc i s = Done r t"
  shows "card (taken_descs (vdisk t)) < card (taken_descs (vdisk s))"
proof -
  have "taken_descs (vdisk t) = taken_descs (vdisk s) - {i}" "i \<in> taken_descs (vdisk s)"
    using free_desc_Done [OF assms] by (auto simp: taken_descs_def split: if_splits)
  moreover have "finite (taken_descs (vdisk s))"
    by (simp add: taken_descs_def)
  ultimately show ?thesis by (metis card_Diff1_less)
qed

function free_chain :: "nat \<Rightarrow> ('a bio_state_scheme, unit) kern" where
  "free_chain i s =
     kbind (get_vdisk (\<lambda>v. d_flags (vd_desc v i))) (\<lambda>flag.
     kbind (get_vdisk (\<lambda>v. unat (d_next (vd_desc v i)))) (\<lambda>nxt.
     kdo (free_desc i)
     (if flag AND VRING_DESC_F_NEXT \<noteq> 0 then \<lambda>s. free_chain nxt s else kret ()))) s"
  by pat_completeness auto

termination
  by (relation "measure (\<lambda>(i, s). card (taken_descs (vdisk s)))")
    (auto simp: kget_def dest: free_desc_fewer)

declare free_chain.simps [simp del]

text \<open>\<^verbatim>\<open>alloc3_desc\<close>: the three indices, or nothing after giving back those it had.\<close>

fun alloc_descs :: "nat \<Rightarrow> nat list \<Rightarrow> ('a bio_state_scheme, nat list option) kern" where
  "alloc_descs 0 idx = kret (Some idx)"
| "alloc_descs (Suc n) idx =
     kbind alloc_desc (\<lambda>d. case d of
       None \<Rightarrow> kdo (kfor idx free_desc) (kret None)
     | Some i \<Rightarrow> alloc_descs n (idx @ [i]))"

definition alloc3_desc :: "('a bio_state_scheme, nat list option) kern" where
  "alloc3_desc = alloc_descs 3 []"

subsection \<open>A transfer\<close>

text \<open>\<^verbatim>\<open>virtio_disk_rw\<close> from the formatting of the descriptors to the notification of the
  device.\<close>

definition virtio_submit :: "nat \<Rightarrow> bool \<Rightarrow> u64 \<Rightarrow> nat \<Rightarrow> nat \<Rightarrow> nat \<Rightarrow> ('a bio_state_scheme, unit) kern" where
  "virtio_submit b write sector i0 i1 i2 =
     kdo (upd_vdisk (\<lambda>v. v\<lparr>vd_ops := (vd_ops v)(i0 :=
        \<lparr>r_type = (if write then VIRTIO_BLK_T_OUT else VIRTIO_BLK_T_IN), r_reserved = 0,
         r_sector = sector\<rparr>)\<rparr>))
     (kdo (upd_vdisk (\<lambda>v. v\<lparr>vd_desc := (vd_desc v)(i0 :=
        \<lparr>d_addr = DmaOp i0, d_len = 16, d_flags = VRING_DESC_F_NEXT, d_next = of_nat i1\<rparr>)\<rparr>))
     (kdo (upd_vdisk (\<lambda>v. v\<lparr>vd_desc := (vd_desc v)(i1 :=
        \<lparr>d_addr = DmaData b, d_len = of_nat BSIZE,
         d_flags = (if write then 0 else VRING_DESC_F_WRITE) OR VRING_DESC_F_NEXT,
         d_next = of_nat i2\<rparr>)\<rparr>))
     (kdo (upd_vdisk (\<lambda>v. v\<lparr>vd_info_status := (vd_info_status v)(i0 := 0xff)\<rparr>))
     (kdo (upd_vdisk (\<lambda>v. v\<lparr>vd_desc := (vd_desc v)(i2 :=
        \<lparr>d_addr = DmaStatus i0, d_len = 1, d_flags = VRING_DESC_F_WRITE, d_next = 0\<rparr>)\<rparr>))
     (kdo (upd_buf b (\<lambda>x. x\<lparr>bdisk := 1\<rparr>))
     (kdo (upd_vdisk (\<lambda>v. v\<lparr>vd_info_b := (vd_info_b v)(i0 := Some b)\<rparr>))
     (kdo (upd_vdisk (\<lambda>v. v\<lparr>vd_avail_ring :=
        (vd_avail_ring v)(unat (vd_avail_idx v) mod NUM := of_nat i0)\<rparr>))
     (kdo (upd_vdisk (\<lambda>v. v\<lparr>vd_avail_idx := vd_avail_idx v + 1\<rparr>))
     (write_R VIRTIO_MMIO_QUEUE_NOTIFY 0)))))))))"

text \<open>The loop of \<^verbatim>\<open>virtio_disk_intr\<close>; \<open>n\<close> is the number of completions to look at.\<close>

fun virtio_intr_loop :: "nat \<Rightarrow> ('a bio_state_scheme, unit) kern" where
  "virtio_intr_loop 0 = kret ()"
| "virtio_intr_loop (Suc n) =
     kbind (get_vdisk (\<lambda>v. unat (vd_used_ring v (unat (vd_used_idx v) mod NUM)))) (\<lambda>ident.
     kbind (get_vdisk (\<lambda>v. vd_info_status v ident)) (\<lambda>st.
     if st \<noteq> 0 then kpanic ''virtio_disk_intr status''
     else kbind (get_vdisk (\<lambda>v. vd_info_b v ident)) (\<lambda>bo.
       case bo of None \<Rightarrow> kfault ''virtio_disk_intr: no buffer''
       | Some b \<Rightarrow>
         kdo (upd_buf b (\<lambda>x. x\<lparr>bdisk := 0\<rparr>))
         (kdo (wakeup (ChanBuf b))
         (kdo (upd_vdisk (\<lambda>v. v\<lparr>vd_used_idx := vd_used_idx v + 1\<rparr>))
         (virtio_intr_loop n))))))"

definition virtio_disk_intr :: "('a bio_state_scheme, unit) kern" where
  "virtio_disk_intr =
     kdo (kacquire VdiskLock)
     (kbind (read_R VIRTIO_MMIO_INTERRUPT_STATUS) (\<lambda>st.
     kdo (write_R VIRTIO_MMIO_INTERRUPT_ACK (st AND 3))
     (kbind (get_vdisk (\<lambda>v. unat (vd_used_dev_idx v - vd_used_idx v))) (\<lambda>n.
     kdo (virtio_intr_loop n)
     (krelease VdiskLock)))))"

text \<open>
  A thread that starts a transfer always sleeps, because the handler needs the lock that
  \<^verbatim>\<open>sleep\<close> releases. \<open>disk_idle\<close> is what its hart does meanwhile when no other process is
  runnable: \<^verbatim>\<open>scheduler\<close> takes the CPU back and enables interrupts, the device serves the queue and
  interrupts, and the scheduler switches to the thread that the handler has woken.
\<close>

definition disk_serve :: "('a bio_state_scheme, unit) kern" where
  "disk_serve =
     kmodify (\<lambda>s. case disk_hw s (vdisk s, bufs s, disk_trace s, disk_image s) of
       (v, bs, tr, img) \<Rightarrow> s\<lparr>vdisk := v, bufs := bs, disk_trace := tr, disk_image := img\<rparr>)"

definition disk_idle :: "nat \<Rightarrow> ('a bio_state_scheme, unit) kern" where
  "disk_idle p =
     kdo (scheduler_return p)
     (kdo (kmodify (\<lambda>s. s\<lparr>hw := intr_on (hw s)\<rparr>))
     (kdo disk_serve
     (kdo (kmodify (\<lambda>s. s\<lparr>hw := intr_off (hw s)\<rparr>))
     (kdo virtio_disk_intr
     (kdo (kmodify (\<lambda>s. s\<lparr>hw := intr_on (hw s)\<rparr>))
     (kbind (scheduler_visit p) (\<lambda>switched.
     if switched then kret () else kasleep NoChan)))))))"

definition sleep_through :: "chan \<Rightarrow> lockid \<Rightarrow> (nat \<Rightarrow> ('a proc_state_scheme, unit) kern) \<Rightarrow>
    ('a proc_state_scheme, unit) kern" where
  "sleep_through c lk others s =
     (case sleep c lk s of
        Asleep c' t \<Rightarrow>
          (case cpu_proc (mycpu (hw t)) of
             None \<Rightarrow> Asleep c' t
           | Some p \<Rightarrow> kdo (others p) (sleep_resume (intena (mycpu (hw t))) lk) t)
      | out \<Rightarrow> out)"

text \<open>The wait loop of \<^verbatim>\<open>virtio_disk_rw\<close> over one completion; a thread whose buffer the disk still
  owns then goes on sleeping.\<close>

definition virtio_wait :: "nat \<Rightarrow> ('a bio_state_scheme, unit) kern" where
  "virtio_wait b =
     kbind (get_buf b bdisk) (\<lambda>d.
     if d \<noteq> 1 then kret ()
     else kdo (sleep_through (ChanBuf b) VdiskLock disk_idle)
      (kbind (get_buf b bdisk) (\<lambda>d.
      if d \<noteq> 1 then kret () else sleep (ChanBuf b) VdiskLock)))"

definition virtio_disk_rw :: "nat \<Rightarrow> bool \<Rightarrow> ('a bio_state_scheme, unit) kern" where
  "virtio_disk_rw b write =
     kbind (get_buf b (\<lambda>x. ucast (blockno x * of_nat (BSIZE div 512)))) (\<lambda>sector.
     kdo (kacquire VdiskLock)
     (kbind alloc3_desc (\<lambda>a. case a of
       None \<Rightarrow> sleep ChanDiskFree VdiskLock
     | Some idx \<Rightarrow>
       kdo (virtio_submit b write sector (idx ! 0) (idx ! 1) (idx ! 2))
       (kdo (virtio_wait b)
       (kdo (upd_vdisk (\<lambda>v. v\<lparr>vd_info_b := (vd_info_b v)(idx ! 0 := None)\<rparr>))
       (kdo (free_chain (idx ! 0))
       (krelease VdiskLock)))))))"

end
