(* ===== verification/Bio.thy ===== *)
theory Bio
  imports Virtio
begin

section \<open>kernel/bio.c: the buffer cache\<close>

text \<open>
  The cache is the map \<open>bufs\<close>: slots below \<^verbatim>\<open>NBUF\<close> are \<^verbatim>\<open>bcache.buf[]\<close> and slot
  \<^verbatim>\<open>NBUF\<close> is \<^verbatim>\<open>bcache.head\<close>. The recency list is linked through \<open>bnext\<close> and
  \<open>bprev\<close> as in the code.
\<close>

definition binit :: "('a bio_state_scheme, unit) kern" where
  "binit =
     kdo (kinitlock BcacheLock ''bcache'')
     (kdo (upd_buf NBUF (\<lambda>h. h\<lparr>bprev := NBUF\<rparr>))
     (kdo (upd_buf NBUF (\<lambda>h. h\<lparr>bnext := NBUF\<rparr>))
     (kfor [0..<NBUF] (\<lambda>b.
       kbind (get_buf NBUF bnext) (\<lambda>first.
       kdo (upd_buf b (\<lambda>x. x\<lparr>bnext := first\<rparr>))
       (kdo (upd_buf b (\<lambda>x. x\<lparr>bprev := NBUF\<rparr>))
       (kdo (initsleeplock (BufLock b) ''buffer'')
       (kdo (upd_buf first (\<lambda>x. x\<lparr>bprev := b\<rparr>))
       (upd_buf NBUF (\<lambda>h. h\<lparr>bnext := b\<rparr>))))))))))"

text \<open>The two scans of \<^verbatim>\<open>bget\<close>. The list has \<^verbatim>\<open>NBUF\<close> members, so a scan of more than
  \<^verbatim>\<open>NBUF\<close> steps is a cyclic list that never meets its head.\<close>

fun bget_cached :: "nat \<Rightarrow> u32 \<Rightarrow> u32 \<Rightarrow> nat \<Rightarrow> ('a bio_state_scheme, nat option) kern" where
  "bget_cached n dev bno b =
     (if b = NBUF then kret None
      else case n of 0 \<Rightarrow> khang ''bget: endless list''
      | Suc k \<Rightarrow>
        kbind (get_buf b id) (\<lambda>x.
        if bdev x = dev \<and> blockno x = bno then kret (Some b)
        else bget_cached k dev bno (bnext x)))"

fun bget_unused :: "nat \<Rightarrow> nat \<Rightarrow> ('a bio_state_scheme, nat option) kern" where
  "bget_unused n b =
     (if b = NBUF then kret None
      else case n of 0 \<Rightarrow> khang ''bget: endless list''
      | Suc k \<Rightarrow>
        kbind (get_buf b id) (\<lambda>x.
        if refcnt x = 0 then kret (Some b) else bget_unused k (bprev x)))"

declare bget_cached.simps [simp del] bget_unused.simps [simp del]

definition bget :: "u32 \<Rightarrow> u32 \<Rightarrow> ('a bio_state_scheme, nat) kern" where
  "bget dev bno =
     kdo (kacquire BcacheLock)
     (kbind (get_buf NBUF bnext) (\<lambda>first.
     kbind (bget_cached NBUF dev bno first) (\<lambda>hit.
     case hit of
       Some b \<Rightarrow>
         kdo (upd_buf b (\<lambda>x. x\<lparr>refcnt := refcnt x + 1\<rparr>))
         (kdo (krelease BcacheLock)
         (kdo (acquiresleep (BufLock b))
         (kret b)))
     | None \<Rightarrow>
         kbind (get_buf NBUF bprev) (\<lambda>last.
         kbind (bget_unused NBUF last) (\<lambda>free.
         case free of
           Some b \<Rightarrow>
             kdo (upd_buf b (\<lambda>x. x\<lparr>bdev := dev, blockno := bno, valid := 0, refcnt := 1\<rparr>))
             (kdo (krelease BcacheLock)
             (kdo (acquiresleep (BufLock b))
             (kret b)))
         | None \<Rightarrow> kpanic ''bget: no buffers'')))))"

definition bread :: "u32 \<Rightarrow> u32 \<Rightarrow> ('a bio_state_scheme, nat) kern" where
  "bread dev bno =
     kbind (bget dev bno) (\<lambda>b.
     kbind (get_buf b valid) (\<lambda>v.
     kdo (kwhen (v = 0) (kdo (virtio_disk_rw b False) (upd_buf b (\<lambda>x. x\<lparr>valid := 1\<rparr>))))
     (kret b)))"

definition bwrite :: "nat \<Rightarrow> ('a bio_state_scheme, unit) kern" where
  "bwrite b =
     kbind (holdingsleep (BufLock b)) (\<lambda>held.
     if \<not> held then kpanic ''bwrite'' else virtio_disk_rw b True)"

text \<open>\<^verbatim>\<open>brelse\<close> moves an unreferenced buffer to the front of the list.\<close>

definition brelse_front :: "nat \<Rightarrow> ('a bio_state_scheme, unit) kern" where
  "brelse_front b =
     kbind (get_buf b bnext) (\<lambda>n.
     kbind (get_buf b bprev) (\<lambda>p.
     kdo (upd_buf n (\<lambda>x. x\<lparr>bprev := p\<rparr>))
     (kbind (get_buf b bprev) (\<lambda>p.
     kbind (get_buf b bnext) (\<lambda>n.
     kdo (upd_buf p (\<lambda>x. x\<lparr>bnext := n\<rparr>))
     (kbind (get_buf NBUF bnext) (\<lambda>first.
     kdo (upd_buf b (\<lambda>x. x\<lparr>bnext := first\<rparr>))
     (kdo (upd_buf b (\<lambda>x. x\<lparr>bprev := NBUF\<rparr>))
     (kbind (get_buf NBUF bnext) (\<lambda>first.
     kdo (upd_buf first (\<lambda>x. x\<lparr>bprev := b\<rparr>))
     (upd_buf NBUF (\<lambda>h. h\<lparr>bnext := b\<rparr>))))))))))))"

definition brelse :: "nat \<Rightarrow> ('a bio_state_scheme, unit) kern" where
  "brelse b =
     kbind (holdingsleep (BufLock b)) (\<lambda>held.
     if \<not> held then kpanic ''brelse''
     else kdo (releasesleep (BufLock b))
      (kdo (kacquire BcacheLock)
      (kdo (upd_buf b (\<lambda>x. x\<lparr>refcnt := refcnt x - 1\<rparr>))
      (kbind (get_buf b refcnt) (\<lambda>r.
      kdo (kwhen (r = 0) (brelse_front b))
      (krelease BcacheLock))))))"

definition bpin :: "nat \<Rightarrow> ('a bio_state_scheme, unit) kern" where
  "bpin b =
     kdo (kacquire BcacheLock)
     (kdo (upd_buf b (\<lambda>x. x\<lparr>refcnt := refcnt x + 1\<rparr>))
     (krelease BcacheLock))"

definition bunpin :: "nat \<Rightarrow> ('a bio_state_scheme, unit) kern" where
  "bunpin b =
     kdo (kacquire BcacheLock)
     (kdo (upd_buf b (\<lambda>x. x\<lparr>refcnt := refcnt x - 1\<rparr>))
     (krelease BcacheLock))"

end
