(* ===== verification/Log.thy ===== *)
theory Log
  imports Bio
begin

section \<open>kernel/log.c: the write-ahead log\<close>

text \<open>
  \<^verbatim>\<open>struct log\<close> and its operations over the buffer cache. The header block is read and written in
  the byte layout of \<^verbatim>\<open>struct logheader\<close>: a 32-bit count followed by \<^verbatim>\<open>LOGSIZE\<close> 32-bit block
  numbers. \<open>lh_block\<close> has \<^verbatim>\<open>LOGSIZE\<close> members and an access beyond them is undefined behaviour.
\<close>

record superblock =
  sb_magic :: u32
  sb_size :: u32
  sb_nblocks :: u32
  sb_ninodes :: u32
  sb_nlog :: u32
  sb_logstart :: u32
  sb_inodestart :: u32
  sb_bmapstart :: u32

record log_state = bio_state +
  log_start :: int
  log_size :: int
  log_outstanding :: int
  log_committing :: bool
  log_dev :: int
  lh_n :: int
  lh_block :: "int list"

abbreviation get_block_data :: "nat \<Rightarrow> ('a bio_state_scheme, u8 list) kern" where
  "get_block_data b \<equiv> get_buf b bdata"

definition set_block_data :: "nat \<Rightarrow> (u8 list \<Rightarrow> u8 list) \<Rightarrow> ('a bio_state_scheme, unit) kern" where
  "set_block_data b f = upd_buf b (\<lambda>x. x\<lparr>bdata := f (bdata x)\<rparr>)"

text \<open>32-bit words at a byte offset of a block.\<close>

definition get32 :: "u8 list \<Rightarrow> nat \<Rightarrow> u32" where
  "get32 d i = le_word (take 4 (drop i d))"

definition put32 :: "u8 list \<Rightarrow> nat \<Rightarrow> u32 \<Rightarrow> u8 list" where
  "put32 d i v = take i d @ le_bytes 4 v @ drop (i + 4) d"

subsection \<open>Installing and recovering\<close>

definition log_bread :: "int \<Rightarrow> ('a log_state_scheme, nat) kern" where
  "log_bread bno = kbind (kget log_dev) (\<lambda>dev. bread (word_of_int dev) (word_of_int bno))"

definition install_one :: "bool \<Rightarrow> nat \<Rightarrow> ('a log_state_scheme, unit) kern" where
  "install_one recovering tail =
     kbind (kget (\<lambda>s. log_start s + int tail + 1)) (\<lambda>bno.
     kbind (log_bread bno) (\<lambda>lbuf.
     kbind (kget (\<lambda>s. lh_block s ! tail)) (\<lambda>bno.
     kbind (log_bread bno) (\<lambda>dbuf.
     kbind (get_block_data lbuf) (\<lambda>d.
     kdo (set_block_data dbuf (\<lambda>_. d))
     (kdo (bwrite dbuf)
     (kdo (kwhen (\<not> recovering) (bunpin dbuf))
     (kdo (brelse lbuf)
     (brelse dbuf)))))))))"

text \<open>The array bound of \<^verbatim>\<open>lh.block\<close>, for loops over its first \<open>n\<close> members.\<close>

definition lh_bounds :: "int \<Rightarrow> ('a log_state_scheme, unit) kern" where
  "lh_bounds n = (if n > int LOGSIZE then kfault ''lh.block out of bounds'' else kret ())"

definition install_trans :: "bool \<Rightarrow> ('a log_state_scheme, unit) kern" where
  "install_trans recovering =
     kbind (kget lh_n) (\<lambda>n.
     kdo (lh_bounds n)
     (kfor [0..<nat n] (install_one recovering)))"

definition read_head :: "('a log_state_scheme, unit) kern" where
  "read_head =
     kbind (kget log_start) (\<lambda>st.
     kbind (log_bread st) (\<lambda>b.
     kbind (get_block_data b) (\<lambda>d.
     kdo (kmodify (\<lambda>s. s\<lparr>lh_n := sint (get32 d 0)\<rparr>))
     (kbind (kget lh_n) (\<lambda>n.
     kdo (lh_bounds n)
     (kdo (kfor [0..<nat n] (\<lambda>i.
        kmodify (\<lambda>s. s\<lparr>lh_block := (lh_block s)[i := sint (get32 d (4 + 4 * i))]\<rparr>)))
     (brelse b)))))))"

definition write_head :: "('a log_state_scheme, unit) kern" where
  "write_head =
     kbind (kget log_start) (\<lambda>st.
     kbind (log_bread st) (\<lambda>b.
     kbind (kget lh_n) (\<lambda>n.
     kdo (set_block_data b (\<lambda>d. put32 d 0 (word_of_int n)))
     (kdo (lh_bounds n)
     (kdo (kfor [0..<nat n] (\<lambda>i.
        kbind (kget (\<lambda>s. lh_block s ! i)) (\<lambda>x.
        set_block_data b (\<lambda>d. put32 d (4 + 4 * i) (word_of_int x)))))
     (kdo (bwrite b)
     (brelse b)))))))"

definition recover_from_log :: "('a log_state_scheme, unit) kern" where
  "recover_from_log =
     kdo read_head
     (kdo (install_trans True)
     (kdo (kmodify (\<lambda>s. s\<lparr>lh_n := 0\<rparr>))
     write_head))"

definition sizeof_logheader :: nat where
  "sizeof_logheader = 4 + 4 * LOGSIZE"

definition initlog :: "int \<Rightarrow> superblock \<Rightarrow> ('a log_state_scheme, unit) kern" where
  "initlog dev sb =
     (if sizeof_logheader \<ge> BSIZE then kpanic ''initlog: too big logheader''
      else kdo (kinitlock LogLock ''log'')
       (kdo (kmodify (\<lambda>s. s\<lparr>log_start := sint (sb_logstart sb), log_size := sint (sb_nlog sb),
          log_dev := dev\<rparr>))
       recover_from_log))"

subsection \<open>Transactions\<close>

text \<open>The loop of \<^verbatim>\<open>begin_op\<close> with \<^verbatim>\<open>log.lock\<close> held.\<close>

definition begin_op_loop :: "('a log_state_scheme, unit) kern" where
  "begin_op_loop =
     kbind (kget log_committing) (\<lambda>committing.
     kbind (kget (\<lambda>s. lh_n s + (log_outstanding s + 1) * int MAXOPBLOCKS)) (\<lambda>need.
     if committing then sleep ChanLog LogLock
     else if need > int LOGSIZE then sleep ChanLog LogLock
     else kdo (kmodify (\<lambda>s. s\<lparr>log_outstanding := log_outstanding s + 1\<rparr>))
       (krelease LogLock)))"

definition begin_op :: "('a log_state_scheme, unit) kern" where
  "begin_op = kdo (kacquire LogLock) begin_op_loop"

definition write_log_one :: "nat \<Rightarrow> ('a log_state_scheme, unit) kern" where
  "write_log_one tail =
     kbind (kget (\<lambda>s. log_start s + int tail + 1)) (\<lambda>bno.
     kbind (log_bread bno) (\<lambda>dst.
     kbind (kget (\<lambda>s. lh_block s ! tail)) (\<lambda>bno.
     kbind (log_bread bno) (\<lambda>src.
     kbind (get_block_data src) (\<lambda>d.
     kdo (set_block_data dst (\<lambda>_. d))
     (kdo (bwrite dst)
     (kdo (brelse src)
     (brelse dst))))))))"

definition write_log :: "('a log_state_scheme, unit) kern" where
  "write_log =
     kbind (kget lh_n) (\<lambda>n.
     kdo (lh_bounds n)
     (kfor [0..<nat n] write_log_one))"

definition commit :: "('a log_state_scheme, unit) kern" where
  "commit =
     kbind (kget lh_n) (\<lambda>n.
     kwhen (n > 0)
       (kdo write_log
       (kdo write_head
       (kdo (install_trans False)
       (kdo (kmodify (\<lambda>s. s\<lparr>lh_n := 0\<rparr>))
       write_head)))))"

definition end_op :: "('a log_state_scheme, unit) kern" where
  "end_op =
     kdo (kacquire LogLock)
     (kdo (kmodify (\<lambda>s. s\<lparr>log_outstanding := log_outstanding s - 1\<rparr>))
     (kbind (kget log_committing) (\<lambda>committing.
     if committing then kpanic ''log.committing''
     else kbind (kget (\<lambda>s. log_outstanding s = 0)) (\<lambda>do_commit.
      kdo (if do_commit then kmodify (\<lambda>s. s\<lparr>log_committing := True\<rparr>) else wakeup ChanLog)
      (kdo (krelease LogLock)
      (kwhen do_commit
        (kdo commit
        (kdo (kacquire LogLock)
        (kdo (kmodify (\<lambda>s. s\<lparr>log_committing := False\<rparr>))
        (kdo (wakeup ChanLog)
        (krelease LogLock)))))))))))"

text \<open>The search of \<^verbatim>\<open>log_write\<close> for a block that is in the transaction already.\<close>

fun log_slot :: "int list \<Rightarrow> int \<Rightarrow> nat \<Rightarrow> nat \<Rightarrow> nat" where
  "log_slot blocks bno i 0 = i"
| "log_slot blocks bno i (Suc n) =
     (if blocks ! i = bno then i else log_slot blocks bno (Suc i) n)"

definition log_write :: "nat \<Rightarrow> ('a log_state_scheme, unit) kern" where
  "log_write b =
     kdo (kacquire LogLock)
     (kbind (kget (\<lambda>s. lh_n s \<ge> int LOGSIZE \<or> lh_n s \<ge> log_size s - 1)) (\<lambda>full.
     if full then kpanic ''too big a transaction''
     else kbind (kget (\<lambda>s. log_outstanding s < 1)) (\<lambda>outside.
     if outside then kpanic ''log_write outside of trans''
     else kbind (get_buf b (\<lambda>x. sint (blockno x))) (\<lambda>bno.
     kbind (kget (\<lambda>s. log_slot (lh_block s) bno 0 (nat (lh_n s)))) (\<lambda>i.
     kdo (kmodify (\<lambda>s. s\<lparr>lh_block := (lh_block s)[i := bno]\<rparr>))
     (kbind (kget (\<lambda>s. int i = lh_n s)) (\<lambda>new.
     kdo (kwhen new (kdo (bpin b) (kmodify (\<lambda>s. s\<lparr>lh_n := lh_n s + 1\<rparr>))))
     (krelease LogLock))))))))"

end
