(* ===== verification/Fs.thy ===== *)
theory Fs
  imports Log
begin

section \<open>kernel/fs.c: blocks, inodes, directories and paths\<close>

text \<open>
  The file system above the log. On-disk structures are read and written in the byte layout of
  \<^verbatim>\<open>kernel/fs.h\<close>. A pointer to an in-memory inode is its index in \<^verbatim>\<open>itable\<close>; a function
  that may return a null pointer returns an option.
\<close>

subsection \<open>On-disk and in-memory structures\<close>

definition FSMAGIC :: u32 where [layout_defs]: "FSMAGIC = 0x10203040"
definition ROOTINO :: u32 where [layout_defs]: "ROOTINO = 1"
definition NDIRECT :: nat where [layout_defs]: "NDIRECT = 12"
definition NINDIRECT :: nat where [layout_defs]: "NINDIRECT = BSIZE div 4"
definition MAXFILE :: nat where [layout_defs]: "MAXFILE = NDIRECT + NINDIRECT"
definition IPB :: nat where [layout_defs]: "IPB = BSIZE div 64"
definition BPB :: nat where [layout_defs]: "BPB = BSIZE * 8"
definition DIRSIZ :: nat where [layout_defs]: "DIRSIZ = 14"
definition sizeof_dirent :: nat where [layout_defs]: "sizeof_dirent = 16"
definition T_DIR :: u16 where [layout_defs]: "T_DIR = 1"
definition T_FILE :: u16 where [layout_defs]: "T_FILE = 2"
definition T_DEVICE :: u16 where [layout_defs]: "T_DEVICE = 3"

record dinode =
  di_type :: u16
  di_major :: u16
  di_minor :: u16
  di_nlink :: u16
  di_size :: u32
  di_addrs :: "u32 list"

record inode =
  i_dev :: u32
  i_inum :: u32
  i_ref :: int
  i_valid :: int
  i_type :: u16
  i_major :: u16
  i_minor :: u16
  i_nlink :: u16
  i_size :: u32
  i_addrs :: "u32 list"

record stat =
  st_dev :: u32
  st_ino :: u32
  st_type :: u16
  st_nlink :: u16
  st_size :: u64

record dirent =
  de_inum :: u16
  de_name :: "u8 list"

record fs_state = log_state +
  sb :: superblock
  inodes :: "nat \<Rightarrow> inode"

definition IBLOCK :: "u32 \<Rightarrow> superblock \<Rightarrow> u32" where
  "IBLOCK i sbk = i div of_nat IPB + sb_inodestart sbk"

definition BBLOCK :: "u32 \<Rightarrow> superblock \<Rightarrow> u32" where
  "BBLOCK b sbk = b div of_nat BPB + sb_bmapstart sbk"

text \<open>The byte layouts.\<close>

definition get16 :: "u8 list \<Rightarrow> nat \<Rightarrow> u16" where
  "get16 d i = le_word (take 2 (drop i d))"

definition read_superblock :: "u8 list \<Rightarrow> superblock" where
  "read_superblock d = \<lparr>sb_magic = get32 d 0, sb_size = get32 d 4, sb_nblocks = get32 d 8,
     sb_ninodes = get32 d 12, sb_nlog = get32 d 16, sb_logstart = get32 d 20,
     sb_inodestart = get32 d 24, sb_bmapstart = get32 d 28\<rparr>"

definition put_bytes :: "u8 list \<Rightarrow> nat \<Rightarrow> u8 list \<Rightarrow> u8 list" where
  "put_bytes d i bs = take i d @ bs @ drop (i + length bs) d"

definition dinode_bytes :: "dinode \<Rightarrow> u8 list" where
  "dinode_bytes x = le_bytes 2 (di_type x) @ le_bytes 2 (di_major x) @ le_bytes 2 (di_minor x)
     @ le_bytes 2 (di_nlink x) @ le_bytes 4 (di_size x) @ concat (map (le_bytes 4) (di_addrs x))"

text \<open>\<^verbatim>\<open>(struct dinode* )bp->data + k\<close>.\<close>

definition get_dinode :: "u8 list \<Rightarrow> nat \<Rightarrow> dinode" where
  "get_dinode d k = (let i = 64 * k in
     \<lparr>di_type = get16 d i, di_major = get16 d (i + 2), di_minor = get16 d (i + 4),
      di_nlink = get16 d (i + 6), di_size = get32 d (i + 8),
      di_addrs = map (\<lambda>j. get32 d (i + 12 + 4 * j)) [0..<NDIRECT + 1]\<rparr>)"

definition put_dinode :: "u8 list \<Rightarrow> nat \<Rightarrow> dinode \<Rightarrow> u8 list" where
  "put_dinode d k x = put_bytes d (64 * k) (dinode_bytes x)"

definition dirent_bytes :: "dirent \<Rightarrow> u8 list" where
  "dirent_bytes e = le_bytes 2 (de_inum e) @ de_name e"

definition read_dirent :: "u8 list \<Rightarrow> dirent" where
  "read_dirent d = \<lparr>de_inum = get16 d 0, de_name = take DIRSIZ (drop 2 d)\<rparr>"

definition upd_inode :: "nat \<Rightarrow> (inode \<Rightarrow> inode) \<Rightarrow> ('a fs_state_scheme, unit) kern" where
  "upd_inode ip f = kmodify (\<lambda>s. s\<lparr>inodes := (inodes s)(ip := f (inodes s ip))\<rparr>)"

abbreviation get_inode :: "nat \<Rightarrow> (inode \<Rightarrow> 'b) \<Rightarrow> ('a fs_state_scheme, 'b) kern" where
  "get_inode ip f \<equiv> kget (\<lambda>s. f (inodes s ip))"

subsection \<open>Initialisation\<close>

definition readsb :: "int \<Rightarrow> ('a fs_state_scheme, unit) kern" where
  "readsb dev =
     kbind (bread (word_of_int dev) 1) (\<lambda>bp.
     kbind (get_block_data bp) (\<lambda>d.
     kdo (kmodify (\<lambda>s. s\<lparr>sb := read_superblock d\<rparr>))
     (brelse bp)))"

definition fsinit :: "int \<Rightarrow> ('a fs_state_scheme, unit) kern" where
  "fsinit dev =
     kdo (readsb dev)
     (kbind (kget sb) (\<lambda>sbk.
     if sb_magic sbk \<noteq> FSMAGIC then kpanic ''invalid file system''
     else initlog dev sbk))"

subsection \<open>Blocks\<close>

definition bzero :: "u32 \<Rightarrow> u32 \<Rightarrow> ('a fs_state_scheme, unit) kern" where
  "bzero dev bno =
     kbind (bread dev bno) (\<lambda>bp.
     kdo (set_block_data bp (\<lambda>_. replicate BSIZE 0))
     (kdo (log_write bp)
     (brelse bp)))"

definition bitmap_bit :: "u8 list \<Rightarrow> nat \<Rightarrow> bool" where
  "bitmap_bit d bi \<longleftrightarrow> (d ! (bi div 8)) AND push_bit (bi mod 8) 1 \<noteq> 0"

definition bitmap_set :: "u8 list \<Rightarrow> nat \<Rightarrow> u8 list" where
  "bitmap_set d bi = d[bi div 8 := (d ! (bi div 8)) OR push_bit (bi mod 8) 1]"

definition bitmap_clear :: "u8 list \<Rightarrow> nat \<Rightarrow> u8 list" where
  "bitmap_clear d bi = d[bi div 8 := (d ! (bi div 8)) AND NOT (push_bit (bi mod 8) 1)]"

text \<open>The outer loop of \<^verbatim>\<open>balloc\<close> over the block numbers at which bitmap blocks start, the inner
  loop as the search for the first clear bit.\<close>

fun balloc_from :: "u32 \<Rightarrow> nat list \<Rightarrow> ('a fs_state_scheme, u32) kern" where
  "balloc_from dev [] = kdo (printf (bytes ''balloc: out of blocks'' @ [10]) []) (kret 0)"
| "balloc_from dev (b # bs) =
     kbind (kget sb) (\<lambda>sbk.
     kbind (bread dev (BBLOCK (of_nat b) sbk)) (\<lambda>bp.
     kbind (get_block_data bp) (\<lambda>d.
     case find (\<lambda>bi. \<not> bitmap_bit d bi) [0..<min BPB (unat (sb_size sbk) - b)] of
       Some bi \<Rightarrow>
         kdo (set_block_data bp (\<lambda>d. bitmap_set d bi))
         (kdo (log_write bp)
         (kdo (brelse bp)
         (kdo (bzero dev (of_nat (b + bi)))
         (kret (of_nat (b + bi))))))
     | None \<Rightarrow> kdo (brelse bp) (balloc_from dev bs))))"

definition balloc :: "u32 \<Rightarrow> ('a fs_state_scheme, u32) kern" where
  "balloc dev =
     kbind (kget (\<lambda>s. unat (sb_size (sb s)))) (\<lambda>size.
     balloc_from dev (map (\<lambda>k. k * BPB) [0..<(size + BPB - 1) div BPB]))"

definition bfree :: "u32 \<Rightarrow> u32 \<Rightarrow> ('a fs_state_scheme, unit) kern" where
  "bfree dev b =
     kbind (kget sb) (\<lambda>sbk.
     kbind (bread dev (BBLOCK b sbk)) (\<lambda>bp.
     kbind (get_block_data bp) (\<lambda>d.
     let bi = unat b mod BPB in
     if \<not> bitmap_bit d bi then kpanic ''freeing free block''
     else kdo (set_block_data bp (\<lambda>d. bitmap_clear d bi))
      (kdo (log_write bp)
      (brelse bp)))))"

subsection \<open>Inodes\<close>

definition iinit :: "('a fs_state_scheme, unit) kern" where
  "iinit =
     kdo (kinitlock ItableLock ''itable'')
     (kfor [0..<NINODE] (\<lambda>i. initsleeplock (InodeLock i) ''inode''))"

text \<open>The scan of \<^verbatim>\<open>iget\<close>: the entry found, and the first empty one.\<close>

fun iget_scan :: "(nat \<Rightarrow> inode) \<Rightarrow> u32 \<Rightarrow> u32 \<Rightarrow> nat option \<Rightarrow> nat list \<Rightarrow> nat option \<times> nat option" where
  "iget_scan tab dev inum emp [] = (None, emp)"
| "iget_scan tab dev inum emp (i # is) =
     (if i_ref (tab i) > 0 \<and> i_dev (tab i) = dev \<and> i_inum (tab i) = inum then (Some i, emp)
      else iget_scan tab dev inum (if emp = None \<and> i_ref (tab i) = 0 then Some i else emp) is)"

definition iget :: "u32 \<Rightarrow> u32 \<Rightarrow> ('a fs_state_scheme, nat) kern" where
  "iget dev inum =
     kdo (kacquire ItableLock)
     (kbind (kget (\<lambda>s. iget_scan (inodes s) dev inum None [0..<NINODE])) (\<lambda>(found, emp).
     case found of
       Some ip \<Rightarrow>
         kdo (upd_inode ip (\<lambda>x. x\<lparr>i_ref := i_ref x + 1\<rparr>))
         (kdo (krelease ItableLock)
         (kret ip))
     | None \<Rightarrow>
         (case emp of
            None \<Rightarrow> kpanic ''iget: no inodes''
          | Some ip \<Rightarrow>
              kdo (upd_inode ip (\<lambda>x. x\<lparr>i_dev := dev, i_inum := inum, i_ref := 1, i_valid := 0\<rparr>))
              (kdo (krelease ItableLock)
              (kret ip)))))"

definition zero_dinode :: dinode where
  "zero_dinode = \<lparr>di_type = 0, di_major = 0, di_minor = 0, di_nlink = 0, di_size = 0,
     di_addrs = replicate (NDIRECT + 1) 0\<rparr>"

fun ialloc_from :: "u32 \<Rightarrow> u16 \<Rightarrow> nat list \<Rightarrow> ('a fs_state_scheme, nat option) kern" where
  "ialloc_from dev ty [] = kdo (printf (bytes ''ialloc: no inodes'' @ [10]) []) (kret None)"
| "ialloc_from dev ty (inum # is) =
     kbind (kget sb) (\<lambda>sbk.
     kbind (bread dev (IBLOCK (of_nat inum) sbk)) (\<lambda>bp.
     kbind (get_block_data bp) (\<lambda>d.
     if di_type (get_dinode d (inum mod IPB)) = 0 then
       kdo (set_block_data bp (\<lambda>d. put_dinode d (inum mod IPB) (zero_dinode\<lparr>di_type := ty\<rparr>)))
       (kdo (log_write bp)
       (kdo (brelse bp)
       (kbind (iget dev (of_nat inum)) (\<lambda>ip. kret (Some ip)))))
     else kdo (brelse bp) (ialloc_from dev ty is))))"

definition ialloc :: "u32 \<Rightarrow> u16 \<Rightarrow> ('a fs_state_scheme, nat option) kern" where
  "ialloc dev ty =
     kbind (kget (\<lambda>s. unat (sb_ninodes (sb s)))) (\<lambda>n. ialloc_from dev ty [1..<n])"

definition iupdate :: "nat \<Rightarrow> ('a fs_state_scheme, unit) kern" where
  "iupdate ip =
     kbind (get_inode ip id) (\<lambda>x.
     kbind (kget sb) (\<lambda>sbk.
     kbind (bread (i_dev x) (IBLOCK (i_inum x) sbk)) (\<lambda>bp.
     kbind (get_inode ip id) (\<lambda>x.
     kdo (set_block_data bp (\<lambda>d. put_dinode d (unat (i_inum x) mod IPB)
        \<lparr>di_type = i_type x, di_major = i_major x, di_minor = i_minor x, di_nlink = i_nlink x,
         di_size = i_size x, di_addrs = i_addrs x\<rparr>))
     (kdo (log_write bp)
     (brelse bp))))))"

definition idup :: "nat \<Rightarrow> ('a fs_state_scheme, nat) kern" where
  "idup ip =
     kdo (kacquire ItableLock)
     (kdo (upd_inode ip (\<lambda>x. x\<lparr>i_ref := i_ref x + 1\<rparr>))
     (kdo (krelease ItableLock)
     (kret ip)))"

definition ilock :: "nat \<Rightarrow> ('a fs_state_scheme, unit) kern" where
  "ilock ip =
     kbind (get_inode ip i_ref) (\<lambda>r.
     if r < 1 then kpanic ''ilock''
     else kdo (acquiresleep (InodeLock ip))
      (kbind (get_inode ip id) (\<lambda>x.
      kwhen (i_valid x = 0)
        (kbind (kget sb) (\<lambda>sbk.
        kbind (bread (i_dev x) (IBLOCK (i_inum x) sbk)) (\<lambda>bp.
        kbind (get_block_data bp) (\<lambda>d.
        let di = get_dinode d (unat (i_inum x) mod IPB) in
        kdo (upd_inode ip (\<lambda>x. x\<lparr>i_type := di_type di, i_major := di_major di,
           i_minor := di_minor di, i_nlink := di_nlink di, i_size := di_size di,
           i_addrs := di_addrs di\<rparr>))
        (kdo (brelse bp)
        (kdo (upd_inode ip (\<lambda>x. x\<lparr>i_valid := 1\<rparr>))
        (if di_type di = 0 then kpanic ''ilock: no type'' else kret ()))))))))))"

definition iunlock :: "nat \<Rightarrow> ('a fs_state_scheme, unit) kern" where
  "iunlock ip =
     kbind (holdingsleep (InodeLock ip)) (\<lambda>held.
     kbind (get_inode ip i_ref) (\<lambda>r.
     if \<not> held \<or> r < 1 then kpanic ''iunlock''
     else releasesleep (InodeLock ip)))"

subsection \<open>Inode contents\<close>

definition bmap :: "nat \<Rightarrow> u32 \<Rightarrow> ('a fs_state_scheme, u32) kern" where
  "bmap ip bn =
     kbind (get_inode ip id) (\<lambda>x.
     if unat bn < NDIRECT then
       (let addr = i_addrs x ! unat bn in
        if addr \<noteq> 0 then kret addr
        else kbind (balloc (i_dev x)) (\<lambda>addr.
          if addr = 0 then kret 0
          else kdo (upd_inode ip (\<lambda>x. x\<lparr>i_addrs := (i_addrs x)[unat bn := addr]\<rparr>)) (kret addr)))
     else let k = unat bn - NDIRECT in
     if k < NINDIRECT then
       kbind (if i_addrs x ! NDIRECT \<noteq> 0 then kret (i_addrs x ! NDIRECT)
              else kbind (balloc (i_dev x)) (\<lambda>addr.
                kdo (kwhen (addr \<noteq> 0)
                  (upd_inode ip (\<lambda>x. x\<lparr>i_addrs := (i_addrs x)[NDIRECT := addr]\<rparr>)))
                (kret addr))) (\<lambda>addr.
       if addr = 0 then kret 0
       else kbind (bread (i_dev x) addr) (\<lambda>bp.
         kbind (get_block_data bp) (\<lambda>d.
         kbind (if get32 d (4 * k) \<noteq> 0 then kret (get32 d (4 * k))
                else kbind (balloc (i_dev x)) (\<lambda>addr.
                  kdo (kwhen (addr \<noteq> 0)
                    (kdo (set_block_data bp (\<lambda>d. put32 d (4 * k) addr)) (log_write bp)))
                  (kret addr))) (\<lambda>addr.
         kdo (brelse bp)
         (kret addr)))))
     else kpanic ''bmap: out of range'')"

definition itrunc :: "nat \<Rightarrow> ('a fs_state_scheme, unit) kern" where
  "itrunc ip =
     kdo (kfor [0..<NDIRECT] (\<lambda>i.
       kbind (get_inode ip id) (\<lambda>x.
       kwhen (i_addrs x ! i \<noteq> 0)
         (kdo (bfree (i_dev x) (i_addrs x ! i))
         (upd_inode ip (\<lambda>x. x\<lparr>i_addrs := (i_addrs x)[i := 0]\<rparr>))))))
     (kdo (kbind (get_inode ip id) (\<lambda>x.
       kwhen (i_addrs x ! NDIRECT \<noteq> 0)
         (kbind (bread (i_dev x) (i_addrs x ! NDIRECT)) (\<lambda>bp.
         kdo (kfor [0..<NINDIRECT] (\<lambda>j.
           kbind (get_block_data bp) (\<lambda>d.
           kwhen (get32 d (4 * j) \<noteq> 0) (bfree (i_dev x) (get32 d (4 * j))))))
         (kdo (brelse bp)
         (kdo (bfree (i_dev x) (i_addrs x ! NDIRECT))
         (upd_inode ip (\<lambda>x. x\<lparr>i_addrs := (i_addrs x)[NDIRECT := 0]\<rparr>))))))))
     (kdo (upd_inode ip (\<lambda>x. x\<lparr>i_size := 0\<rparr>))
     (iupdate ip)))"

definition iput :: "nat \<Rightarrow> ('a fs_state_scheme, unit) kern" where
  "iput ip =
     kdo (kacquire ItableLock)
     (kbind (get_inode ip id) (\<lambda>x.
     kdo (kwhen (i_ref x = 1 \<and> i_valid x \<noteq> 0 \<and> i_nlink x = 0)
       (kdo (acquiresleep (InodeLock ip))
       (kdo (krelease ItableLock)
       (kdo (itrunc ip)
       (kdo (upd_inode ip (\<lambda>x. x\<lparr>i_type := 0\<rparr>))
       (kdo (iupdate ip)
       (kdo (upd_inode ip (\<lambda>x. x\<lparr>i_valid := 0\<rparr>))
       (kdo (releasesleep (InodeLock ip))
       (kacquire ItableLock)))))))))
     (kdo (upd_inode ip (\<lambda>x. x\<lparr>i_ref := i_ref x - 1\<rparr>))
     (krelease ItableLock))))"

definition iunlockput :: "nat \<Rightarrow> ('a fs_state_scheme, unit) kern" where
  "iunlockput ip = kdo (iunlock ip) (iput ip)"

definition stati :: "nat \<Rightarrow> ('a fs_state_scheme, stat) kern" where
  "stati ip =
     get_inode ip (\<lambda>x. \<lparr>st_dev = i_dev x, st_ino = i_inum x, st_type = i_type x,
       st_nlink = i_nlink x, st_size = ucast (i_size x)\<rparr>)"

text \<open>The number of bytes a loop iteration of \<^verbatim>\<open>readi\<close> and \<^verbatim>\<open>writei\<close> moves.\<close>

definition chunk :: "u32 \<Rightarrow> u32 \<Rightarrow> u32 \<Rightarrow> u32" where
  "chunk n tot off = min (n - tot) (of_nat BSIZE - off mod of_nat BSIZE)"

lemma chunk_progress: "tot < n \<Longrightarrow> unat (n - (tot + chunk n tot off)) < unat (n - tot)"
proof -
  assume lt: "tot < n"
  have "off mod 1024 < (1024 :: u32)" by (simp add: word_mod_less_divisor)
  then have "0 < (1024 :: u32) - off mod 1024"
    by (simp add: word_gt_0)
  moreover have "0 < n - tot" using lt by (auto simp: word_gt_0)
  ultimately have m: "0 < chunk n tot off" "chunk n tot off \<le> n - tot"
    by (simp_all add: chunk_def BSIZE_def)
  have "n - (tot + chunk n tot off) = (n - tot) - chunk n tot off" by simp
  then have "unat (n - (tot + chunk n tot off)) = unat (n - tot) - unat (chunk n tot off)"
    using m(2) by (simp only: unat_sub)
  moreover have "0 < unat (chunk n tot off)" "unat (chunk n tot off) \<le> unat (n - tot)"
    using m by (simp_all add: word_less_nat_alt word_le_nat_alt)
  ultimately show ?thesis by linarith
qed

text \<open>The loop of \<^verbatim>\<open>readi\<close>. \<open>acc\<close> collects the bytes read so far, for a destination that is a
  kernel object.\<close>

function readi_loop :: "nat \<Rightarrow> copy_dst \<Rightarrow> u32 \<Rightarrow> u32 \<Rightarrow> u32 \<Rightarrow> u8 list \<Rightarrow>
    ('a fs_state_scheme, int \<times> u8 list) kern" where
  "readi_loop ip dst off n tot acc =
     (if tot < n then
        kbind (bmap ip (off div of_nat BSIZE)) (\<lambda>addr.
        if addr = 0 then kret (sint tot, acc)
        else kbind (get_inode ip i_dev) (\<lambda>dev.
          kbind (bread dev addr) (\<lambda>bp.
          kbind (get_block_data bp) (\<lambda>d.
          let m = chunk n tot off;
              bs = take (unat m) (drop (unat (off mod of_nat BSIZE)) d) in
          kbind (either_copyout dst bs) (\<lambda>r.
          if r = - 1 then kdo (brelse bp) (kret (- 1, acc))
          else kdo (brelse bp)
           (readi_loop ip (advance_dst dst (ucast m)) (off + m) n (tot + m) (acc @ bs)))))))
      else kret (sint tot, acc))"
  by pat_completeness auto

termination
  by (relation "measure (\<lambda>(ip, dst, off, n, tot, acc). unat (n - tot))") (auto intro: chunk_progress)

declare readi_loop.simps [simp del]

definition readi :: "nat \<Rightarrow> copy_dst \<Rightarrow> u32 \<Rightarrow> u32 \<Rightarrow> ('a fs_state_scheme, int \<times> u8 list) kern" where
  "readi ip dst off n =
     kbind (get_inode ip i_size) (\<lambda>size.
     if off > size \<or> off + n < off then kret (0, [])
     else readi_loop ip dst off (if off + n > size then size - off else n) 0 [])"

text \<open>The loop of \<^verbatim>\<open>writei\<close> returns the offset and the count it ends with. Bytes that
  \<^verbatim>\<open>either_copyin\<close> has copied before it fails stay in the buffer.\<close>

function writei_loop :: "nat \<Rightarrow> copy_src \<Rightarrow> u32 \<Rightarrow> u32 \<Rightarrow> u32 \<Rightarrow> ('a fs_state_scheme, u32 \<times> u32) kern" where
  "writei_loop ip src off n tot =
     (if tot < n then
        kbind (bmap ip (off div of_nat BSIZE)) (\<lambda>addr.
        if addr = 0 then kret (off, tot)
        else kbind (get_inode ip i_dev) (\<lambda>dev.
          kbind (bread dev addr) (\<lambda>bp.
          let m = chunk n tot off in
          kbind (either_copyin src (ucast m)) (\<lambda>(r, bs).
          kdo (set_block_data bp (\<lambda>d. put_bytes d (unat (off mod of_nat BSIZE)) bs))
          (if r = - 1 then kdo (brelse bp) (kret (off, tot))
           else kdo (log_write bp)
            (kdo (brelse bp)
            (writei_loop ip (advance_src src (ucast m)) (off + m) n (tot + m))))))))
      else kret (off, tot))"
  by pat_completeness auto

termination
  by (relation "measure (\<lambda>(ip, src, off, n, tot). unat (n - tot))") (auto intro: chunk_progress)

declare writei_loop.simps [simp del]

definition writei :: "nat \<Rightarrow> copy_src \<Rightarrow> u32 \<Rightarrow> u32 \<Rightarrow> ('a fs_state_scheme, int) kern" where
  "writei ip src off n =
     kbind (get_inode ip i_size) (\<lambda>size.
     if off > size \<or> off + n < off then kret (- 1)
     else if unat (off + n) > MAXFILE * BSIZE then kret (- 1)
     else kbind (writei_loop ip src off n 0) (\<lambda>(off, tot).
       kbind (get_inode ip i_size) (\<lambda>size.
       kdo (kwhen (off > size) (upd_inode ip (\<lambda>x. x\<lparr>i_size := off\<rparr>)))
       (kdo (iupdate ip)
       (kret (sint tot))))))"

subsection \<open>Directories\<close>

definition namecmp :: "cptr \<Rightarrow> cptr \<Rightarrow> int" where
  "namecmp s t = strncmp s t DIRSIZ"

text \<open>The offsets \<^verbatim>\<open>0, sizeof(de), ...\<close> below the size of the directory, which does not change
  while its entries are read.\<close>

definition dirent_offs :: "u32 \<Rightarrow> u32 list" where
  "dirent_offs n =
     map (\<lambda>k. of_nat (k * sizeof_dirent)) [0..<(unat n + sizeof_dirent - 1) div sizeof_dirent]"

definition read_entry :: "string \<Rightarrow> nat \<Rightarrow> u32 \<Rightarrow> ('a fs_state_scheme, dirent) kern" where
  "read_entry err dp off =
     kbind (readi dp ObjDst off (of_nat sizeof_dirent)) (\<lambda>(n, bs).
     if n \<noteq> int sizeof_dirent then kpanic err else kret (read_dirent bs))"

fun dirlookup_from :: "nat \<Rightarrow> cptr \<Rightarrow> u32 list \<Rightarrow> ('a fs_state_scheme, (nat \<times> u32) option) kern" where
  "dirlookup_from dp name [] = kret None"
| "dirlookup_from dp name (off # offs) =
     kbind (read_entry ''dirlookup read'' dp off) (\<lambda>de.
     if de_inum de \<noteq> 0 \<and> namecmp name (fmt_at (de_name de)) = 0 then
       kbind (get_inode dp i_dev) (\<lambda>dev.
       kbind (iget dev (ucast (de_inum de))) (\<lambda>ip. kret (Some (ip, off))))
     else dirlookup_from dp name offs)"

text \<open>The result of \<^verbatim>\<open>dirlookup\<close> carries the offset it stores through \<^verbatim>\<open>poff\<close>.\<close>

definition dirlookup :: "nat \<Rightarrow> cptr \<Rightarrow> ('a fs_state_scheme, (nat \<times> u32) option) kern" where
  "dirlookup dp name =
     kbind (get_inode dp id) (\<lambda>x.
     if i_type x \<noteq> T_DIR then kpanic ''dirlookup not DIR''
     else dirlookup_from dp name (dirent_offs (i_size x)))"

text \<open>The search of \<^verbatim>\<open>dirlink\<close> for an empty entry; \<open>e\<close> is the offset behind the last one.\<close>

fun dirlink_slot :: "nat \<Rightarrow> u32 \<Rightarrow> u32 list \<Rightarrow> ('a fs_state_scheme, u32) kern" where
  "dirlink_slot dp e [] = kret e"
| "dirlink_slot dp e (off # offs) =
     kbind (read_entry ''dirlink read'' dp off) (\<lambda>de.
     if de_inum de = 0 then kret off else dirlink_slot dp e offs)"

definition dirlink :: "nat \<Rightarrow> cptr \<Rightarrow> u32 \<Rightarrow> ('a fs_state_scheme, int) kern" where
  "dirlink dp name inum =
     kbind (dirlookup dp name) (\<lambda>found.
     case found of
       Some (ip, _) \<Rightarrow> kdo (iput ip) (kret (- 1))
     | None \<Rightarrow>
         kbind (get_inode dp i_size) (\<lambda>size.
         let offs = dirent_offs size in
         kbind (dirlink_slot dp (of_nat (length offs * sizeof_dirent)) offs) (\<lambda>off.
         let de = \<lparr>de_inum = ucast inum, de_name = strncpy (replicate DIRSIZ 0) name (int DIRSIZ)\<rparr> in
         kbind (writei dp (ObjSrc (dirent_bytes de)) off (of_nat sizeof_dirent)) (\<lambda>n.
         if n \<noteq> int sizeof_dirent then kret (- 1) else kret 0))))"

subsection \<open>Paths\<close>

text \<open>A path is the list of its bytes up to the terminating null. \<^verbatim>\<open>skipelem\<close> returns what follows
  the first element, and the array \<^verbatim>\<open>name\<close> after the copy.\<close>

abbreviation SLASH :: u8 where
  "SLASH \<equiv> 0x2F"

definition skipelem :: "u8 list \<Rightarrow> u8 list \<Rightarrow> (u8 list \<times> u8 list) option" where
  "skipelem path name =
     (let s = dropWhile (\<lambda>c. c = SLASH) path in
      if s = [] then None
      else let el = takeWhile (\<lambda>c. c \<noteq> SLASH) s;
               path' = dropWhile (\<lambda>c. c \<noteq> SLASH) s;
               name' = (if length el \<ge> DIRSIZ then overwrite name (take DIRSIZ el)
                        else overwrite name (el @ [0]))
           in Some (dropWhile (\<lambda>c. c = SLASH) path', name'))"

lemma skipelem_shorter: "skipelem path name = Some (path', name') \<Longrightarrow> length path' < length path"
proof -
  assume a: "skipelem path name = Some (path', name')"
  let ?s = "dropWhile (\<lambda>c. c = SLASH) path"
  have ne: "?s \<noteq> []" and p: "path' = dropWhile (\<lambda>c. c = SLASH) (dropWhile (\<lambda>c. c \<noteq> SLASH) ?s)"
    using a by (auto simp: skipelem_def Let_def split: if_splits)
  have "hd ?s \<noteq> SLASH" using ne by (rule hd_dropWhile)
  with ne obtain c cs where s: "?s = c # cs" "c \<noteq> SLASH" by (cases ?s) auto
  have "length path' \<le> length (dropWhile (\<lambda>c. c \<noteq> SLASH) cs)"
    unfolding p using s by (simp add: length_dropWhile_le)
  also have "\<dots> < length ?s"
    using length_dropWhile_le [of "\<lambda>c. c \<noteq> SLASH" cs] s by simp
  also have "\<dots> \<le> length path" by (rule length_dropWhile_le)
  finally show ?thesis .
qed

function namex_loop :: "nat \<Rightarrow> u8 list \<Rightarrow> bool \<Rightarrow> u8 list \<Rightarrow> ('a fs_state_scheme, (nat \<times> u8 list) option) kern" where
  "namex_loop ip path nameiparent name =
     (case skipelem path name of
        None \<Rightarrow> if nameiparent then kdo (iput ip) (kret None) else kret (Some (ip, name))
      | Some (path', name') \<Rightarrow>
          kdo (ilock ip)
          (kbind (get_inode ip i_type) (\<lambda>ty.
          if ty \<noteq> T_DIR then kdo (iunlockput ip) (kret None)
          else if nameiparent \<and> path' = [] then kdo (iunlock ip) (kret (Some (ip, name')))
          else kbind (dirlookup ip (fmt_at name')) (\<lambda>nx.
           case nx of
             None \<Rightarrow> kdo (iunlockput ip) (kret None)
           | Some (ip', _) \<Rightarrow> kdo (iunlockput ip) (namex_loop ip' path' nameiparent name')))))"
  by pat_completeness auto

termination
  by (relation "measure (\<lambda>(ip, path, np, name). length path)") (auto dest: skipelem_shorter)

declare namex_loop.simps [simp del]

definition namex :: "u8 list \<Rightarrow> bool \<Rightarrow> u8 list \<Rightarrow> ('a fs_state_scheme, (nat \<times> u8 list) option) kern" where
  "namex path nameiparent name =
     kbind (if fmt_at path 0 = SLASH then iget ROOTDEV ROOTINO
            else with_myproc (\<lambda>p. kbind (get_proc p cwd) (\<lambda>c.
              case c of None \<Rightarrow> kfault ''null cwd'' | Some ip \<Rightarrow> idup ip))) (\<lambda>ip.
     namex_loop ip path nameiparent name)"

definition namei :: "u8 list \<Rightarrow> ('a fs_state_scheme, nat option) kern" where
  "namei path = kbind (namex path False (replicate DIRSIZ 0)) (\<lambda>r. kret (map_option fst r))"

text \<open>\<^verbatim>\<open>nameiparent\<close> also returns the array \<^verbatim>\<open>name\<close> with the final element. What the
  arrays hold before the call is never read.\<close>

definition nameiparent :: "u8 list \<Rightarrow> ('a fs_state_scheme, (nat \<times> u8 list) option) kern" where
  "nameiparent path = namex path True (replicate DIRSIZ 0)"

end
