(* ===== verification/Files.thy ===== *)
theory Files
  imports Fs
begin

section \<open>kernel/file.c and kernel/pipe.c: open files and pipes\<close>

text \<open>
  The table of open files and the pipes. A pipe occupies a page from \<^verbatim>\<open>kalloc\<close>; its contents are
  the record \<open>pipes\<close> holds for the address of that page. The functions behind \<^verbatim>\<open>devsw[]\<close> are
  named by constructors; the console is the only device that registers any.
\<close>

definition PIPESIZE :: nat where [layout_defs]: "PIPESIZE = 512"

record pipe =
  pi_data :: "u8 list"
  pi_nread :: u32
  pi_nwrite :: u32
  pi_readopen :: bool
  pi_writeopen :: bool

datatype file_type = FD_NONE | FD_PIPE | FD_INODE | FD_DEVICE

record open_file =
  f_type :: file_type
  f_ref :: int
  f_readable :: bool
  f_writable :: bool
  f_pipe :: u64
  f_ip :: nat
  f_off :: u32
  f_major :: u16

datatype devfn = NoDev | ConsoleDev

record file_state = fs_state +
  ftable :: "nat \<Rightarrow> open_file"
  pipes :: "u64 \<Rightarrow> pipe"
  devsw_read :: "nat \<Rightarrow> devfn"
  devsw_write :: "nat \<Rightarrow> devfn"
  stat_pad :: "u8 list" \<comment> \<open>what the stack holds in the padding of \<^verbatim>\<open>struct stat\<close>\<close>

definition upd_file :: "nat \<Rightarrow> (open_file \<Rightarrow> open_file) \<Rightarrow> ('a file_state_scheme, unit) kern" where
  "upd_file f g = kmodify (\<lambda>s. s\<lparr>ftable := (ftable s)(f := g (ftable s f))\<rparr>)"

abbreviation get_file :: "nat \<Rightarrow> (open_file \<Rightarrow> 'b) \<Rightarrow> ('a file_state_scheme, 'b) kern" where
  "get_file f g \<equiv> kget (\<lambda>s. g (ftable s f))"

definition upd_pipe :: "u64 \<Rightarrow> (pipe \<Rightarrow> pipe) \<Rightarrow> ('a file_state_scheme, unit) kern" where
  "upd_pipe p g = kmodify (\<lambda>s. s\<lparr>pipes := (pipes s)(p := g (pipes s p))\<rparr>)"

abbreviation get_pipe :: "u64 \<Rightarrow> (pipe \<Rightarrow> 'b) \<Rightarrow> ('a file_state_scheme, 'b) kern" where
  "get_pipe p g \<equiv> kget (\<lambda>s. g (pipes s p))"

subsection \<open>Pipes\<close>

definition pipeclose :: "u64 \<Rightarrow> bool \<Rightarrow> ('a file_state_scheme, unit) kern" where
  "pipeclose p writable =
     kdo (kacquire (PipeLock p))
     (kdo (if writable
           then kdo (upd_pipe p (\<lambda>x. x\<lparr>pi_writeopen := False\<rparr>)) (wakeup (ChanPipeRead p))
           else kdo (upd_pipe p (\<lambda>x. x\<lparr>pi_readopen := False\<rparr>)) (wakeup (ChanPipeWrite p)))
     (kbind (get_pipe p (\<lambda>x. \<not> pi_readopen x \<and> \<not> pi_writeopen x)) (\<lambda>dead.
     kdo (krelease (PipeLock p))
     (kwhen dead (kfree p)))))"

text \<open>One byte into and out of the ring.\<close>

definition pipe_put :: "u8 \<Rightarrow> pipe \<Rightarrow> pipe" where
  "pipe_put c x = x\<lparr>pi_data := (pi_data x)[unat (pi_nwrite x mod of_nat PIPESIZE) := c],
     pi_nwrite := pi_nwrite x + 1\<rparr>"

definition pipe_get :: "pipe \<Rightarrow> u8 \<times> pipe" where
  "pipe_get x = (pi_data x ! unat (pi_nread x mod of_nat PIPESIZE), x\<lparr>pi_nread := pi_nread x + 1\<rparr>)"

definition pipe_full :: "pipe \<Rightarrow> bool" where
  "pipe_full x \<longleftrightarrow> pi_nwrite x = pi_nread x + of_nat PIPESIZE"

definition pipe_empty :: "pipe \<Rightarrow> bool" where
  "pipe_empty x \<longleftrightarrow> pi_nread x = pi_nwrite x"

text \<open>The loop of \<^verbatim>\<open>pipewrite\<close> and what follows it, with the lock of the pipe held; a writer that
  slept comes back here with the \<open>i\<close> it had.\<close>

function pipewrite_loop :: "u64 \<Rightarrow> nat \<Rightarrow> u64 \<Rightarrow> int \<Rightarrow> int \<Rightarrow> ('a file_state_scheme, int) kern" where
  "pipewrite_loop p pr addr n i =
     (let fin = kdo (wakeup (ChanPipeRead p)) (kdo (krelease (PipeLock p)) (kret i)) in
      if i < n then
        kbind (get_pipe p pi_readopen) (\<lambda>ropen.
        kbind (if \<not> ropen then kret True else kbind (killed pr) (\<lambda>k. kret (k \<noteq> 0))) (\<lambda>stop.
        if stop then kdo (krelease (PipeLock p)) (kret (- 1))
        else kbind (get_pipe p pipe_full) (\<lambda>full.
          if full then kdo (wakeup (ChanPipeRead p)) (sleep (ChanPipeWrite p) (PipeLock p))
          else kbind (get_proc pr pagetable) (\<lambda>pt.
            kbind (copyin pt (addr + word_of_int i) 1) (\<lambda>(r, bs).
            if r = - 1 then fin
            else kdo (upd_pipe p (pipe_put (hd bs)))
             (pipewrite_loop p pr addr n (i + 1)))))))
      else fin)"
  by pat_completeness auto

termination
  by (relation "measure (\<lambda>(p, pr, addr, n, i). nat (n - i))") auto

declare pipewrite_loop.simps [simp del]

definition pipewrite :: "u64 \<Rightarrow> u64 \<Rightarrow> int \<Rightarrow> ('a file_state_scheme, int) kern" where
  "pipewrite p addr n =
     with_myproc (\<lambda>pr. kdo (kacquire (PipeLock p)) (pipewrite_loop p pr addr n 0))"

text \<open>The copying loop of \<^verbatim>\<open>piperead\<close>.\<close>

function piperead_copy :: "u64 \<Rightarrow> nat \<Rightarrow> u64 \<Rightarrow> int \<Rightarrow> int \<Rightarrow> ('a file_state_scheme, int) kern" where
  "piperead_copy p pr addr n i =
     (let fin = kdo (wakeup (ChanPipeWrite p)) (kdo (krelease (PipeLock p)) (kret i)) in
      if i < n then
        kbind (get_pipe p pipe_empty) (\<lambda>e.
        if e then fin
        else kbind (get_pipe p (\<lambda>x. fst (pipe_get x))) (\<lambda>ch.
          kdo (upd_pipe p (\<lambda>x. snd (pipe_get x)))
          (kbind (get_proc pr pagetable) (\<lambda>pt.
          kbind (copyout pt (addr + word_of_int i) [ch]) (\<lambda>r.
          if r = - 1 then fin else piperead_copy p pr addr n (i + 1))))))
      else fin)"
  by pat_completeness auto

termination
  by (relation "measure (\<lambda>(p, pr, addr, n, i). nat (n - i))") auto

declare piperead_copy.simps [simp del]

text \<open>\<^verbatim>\<open>piperead\<close> from its waiting loop on; a reader that slept comes back here.\<close>

definition piperead_loop :: "u64 \<Rightarrow> nat \<Rightarrow> u64 \<Rightarrow> int \<Rightarrow> ('a file_state_scheme, int) kern" where
  "piperead_loop p pr addr n =
     kbind (get_pipe p (\<lambda>x. pipe_empty x \<and> pi_writeopen x)) (\<lambda>wait.
     if wait then
       kbind (killed pr) (\<lambda>k.
       if k \<noteq> 0 then kdo (krelease (PipeLock p)) (kret (- 1))
       else sleep (ChanPipeRead p) (PipeLock p))
     else piperead_copy p pr addr n 0)"

definition piperead :: "u64 \<Rightarrow> u64 \<Rightarrow> int \<Rightarrow> ('a file_state_scheme, int) kern" where
  "piperead p addr n =
     with_myproc (\<lambda>pr. kdo (kacquire (PipeLock p)) (piperead_loop p pr addr n))"

subsection \<open>The file table\<close>

definition fileinit :: "('a file_state_scheme, unit) kern" where
  "fileinit = kinitlock FtableLock ''ftable''"

definition filealloc :: "('a file_state_scheme, nat option) kern" where
  "filealloc =
     kdo (kacquire FtableLock)
     (kbind (kget (\<lambda>s. find (\<lambda>f. f_ref (ftable s f) = 0) [0..<NFILE])) (\<lambda>found.
     kdo (case found of None \<Rightarrow> kret () | Some f \<Rightarrow> upd_file f (\<lambda>x. x\<lparr>f_ref := 1\<rparr>))
     (kdo (krelease FtableLock)
     (kret found))))"

definition filedup :: "nat \<Rightarrow> ('a file_state_scheme, nat) kern" where
  "filedup f =
     kdo (kacquire FtableLock)
     (kbind (get_file f f_ref) (\<lambda>r.
     if r < 1 then kpanic ''filedup''
     else kdo (upd_file f (\<lambda>x. x\<lparr>f_ref := f_ref x + 1\<rparr>))
      (kdo (krelease FtableLock)
      (kret f))))"

definition fileclose :: "nat \<Rightarrow> ('a file_state_scheme, unit) kern" where
  "fileclose f =
     kdo (kacquire FtableLock)
     (kbind (get_file f f_ref) (\<lambda>r.
     if r < 1 then kpanic ''fileclose''
     else kdo (upd_file f (\<lambda>x. x\<lparr>f_ref := f_ref x - 1\<rparr>))
      (kbind (get_file f id) (\<lambda>ff.
      if f_ref ff > 0 then krelease FtableLock
      else kdo (upd_file f (\<lambda>x. x\<lparr>f_ref := 0, f_type := FD_NONE\<rparr>))
       (kdo (krelease FtableLock)
       (if f_type ff = FD_PIPE then pipeclose (f_pipe ff) (f_writable ff)
        else if f_type ff = FD_INODE \<or> f_type ff = FD_DEVICE then
          kdo begin_op (kdo (iput (f_ip ff)) end_op)
        else kret ()))))))"

definition pipealloc :: "('a file_state_scheme, (nat \<times> nat) option) kern" where
  "pipealloc =
     kbind filealloc (\<lambda>f0.
     case f0 of None \<Rightarrow> kret None
     | Some f0 \<Rightarrow>
     kbind filealloc (\<lambda>f1.
     case f1 of None \<Rightarrow> kdo (fileclose f0) (kret None)
     | Some f1 \<Rightarrow>
     kbind kalloc (\<lambda>p.
     if p = 0 then kdo (fileclose f0) (kdo (fileclose f1) (kret None))
     else kdo (kmodify (\<lambda>s. s\<lparr>pipes := (pipes s)(p :=
        \<lparr>pi_data = load_bytes (mem s) (p + 24) PIPESIZE, pi_nread = 0, pi_nwrite = 0,
         pi_readopen = True, pi_writeopen = True\<rparr>)\<rparr>))
      (kdo (kinitlock (PipeLock p) ''pipe'')
      (kdo (upd_file f0 (\<lambda>x. x\<lparr>f_type := FD_PIPE, f_readable := True, f_writable := False, f_pipe := p\<rparr>))
      (kdo (upd_file f1 (\<lambda>x. x\<lparr>f_type := FD_PIPE, f_readable := False, f_writable := True, f_pipe := p\<rparr>))
      (kret (Some (f0, f1)))))))))"

definition stat_bytes :: "u8 list \<Rightarrow> stat \<Rightarrow> u8 list" where
  "stat_bytes pad st = le_bytes 4 (st_dev st) @ le_bytes 4 (st_ino st) @ le_bytes 2 (st_type st)
     @ le_bytes 2 (st_nlink st) @ pad @ le_bytes 8 (st_size st)"

definition filestat :: "nat \<Rightarrow> u64 \<Rightarrow> ('a file_state_scheme, int) kern" where
  "filestat f addr =
     with_myproc (\<lambda>p.
     kbind (get_file f id) (\<lambda>ff.
     if f_type ff = FD_INODE \<or> f_type ff = FD_DEVICE then
       kdo (ilock (f_ip ff))
       (kbind (stati (f_ip ff)) (\<lambda>st.
       kdo (iunlock (f_ip ff))
       (kbind (get_proc p pagetable) (\<lambda>pt.
       kbind (kget stat_pad) (\<lambda>pad.
       kbind (copyout pt addr (stat_bytes pad st)) (\<lambda>r.
       if r < 0 then kret (- 1) else kret 0))))))
     else kret (- 1)))"

definition dev_ok :: "(nat \<Rightarrow> devfn) \<Rightarrow> u16 \<Rightarrow> bool" where
  "dev_ok tab major \<longleftrightarrow> 0 \<le> sint major \<and> sint major < int NDEV \<and> tab (nat (sint major)) \<noteq> NoDev"

definition fileread :: "nat \<Rightarrow> u64 \<Rightarrow> int \<Rightarrow> ('a file_state_scheme, int) kern" where
  "fileread f addr n =
     kbind (get_file f id) (\<lambda>ff.
     if \<not> f_readable ff then kret (- 1)
     else case f_type ff of
       FD_PIPE \<Rightarrow> piperead (f_pipe ff) addr n
     | FD_DEVICE \<Rightarrow>
         kbind (kget (\<lambda>s. dev_ok (devsw_read s) (f_major ff))) (\<lambda>ok.
         if \<not> ok then kret (- 1) else consoleread (UserDst addr) n)
     | FD_INODE \<Rightarrow>
         kdo (ilock (f_ip ff))
         (kbind (readi (f_ip ff) (UserDst addr) (f_off ff) (word_of_int n)) (\<lambda>(r, _).
         kdo (kwhen (r > 0) (upd_file f (\<lambda>x. x\<lparr>f_off := f_off x + word_of_int r\<rparr>)))
         (kdo (iunlock (f_ip ff))
         (kret r))))
     | FD_NONE \<Rightarrow> kpanic ''fileread'')"

text \<open>The loop of \<^verbatim>\<open>filewrite\<close> over transactions; the result is the number of bytes written.\<close>

definition filewrite_max :: int where
  "filewrite_max = ((int MAXOPBLOCKS - 1 - 1 - 2) div 2) * int BSIZE"

function filewrite_loop :: "nat \<Rightarrow> u64 \<Rightarrow> int \<Rightarrow> int \<Rightarrow> ('a file_state_scheme, int) kern" where
  "filewrite_loop f addr n i =
     (if i < n then
        (let n1 = min (n - i) filewrite_max in
        kbind (get_file f f_ip) (\<lambda>ip.
        kdo begin_op
        (kdo (ilock ip)
        (kbind (get_file f f_off) (\<lambda>off.
        kbind (writei ip (UserSrc (addr + word_of_int i)) off (word_of_int n1)) (\<lambda>r.
        kdo (kwhen (r > 0) (upd_file f (\<lambda>x. x\<lparr>f_off := f_off x + word_of_int r\<rparr>)))
        (kdo (iunlock ip)
        (kdo end_op
        (if r \<noteq> n1 then kret i else filewrite_loop f addr n (i + n1))))))))))
      else kret i)"
  by pat_completeness auto

termination
  by (relation "measure (\<lambda>(f, addr, n, i). nat (n - i))")
    (auto simp: filewrite_max_def layout_defs)

declare filewrite_loop.simps [simp del]

definition filewrite :: "nat \<Rightarrow> u64 \<Rightarrow> int \<Rightarrow> ('a file_state_scheme, int) kern" where
  "filewrite f addr n =
     kbind (get_file f id) (\<lambda>ff.
     if \<not> f_writable ff then kret (- 1)
     else case f_type ff of
       FD_PIPE \<Rightarrow> pipewrite (f_pipe ff) addr n
     | FD_DEVICE \<Rightarrow>
         kbind (kget (\<lambda>s. dev_ok (devsw_write s) (f_major ff))) (\<lambda>ok.
         if \<not> ok then kret (- 1) else consolewrite (UserSrc addr) n)
     | FD_INODE \<Rightarrow> kbind (filewrite_loop f addr n 0) (\<lambda>i. kret (if i = n then n else - 1))
     | FD_NONE \<Rightarrow> kpanic ''filewrite'')"

text \<open>\<^verbatim>\<open>consoleinit\<close> of \<^verbatim>\<open>kernel/console.c\<close>.\<close>

definition CONSOLE :: nat where [layout_defs]: "CONSOLE = 1"

definition consoleinit :: "('a file_state_scheme, unit) kern" where
  "consoleinit =
     kdo (kinitlock ConsLock ''cons'')
     (kdo uartinit
     (kmodify (\<lambda>s. s\<lparr>devsw_read := (devsw_read s)(CONSOLE := ConsoleDev),
        devsw_write := (devsw_write s)(CONSOLE := ConsoleDev)\<rparr>)))"

end
