(* ===== verification/Exec.thy ===== *)
theory Exec
  imports Files
begin

section \<open>kernel/exec.c: loading a program\<close>

text \<open>
  \<^verbatim>\<open>exec\<close> with the byte layouts of \<^verbatim>\<open>kernel/elf.h\<close>. \<^verbatim>\<open>argv\<close> is the list of the non-null
  pointers before its terminating null pointer; the strings are in memory, where \<^verbatim>\<open>sys_exec\<close> puts
  them.
\<close>

definition ELF_MAGIC :: u32 where [layout_defs]: "ELF_MAGIC = 0x464C457F"
definition ELF_PROG_LOAD :: u32 where [layout_defs]: "ELF_PROG_LOAD = 1"
definition sizeof_elfhdr :: nat where [layout_defs]: "sizeof_elfhdr = 64"
definition sizeof_proghdr :: nat where [layout_defs]: "sizeof_proghdr = 56"

definition get64 :: "u8 list \<Rightarrow> nat \<Rightarrow> u64" where
  "get64 d i = le_word (take 8 (drop i d))"

record elfhdr =
  elf_magic :: u32
  elf_entry :: u64
  elf_phoff :: u64
  elf_phnum :: u16

record proghdr =
  ph_type :: u32
  ph_flags :: u32
  ph_off :: u64
  ph_vaddr :: u64
  ph_filesz :: u64
  ph_memsz :: u64

definition read_elfhdr :: "u8 list \<Rightarrow> elfhdr" where
  "read_elfhdr d = \<lparr>elf_magic = get32 d 0, elf_entry = get64 d 24, elf_phoff = get64 d 32,
     elf_phnum = get16 d 56\<rparr>"

definition read_proghdr :: "u8 list \<Rightarrow> proghdr" where
  "read_proghdr d = \<lparr>ph_type = get32 d 0, ph_flags = get32 d 4, ph_off = get64 d 8,
     ph_vaddr = get64 d 16, ph_filesz = get64 d 32, ph_memsz = get64 d 40\<rparr>"

definition flags2perm :: "u32 \<Rightarrow> u64" where
  "flags2perm flags =
     (let perm = (if flags AND 1 \<noteq> 0 then PTE_X else 0) in
      if flags AND 2 \<noteq> 0 then perm OR PTE_W else perm)"

text \<open>The loop of \<^verbatim>\<open>loadseg\<close>; its 32-bit counter goes around forever on the last page of a segment
  that ends at the top of the 32-bit range.\<close>

function loadseg_from :: "u64 \<Rightarrow> u64 \<Rightarrow> nat \<Rightarrow> u32 \<Rightarrow> u32 \<Rightarrow> u32 \<Rightarrow> ('a file_state_scheme, int) kern" where
  "loadseg_from pt va ip offset psz i =
     (if i < psz then
        kbind (walkaddr pt (va + ucast i)) (\<lambda>pa.
        if pa = 0 then kpanic ''loadseg: address should exist''
        else let n = (if psz - i < ucast PGSIZE then psz - i else ucast PGSIZE) in
          kbind (readi ip (KernDst pa) (offset + i) n) (\<lambda>(r, _).
          if r \<noteq> uint n then kret (- 1)
          else if i + ucast PGSIZE < i then khang ''loadseg: counter wraps''
          else loadseg_from pt va ip offset psz (i + ucast PGSIZE)))
      else kret 0)"
  by pat_completeness auto

termination
proof (relation "measure (\<lambda>(pt, va, ip, offset, psz, i). 2 ^ 32 - unat i)", goal_cases)
  case (2 pt va ip offset psz i)
  have "i < i + ucast PGSIZE"
    using 2 by (simp add: PGSIZE_def not_less order_le_less)
  then have "unat i < unat (i + ucast PGSIZE)" "unat (i + ucast PGSIZE) < 2 ^ 32"
    using unsigned_less [of "i + ucast PGSIZE", where 'a = nat] by (simp_all add: word_less_nat_alt)
  then show ?case by simp
qed simp

declare loadseg_from.simps [simp del]

definition loadseg :: "u64 \<Rightarrow> u64 \<Rightarrow> nat \<Rightarrow> u32 \<Rightarrow> u32 \<Rightarrow> ('a file_state_scheme, int) kern" where
  "loadseg pt va ip offset psz = loadseg_from pt va ip offset psz 0"

text \<open>The loop of \<^verbatim>\<open>exec\<close> over the program headers: whether all segments were loaded, and the size
  reached.\<close>

fun exec_segments :: "nat \<Rightarrow> u64 \<Rightarrow> u32 \<Rightarrow> nat \<Rightarrow> u64 \<Rightarrow> ('a file_state_scheme, bool \<times> u64) kern" where
  "exec_segments ip pt off 0 psz = kret (True, psz)"
| "exec_segments ip pt off (Suc n) psz =
     kbind (readi ip ObjDst off (of_nat sizeof_proghdr)) (\<lambda>(r, bs).
     if r \<noteq> int sizeof_proghdr then kret (False, psz)
     else let ph = read_proghdr bs in
     if ph_type ph \<noteq> ELF_PROG_LOAD then exec_segments ip pt (off + of_nat sizeof_proghdr) n psz
     else if ph_memsz ph < ph_filesz ph then kret (False, psz)
     else if ph_vaddr ph + ph_memsz ph < ph_vaddr ph then kret (False, psz)
     else if ph_vaddr ph mod PGSIZE \<noteq> 0 then kret (False, psz)
     else kbind (uvmalloc pt psz (ph_vaddr ph + ph_memsz ph) (flags2perm (ph_flags ph))) (\<lambda>sz1.
       if sz1 = 0 then kret (False, psz)
       else kbind (loadseg pt (ph_vaddr ph) ip (ucast (ph_off ph)) (ucast (ph_filesz ph))) (\<lambda>r.
         if r < 0 then kret (False, sz1)
         else exec_segments ip pt (off + of_nat sizeof_proghdr) n sz1)))"

text \<open>\<^verbatim>\<open>strlen(argv[argc])\<close>, and the loop that pushes the argument strings: the stack pointer and
  the addresses pushed so far, or nothing on failure.\<close>

definition mem_strlen :: "u64 \<Rightarrow> ('a kmem_state_scheme, nat) kern" where
  "mem_strlen a =
     kbind (kget (\<lambda>s. strlen (\<lambda>i. mem s (a + of_nat i)))) (\<lambda>r.
     case r of None \<Rightarrow> khang ''strlen'' | Some n \<Rightarrow> kret n)"

fun exec_push :: "u64 \<Rightarrow> u64 \<Rightarrow> u64 list \<Rightarrow> u64 \<Rightarrow> u64 list \<Rightarrow>
    ('a file_state_scheme, (u64 \<times> u64 list) option) kern" where
  "exec_push pt stackbase [] sp ustack = kret (Some (sp, ustack))"
| "exec_push pt stackbase (a # as) sp ustack =
     (if length ustack \<ge> MAXARG then kret None
      else kbind (mem_strlen a) (\<lambda>n.
        let sp1 = sp - of_nat (n + 1); sp2 = sp1 - sp1 mod 16 in
        if sp2 < stackbase then kret None
        else kbind (kget (\<lambda>s. load_bytes (mem s) a (n + 1))) (\<lambda>bs.
          kbind (copyout pt sp2 bs) (\<lambda>r.
          if r < 0 then kret None else exec_push pt stackbase as sp2 (ustack @ [sp2])))))"

text \<open>The part of \<^verbatim>\<open>exec\<close> behind the label \<^verbatim>\<open>bad\<close>.\<close>

definition exec_bad :: "u64 \<Rightarrow> u64 \<Rightarrow> nat option \<Rightarrow> ('a file_state_scheme, int) kern" where
  "exec_bad pt psz ipo =
     kdo (kwhen (pt \<noteq> 0) (proc_freepagetable pt psz))
     (kdo (case ipo of None \<Rightarrow> kret () | Some ip \<Rightarrow> kdo (iunlockput ip) end_op)
     (kret (- 1)))"

definition last_elem :: "u8 list \<Rightarrow> u8 list" where
  "last_elem path = rev (takeWhile (\<lambda>c. c \<noteq> SLASH) (rev path))"

text \<open>\<^verbatim>\<open>exec\<close> from the allocation of the stack on.\<close>

definition exec_stack :: "u8 list \<Rightarrow> u64 list \<Rightarrow> u64 \<Rightarrow> u64 \<Rightarrow> u64 \<Rightarrow> ('a file_state_scheme, int) kern" where
  "exec_stack path argv entry pt psz =
     with_myproc (\<lambda>p.
     kbind (get_proc p sz) (\<lambda>oldsz.
     let psz = PGROUNDUP psz in
     kbind (uvmalloc pt psz (psz + (USERSTACK + 1) * PGSIZE) PTE_W) (\<lambda>sz1.
     if sz1 = 0 then exec_bad pt psz None
     else kdo (uvmclear pt (sz1 - (USERSTACK + 1) * PGSIZE))
      (let stackbase = sz1 - USERSTACK * PGSIZE in
       kbind (exec_push pt stackbase argv sz1 []) (\<lambda>pushed.
       case pushed of None \<Rightarrow> exec_bad pt sz1 None
       | Some (sp, ustack) \<Rightarrow>
         (let argc = length ustack; sp1 = sp - of_nat ((argc + 1) * 8); sp2 = sp1 - sp1 mod 16 in
          if sp2 < stackbase then exec_bad pt sz1 None
          else kbind (copyout pt sp2 (concat (map (le_bytes 8) (ustack @ [0])))) (\<lambda>r.
            if r < 0 then exec_bad pt sz1 None
            else kbind (get_proc p trapframe) (\<lambda>tf.
              kdo (set_mem (\<lambda>m. store64 m (tf + TF_a1) sp2))
              (kdo (upd_proc p (\<lambda>q. q\<lparr>pname := safestrcpy (pname q) (fmt_at (last_elem path)) 16\<rparr>))
              (kbind (get_proc p pagetable) (\<lambda>oldpagetable.
              kdo (upd_proc p (\<lambda>q. q\<lparr>pagetable := pt, sz := sz1\<rparr>))
              (kdo (set_mem (\<lambda>m. store64 m (tf + TF_epc) entry))
              (kdo (set_mem (\<lambda>m. store64 m (tf + TF_sp) sp2))
              (kdo (proc_freepagetable oldpagetable oldsz)
              (kret (int argc))))))))))))))))"

definition exec :: "u8 list \<Rightarrow> u64 list \<Rightarrow> ('a file_state_scheme, int) kern" where
  "exec path argv =
     with_myproc (\<lambda>p.
     kdo begin_op
     (kbind (namei path) (\<lambda>ipo.
     case ipo of None \<Rightarrow> kdo end_op (kret (- 1))
     | Some ip \<Rightarrow>
       kdo (ilock ip)
       (kbind (readi ip ObjDst 0 (of_nat sizeof_elfhdr)) (\<lambda>(r, bs).
       let elf = read_elfhdr bs in
       if r \<noteq> int sizeof_elfhdr then exec_bad 0 0 (Some ip)
       else if elf_magic elf \<noteq> ELF_MAGIC then exec_bad 0 0 (Some ip)
       else kbind (proc_pagetable p) (\<lambda>pt.
         if pt = 0 then exec_bad 0 0 (Some ip)
         else kbind (exec_segments ip pt (ucast (elf_phoff elf)) (unat (elf_phnum elf)) 0) (\<lambda>(ok, psz).
           if \<not> ok then exec_bad pt psz (Some ip)
           else kdo (iunlockput ip)
            (kdo end_op
            (exec_stack path argv (elf_entry elf) pt psz)))))))))"

end
