(* ===== verification/Proc_Life.thy ===== *)
theory Proc_Life
  imports Exec
begin

section \<open>kernel/proc.c: the life of a process\<close>

text \<open>\<^verbatim>\<open>userinit\<close>, \<^verbatim>\<open>fork\<close> and \<^verbatim>\<open>exit\<close>, which use the file system.\<close>

definition initcode :: "u8 list" where
  "initcode =
    [0x17, 0x05, 0x00, 0x00, 0x13, 0x05, 0x45, 0x02,
     0x97, 0x05, 0x00, 0x00, 0x93, 0x85, 0x35, 0x02,
     0x93, 0x08, 0x70, 0x00, 0x73, 0x00, 0x00, 0x00,
     0x93, 0x08, 0x20, 0x00, 0x73, 0x00, 0x00, 0x00,
     0xef, 0xf0, 0x9f, 0xff, 0x2f, 0x69, 0x6e, 0x69,
     0x74, 0x00, 0x00, 0x24, 0x00, 0x00, 0x00, 0x00,
     0x00, 0x00, 0x00, 0x00]"

definition proc_chan :: "nat option \<Rightarrow> chan" where
  "proc_chan q = (case q of None \<Rightarrow> NoChan | Some i \<Rightarrow> ChanProc i)"

definition userinit :: "('a file_state_scheme, unit) kern" where
  "userinit =
     kbind allocproc (\<lambda>po.
     kdo (kmodify (\<lambda>s. s\<lparr>initproc := po\<rparr>))
     (case po of None \<Rightarrow> kfault ''null process''
      | Some p \<Rightarrow>
        kbind (get_proc p pagetable) (\<lambda>pt.
        kdo (uvmfirst pt initcode)
        (kdo (upd_proc p (\<lambda>q. q\<lparr>sz := PGSIZE\<rparr>))
        (kbind (get_proc p trapframe) (\<lambda>tf.
        kdo (set_mem (\<lambda>m. store64 m (tf + TF_epc) 0))
        (kdo (set_mem (\<lambda>m. store64 m (tf + TF_sp) PGSIZE))
        (kdo (upd_proc p (\<lambda>q. q\<lparr>pname := safestrcpy (pname q) (fmt_at (bytes ''initcode'')) 16\<rparr>))
        (kbind (namei (bytes ''/'')) (\<lambda>ip.
        kdo (upd_proc p (\<lambda>q. q\<lparr>cwd := ip\<rparr>))
        (kdo (upd_proc p (\<lambda>q. q\<lparr>pstate := RUNNABLE\<rparr>))
        (krelease (ProcLock p)))))))))))))"

text \<open>The loop of \<^verbatim>\<open>fork\<close> over the descriptors of the parent.\<close>

definition fork_files :: "nat \<Rightarrow> nat \<Rightarrow> ('a file_state_scheme, unit) kern" where
  "fork_files p np =
     kfor [0..<NOFILE] (\<lambda>i.
       kbind (get_proc p (\<lambda>q. ofile q ! i)) (\<lambda>fo.
       case fo of None \<Rightarrow> kret ()
       | Some f \<Rightarrow> kbind (filedup f) (\<lambda>f'. upd_proc np (\<lambda>q. q\<lparr>ofile := (ofile q)[i := Some f']\<rparr>))))"

definition fork :: "('a file_state_scheme, int) kern" where
  "fork =
     with_myproc (\<lambda>p.
     kbind allocproc (\<lambda>npo.
     case npo of None \<Rightarrow> kret (- 1)
     | Some np \<Rightarrow>
       kbind (get_proc p id) (\<lambda>pp.
       kbind (get_proc np pagetable) (\<lambda>npt.
       kbind (uvmcopy (pagetable pp) npt (sz pp)) (\<lambda>r.
       if r < 0 then kdo (freeproc np) (kdo (krelease (ProcLock np)) (kret (- 1)))
       else kdo (upd_proc np (\<lambda>q. q\<lparr>sz := sz pp\<rparr>))
        (kbind (get_proc np trapframe) (\<lambda>ntf.
        kdo (set_mem (\<lambda>m. store_bytes m ntf (load_bytes m (trapframe pp) sizeof_trapframe)))
        (kdo (set_mem (\<lambda>m. store64 m (ntf + TF_a0) 0))
        (kdo (fork_files p np)
        (kbind (get_proc p cwd) (\<lambda>c.
        case c of None \<Rightarrow> kfault ''null cwd''
        | Some ip \<Rightarrow>
        kbind (idup ip) (\<lambda>ip.
        kdo (upd_proc np (\<lambda>q. q\<lparr>cwd := Some ip\<rparr>))
        (kdo (upd_proc np (\<lambda>q. q\<lparr>pname := safestrcpy (pname q) (fmt_at (pname pp)) 16\<rparr>))
        (kbind (get_proc np pid) (\<lambda>n.
        kdo (krelease (ProcLock np))
        (kdo (kacquire WaitLock)
        (kdo (upd_proc np (\<lambda>q. q\<lparr>parent := Some p\<rparr>))
        (kdo (krelease WaitLock)
        (kdo (kacquire (ProcLock np))
        (kdo (upd_proc np (\<lambda>q. q\<lparr>pstate := RUNNABLE\<rparr>))
        (kdo (krelease (ProcLock np))
        (kret n))))))))))))))))))))))"

definition exit :: "int \<Rightarrow> ('a file_state_scheme, 'b) kern" where
  "exit status =
     with_myproc (\<lambda>p.
     kbind (kget initproc) (\<lambda>ini.
     if ini = Some p then kpanic ''init exiting''
     else kdo (kfor [0..<NOFILE] (\<lambda>fd.
        kbind (get_proc p (\<lambda>q. ofile q ! fd)) (\<lambda>fo.
        case fo of None \<Rightarrow> kret ()
        | Some f \<Rightarrow> kdo (fileclose f) (upd_proc p (\<lambda>q. q\<lparr>ofile := (ofile q)[fd := None]\<rparr>)))))
      (kdo begin_op
      (kbind (get_proc p cwd) (\<lambda>c.
      case c of None \<Rightarrow> kfault ''null cwd''
      | Some ip \<Rightarrow>
      kdo (iput ip)
      (kdo end_op
      (kdo (upd_proc p (\<lambda>q. q\<lparr>cwd := None\<rparr>))
      (kdo (kacquire WaitLock)
      (kdo (reparent p)
      (kbind (get_proc p parent) (\<lambda>par.
      kdo (wakeup (proc_chan par))
      (kdo (kacquire (ProcLock p))
      (kdo (upd_proc p (\<lambda>q. q\<lparr>xstate := status, pstate := ZOMBIE\<rparr>))
      (kdo (krelease WaitLock)
      sched))))))))))))))"

end
