(* ===== verification/Sysfile.thy ===== *)
theory Sysfile
  imports Proc_Life
begin

section \<open>kernel/syscall.c, kernel/sysfile.c, kernel/sysproc.c: system calls\<close>

text \<open>
  Fetching arguments, the system calls and their dispatch. The registers of the calling process are in
  its trapframe page. A system call returns the 64-bit value that goes into register \<^verbatim>\<open>a0\<close>.
\<close>

subsection \<open>Arguments\<close>

definition fetchaddr :: "u64 \<Rightarrow> ('a proc_state_scheme, int \<times> u64) kern" where
  "fetchaddr addr =
     with_myproc (\<lambda>p.
     kbind (get_proc p id) (\<lambda>q.
     if addr \<ge> sz q \<or> addr + 8 > sz q then kret (- 1, 0)
     else kbind (copyin (pagetable q) addr 8) (\<lambda>(r, bs).
       if r \<noteq> 0 then kret (- 1, 0) else kret (0, le_word bs))))"

text \<open>\<^verbatim>\<open>fetchstr\<close> returns its result and the bytes it has written to \<^verbatim>\<open>buf\<close>.\<close>

definition fetchstr :: "u64 \<Rightarrow> u64 \<Rightarrow> ('a proc_state_scheme, int \<times> u8 list) kern" where
  "fetchstr addr mx =
     with_myproc (\<lambda>p.
     kbind (get_proc p pagetable) (\<lambda>pt.
     kbind (copyinstr pt addr mx) (\<lambda>(r, bs).
     if r < 0 then kret (- 1, bs)
     else case strlen (fmt_at bs) of
       None \<Rightarrow> khang ''strlen''
     | Some n \<Rightarrow> kret (int n, bs))))"

definition argraw :: "nat \<Rightarrow> ('a proc_state_scheme, u64) kern" where
  "argraw n =
     with_myproc (\<lambda>p.
     kbind (get_proc p trapframe) (\<lambda>tf.
     if n < 6 then kget (\<lambda>s. load64 (mem s) (tf + TF_a0 + of_nat (8 * n)))
     else kpanic ''argraw''))"

definition argint :: "nat \<Rightarrow> ('a proc_state_scheme, int) kern" where
  "argint n = kbind (argraw n) (\<lambda>v. kret (sint (ucast v :: u32)))"

definition argaddr :: "nat \<Rightarrow> ('a proc_state_scheme, u64) kern" where
  "argaddr n = argraw n"

definition argstr :: "nat \<Rightarrow> u64 \<Rightarrow> ('a proc_state_scheme, int \<times> u8 list) kern" where
  "argstr n mx = kbind (argaddr n) (\<lambda>addr. fetchstr addr mx)"

text \<open>A path argument in an array of \<^verbatim>\<open>MAXPATH\<close> bytes: the string, or nothing.\<close>

definition argpath :: "nat \<Rightarrow> ('a proc_state_scheme, u8 list option) kern" where
  "argpath n =
     kbind (argstr n (of_nat MAXPATH)) (\<lambda>(r, bs).
     kret (if r < 0 then None else Some (takeWhile (\<lambda>c. c \<noteq> 0) bs)))"

definition retval :: "int \<Rightarrow> u64" where
  "retval r = word_of_int r"

subsection \<open>Descriptors\<close>

definition argfd :: "nat \<Rightarrow> ('a proc_state_scheme, (nat \<times> nat) option) kern" where
  "argfd n =
     kbind (argint n) (\<lambda>fd.
     if fd < 0 \<or> fd \<ge> int NOFILE then kret None
     else with_myproc (\<lambda>p.
       kbind (get_proc p (\<lambda>q. ofile q ! nat fd)) (\<lambda>fo.
       kret (map_option (Pair (nat fd)) fo))))"

definition fdalloc :: "nat \<Rightarrow> ('a proc_state_scheme, nat option) kern" where
  "fdalloc f =
     with_myproc (\<lambda>p.
     kbind (get_proc p (\<lambda>q. find (\<lambda>fd. ofile q ! fd = None) [0..<NOFILE])) (\<lambda>fdo.
     kdo (case fdo of None \<Rightarrow> kret ()
          | Some fd \<Rightarrow> upd_proc p (\<lambda>q. q\<lparr>ofile := (ofile q)[fd := Some f]\<rparr>))
     (kret fdo)))"

definition sys_dup :: "('a file_state_scheme, u64) kern" where
  "sys_dup =
     kbind (argfd 0) (\<lambda>a. case a of None \<Rightarrow> kret (retval (- 1))
     | Some (_, f) \<Rightarrow>
       kbind (fdalloc f) (\<lambda>fdo. case fdo of None \<Rightarrow> kret (retval (- 1))
       | Some fd \<Rightarrow> kdo (filedup f) (kret (of_nat fd))))"

definition sys_read :: "('a file_state_scheme, u64) kern" where
  "sys_read =
     kbind (argaddr 1) (\<lambda>p.
     kbind (argint 2) (\<lambda>n.
     kbind (argfd 0) (\<lambda>a. case a of None \<Rightarrow> kret (retval (- 1))
     | Some (_, f) \<Rightarrow> kbind (fileread f p n) (\<lambda>r. kret (retval r)))))"

definition sys_write :: "('a file_state_scheme, u64) kern" where
  "sys_write =
     kbind (argaddr 1) (\<lambda>p.
     kbind (argint 2) (\<lambda>n.
     kbind (argfd 0) (\<lambda>a. case a of None \<Rightarrow> kret (retval (- 1))
     | Some (_, f) \<Rightarrow> kbind (filewrite f p n) (\<lambda>r. kret (retval r)))))"

definition sys_close :: "('a file_state_scheme, u64) kern" where
  "sys_close =
     kbind (argfd 0) (\<lambda>a. case a of None \<Rightarrow> kret (retval (- 1))
     | Some (fd, f) \<Rightarrow>
       with_myproc (\<lambda>p.
       kdo (upd_proc p (\<lambda>q. q\<lparr>ofile := (ofile q)[fd := None]\<rparr>))
       (kdo (fileclose f)
       (kret 0))))"

definition sys_fstat :: "('a file_state_scheme, u64) kern" where
  "sys_fstat =
     kbind (argaddr 1) (\<lambda>st.
     kbind (argfd 0) (\<lambda>a. case a of None \<Rightarrow> kret (retval (- 1))
     | Some (_, f) \<Rightarrow> kbind (filestat f st) (\<lambda>r. kret (retval r))))"

subsection \<open>Links\<close>

definition sys_link :: "('a file_state_scheme, u64) kern" where
  "sys_link =
     kbind (argpath 0) (\<lambda>oldo. case oldo of None \<Rightarrow> kret (retval (- 1))
     | Some old \<Rightarrow>
     kbind (argpath 1) (\<lambda>newo. case newo of None \<Rightarrow> kret (retval (- 1))
     | Some new \<Rightarrow>
     kdo begin_op
     (kbind (namei old) (\<lambda>ipo. case ipo of None \<Rightarrow> kdo end_op (kret (retval (- 1)))
     | Some ip \<Rightarrow>
     kdo (ilock ip)
     (kbind (get_inode ip i_type) (\<lambda>ty.
     if ty = T_DIR then kdo (iunlockput ip) (kdo end_op (kret (retval (- 1))))
     else kdo (upd_inode ip (\<lambda>x. x\<lparr>i_nlink := i_nlink x + 1\<rparr>))
      (kdo (iupdate ip)
      (kdo (iunlock ip)
      (let bad =
         kdo (ilock ip)
         (kdo (upd_inode ip (\<lambda>x. x\<lparr>i_nlink := i_nlink x - 1\<rparr>))
         (kdo (iupdate ip)
         (kdo (iunlockput ip)
         (kdo end_op
         (kret (retval (- 1))))))) in
       kbind (nameiparent new) (\<lambda>dpo. case dpo of None \<Rightarrow> bad
       | Some (dp, name) \<Rightarrow>
       kdo (ilock dp)
       (kbind (get_inode dp i_dev) (\<lambda>ddev.
       kbind (get_inode ip id) (\<lambda>x.
       kbind (if ddev \<noteq> i_dev x then kret (- 1) else dirlink dp (fmt_at name) (i_inum x)) (\<lambda>r.
       if r < 0 then kdo (iunlockput dp) bad
       else kdo (iunlockput dp)
        (kdo (iput ip)
        (kdo end_op
        (kret 0)))))))))))))))))"

text \<open>The scan of \<^verbatim>\<open>isdirempty\<close> skips the two entries every directory has.\<close>

fun isdirempty_from :: "nat \<Rightarrow> u32 list \<Rightarrow> ('a fs_state_scheme, bool) kern" where
  "isdirempty_from dp [] = kret True"
| "isdirempty_from dp (off # offs) =
     kbind (read_entry ''isdirempty: readi'' dp off) (\<lambda>de.
     if de_inum de \<noteq> 0 then kret False else isdirempty_from dp offs)"

definition isdirempty :: "nat \<Rightarrow> ('a fs_state_scheme, bool) kern" where
  "isdirempty dp = kbind (get_inode dp i_size) (\<lambda>n. isdirempty_from dp (drop 2 (dirent_offs n)))"

definition sys_unlink :: "('a file_state_scheme, u64) kern" where
  "sys_unlink =
     kbind (argpath 0) (\<lambda>patho. case patho of None \<Rightarrow> kret (retval (- 1))
     | Some path \<Rightarrow>
     kdo begin_op
     (kbind (nameiparent path) (\<lambda>dpo. case dpo of None \<Rightarrow> kdo end_op (kret (retval (- 1)))
     | Some (dp, name) \<Rightarrow>
     kdo (ilock dp)
     (let bad = kdo (iunlockput dp) (kdo end_op (kret (retval (- 1)))) in
      if namecmp (fmt_at name) (fmt_at (bytes ''.'')) = 0
         \<or> namecmp (fmt_at name) (fmt_at (bytes ''..'')) = 0 then bad
      else kbind (dirlookup dp (fmt_at name)) (\<lambda>ipo. case ipo of None \<Rightarrow> bad
      | Some (ip, off) \<Rightarrow>
      kdo (ilock ip)
      (kbind (get_inode ip id) (\<lambda>x.
      if sint (i_nlink x) < 1 then kpanic ''unlink: nlink < 1''
      else kbind (if i_type x = T_DIR then isdirempty ip else kret True) (\<lambda>e.
      if \<not> e then kdo (iunlockput ip) bad
      else kbind (writei dp (ObjSrc (replicate sizeof_dirent 0)) off (of_nat sizeof_dirent)) (\<lambda>r.
      if r \<noteq> int sizeof_dirent then kpanic ''unlink: writei''
      else kdo (kwhen (i_type x = T_DIR)
          (kdo (upd_inode dp (\<lambda>y. y\<lparr>i_nlink := i_nlink y - 1\<rparr>)) (iupdate dp)))
       (kdo (iunlockput dp)
       (kdo (upd_inode ip (\<lambda>y. y\<lparr>i_nlink := i_nlink y - 1\<rparr>))
       (kdo (iupdate ip)
       (kdo (iunlockput ip)
       (kdo end_op
       (kret 0)))))))))))))))"

subsection \<open>Creating and opening\<close>

text \<open>\<^verbatim>\<open>create\<close> returns the inode locked.\<close>

definition create :: "u8 list \<Rightarrow> u16 \<Rightarrow> u16 \<Rightarrow> u16 \<Rightarrow> ('a fs_state_scheme, nat option) kern" where
  "create path ty major minor =
     kbind (nameiparent path) (\<lambda>dpo. case dpo of None \<Rightarrow> kret None
     | Some (dp, name) \<Rightarrow>
     kdo (ilock dp)
     (kbind (dirlookup dp (fmt_at name)) (\<lambda>found. case found of
       Some (ip, _) \<Rightarrow>
         kdo (iunlockput dp)
         (kdo (ilock ip)
         (kbind (get_inode ip i_type) (\<lambda>t.
         if ty = T_FILE \<and> (t = T_FILE \<or> t = T_DEVICE) then kret (Some ip)
         else kdo (iunlockput ip) (kret None))))
     | None \<Rightarrow>
     kbind (get_inode dp i_dev) (\<lambda>ddev.
     kbind (ialloc ddev ty) (\<lambda>ipo. case ipo of None \<Rightarrow> kdo (iunlockput dp) (kret None)
     | Some ip \<Rightarrow>
     kdo (ilock ip)
     (kdo (upd_inode ip (\<lambda>x. x\<lparr>i_major := major, i_minor := minor, i_nlink := 1\<rparr>))
     (kdo (iupdate ip)
     (kbind (get_inode ip i_inum) (\<lambda>inum.
     kbind (get_inode dp i_inum) (\<lambda>dinum.
     kbind (if ty \<noteq> T_DIR then kret 0
            else kbind (dirlink ip (fmt_at (bytes ''.'')) inum) (\<lambda>r.
              if r < 0 then kret r else dirlink ip (fmt_at (bytes ''..'')) dinum)) (\<lambda>r.
     kbind (if r < 0 then kret r else dirlink dp (fmt_at name) inum) (\<lambda>r.
     if r < 0 then
       kdo (upd_inode ip (\<lambda>x. x\<lparr>i_nlink := 0\<rparr>))
       (kdo (iupdate ip)
       (kdo (iunlockput ip)
       (kdo (iunlockput dp)
       (kret None))))
     else
       kdo (kwhen (ty = T_DIR)
         (kdo (upd_inode dp (\<lambda>x. x\<lparr>i_nlink := i_nlink x + 1\<rparr>)) (iupdate dp)))
       (kdo (iunlockput dp)
       (kret (Some ip)))))))))))))))"

definition O_RDONLY :: u32 where [layout_defs]: "O_RDONLY = 0x000"
definition O_WRONLY :: u32 where [layout_defs]: "O_WRONLY = 0x001"
definition O_RDWR :: u32 where [layout_defs]: "O_RDWR = 0x002"
definition O_CREATE :: u32 where [layout_defs]: "O_CREATE = 0x200"
definition O_TRUNC :: u32 where [layout_defs]: "O_TRUNC = 0x400"

text \<open>\<^verbatim>\<open>sys_open\<close> up to the locked inode it will open.\<close>

definition open_inode :: "u8 list \<Rightarrow> u32 \<Rightarrow> ('a fs_state_scheme, nat option) kern" where
  "open_inode path omode =
     (if omode AND O_CREATE \<noteq> 0 then create path T_FILE 0 0
      else kbind (namei path) (\<lambda>ipo. case ipo of None \<Rightarrow> kret None
       | Some ip \<Rightarrow>
         kdo (ilock ip)
         (kbind (get_inode ip i_type) (\<lambda>t.
         if t = T_DIR \<and> omode \<noteq> O_RDONLY then kdo (iunlockput ip) (kret None)
         else kret (Some ip)))))"

definition sys_open :: "('a file_state_scheme, u64) kern" where
  "sys_open =
     kbind (argint 1) (\<lambda>om.
     kbind (argpath 0) (\<lambda>patho. case patho of None \<Rightarrow> kret (retval (- 1))
     | Some path \<Rightarrow>
     let omode = word_of_int om in
     kdo begin_op
     (kbind (open_inode path omode) (\<lambda>ipo. case ipo of None \<Rightarrow> kdo end_op (kret (retval (- 1)))
     | Some ip \<Rightarrow>
     kbind (get_inode ip id) (\<lambda>x.
     let bad = kdo (iunlockput ip) (kdo end_op (kret (retval (- 1)))) in
     if i_type x = T_DEVICE \<and> (sint (i_major x) < 0 \<or> sint (i_major x) \<ge> int NDEV) then bad
     else kbind filealloc (\<lambda>fo. case fo of None \<Rightarrow> bad
     | Some f \<Rightarrow>
     kbind (fdalloc f) (\<lambda>fdo. case fdo of None \<Rightarrow> kdo (fileclose f) bad
     | Some fd \<Rightarrow>
     kdo (if i_type x = T_DEVICE
          then upd_file f (\<lambda>y. y\<lparr>f_type := FD_DEVICE, f_major := i_major x\<rparr>)
          else upd_file f (\<lambda>y. y\<lparr>f_type := FD_INODE, f_off := 0\<rparr>))
     (kdo (upd_file f (\<lambda>y. y\<lparr>f_ip := ip, f_readable := (omode AND O_WRONLY = 0),
        f_writable := (omode AND O_WRONLY \<noteq> 0 \<or> omode AND O_RDWR \<noteq> 0)\<rparr>))
     (kdo (kwhen (omode AND O_TRUNC \<noteq> 0 \<and> i_type x = T_FILE) (itrunc ip))
     (kdo (iunlock ip)
     (kdo end_op
     (kret (of_nat fd)))))))))))))"

definition sys_mkdir :: "('a file_state_scheme, u64) kern" where
  "sys_mkdir =
     kdo begin_op
     (kbind (argpath 0) (\<lambda>patho.
     kbind (case patho of None \<Rightarrow> kret None | Some path \<Rightarrow> create path T_DIR 0 0) (\<lambda>ipo.
     case ipo of None \<Rightarrow> kdo end_op (kret (retval (- 1)))
     | Some ip \<Rightarrow> kdo (iunlockput ip) (kdo end_op (kret 0)))))"

definition sys_mknod :: "('a file_state_scheme, u64) kern" where
  "sys_mknod =
     kdo begin_op
     (kbind (argint 1) (\<lambda>major.
     kbind (argint 2) (\<lambda>minor.
     kbind (argpath 0) (\<lambda>patho.
     kbind (case patho of None \<Rightarrow> kret None
            | Some path \<Rightarrow> create path T_DEVICE (word_of_int major) (word_of_int minor)) (\<lambda>ipo.
     case ipo of None \<Rightarrow> kdo end_op (kret (retval (- 1)))
     | Some ip \<Rightarrow> kdo (iunlockput ip) (kdo end_op (kret 0)))))))"

definition sys_chdir :: "('a file_state_scheme, u64) kern" where
  "sys_chdir =
     with_myproc (\<lambda>p.
     kdo begin_op
     (kbind (argpath 0) (\<lambda>patho.
     kbind (case patho of None \<Rightarrow> kret None | Some path \<Rightarrow> namei path) (\<lambda>ipo.
     case ipo of None \<Rightarrow> kdo end_op (kret (retval (- 1)))
     | Some ip \<Rightarrow>
       kdo (ilock ip)
       (kbind (get_inode ip i_type) (\<lambda>t.
       if t \<noteq> T_DIR then kdo (iunlockput ip) (kdo end_op (kret (retval (- 1))))
       else kdo (iunlock ip)
        (kbind (get_proc p cwd) (\<lambda>c.
        case c of None \<Rightarrow> kfault ''null cwd''
        | Some old \<Rightarrow>
          kdo (iput old)
          (kdo end_op
          (kdo (upd_proc p (\<lambda>q. q\<lparr>cwd := Some ip\<rparr>))
          (kret 0)))))))))))"

text \<open>The loop of \<^verbatim>\<open>sys_exec\<close> that fetches the arguments into fresh pages: whether it reached the
  terminating null pointer, and the pages in use. The second argument counts the slots of
  \<^verbatim>\<open>argv\<close> that are left.\<close>

fun sys_exec_args :: "u64 \<Rightarrow> nat \<Rightarrow> u64 list \<Rightarrow> ('a file_state_scheme, bool \<times> u64 list) kern" where
  "sys_exec_args uargv 0 argv = kret (False, argv)"
| "sys_exec_args uargv (Suc n) argv =
     kbind (fetchaddr (uargv + of_nat (8 * length argv))) (\<lambda>(r, uarg).
     if r < 0 then kret (False, argv)
     else if uarg = 0 then kret (True, argv)
     else kbind kalloc (\<lambda>pg.
       if pg = 0 then kret (False, argv)
       else kbind (fetchstr uarg PGSIZE) (\<lambda>(r, bs).
         kdo (set_mem (\<lambda>m. store_bytes m pg bs))
         (if r < 0 then kret (False, argv @ [pg])
          else sys_exec_args uargv n (argv @ [pg])))))"

definition sys_exec :: "('a file_state_scheme, u64) kern" where
  "sys_exec =
     kbind (argaddr 1) (\<lambda>uargv.
     kbind (argpath 0) (\<lambda>patho. case patho of None \<Rightarrow> kret (retval (- 1))
     | Some path \<Rightarrow>
     kbind (sys_exec_args uargv MAXARG []) (\<lambda>(ok, argv).
     kbind (if ok then exec path argv else kret (- 1)) (\<lambda>ret.
     kdo (kfor argv kfree)
     (kret (retval ret))))))"

definition sys_pipe :: "('a file_state_scheme, u64) kern" where
  "sys_pipe =
     with_myproc (\<lambda>p.
     kbind (argaddr 0) (\<lambda>fdarray.
     kbind pipealloc (\<lambda>fo. case fo of None \<Rightarrow> kret (retval (- 1))
     | Some (rfile, wfile) \<Rightarrow>
     let clear = (\<lambda>fd. upd_proc p (\<lambda>q. q\<lparr>ofile := (ofile q)[fd := None]\<rparr>));
         bad = kdo (fileclose rfile) (kdo (fileclose wfile) (kret (retval (- 1)))) in
     kbind (fdalloc rfile) (\<lambda>fd0o. case fd0o of None \<Rightarrow> bad
     | Some fd0 \<Rightarrow>
     kbind (fdalloc wfile) (\<lambda>fd1o. case fd1o of None \<Rightarrow> kdo (clear fd0) bad
     | Some fd1 \<Rightarrow>
     kbind (get_proc p pagetable) (\<lambda>pt.
     kbind (copyout pt fdarray (le_bytes 4 (of_nat fd0 :: u32))) (\<lambda>r.
     kbind (if r < 0 then kret r else copyout pt (fdarray + 4) (le_bytes 4 (of_nat fd1 :: u32))) (\<lambda>r.
     if r < 0 then kdo (clear fd0) (kdo (clear fd1) bad)
     else kret 0))))))))"

subsection \<open>Process system calls\<close>

definition sys_exit :: "('a file_state_scheme, u64) kern" where
  "sys_exit = kbind (argint 0) (\<lambda>n. exit n)"

definition sys_getpid :: "('a proc_state_scheme, u64) kern" where
  "sys_getpid = with_myproc (\<lambda>p. kbind (get_proc p pid) (\<lambda>n. kret (retval n)))"

definition sys_fork :: "('a file_state_scheme, u64) kern" where
  "sys_fork = kbind fork (\<lambda>r. kret (retval r))"

definition sys_wait :: "('a proc_state_scheme, u64) kern" where
  "sys_wait = kbind (argaddr 0) (\<lambda>p. kbind (wait p) (\<lambda>r. kret (retval r)))"

definition sys_sbrk :: "('a proc_state_scheme, u64) kern" where
  "sys_sbrk =
     kbind (argint 0) (\<lambda>n.
     with_myproc (\<lambda>p.
     kbind (get_proc p sz) (\<lambda>addr.
     kbind (growproc n) (\<lambda>r.
     if r < 0 then kret (retval (- 1)) else kret addr))))"

text \<open>The loop of \<^verbatim>\<open>sys_sleep\<close>, with \<^verbatim>\<open>tickslock\<close> held.\<close>

definition sys_sleep_loop :: "u32 \<Rightarrow> u32 \<Rightarrow> ('a proc_state_scheme, u64) kern" where
  "sys_sleep_loop ticks0 n =
     kbind (kget ticks) (\<lambda>t.
     if t - ticks0 < n then
       with_myproc (\<lambda>p.
       kbind (killed p) (\<lambda>k.
       if k \<noteq> 0 then kdo (krelease TicksLock) (kret (retval (- 1)))
       else sleep ChanTicks TicksLock))
     else kdo (krelease TicksLock) (kret 0))"

definition sys_sleep :: "('a proc_state_scheme, u64) kern" where
  "sys_sleep =
     kbind (argint 0) (\<lambda>n.
     kdo (kacquire TicksLock)
     (kbind (kget ticks) (\<lambda>ticks0.
     sys_sleep_loop ticks0 (word_of_int (max 0 n)))))"

definition sys_kill :: "('a proc_state_scheme, u64) kern" where
  "sys_kill = kbind (argint 0) (\<lambda>n. kbind (kill n) (\<lambda>r. kret (retval r)))"

definition sys_uptime :: "('a proc_state_scheme, u64) kern" where
  "sys_uptime =
     kdo (kacquire TicksLock)
     (kbind (kget ticks) (\<lambda>x.
     kdo (krelease TicksLock)
     (kret (ucast x))))"

subsection \<open>Dispatch\<close>

definition syscalls :: "(('a file_state_scheme, u64) kern) list" where
  "syscalls = [sys_fork, sys_exit, sys_wait, sys_pipe, sys_read, sys_kill, sys_exec, sys_fstat,
     sys_chdir, sys_dup, sys_getpid, sys_sbrk, sys_sleep, sys_uptime, sys_open, sys_write, sys_mknod,
     sys_unlink, sys_link, sys_mkdir, sys_close]"

definition syscall :: "('a file_state_scheme, unit) kern" where
  "syscall =
     with_myproc (\<lambda>p.
     kbind (get_proc p trapframe) (\<lambda>tf.
     kbind (kget (\<lambda>s. sint (ucast (load64 (mem s) (tf + TF_a7)) :: u32))) (\<lambda>num.
     kbind (if 0 < num \<and> num \<le> int (length (syscalls :: (('a file_state_scheme, u64) kern) list))
            then syscalls ! nat (num - 1)
            else kbind (get_proc p id) (\<lambda>q.
              kdo (printf (bytes ''%d %s: unknown sys call %d'' @ [10])
                [VInt (word_of_int (pid q)), VStr (Some (takeWhile (\<lambda>c. c \<noteq> 0) (pname q))),
                 VInt (word_of_int num)])
              (kret (retval (- 1))))) (\<lambda>r.
     kbind (get_proc p trapframe) (\<lambda>tf.
     set_mem (\<lambda>m. store64 m (tf + TF_a0) r))))))"

end
