(* ===== verification/Riscv.thy ===== *)
theory Riscv
  imports Spinlock
begin

section \<open>kernel/riscv.h: control registers\<close>

text \<open>The accessors of the control registers of the hart that runs, beyond \<^verbatim>\<open>sstatus\<close>, which is in
  theory \<open>Machine\<close>.\<close>

definition MSTATUS_MPP_MASK :: u64 where [layout_defs]: "MSTATUS_MPP_MASK = push_bit 11 3"
definition MSTATUS_MPP_S :: u64 where [layout_defs]: "MSTATUS_MPP_S = push_bit 11 1"
definition SIE_SEIE :: u64 where [layout_defs]: "SIE_SEIE = push_bit 9 1"
definition SIE_STIE :: u64 where [layout_defs]: "SIE_STIE = push_bit 5 1"
definition SIE_SSIE :: u64 where [layout_defs]: "SIE_SSIE = push_bit 1 1"
definition MIE_STIE :: u64 where [layout_defs]: "MIE_STIE = push_bit 5 1"

definition r_mhartid :: "machine \<Rightarrow> u64" where "r_mhartid s = c_mhartid (mycsr s)"
definition r_mstatus :: "machine \<Rightarrow> u64" where "r_mstatus s = c_mstatus (mycsr s)"
definition w_mstatus :: "u64 \<Rightarrow> machine \<Rightarrow> machine" where "w_mstatus x = upd_csr (c_mstatus_update (\<lambda>_. x))"
definition w_mepc :: "u64 \<Rightarrow> machine \<Rightarrow> machine" where "w_mepc x = upd_csr (c_mepc_update (\<lambda>_. x))"
definition r_sie :: "machine \<Rightarrow> u64" where "r_sie s = c_sie (mycsr s)"
definition w_sie :: "u64 \<Rightarrow> machine \<Rightarrow> machine" where "w_sie x = upd_csr (c_sie_update (\<lambda>_. x))"
definition r_mie :: "machine \<Rightarrow> u64" where "r_mie s = c_mie (mycsr s)"
definition w_mie :: "u64 \<Rightarrow> machine \<Rightarrow> machine" where "w_mie x = upd_csr (c_mie_update (\<lambda>_. x))"
definition r_sepc :: "machine \<Rightarrow> u64" where "r_sepc s = c_sepc (mycsr s)"
definition w_sepc :: "u64 \<Rightarrow> machine \<Rightarrow> machine" where "w_sepc x = upd_csr (c_sepc_update (\<lambda>_. x))"
definition w_medeleg :: "u64 \<Rightarrow> machine \<Rightarrow> machine" where "w_medeleg x = upd_csr (c_medeleg_update (\<lambda>_. x))"
definition w_mideleg :: "u64 \<Rightarrow> machine \<Rightarrow> machine" where "w_mideleg x = upd_csr (c_mideleg_update (\<lambda>_. x))"
definition w_stvec :: "u64 \<Rightarrow> machine \<Rightarrow> machine" where "w_stvec x = upd_csr (c_stvec_update (\<lambda>_. x))"
definition r_stvec :: "machine \<Rightarrow> u64" where "r_stvec s = c_stvec (mycsr s)"
definition w_stimecmp :: "u64 \<Rightarrow> machine \<Rightarrow> machine" where "w_stimecmp x = upd_csr (c_stimecmp_update (\<lambda>_. x))"
definition r_menvcfg :: "machine \<Rightarrow> u64" where "r_menvcfg s = c_menvcfg (mycsr s)"
definition w_menvcfg :: "u64 \<Rightarrow> machine \<Rightarrow> machine" where "w_menvcfg x = upd_csr (c_menvcfg_update (\<lambda>_. x))"
definition w_pmpcfg0 :: "u64 \<Rightarrow> machine \<Rightarrow> machine" where "w_pmpcfg0 x = upd_csr (c_pmpcfg0_update (\<lambda>_. x))"
definition w_pmpaddr0 :: "u64 \<Rightarrow> machine \<Rightarrow> machine" where "w_pmpaddr0 x = upd_csr (c_pmpaddr0_update (\<lambda>_. x))"
definition w_satp :: "u64 \<Rightarrow> machine \<Rightarrow> machine" where "w_satp x = upd_csr (c_satp_update (\<lambda>_. x))"
definition r_satp :: "machine \<Rightarrow> u64" where "r_satp s = c_satp (mycsr s)"
definition r_scause :: "machine \<Rightarrow> u64" where "r_scause s = c_scause (mycsr s)"
definition r_stval :: "machine \<Rightarrow> u64" where "r_stval s = c_stval (mycsr s)"
definition r_mcounteren :: "machine \<Rightarrow> u64" where "r_mcounteren s = c_mcounteren (mycsr s)"
definition w_mcounteren :: "u64 \<Rightarrow> machine \<Rightarrow> machine" where "w_mcounteren x = upd_csr (c_mcounteren_update (\<lambda>_. x))"
definition r_time :: "machine \<Rightarrow> u64" where "r_time s = c_time (mycsr s)"
definition r_tp :: "machine \<Rightarrow> u64" where "r_tp s = of_nat (tp s)"
definition w_tp :: "u64 \<Rightarrow> machine \<Rightarrow> machine" where "w_tp x s = s\<lparr>tp := unat x\<rparr>"

text \<open>A register write as kernel code.\<close>

definition hw_do :: "(machine \<Rightarrow> machine) \<Rightarrow> ('a kbase_scheme, unit) kern" where
  "hw_do f = kmodify (\<lambda>s. s\<lparr>hw := f (hw s)\<rparr>)"

abbreviation hw_get :: "(machine \<Rightarrow> 'b) \<Rightarrow> ('a kbase_scheme, 'b) kern" where
  "hw_get f \<equiv> kget (\<lambda>s. f (hw s))"

section \<open>kernel/start.c\<close>

text \<open>The code that runs in machine mode. \<^verbatim>\<open>start\<close> runs on the hart it configures, so the hart whose
  registers it accesses is the one \<^verbatim>\<open>w_tp\<close> then records.\<close>

definition timerinit :: "machine \<Rightarrow> machine" where
  "timerinit s =
     (let s = w_mie (r_mie s OR MIE_STIE) s;
          s = w_menvcfg (r_menvcfg s OR push_bit 63 1) s;
          s = w_mcounteren (r_mcounteren s OR 2) s
      in w_stimecmp (r_time s + 1000000) s)"

definition start :: "machine \<Rightarrow> machine" where
  "start s =
     (let s = w_mstatus ((r_mstatus s AND NOT MSTATUS_MPP_MASK) OR MSTATUS_MPP_S) s;
          s = w_mepc (sym_main (syms s)) s;
          s = w_satp 0 s;
          s = w_medeleg 0xffff s;
          s = w_mideleg 0xffff s;
          s = w_sie (r_sie s OR SIE_SEIE OR SIE_STIE OR SIE_SSIE) s;
          s = w_pmpaddr0 0x3fffffffffffff s;
          s = w_pmpcfg0 0xf s;
          s = timerinit s
      in w_tp (r_mhartid s) s)"

end
