(* ===== verification/Trap.thy ===== *)
theory Trap
  imports Sysfile Riscv
begin

section \<open>kernel/trap.c, kernel/plic.c, kernel/main.c\<close>

text \<open>
  Traps from user and kernel mode, the interrupt controller, and the boot sequence. The PLIC is not
  part of the sources: \<open>plic_irqs\<close> lists what the next claims return (0, nothing pending, from then
  on) and \<open>plic_log\<close> records the register writes. The code of the trampoline that
  \<^verbatim>\<open>usertrapret\<close> jumps to is in theory \<open>Asm\<close>; here the jump is the value returned, its address
  and argument.
\<close>

record trap_state = file_state +
  plic_irqs :: "nat list"
  plic_log :: "(u64 \<times> u32) list"
  started :: bool
  forkret_first :: bool

subsection \<open>The interrupt controller\<close>

definition PLIC_SENABLE :: "nat \<Rightarrow> u64" where
  "PLIC_SENABLE hart = PLIC + 0x2080 + of_nat hart * 0x100"

definition PLIC_SPRIORITY :: "nat \<Rightarrow> u64" where
  "PLIC_SPRIORITY hart = PLIC + 0x201000 + of_nat hart * 0x2000"

definition PLIC_SCLAIM :: "nat \<Rightarrow> u64" where
  "PLIC_SCLAIM hart = PLIC + 0x201004 + of_nat hart * 0x2000"

definition plic_write :: "u64 \<Rightarrow> u32 \<Rightarrow> ('a trap_state_scheme, unit) kern" where
  "plic_write r v = kmodify (\<lambda>s. s\<lparr>plic_log := plic_log s @ [(r, v)]\<rparr>)"

definition plicinit :: "('a trap_state_scheme, unit) kern" where
  "plicinit =
     kdo (plic_write (PLIC + of_nat (UART0_IRQ * 4)) 1)
     (plic_write (PLIC + of_nat (VIRTIO0_IRQ * 4)) 1)"

definition plicinithart :: "('a trap_state_scheme, unit) kern" where
  "plicinithart =
     kbind (hw_get cpuid) (\<lambda>hart.
     kdo (plic_write (PLIC_SENABLE hart) (push_bit UART0_IRQ 1 OR push_bit VIRTIO0_IRQ 1))
     (plic_write (PLIC_SPRIORITY hart) 0))"

definition plic_claim :: "('a trap_state_scheme, nat) kern" where
  "plic_claim =
     kbind (kget plic_irqs) (\<lambda>l.
     case l of [] \<Rightarrow> kret 0 | i # is \<Rightarrow> kdo (kmodify (\<lambda>s. s\<lparr>plic_irqs := is\<rparr>)) (kret i))"

definition plic_complete :: "nat \<Rightarrow> ('a trap_state_scheme, unit) kern" where
  "plic_complete irq = kbind (hw_get cpuid) (\<lambda>hart. plic_write (PLIC_SCLAIM hart) (of_nat irq))"

subsection \<open>Interrupts\<close>

definition trapinit :: "('a trap_state_scheme, unit) kern" where
  "trapinit = kinitlock TicksLock ''time''"

definition trapinithart :: "('a trap_state_scheme, unit) kern" where
  "trapinithart = hw_do (\<lambda>h. w_stvec (sym_kernelvec (syms h)) h)"

definition clockintr :: "('a trap_state_scheme, unit) kern" where
  "clockintr =
     kbind (hw_get cpuid) (\<lambda>hart.
     kdo (kwhen (hart = 0)
       (kdo (kacquire TicksLock)
       (kdo (kmodify (\<lambda>s. s\<lparr>ticks := ticks s + 1\<rparr>))
       (kdo (wakeup ChanTicks)
       (krelease TicksLock)))))
     (hw_do (\<lambda>h. w_stimecmp (r_time h + 1000000) h)))"

definition devintr :: "('a trap_state_scheme, nat) kern" where
  "devintr =
     kbind (hw_get r_scause) (\<lambda>scause.
     if scause = 0x8000000000000009 then
       kbind plic_claim (\<lambda>irq.
       kdo (if irq = UART0_IRQ then uartintr
            else if irq = VIRTIO0_IRQ then virtio_disk_intr
            else kwhen (irq \<noteq> 0)
              (kdo (printf (bytes ''unexpected interrupt irq=%d'' @ [10]) [VInt (of_nat irq)]) (kret ())))
       (kdo (kwhen (irq \<noteq> 0) (plic_complete irq))
       (kret 1)))
     else if scause = 0x8000000000000005 then kdo clockintr (kret 2)
     else kret 0)"

subsection \<open>Traps\<close>

definition set_tf :: "nat \<Rightarrow> u64 \<Rightarrow> u64 \<Rightarrow> ('a proc_state_scheme, unit) kern" where
  "set_tf p off v = kbind (get_proc p trapframe) (\<lambda>tf. set_mem (\<lambda>m. store64 m (tf + off) v))"

definition get_tf :: "nat \<Rightarrow> u64 \<Rightarrow> ('a proc_state_scheme, u64) kern" where
  "get_tf p off = kbind (get_proc p trapframe) (\<lambda>tf. kget (\<lambda>s. load64 (mem s) (tf + off)))"

definition usertrapret :: "('a trap_state_scheme, u64 \<times> u64) kern" where
  "usertrapret =
     with_myproc (\<lambda>p.
     kdo (hw_do intr_off)
     (kdo (hw_do (\<lambda>h. w_stvec (TRAMPOLINE + (sym_uservec (syms h) - sym_trampoline (syms h))) h))
     (kbind (hw_get id) (\<lambda>h.
     kdo (set_tf p TF_kernel_satp (r_satp h))
     (kbind (get_proc p kstack) (\<lambda>ks.
     kdo (set_tf p TF_kernel_sp (ks + PGSIZE))
     (kdo (set_tf p TF_kernel_trap (sym_usertrap (syms h)))
     (kdo (set_tf p TF_kernel_hartid (r_tp h))
     (kdo (hw_do (\<lambda>h. w_sstatus ((r_sstatus h AND NOT SSTATUS_SPP) OR SSTATUS_SPIE) h))
     (kbind (get_tf p TF_epc) (\<lambda>epc.
     kdo (hw_do (w_sepc epc))
     (kbind (get_proc p pagetable) (\<lambda>pt.
     kret (TRAMPOLINE + (sym_userret (syms h) - sym_trampoline (syms h)), MAKE_SATP pt))))))))))))))"

definition usertrap :: "('a trap_state_scheme, u64 \<times> u64) kern" where
  "usertrap =
     kbind (hw_get r_sstatus) (\<lambda>st.
     if st AND SSTATUS_SPP \<noteq> 0 then kpanic ''usertrap: not from user mode''
     else kdo (hw_do (\<lambda>h. w_stvec (sym_kernelvec (syms h)) h))
      (with_myproc (\<lambda>p.
      kbind (hw_get id) (\<lambda>h.
      kdo (set_tf p TF_epc (r_sepc h))
      (kbind
        (if r_scause h = 8 then
           kbind (killed p) (\<lambda>k.
           if k \<noteq> 0 then exit (- 1)
           else kbind (get_tf p TF_epc) (\<lambda>epc.
             kdo (set_tf p TF_epc (epc + 4))
             (kdo (hw_do intr_on)
             (kdo syscall
             (kret 0)))))
         else kbind devintr (\<lambda>which_dev.
           if which_dev \<noteq> 0 then kret which_dev
           else kbind (get_proc p pid) (\<lambda>n.
             kbind (hw_get id) (\<lambda>h.
             kdo (printf (bytes ''usertrap(): unexpected scause 0x%lx pid=%d'' @ [10])
               [VLong (r_scause h), VInt (word_of_int n)])
             (kdo (printf (bytes ''            sepc=0x%lx stval=0x%lx'' @ [10])
               [VLong (r_sepc h), VLong (r_stval h)])
             (kdo (setkilled p)
             (kret 0)))))))
        (\<lambda>which_dev.
        kbind (killed p) (\<lambda>k.
        if k \<noteq> 0 then exit (- 1)
        else kdo (kwhen (which_dev = 2) yield)
         usertrapret)))))))"

definition kerneltrap :: "('a trap_state_scheme, unit) kern" where
  "kerneltrap =
     kbind (hw_get id) (\<lambda>h0.
     if r_sstatus h0 AND SSTATUS_SPP = 0 then kpanic ''kerneltrap: not from supervisor mode''
     else if intr_get h0 then kpanic ''kerneltrap: interrupts enabled''
     else kbind devintr (\<lambda>which_dev.
       if which_dev = 0 then
         kbind (hw_get id) (\<lambda>h.
         kdo (printf (bytes ''scause=0x%lx sepc=0x%lx stval=0x%lx'' @ [10])
           [VLong (r_scause h0), VLong (r_sepc h), VLong (r_stval h)])
         (kpanic ''kerneltrap''))
       else kbind (if which_dev = 2 then myproc else kret None) (\<lambda>me.
         kdo (kwhen (which_dev = 2 \<and> me \<noteq> None) yield)
         (kdo (hw_do (w_sepc (r_sepc h0)))
         (hw_do (w_sstatus (r_sstatus h0)))))))"

text \<open>Where a thread that \<^verbatim>\<open>kerneltrap\<close> or \<^verbatim>\<open>usertrap\<close> made yield goes on.\<close>

definition kerneltrap_resume :: "bool \<Rightarrow> u64 \<Rightarrow> u64 \<Rightarrow> ('a trap_state_scheme, unit) kern" where
  "kerneltrap_resume ie sepc sstatus =
     kdo (yield_resume ie)
     (kdo (hw_do (w_sepc sepc))
     (hw_do (w_sstatus sstatus)))"

definition usertrap_resume :: "bool \<Rightarrow> ('a trap_state_scheme, u64 \<times> u64) kern" where
  "usertrap_resume ie = kdo (yield_resume ie) usertrapret"

text \<open>\<^verbatim>\<open>forkret\<close> of \<^verbatim>\<open>kernel/proc.c\<close>.\<close>

definition forkret :: "('a trap_state_scheme, u64 \<times> u64) kern" where
  "forkret =
     with_myproc (\<lambda>p.
     kdo (krelease (ProcLock p))
     (kbind (kget forkret_first) (\<lambda>first.
     kdo (kwhen first
       (kdo (fsinit (uint ROOTDEV)) (kmodify (\<lambda>s. s\<lparr>forkret_first := False\<rparr>))))
     usertrapret)))"

subsection \<open>Boot\<close>

text \<open>\<^verbatim>\<open>main\<close> on hart 0 and on the other harts, up to the call of \<^verbatim>\<open>scheduler\<close>, whose first
  statement clears the process of the CPU.\<close>

definition print :: "string \<Rightarrow> ('a dev_state_scheme, unit) kern" where
  "print msg = kdo (printf (bytes msg @ [10]) []) (kret ())"

definition main :: "('a trap_state_scheme, nat option) kern" where
  "main =
     kbind (hw_get cpuid) (\<lambda>hart.
     kdo (if hart = 0 then
        kdo consoleinit
        (kdo printfinit
        (kdo (print '''')
        (kdo (print ''xv6 kernel is booting'')
        (kdo (print '''')
        (kdo kinit
        (kdo kvminit
        (kdo kvminithart
        (kdo procinit
        (kdo trapinit
        (kdo trapinithart
        (kdo plicinit
        (kdo plicinithart
        (kdo binit
        (kdo iinit
        (kdo fileinit
        (kdo virtio_disk_init
        (kdo userinit
        (kmodify (\<lambda>s. s\<lparr>started := True\<rparr>)))))))))))))))))))
      else
        kbind (kget started) (\<lambda>go.
        if \<not> go then khang ''main: not started''
        else kdo (printf (bytes ''hart %d starting'' @ [10]) [VInt (of_nat hart)])
         (kdo kvminithart
         (kdo trapinithart
         plicinithart))))
     (kdo (hw_do (upd_mycpu (\<lambda>c. c\<lparr>cpu_proc := None\<rparr>)))
     scheduler_pass))"

end
