(* ===== verification/Asm.thy ===== *)
theory Asm
  imports Riscv
begin

section \<open>Assembly: trampoline.S, swtch.S, kernelvec.S, entry.S\<close>

text \<open>
  The assembly routines are straight-line code between jumps. Each is a list of instructions in the
  order of the source, run by \<open>arun\<close> on a register file, a memory and the two control registers they
  use. Memory is what the code sees at its (virtual) addresses. A routine ends at its jump, which is
  not part of the list: \<^verbatim>\<open>jr t0\<close>, \<^verbatim>\<open>sret\<close>, \<^verbatim>\<open>ret\<close>, or \<^verbatim>\<open>call\<close>.
\<close>

datatype reg =
    RA | SP | GP | TP | T0 | T1 | T2 | S0 | S1 | A0 | A1 | A2 | A3 | A4 | A5 | A6 | A7
  | S2 | S3 | S4 | S5 | S6 | S7 | S8 | S9 | S10 | S11 | T3 | T4 | T5 | T6

datatype instr =
    Sd reg u64 reg        \<comment> \<open>\<^verbatim>\<open>sd r, off(base)\<close>\<close>
  | Ld reg u64 reg        \<comment> \<open>\<^verbatim>\<open>ld r, off(base)\<close>\<close>
  | Li reg u64
  | Addi reg reg u64
  | Mul reg reg reg
  | Add reg reg reg
  | CsrwSscratch reg
  | CsrrSscratch reg
  | CsrwSatp reg
  | CsrrMhartid reg
  | SfenceVma

record asm =
  regs :: "reg \<Rightarrow> u64"
  amem :: memory
  sscratch :: u64
  asatp :: u64
  amhartid :: u64

fun astep :: "instr \<Rightarrow> asm \<Rightarrow> asm" where
  "astep (Sd r off b) s = s\<lparr>amem := store64 (amem s) (regs s b + off) (regs s r)\<rparr>"
| "astep (Ld r off b) s = s\<lparr>regs := (regs s)(r := load64 (amem s) (regs s b + off))\<rparr>"
| "astep (Li r v) s = s\<lparr>regs := (regs s)(r := v)\<rparr>"
| "astep (Addi r b v) s = s\<lparr>regs := (regs s)(r := regs s b + v)\<rparr>"
| "astep (Mul r a b) s = s\<lparr>regs := (regs s)(r := regs s a * regs s b)\<rparr>"
| "astep (Add r a b) s = s\<lparr>regs := (regs s)(r := regs s a + regs s b)\<rparr>"
| "astep (CsrwSscratch r) s = s\<lparr>sscratch := regs s r\<rparr>"
| "astep (CsrrSscratch r) s = s\<lparr>regs := (regs s)(r := sscratch s)\<rparr>"
| "astep (CsrwSatp r) s = s\<lparr>asatp := regs s r\<rparr>"
| "astep (CsrrMhartid r) s = s\<lparr>regs := (regs s)(r := amhartid s)\<rparr>"
| "astep SfenceVma s = s"

definition arun :: "instr list \<Rightarrow> asm \<Rightarrow> asm" where
  "arun is s = fold astep is s"

subsection \<open>The routines\<close>

definition uservec :: "instr list" where
  "uservec =
    [CsrwSscratch A0, Li A0 TRAPFRAME,
     Sd RA 40 A0, Sd SP 48 A0, Sd GP 56 A0, Sd TP 64 A0, Sd T0 72 A0, Sd T1 80 A0, Sd T2 88 A0,
     Sd S0 96 A0, Sd S1 104 A0, Sd A1 120 A0, Sd A2 128 A0, Sd A3 136 A0, Sd A4 144 A0,
     Sd A5 152 A0, Sd A6 160 A0, Sd A7 168 A0, Sd S2 176 A0, Sd S3 184 A0, Sd S4 192 A0,
     Sd S5 200 A0, Sd S6 208 A0, Sd S7 216 A0, Sd S8 224 A0, Sd S9 232 A0, Sd S10 240 A0,
     Sd S11 248 A0, Sd T3 256 A0, Sd T4 264 A0, Sd T5 272 A0, Sd T6 280 A0,
     CsrrSscratch T0, Sd T0 112 A0,
     Ld SP 8 A0, Ld TP 32 A0, Ld T0 16 A0, Ld T1 0 A0,
     SfenceVma, CsrwSatp T1, SfenceVma]"

definition userret :: "instr list" where
  "userret =
    [SfenceVma, CsrwSatp A0, SfenceVma, Li A0 TRAPFRAME,
     Ld RA 40 A0, Ld SP 48 A0, Ld GP 56 A0, Ld TP 64 A0, Ld T0 72 A0, Ld T1 80 A0, Ld T2 88 A0,
     Ld S0 96 A0, Ld S1 104 A0, Ld A1 120 A0, Ld A2 128 A0, Ld A3 136 A0, Ld A4 144 A0,
     Ld A5 152 A0, Ld A6 160 A0, Ld A7 168 A0, Ld S2 176 A0, Ld S3 184 A0, Ld S4 192 A0,
     Ld S5 200 A0, Ld S6 208 A0, Ld S7 216 A0, Ld S8 224 A0, Ld S9 232 A0, Ld S10 240 A0,
     Ld S11 248 A0, Ld T3 256 A0, Ld T4 264 A0, Ld T5 272 A0, Ld T6 280 A0,
     Ld A0 112 A0]"

definition swtch :: "instr list" where
  "swtch =
    [Sd RA 0 A0, Sd SP 8 A0, Sd S0 16 A0, Sd S1 24 A0, Sd S2 32 A0, Sd S3 40 A0, Sd S4 48 A0,
     Sd S5 56 A0, Sd S6 64 A0, Sd S7 72 A0, Sd S8 80 A0, Sd S9 88 A0, Sd S10 96 A0, Sd S11 104 A0,
     Ld RA 0 A1, Ld SP 8 A1, Ld S0 16 A1, Ld S1 24 A1, Ld S2 32 A1, Ld S3 40 A1, Ld S4 48 A1,
     Ld S5 56 A1, Ld S6 64 A1, Ld S7 72 A1, Ld S8 80 A1, Ld S9 88 A1, Ld S10 96 A1, Ld S11 104 A1]"

text \<open>\<^verbatim>\<open>kernelvec\<close> before and after its call of \<^verbatim>\<open>kerneltrap\<close>.\<close>

definition kernelvec_save :: "instr list" where
  "kernelvec_save =
    [Addi SP SP (- 256),
     Sd RA 0 SP, Sd SP 8 SP, Sd GP 16 SP, Sd TP 24 SP, Sd T0 32 SP, Sd T1 40 SP, Sd T2 48 SP,
     Sd A0 72 SP, Sd A1 80 SP, Sd A2 88 SP, Sd A3 96 SP, Sd A4 104 SP, Sd A5 112 SP, Sd A6 120 SP,
     Sd A7 128 SP, Sd T3 216 SP, Sd T4 224 SP, Sd T5 232 SP, Sd T6 240 SP]"

definition kernelvec_restore :: "instr list" where
  "kernelvec_restore =
    [Ld RA 0 SP, Ld SP 8 SP, Ld GP 16 SP, Ld T0 32 SP, Ld T1 40 SP, Ld T2 48 SP,
     Ld A0 72 SP, Ld A1 80 SP, Ld A2 88 SP, Ld A3 96 SP, Ld A4 104 SP, Ld A5 112 SP, Ld A6 120 SP,
     Ld A7 128 SP, Ld T3 216 SP, Ld T4 224 SP, Ld T5 232 SP, Ld T6 240 SP, Addi SP SP 256]"

text \<open>\<^verbatim>\<open>_entry\<close>; the address of \<^verbatim>\<open>stack0\<close> is given by the linker.\<close>

definition entry :: "u64 \<Rightarrow> instr list" where
  "entry stack0 =
    [Li SP stack0, Li A0 (1024 * 4), CsrrMhartid A1, Addi A1 A1 1, Mul A0 A0 A1, Add SP SP A0]"

subsection \<open>Runs of stores and loads\<close>

text \<open>A run of stores (or loads) through one base register, as a list of registers and offsets.\<close>

definition saves :: "reg \<Rightarrow> (reg \<times> u64) list \<Rightarrow> instr list" where
  "saves b xs = map (\<lambda>(r, k). Sd r k b) xs"

definition loads :: "reg \<Rightarrow> (reg \<times> u64) list \<Rightarrow> instr list" where
  "loads b xs = map (\<lambda>(r, k). Ld r k b) xs"

definition store_all :: "(reg \<Rightarrow> u64) \<Rightarrow> u64 \<Rightarrow> (reg \<times> u64) list \<Rightarrow> memory \<Rightarrow> memory" where
  "store_all g a xs m = fold (\<lambda>(r, k) m. store64 m (a + k) (g r)) xs m"

text \<open>Two 8-byte slots at small offsets that do not overlap.\<close>

definition apart :: "u64 \<Rightarrow> u64 \<Rightarrow> bool" where
  "apart i j \<longleftrightarrow> unat i < 4096 \<and> unat j < 4096 \<and> (unat i + 8 \<le> unat j \<or> unat j + 8 \<le> unat i)"

lemma apart_sym: "apart i j \<Longrightarrow> apart j i"
  by (auto simp: apart_def)

lemma unat_small_add:
  fixes k d :: u64
  assumes "unat k < 4096" and "unat d < 8"
  shows "unat (k + d) = unat k + unat d"
  using assms by (simp add: unat_word_ariths)

lemma separate_apart:
  assumes "apart i j"
  shows "separate (a + i) 8 (a + j) 8"
  unfolding separate_def
proof (intro allI notI)
  fix x
  assume x: "unat (x - (a + i)) < 8 \<and> unat (x - (a + j)) < 8"
  define d e where "d = x - (a + i)" and "e = x - (a + j)"
  have "i + d = j + e" by (simp add: d_def e_def)
  moreover have "unat (i + d) = unat i + unat d" "unat (j + e) = unat j + unat e"
    using x assms unat_small_add [of i d] unat_small_add [of j e]
    unfolding d_def e_def apart_def by blast+
  ultimately have "unat i + unat d = unat j + unat e" by simp
  with x assms show False by (auto simp: d_def e_def apart_def)
qed

lemma arun_append: "arun (xs @ ys) s = arun ys (arun xs s)"
  by (simp add: arun_def)

lemma arun_Cons: "arun (i # is) s = arun is (astep i s)"
  by (simp add: arun_def)

lemma arun_Nil [simp]: "arun [] s = s"
  by (simp add: arun_def)

lemma arun_saves:
  "arun (saves b xs) s = s\<lparr>amem := store_all (regs s) (regs s b) xs (amem s)\<rparr>"
proof (induction xs arbitrary: s)
  case Nil
  show ?case by (simp add: saves_def store_all_def)
next
  case (Cons x xs)
  obtain r k where x: "x = (r, k)" by fastforce
  show ?case
    using Cons.IH [of "s\<lparr>amem := store64 (amem s) (regs s b + k) (regs s r)\<rparr>"]
    by (simp add: x saves_def store_all_def arun_Cons)
qed

lemma load_store_all_other:
  "(\<And>k. k \<in> snd ` set xs \<Longrightarrow> apart k j) \<Longrightarrow> load64 (store_all g a xs m) (a + j) = load64 m (a + j)"
proof (induction xs arbitrary: m)
  case Nil
  show ?case by (simp add: store_all_def)
next
  case (Cons x xs)
  obtain r k where x: "x = (r, k)" by fastforce
  have "load64 (store_all g a xs (store64 m (a + k) (g r))) (a + j)
      = load64 (store64 m (a + k) (g r)) (a + j)"
    using Cons.prems by (intro Cons.IH) auto
  also have "\<dots> = load64 m (a + j)"
    using Cons.prems by (simp add: x load64_store64_other separate_apart)
  finally show ?case by (simp add: x store_all_def)
qed

lemma load_store_all:
  assumes "sorted_wrt apart (map snd xs)" and "(r, k) \<in> set xs"
  shows "load64 (store_all g a xs m) (a + k) = g r"
  using assms
proof (induction xs arbitrary: m)
  case (Cons x xs)
  obtain r' k' where x: "x = (r', k')" by fastforce
  let ?m = "store64 m (a + k') (g r')"
  have run: "store_all g a (x # xs) m = store_all g a xs ?m" by (simp add: x store_all_def)
  show ?case
  proof (cases "(r, k) \<in> set xs")
    case True
    then show ?thesis using Cons by (simp add: run)
  next
    case False
    then have "r = r'" "k = k'" using Cons.prems x by auto
    moreover have "load64 (store_all g a xs ?m) (a + k') = load64 ?m (a + k')"
      using Cons.prems(1) by (intro load_store_all_other) (auto simp: x intro: apart_sym)
    ultimately show ?thesis by (simp add: run)
  qed
qed simp

lemma arun_loads:
  assumes "b \<notin> fst ` set xs"
  shows "arun (loads b xs) s = s\<lparr>regs := (\<lambda>r. case map_of (rev xs) r of
    None \<Rightarrow> regs s r | Some k \<Rightarrow> load64 (amem s) (regs s b + k))\<rparr>"
  using assms
proof (induction xs arbitrary: s)
  case Nil
  show ?case by (simp add: loads_def)
next
  case (Cons x xs)
  obtain r k where x: "x = (r, k)" by fastforce
  have "b \<noteq> r" "b \<notin> fst ` set xs" using Cons.prems by (auto simp: x)
  then show ?case
    using Cons.IH [of "s\<lparr>regs := (regs s)(r := load64 (amem s) (regs s b + k))\<rparr>"]
    by (simp add: x loads_def arun_Cons map_add_def)
      (auto intro!: arg_cong [where f = "\<lambda>g. regs_update (\<lambda>_. g) s"] split: option.split)
qed

lemma load64_cong:
  "(\<And>i. i < 8 \<Longrightarrow> m (a + of_nat i) = m' (a + of_nat i)) \<Longrightarrow> load64 m a = load64 m' a"
  unfolding load64_def load_bytes_def by (rule arg_cong [where f = le_word]) simp

subsection \<open>The trampoline\<close>

definition tf_regs :: "(reg \<times> u64) list" where
  "tf_regs =
    [(RA, 40), (SP, 48), (GP, 56), (TP, 64), (T0, 72), (T1, 80), (T2, 88), (S0, 96), (S1, 104),
     (A1, 120), (A2, 128), (A3, 136), (A4, 144), (A5, 152), (A6, 160), (A7, 168), (S2, 176),
     (S3, 184), (S4, 192), (S5, 200), (S6, 208), (S7, 216), (S8, 224), (S9, 232), (S10, 240),
     (S11, 248), (T3, 256), (T4, 264), (T5, 272), (T6, 280)]"

lemma uservec_parts:
  "uservec = [CsrwSscratch A0, Li A0 TRAPFRAME] @ saves A0 tf_regs @
     [CsrrSscratch T0, Sd T0 112 A0, Ld SP 8 A0, Ld TP 32 A0, Ld T0 16 A0, Ld T1 0 A0,
      SfenceVma, CsrwSatp T1, SfenceVma]"
  by (simp add: uservec_def saves_def tf_regs_def)

lemma userret_parts:
  "userret = [SfenceVma, CsrwSatp A0, SfenceVma, Li A0 TRAPFRAME] @ loads A0 tf_regs @ [Ld A0 112 A0]"
  by (simp add: userret_def loads_def tf_regs_def)

lemma tf_regs_slots:
  "sorted_wrt apart (map snd tf_regs)" "A0 \<notin> fst ` set tf_regs" "distinct (map fst tf_regs)"
  "k \<in> snd ` set tf_regs \<Longrightarrow> j \<in> {0, 8, 16, 32, 112} \<Longrightarrow> apart k j"
  by (simp_all add: tf_regs_def apart_def) auto

lemma tf_regs_all: "r = A0 \<or> (\<exists>k. (r, k) \<in> set tf_regs)"
  by (cases r) (simp_all add: tf_regs_def)

definition uservec_mem :: "asm \<Rightarrow> memory" where
  "uservec_mem s = store64 (store_all ((regs s)(A0 := TRAPFRAME)) TRAPFRAME tf_regs (amem s))
     (TRAPFRAME + 112) (regs s A0)"

lemma uservec_run:
  "amem (arun uservec s) = uservec_mem s"
  "regs (arun uservec s) SP = load64 (amem s) (TRAPFRAME + 8)"
  "regs (arun uservec s) TP = load64 (amem s) (TRAPFRAME + 32)"
  "regs (arun uservec s) T0 = load64 (amem s) (TRAPFRAME + 16)"
  "asatp (arun uservec s) = load64 (amem s) TRAPFRAME"
proof -
  have other: "load64 (uservec_mem s) (TRAPFRAME + j) = load64 (amem s) (TRAPFRAME + j)"
    if "j \<in> {0, 8, 16, 32}" for j
  proof -
    have "apart 112 j" using that by (auto simp: apart_def)
    then have "load64 (uservec_mem s) (TRAPFRAME + j) =
        load64 (store_all ((regs s)(A0 := TRAPFRAME)) TRAPFRAME tf_regs (amem s)) (TRAPFRAME + j)"
      by (simp add: uservec_mem_def load64_store64_other separate_apart)
    also have "\<dots> = load64 (amem s) (TRAPFRAME + j)"
      using that by (intro load_store_all_other tf_regs_slots(4)) auto
    finally show ?thesis .
  qed
  note run = uservec_parts arun_append arun_Cons arun_saves
  show mem: "amem (arun uservec s) = uservec_mem s"
    by (simp add: run uservec_mem_def)
  show "regs (arun uservec s) SP = load64 (amem s) (TRAPFRAME + 8)"
    "regs (arun uservec s) TP = load64 (amem s) (TRAPFRAME + 32)"
    "regs (arun uservec s) T0 = load64 (amem s) (TRAPFRAME + 16)"
    "asatp (arun uservec s) = load64 (amem s) TRAPFRAME"
    using other [of 8] other [of 32] other [of 16] other [of 0]
    by (simp_all add: run uservec_mem_def [symmetric] fun_upd_def [symmetric])
qed

lemma map_of_rev_in:
  assumes "distinct (map fst xs)" and "(r, k) \<in> set xs"
  shows "map_of (rev xs) r = Some k"
  using assms by (intro map_of_is_SomeI) (simp_all add: rev_map [symmetric])

lemma userret_run:
  "asatp (arun userret u) = regs u A0"
  "regs (arun userret u) r =
     (if r = A0 then load64 (amem u) (TRAPFRAME + 112)
      else load64 (amem u) (TRAPFRAME + the (map_of (rev tf_regs) r)))"
proof -
  note run = userret_parts arun_append arun_Cons arun_loads [OF tf_regs_slots(2)]
  show "asatp (arun userret u) = regs u A0" by (simp add: run)
  have none: "map_of (rev tf_regs) A0 = None"
    using tf_regs_slots(2) by (simp add: map_of_eq_None_iff)
  show "regs (arun userret u) r =
     (if r = A0 then load64 (amem u) (TRAPFRAME + 112)
      else load64 (amem u) (TRAPFRAME + the (map_of (rev tf_regs) r)))"
  proof (cases "r = A0")
    case True
    then show ?thesis by (simp add: run none)
  next
    case False
    then obtain k where "(r, k) \<in> set tf_regs" using tf_regs_all [of r] by blast
    then have "map_of (rev tf_regs) r = Some k" by (intro map_of_rev_in tf_regs_slots)
    with False show ?thesis by (simp add: run none)
  qed
qed

text \<open>The part of the trapframe that holds user registers.\<close>

definition same_user_regs :: "memory \<Rightarrow> memory \<Rightarrow> bool" where
  "same_user_regs m m' \<longleftrightarrow> (\<forall>i. 40 \<le> i \<longrightarrow> i < 288 \<longrightarrow> m (TRAPFRAME + of_nat i) = m' (TRAPFRAME + of_nat i))"

lemma load64_same_user_regs:
  assumes "same_user_regs m m'" and "40 \<le> unat k" and "unat k \<le> 280"
  shows "load64 m (TRAPFRAME + k) = load64 m' (TRAPFRAME + k)"
proof (rule load64_cong)
  fix i :: nat
  assume "i < 8"
  then have "m (TRAPFRAME + of_nat (unat k + i)) = m' (TRAPFRAME + of_nat (unat k + i))"
    using assms(2,3) by (intro assms(1) [unfolded same_user_regs_def, rule_format]) simp_all
  then show "m (TRAPFRAME + k + of_nat i) = m' (TRAPFRAME + k + of_nat i)"
    by (simp add: add.assoc)
qed

text \<open>C7. Going into the kernel and back keeps every user register: \<^verbatim>\<open>uservec\<close> switches to the
  kernel stack, hart number and page table stored in the trapframe, with the address of
  \<^verbatim>\<open>usertrap\<close> in the register it jumps to; and if the kernel leaves the user part of the
  trapframe alone, \<^verbatim>\<open>userret\<close> installs the page table it is given and restores all 31 registers
  to their values at the trap.\<close>

theorem trampoline_roundtrip:
  assumes "same_user_regs (amem u) (amem (arun uservec s))"
  shows "regs (arun userret u) = regs s \<and> asatp (arun userret u) = regs u A0
    \<and> regs (arun uservec s) SP = load64 (amem s) (TRAPFRAME + 8)
    \<and> regs (arun uservec s) TP = load64 (amem s) (TRAPFRAME + 32)
    \<and> regs (arun uservec s) T0 = load64 (amem s) (TRAPFRAME + 16)
    \<and> asatp (arun uservec s) = load64 (amem s) TRAPFRAME"
proof -
  let ?st = "store_all ((regs s)(A0 := TRAPFRAME)) TRAPFRAME tf_regs (amem s)"
  have "regs (arun userret u) r = regs s r" for r
  proof (cases "r = A0")
    case True
    have "load64 (amem u) (TRAPFRAME + 112) = load64 (uservec_mem s) (TRAPFRAME + 112)"
      using assms by (intro load64_same_user_regs) (simp_all add: uservec_run)
    with True show ?thesis by (simp add: userret_run uservec_mem_def)
  next
    case False
    then obtain k where k: "(r, k) \<in> set tf_regs" using tf_regs_all [of r] by blast
    then have m: "map_of (rev tf_regs) r = Some k" by (intro map_of_rev_in tf_regs_slots)
    have "40 \<le> unat k" "unat k \<le> 280" using k by (auto simp: tf_regs_def)
    then have "load64 (amem u) (TRAPFRAME + k) = load64 (uservec_mem s) (TRAPFRAME + k)"
      using assms by (intro load64_same_user_regs) (simp_all add: uservec_run)
    also have "\<dots> = load64 ?st (TRAPFRAME + k)"
      unfolding uservec_mem_def using k
      by (intro load64_store64_other separate_apart apart_sym [OF tf_regs_slots(4)]) force+
    also have "\<dots> = ((regs s)(A0 := TRAPFRAME)) r"
      using k by (rule load_store_all [OF tf_regs_slots(1)])
    finally show ?thesis using False m by (simp add: userret_run)
  qed
  then show ?thesis by (simp add: userret_run uservec_run fun_eq_iff)
qed

definition asm_zero :: asm where
  "asm_zero = \<lparr>regs = (\<lambda>_. 0), amem = (\<lambda>_. 0), sscratch = 0, asatp = 0, amhartid = 0\<rparr>"

theorem trampoline_roundtrip_witness:
  "let s = asm_zero\<lparr>regs := (\<lambda>r. if r = A0 then 7 else if r = S11 then 9 else 1)\<rparr>;
       u = (arun uservec s)\<lparr>regs := (\<lambda>_. 5)\<rparr>
   in regs (arun userret u) S11 = 9 \<and> regs (arun userret u) A0 = 7 \<and> asatp (arun userret u) = 5"
  using trampoline_roundtrip [of
      "(arun uservec (asm_zero\<lparr>regs := (\<lambda>r. if r = A0 then 7 else if r = S11 then 9 else 1)\<rparr>))\<lparr>regs := (\<lambda>_. 5)\<rparr>"
      "asm_zero\<lparr>regs := (\<lambda>r. if r = A0 then 7 else if r = S11 then 9 else 1)\<rparr>"]
  by (simp add: same_user_regs_def Let_def)

subsection \<open>Context switch\<close>

definition ctx_regs :: "(reg \<times> u64) list" where
  "ctx_regs = [(RA, 0), (SP, 8), (S0, 16), (S1, 24), (S2, 32), (S3, 40), (S4, 48), (S5, 56),
     (S6, 64), (S7, 72), (S8, 80), (S9, 88), (S10, 96), (S11, 104)]"

lemma swtch_parts: "swtch = saves A0 ctx_regs @ loads A1 ctx_regs"
  by (simp add: swtch_def saves_def loads_def ctx_regs_def)

lemma ctx_regs_slots:
  "sorted_wrt apart (map snd ctx_regs)" "A1 \<notin> fst ` set ctx_regs" "distinct (map fst ctx_regs)"
  by (simp_all add: ctx_regs_def apart_def)

lemma load_store_all_separate:
  "(\<And>k. k \<in> snd ` set xs \<Longrightarrow> separate (a + k) 8 b 8) \<Longrightarrow> load64 (store_all g a xs m) b = load64 m b"
proof (induction xs arbitrary: m)
  case Nil
  show ?case by (simp add: store_all_def)
next
  case (Cons x xs)
  obtain r k where x: "x = (r, k)" by fastforce
  have "load64 (store_all g a xs (store64 m (a + k) (g r))) b = load64 (store64 m (a + k) (g r)) b"
    using Cons.prems by (intro Cons.IH) auto
  also have "\<dots> = load64 m b"
    using Cons.prems by (simp add: x load64_store64_other)
  finally show ?case by (simp add: x store_all_def)
qed

text \<open>Two contexts, of 14 words each, that do not overlap.\<close>

definition ctx_separate :: "u64 \<Rightarrow> u64 \<Rightarrow> bool" where
  "ctx_separate a b \<longleftrightarrow>
     (\<forall>i \<in> snd ` set ctx_regs. \<forall>j \<in> snd ` set ctx_regs. separate (a + i) 8 (b + j) 8)"

lemma swtch_run:
  assumes "ctx_separate (regs s A0) (regs s A1)" and "(r, k) \<in> set ctx_regs"
  shows "regs (arun swtch s) r = load64 (amem s) (regs s A1 + k)"
    and "load64 (amem (arun swtch s)) (regs s A0 + k) = regs s r"
proof -
  note run = swtch_parts arun_append arun_saves arun_loads [OF ctx_regs_slots(2)]
  have m: "map_of (rev ctx_regs) r = Some k"
    using assms(2) by (intro map_of_rev_in ctx_regs_slots)
  have "load64 (store_all (regs s) (regs s A0) ctx_regs (amem s)) (regs s A1 + k)
      = load64 (amem s) (regs s A1 + k)"
    using assms by (intro load_store_all_separate) (force simp: ctx_separate_def)
  then show "regs (arun swtch s) r = load64 (amem s) (regs s A1 + k)"
    by (simp add: run m)
  show "load64 (amem (arun swtch s)) (regs s A0 + k) = regs s r"
    using assms(2) by (simp add: run load_store_all [OF ctx_regs_slots(1)])
qed

text \<open>C8. A thread that calls \<^verbatim>\<open>swtch\<close> and is later switched back to, by a \<^verbatim>\<open>swtch\<close> that loads
  the context it saved, continues with its return address, its stack pointer and all callee-saved
  registers, whatever ran in between, as long as that left the saved context alone.\<close>

theorem swtch_roundtrip:
  assumes "ctx_separate (regs s A0) (regs s A1)" and "ctx_separate (regs u A0) (regs u A1)"
    and "regs u A1 = regs s A0"
    and "\<forall>k \<in> snd ` set ctx_regs.
      load64 (amem u) (regs s A0 + k) = load64 (amem (arun swtch s)) (regs s A0 + k)"
    and "r \<in> {RA, SP, S0, S1, S2, S3, S4, S5, S6, S7, S8, S9, S10, S11}"
  shows "regs (arun swtch u) r = regs s r"
proof -
  obtain k where k: "(r, k) \<in> set ctx_regs"
    using assms(5) by (auto simp: ctx_regs_def)
  have "regs (arun swtch u) r = load64 (amem u) (regs s A0 + k)"
    using swtch_run(1) [OF assms(2) k] assms(3) by simp
  also have "\<dots> = load64 (amem (arun swtch s)) (regs s A0 + k)"
    using assms(4) k by force
  also have "\<dots> = regs s r" using assms(1) k by (rule swtch_run(2))
  finally show ?thesis .
qed

lemma ctx_offsets: "k \<in> snd ` set ctx_regs \<Longrightarrow> unat k \<le> 104"
  by (auto simp: ctx_regs_def)

lemma ctx_separate_sym: "ctx_separate a b \<Longrightarrow> ctx_separate b a"
  unfolding ctx_separate_def by (blast intro: separate_sym)

lemma ctx_separate_next: "ctx_separate a (a + 112)"
  unfolding ctx_separate_def
proof (intro ballI)
  fix i j
  assume "i \<in> snd ` set ctx_regs" "j \<in> snd ` set ctx_regs"
  then have le: "unat i \<le> 104" "unat j \<le> 104" by (simp_all add: ctx_offsets)
  then have "unat (112 + j) = 112 + unat j" by (simp add: unat_word_ariths)
  with le have "apart i (112 + j)" by (simp add: apart_def)
  then show "separate (a + i) 8 (a + 112 + j) 8"
    by (simp add: separate_apart add.assoc)
qed

definition swtch_here :: asm where
  "swtch_here = asm_zero\<lparr>regs := (\<lambda>r. if r = A0 then 0x1000 else if r = A1 then 0x1070 else if r = RA then 42 else 3)\<rparr>"

definition swtch_back :: asm where
  "swtch_back = (arun swtch swtch_here)\<lparr>regs := (\<lambda>r. if r = A0 then 0x1070 else if r = A1 then 0x1000 else 0)\<rparr>"

theorem swtch_roundtrip_witness:
  "regs (arun swtch swtch_back) RA = 42 \<and> regs (arun swtch swtch_back) S11 = 3"
proof -
  have "ctx_separate 0x1000 0x1070" using ctx_separate_next [of "0x1000"] by simp
  then show ?thesis
    using swtch_roundtrip [of swtch_here swtch_back RA] swtch_roundtrip [of swtch_here swtch_back S11]
    by (simp add: swtch_here_def swtch_back_def ctx_separate_sym)
qed

subsection \<open>Kernel traps\<close>

definition kvec_regs :: "(reg \<times> u64) list" where
  "kvec_regs = [(GP, 16), (T0, 32), (T1, 40), (T2, 48), (A0, 72), (A1, 80), (A2, 88), (A3, 96),
     (A4, 104), (A5, 112), (A6, 120), (A7, 128), (T3, 216), (T4, 224), (T5, 232), (T6, 240)]"

definition kvec_saved :: "(reg \<times> u64) list" where
  "kvec_saved = [(RA, 0), (SP, 8), (GP, 16), (TP, 24)] @ tl kvec_regs"

lemma kernelvec_parts:
  "kernelvec_save = Addi SP SP (- 256) # saves SP kvec_saved"
  "kernelvec_restore = Ld RA 0 SP # Ld SP 8 SP # loads SP kvec_regs @ [Addi SP SP 256]"
  by (simp_all add: kernelvec_save_def kernelvec_restore_def saves_def loads_def kvec_saved_def kvec_regs_def)

lemma kvec_slots:
  "sorted_wrt apart (map snd kvec_saved)" "SP \<notin> fst ` set kvec_regs" "distinct (map fst kvec_regs)"
  "set kvec_regs \<subseteq> set kvec_saved" "(RA, 0) \<in> set kvec_saved" "(SP, 8) \<in> set kvec_saved"
  by (simp_all add: kvec_saved_def kvec_regs_def apart_def)

lemma kernelvec_save_run:
  "regs (arun kernelvec_save s) = (regs s)(SP := regs s SP - 256)"
  "(r, k) \<in> set kvec_saved \<Longrightarrow>
   load64 (amem (arun kernelvec_save s)) (regs s SP - 256 + k) = ((regs s)(SP := regs s SP - 256)) r"
  by (simp_all add: kernelvec_parts arun_Cons arun_saves load_store_all [OF kvec_slots(1)])

text \<open>C9. A trap taken in the kernel is invisible to the interrupted code: if \<^verbatim>\<open>kerneltrap\<close> returns
  with the stack pointer and the callee-saved registers of its caller and leaves the saved registers
  on the stack alone, every register but \<^verbatim>\<open>tp\<close> has its old value; \<^verbatim>\<open>tp\<close>, the number of the
  hart, is the one of the hart that returns.\<close>

theorem kernelvec_transparent:
  assumes "regs u SP = regs s SP - 256"
    and "\<forall>r \<in> {S0, S1, S2, S3, S4, S5, S6, S7, S8, S9, S10, S11}. regs u r = regs s r"
    and "\<forall>k \<in> snd ` set kvec_saved. load64 (amem u) (regs s SP - 256 + k)
      = load64 (amem (arun kernelvec_save s)) (regs s SP - 256 + k)"
  shows "regs (arun kernelvec_restore u) = (regs s)(TP := regs u TP)"
proof (rule ext)
  fix r
  have saved: "load64 (amem u) (regs s SP - 256 + k) = ((regs s)(SP := regs s SP - 256)) q"
    if "(q, k) \<in> set kvec_saved" for q k
    using assms(3) that kernelvec_save_run(2) [OF that, of s] by (metis image_eqI snd_conv)
  have "load64 (amem u) (regs s SP - 256) = regs s RA"
    "load64 (amem u) (regs s SP - 248) = regs s SP - 256"
    using saved [OF kvec_slots(5)] saved [OF kvec_slots(6)] by simp_all
  then have two: "astep (Ld SP 8 SP) (astep (Ld RA 0 SP) u) = u\<lparr>regs := (regs u)(RA := regs s RA)\<rparr>"
    using assms(1) by (simp add: fun_upd_idem)
  have none: "map_of (rev kvec_regs) SP = None"
    using kvec_slots(2) by (simp add: map_of_eq_None_iff)
  have run: "regs (arun kernelvec_restore u) =
      (\<lambda>r. case map_of (rev kvec_regs) r of None \<Rightarrow> ((regs u)(RA := regs s RA)) r
        | Some k \<Rightarrow> load64 (amem u) (regs s SP - 256 + k))(SP := regs s SP)"
    unfolding kernelvec_parts arun_Cons arun_append two
    by (simp add: arun_loads [OF kvec_slots(2)] arun_Cons assms(1) none cong: option.case_cong)
  show "regs (arun kernelvec_restore u) r = ((regs s)(TP := regs u TP)) r"
  proof (cases "map_of (rev kvec_regs) r")
    case None
    then have "r \<in> {RA, SP, TP, S0, S1, S2, S3, S4, S5, S6, S7, S8, S9, S10, S11}"
      by (cases r) (simp_all add: map_of_eq_None_iff kvec_regs_def)
    with None show ?thesis using assms(2) by (auto simp: run)
  next
    case (Some k)
    then have k: "(r, k) \<in> set kvec_regs" by (metis map_of_SomeD set_rev)
    then have "r \<noteq> SP" "r \<noteq> TP" using kvec_slots(2) by (force simp: kvec_regs_def)+
    with Some k kvec_slots(4) saved show ?thesis by (auto simp: run)
  qed
qed

theorem kernelvec_transparent_witness:
  "let s = asm_zero\<lparr>regs := (\<lambda>r. if r = T6 then 8 else if r = SP then 0x2000 else 1)\<rparr>;
       u = (arun kernelvec_save s)\<lparr>regs := (\<lambda>r. if r = SP then 0x1f00 else if r = TP then 2 else 1)\<rparr>
   in regs (arun kernelvec_restore u) = (regs s)(TP := 2)"
  using kernelvec_transparent [of
     "(arun kernelvec_save (asm_zero\<lparr>regs := (\<lambda>r. if r = T6 then 8 else if r = SP then 0x2000 else 1)\<rparr>))
       \<lparr>regs := (\<lambda>r. if r = SP then 0x1f00 else if r = TP then 2 else 1)\<rparr>"
     "asm_zero\<lparr>regs := (\<lambda>r. if r = T6 then 8 else if r = SP then 0x2000 else 1)\<rparr>"]
  by (simp add: Let_def)

subsection \<open>The boot stacks\<close>

lemma entry_sp: "regs (arun (entry stack0) s) SP = stack0 + 4096 * (amhartid s + 1)"
  by (simp add: entry_def arun_Cons algebra_simps)

lemma unat_entry_sp:
  assumes "unat (amhartid s) < NCPU" and "unat stack0 + 4096 * NCPU < 2 ^ 64"
  shows "unat (regs (arun (entry stack0) s) SP) = unat stack0 + 4096 * (unat (amhartid s) + 1)"
proof -
  have h: "unat (amhartid s + 1) = unat (amhartid s) + 1"
    using assms(1) by (simp add: unat_word_ariths NCPU_def)
  then have m: "unat (4096 * (amhartid s + 1)) = 4096 * (unat (amhartid s) + 1)"
    using assms(1) by (simp add: unat_word_ariths NCPU_def)
  show ?thesis
    unfolding entry_sp using assms m by (simp add: unat_word_ariths NCPU_def)
qed

text \<open>C10. \<^verbatim>\<open>_entry\<close> gives each of the \<^verbatim>\<open>NCPU\<close> harts a stack pointer at the end of its own 4096
  bytes of \<^verbatim>\<open>stack0\<close>: the stacks, which grow down, lie inside the array, and those of two harts do
  not overlap. (The comment in the source gives the pointer as the start of that area.)\<close>

theorem entry_stack:
  assumes "unat (amhartid s) < NCPU" and "unat (amhartid t) < NCPU" and "unat stack0 + 4096 * NCPU < 2 ^ 64"
  shows "unat stack0 + 4096 \<le> unat (regs (arun (entry stack0) s) SP)
    \<and> unat (regs (arun (entry stack0) s) SP) \<le> unat stack0 + 4096 * NCPU
    \<and> (amhartid s < amhartid t \<longrightarrow>
         unat (regs (arun (entry stack0) s) SP) \<le> unat (regs (arun (entry stack0) t) SP) - 4096)"
  using assms(1,2) unat_entry_sp [OF assms(1,3)] unat_entry_sp [OF assms(2,3)]
  by (simp add: word_less_nat_alt NCPU_def)

theorem entry_stack_witness:
  "unat (regs (arun (entry 0x8000A000) (asm_zero\<lparr>amhartid := 1\<rparr>)) SP)
   \<le> unat (regs (arun (entry 0x8000A000) (asm_zero\<lparr>amhartid := 2\<rparr>)) SP) - 4096"
  using entry_stack [of "asm_zero\<lparr>amhartid := 1\<rparr>" "asm_zero\<lparr>amhartid := 2\<rparr>" "0x8000A000"]
  by (simp add: NCPU_def)

end
