(* ===== verification/Calm.thy ===== *)
theory Calm
  imports Proc
begin

section \<open>A kernel thread that holds no lock\<close>

text \<open>
  The effect of locking, sleeping locks and wakeups on the state a system call runs in: the thread of
  process \<open>p\<close> is on a CPU, holds no spinlock, and no other hart holds one at the moment. In such a
  state the operations have simple closed forms, which the proofs about the layers above use.
\<close>

definition calm :: "nat \<Rightarrow> 'a proc_state_scheme \<Rightarrow> bool" where
  "calm p s \<longleftrightarrow> p < NPROC \<and> cpu_ok (hw s) \<and> noff (mycpu (hw s)) = 0 \<and> settle (hw s) = hw s
     \<and> cpu_proc (mycpu (hw s)) = Some p \<and> (\<forall>l. lock_free l (hw s))
     \<and> pstate (procs s p) = RUNNING \<and> pchan (procs s p) = NoChan"

lemma calmD:
  assumes "calm p s"
  shows "p < NPROC" "cpu_ok (hw s)" "noff (mycpu (hw s)) = 0" "settle (hw s) = hw s"
    "cpu_proc (mycpu (hw s)) = Some p" "lock_free l (hw s)"
    "pstate (procs s p) = RUNNING" "pchan (procs s p) = NoChan"
  using assms by (simp_all add: calm_def)

lemma calm_cong: "hw t = hw s \<Longrightarrow> procs t p = procs s p \<Longrightarrow> calm p t = calm p s"
  by (simp add: calm_def)

subsection \<open>The current process\<close>

lemma lift_hw_push_off [simp]: "lift_hw push_off s = Done () (s\<lparr>hw := pushed (hw s)\<rparr>)"
  by (simp add: lift_hw_def push_off_Done)

lemma lift_hw_pop_off [simp]:
  assumes "hw s = pushed h" "cpu_ok h"
  shows "lift_hw pop_off s = Done () (s\<lparr>hw := settle h\<rparr>)"
proof -
  have "\<not> intr_get (pushed h)" "1 \<le> noff (mycpu (pushed h))"
    using assms(2) by (simp_all add: pushed_def cpu_ok_def)
  then show ?thesis using assms by (simp add: lift_hw_def pop_off_Done popped_pushed)
qed

lemma myproc_Done: "cpu_ok (hw s) \<Longrightarrow> myproc s = Done (cpu_proc (mycpu (hw s))) (s\<lparr>hw := settle (hw s)\<rparr>)"
  by (simp add: myproc_def kern_run) (simp add: pushed_def)

lemma with_myproc_Done:
  assumes "cpu_ok (hw s)" and "cpu_proc (mycpu (hw s)) = Some p"
  shows "with_myproc f s = f p (s\<lparr>hw := settle (hw s)\<rparr>)"
  using assms by (simp add: with_myproc_def myproc_Done)

subsection \<open>Waking\<close>

text \<open>The process table after \<^verbatim>\<open>wakeup(c)\<close> by process \<open>me\<close>.\<close>

definition woken :: "chan \<Rightarrow> nat option \<Rightarrow> (nat \<Rightarrow> proc) \<Rightarrow> nat \<Rightarrow> proc" where
  "woken c me P = (\<lambda>i. if i < NPROC \<and> Some i \<noteq> me \<and> pstate (P i) = SLEEPING \<and> pchan (P i) = c
     then (P i)\<lparr>pstate := RUNNABLE\<rparr> else P i)"

definition woken_in :: "nat list \<Rightarrow> chan \<Rightarrow> nat option \<Rightarrow> (nat \<Rightarrow> proc) \<Rightarrow> nat \<Rightarrow> proc" where
  "woken_in is c me P = (\<lambda>i. if i \<in> set is \<and> Some i \<noteq> me \<and> pstate (P i) = SLEEPING \<and> pchan (P i) = c
     then (P i)\<lparr>pstate := RUNNABLE\<rparr> else P i)"

lemma woken_in_Cons:
  "woken_in (i # is) c me P =
   woken_in is c me (if Some i \<noteq> me \<and> pstate (P i) = SLEEPING \<and> pchan (P i) = c
     then P(i := (P i)\<lparr>pstate := RUNNABLE\<rparr>) else P)"
  by (auto simp: woken_in_def fun_eq_iff)

definition wakeup_one :: "chan \<Rightarrow> nat \<Rightarrow> ('a proc_state_scheme, unit) kern" where
  "wakeup_one c i =
     kbind myproc (\<lambda>me.
       kwhen (Some i \<noteq> me)
         (kdo (kacquire (ProcLock i))
         (kbind (get_proc i (\<lambda>p. pstate p = SLEEPING \<and> pchan p = c)) (\<lambda>waits.
         kdo (kwhen waits (upd_proc i (\<lambda>p. p\<lparr>pstate := RUNNABLE\<rparr>)))
         (krelease (ProcLock i))))))"

lemma wakeup_eq: "wakeup c = kfor [0..<NPROC] (wakeup_one c)"
  unfolding wakeup_def wakeup_one_def by simp

lemma wakeup_one_Done:
  assumes "cpu_ok (hw s)" and "Some i \<noteq> cpu_proc (mycpu (hw s)) \<Longrightarrow> lock_free (ProcLock i) (hw s)"
  shows "wakeup_one c i s = Done () (s\<lparr>hw := settle (hw s),
    procs := (if Some i \<noteq> cpu_proc (mycpu (hw s)) \<and> pstate (procs s i) = SLEEPING \<and> pchan (procs s i) = c
      then (procs s)(i := (procs s i)\<lparr>pstate := RUNNABLE\<rparr>) else procs s)\<rparr>)"
  using assms by (auto simp: wakeup_one_def myproc_Done kern_run upd_proc_def)

lemma wakeup_in_Done:
  assumes "cpu_ok (hw s)"
    and "\<And>i. i \<in> set is \<Longrightarrow> Some i \<noteq> cpu_proc (mycpu (hw s)) \<Longrightarrow> lock_free (ProcLock i) (hw s)"
  shows "\<exists>h. kfor is (wakeup_one c) s =
      Done () (s\<lparr>hw := h, procs := woken_in is c (cpu_proc (mycpu (hw s))) (procs s)\<rparr>)
    \<and> h = (if is = [] then hw s else settle (hw s))"
  using assms
proof (induction "is" arbitrary: s)
  case Nil
  show ?case by (simp add: kern_run woken_in_def)
next
  case (Cons i "is")
  let ?P = "if Some i \<noteq> cpu_proc (mycpu (hw s)) \<and> pstate (procs s i) = SLEEPING \<and> pchan (procs s i) = c
      then (procs s)(i := (procs s i)\<lparr>pstate := RUNNABLE\<rparr>) else procs s"
  let ?s = "s\<lparr>hw := settle (hw s), procs := ?P\<rparr>"
  have one: "wakeup_one c i s = Done () ?s" using Cons.prems by (intro wakeup_one_Done) auto
  obtain h where h: "kfor is (wakeup_one c) ?s =
      Done () (?s\<lparr>hw := h, procs := woken_in is c (cpu_proc (mycpu (hw ?s))) (procs ?s)\<rparr>)"
    "h = (if is = [] then hw ?s else settle (hw ?s))"
    using Cons.IH [of ?s] Cons.prems by auto
  have "h = settle (hw s)" using h(2) by (auto split: if_splits)
  with h(1) show ?case by (simp add: one woken_in_Cons)
qed

lemma wakeup_Done:
  assumes "cpu_ok (hw s)"
    and "\<And>i. i < NPROC \<Longrightarrow> Some i \<noteq> cpu_proc (mycpu (hw s)) \<Longrightarrow> lock_free (ProcLock i) (hw s)"
  shows "wakeup c s = Done () (s\<lparr>hw := settle (hw s), procs := woken c (cpu_proc (mycpu (hw s))) (procs s)\<rparr>)"
proof -
  have "woken_in [0..<NPROC] c me P = woken c me P" for me P
    by (auto simp: woken_in_def woken_def)
  moreover have "[0..<NPROC] \<noteq> []" by (simp add: NPROC_def)
  ultimately show ?thesis
    using wakeup_in_Done [of s "[0..<NPROC]" c] assms by (auto simp: wakeup_eq)
qed

lemma woken_me [simp]: "woken c (Some p) P p = P p"
  by (simp add: woken_def)

lemma calm_wakeup:
  assumes "calm p s"
  shows "wakeup c s = Done () (s\<lparr>procs := woken c (Some p) (procs s)\<rparr>)"
proof -
  note c = calmD [OF assms]
  have "wakeup c s = Done () (s\<lparr>hw := hw s, procs := woken c (Some p) (procs s)\<rparr>)"
    using wakeup_Done [of s c] c by simp
  then show ?thesis by simp
qed

text \<open>The same while the thread holds one lock.\<close>

lemma wakeup_locked:
  assumes "hw s = taken l m" and "cpu_ok m" and "cpu_proc (mycpu m) = me" and "\<And>l. lock_free l m"
    and "\<And>i. l \<noteq> ProcLock i"
  shows "wakeup c s = Done () (s\<lparr>procs := woken c me (procs s)\<rparr>)"
proof -
  have "wakeup c s = Done () (s\<lparr>hw := taken l m, procs := woken c me (procs s)\<rparr>)"
    using wakeup_Done [of s c] assms by (simp add: assms(1))
  then show ?thesis by (simp add: assms(1) [symmetric])
qed

subsection \<open>Sleep-locks\<close>

lemma calm_acquiresleep:
  assumes "calm p s" and "sl_locked (sleeplocks s l) = 0"
  shows "acquiresleep l s = Done () (s\<lparr>sleeplocks := (sleeplocks s)(l :=
    (sleeplocks s l)\<lparr>sl_locked := 1, sl_pid := pid (procs s p)\<rparr>)\<rparr>)"
proof -
  note c = calmD [OF assms(1)]
  have "acquiresleep l s = Done () (s\<lparr>hw := settle (hw s), sleeplocks := (sleeplocks s)(l :=
      (sleeplocks s l)\<lparr>sl_locked := 1, sl_pid := pid (procs s p)\<rparr>)\<rparr>)"
    using c assms(2)
    by (simp add: acquiresleep_def acquiresleep_loop_def upd_sleeplock_def kern_run with_myproc_Done)
  then show ?thesis by (simp add: c(4))
qed

lemma calm_releasesleep:
  assumes "calm p s"
  shows "releasesleep l s = Done () (s\<lparr>sleeplocks := (sleeplocks s)(l :=
    (sleeplocks s l)\<lparr>sl_locked := 0, sl_pid := 0\<rparr>), procs := woken (ChanSleep l) (Some p) (procs s)\<rparr>)"
proof -
  note c = calmD [OF assms]
  let ?t = "s\<lparr>hw := taken (SleepLk l) (hw s), sleeplocks := (sleeplocks s)(l :=
    (sleeplocks s l)\<lparr>sl_locked := 0, sl_pid := 0\<rparr>)\<rparr>"
  have "wakeup (ChanSleep l) ?t = Done () (?t\<lparr>procs := woken (ChanSleep l) (Some p) (procs ?t)\<rparr>)"
    using c by (intro wakeup_locked [where m = "hw s"]) auto
  then have "releasesleep l s = Done () (s\<lparr>hw := settle (hw s), sleeplocks := (sleeplocks s)(l :=
      (sleeplocks s l)\<lparr>sl_locked := 0, sl_pid := 0\<rparr>), procs := woken (ChanSleep l) (Some p) (procs s)\<rparr>)"
    using c by (simp add: releasesleep_def upd_sleeplock_def kern_run)
  then show ?thesis by (simp add: c(4))
qed

lemma calm_holdingsleep:
  assumes "calm p s"
  shows "holdingsleep l s =
    Done (sl_locked (sleeplocks s l) \<noteq> 0 \<and> sl_pid (sleeplocks s l) = pid (procs s p)) s"
proof -
  note c = calmD [OF assms]
  have "holdingsleep l s =
      Done (sl_locked (sleeplocks s l) \<noteq> 0 \<and> sl_pid (sleeplocks s l) = pid (procs s p)) (s\<lparr>hw := settle (hw s)\<rparr>)"
    using c by (cases "sl_locked (sleeplocks s l) = 0") (simp_all add: holdingsleep_def kern_run with_myproc_Done)
  then show ?thesis by (simp add: c(4))
qed

subsection \<open>Killing\<close>

lemma kill_scan_Done:
  assumes "cpu_ok (hw s)" and "\<And>i. i \<in> set is \<Longrightarrow> lock_free (ProcLock i) (hw s)"
  shows "\<exists>h. kill_scan n is s = (case find (\<lambda>i. pid (procs s i) = n) is of
      None \<Rightarrow> Done (- 1) (s\<lparr>hw := h\<rparr>)
    | Some i \<Rightarrow> Done 0 (s\<lparr>hw := h, procs := (procs s)(i := (procs s i)\<lparr>pkilled := 1,
        pstate := (if pstate (procs s i) = SLEEPING then RUNNABLE else pstate (procs s i))\<rparr>)\<rparr>))
    \<and> h = (if is = [] then hw s else settle (hw s))"
  using assms
proof (induction "is" arbitrary: s)
  case Nil
  show ?case by (simp add: kern_run)
next
  case (Cons i "is")
  show ?case
  proof (cases "pid (procs s i) = n")
    case True
    then show ?thesis
      using Cons.prems by (cases "pstate (procs s i) = SLEEPING") (auto simp: kern_run upd_proc_def)
  next
    case False
    let ?s = "s\<lparr>hw := settle (hw s)\<rparr>"
    have "kill_scan n (i # is) s = kill_scan n is ?s"
      using Cons.prems False by (simp add: kern_run)
    with False show ?thesis
      using Cons.IH [of ?s] Cons.prems by (auto split: option.split)
  qed
qed

subsection \<open>A concrete state\<close>

text \<open>Hart 0 runs the process in slot 0, whose number is 1; all other slots are free.\<close>

definition zero_proc :: proc where
  "zero_proc = \<lparr>pstate = UNUSED, pchan = NoChan, pkilled = 0, xstate = 0, pid = 0, parent = None,
     kstack = 0, sz = 0, pagetable = 0, trapframe = 0, pcontext = zero_context,
     ofile = replicate NOFILE None, cwd = None, pname = replicate 16 0\<rparr>"

definition thread_hw :: machine where
  "thread_hw = upd_mycpu (\<lambda>c. c\<lparr>cpu_proc := Some 0\<rparr>) zero_machine"

definition thread_procs :: "nat \<Rightarrow> proc" where
  "thread_procs = (\<lambda>i. if i = 0 then zero_proc\<lparr>pstate := RUNNING, pid := 1\<rparr> else zero_proc)"

definition one_thread :: proc_state where
  "one_thread = \<lparr>hw = thread_hw, mem = (\<lambda>_. 0), kmem_freelist = 0, kernel_pagetable = 0,
     procs = thread_procs, nextpid = 2, initproc = Some 0, ticks = 0,
     sleeplocks = (\<lambda>_. \<lparr>sl_locked = 0, sl_name = [], sl_pid = 0\<rparr>)\<rparr>"

lemma thread_hw_calm: "cpu_ok thread_hw" "noff (mycpu thread_hw) = 0" "settle thread_hw = thread_hw"
  "cpu_proc (mycpu thread_hw) = Some 0" "lock_free l thread_hw"
  by (simp_all add: thread_hw_def zero_machine_def cpu_ok_def lock_free_def settle_def upd_mycpu_def
      mycpu_def cpuid_def csr_defs zero_csrs_def)

lemma one_thread_calm: "calm 0 one_thread"
  by (simp add: calm_def one_thread_def thread_hw_calm thread_procs_def zero_proc_def NPROC_def)

end
