(* ===== verification/Printf_Correct.thy ===== *)
theory Printf_Correct
  imports Printf Calm
begin

section \<open>What printf sends\<close>

text \<open>
  The digits \<^verbatim>\<open>printint\<close> produces denote the number it is given, the bytes that reach the serial
  line, and the numbers its 16-byte buffer is too small for.
\<close>

subsection \<open>Polled output\<close>

text \<open>How often the line status will still say that the transmitter is idle.\<close>

definition idle_count :: "u8 list \<Rightarrow> nat" where
  "idle_count l = length (filter (\<lambda>x. x AND LSR_TX_IDLE \<noteq> 0) l)"

definition can_print :: "nat \<Rightarrow> 'a dev_state_scheme \<Rightarrow> bool" where
  "can_print n s \<longleftrightarrow> n \<le> idle_count (uart_lsr s) \<and> panicked s = 0 \<and> cpu_ok (hw s)"

definition line_bytes :: "(nat \<times> u8) list \<Rightarrow> u8 list" where
  "line_bytes log = map snd (filter (\<lambda>(r, _). r = THR) log)"

lemma dropWhile_idle:
  assumes "0 < idle_count l"
  obtains x xs where "dropWhile (\<lambda>x. x AND LSR_TX_IDLE = 0) l = x # xs" "idle_count xs = idle_count l - 1"
proof (cases "dropWhile (\<lambda>x. x AND LSR_TX_IDLE = 0) l")
  case Nil
  then have "idle_count l = 0" by (simp add: idle_count_def)
  with assms show ?thesis by simp
next
  case (Cons x xs)
  have "idle_count l = idle_count (dropWhile (\<lambda>x. x AND LSR_TX_IDLE = 0) l)"
    by (induction l) (auto simp: idle_count_def)
  moreover have "x AND LSR_TX_IDLE \<noteq> 0"
    using hd_dropWhile [of "\<lambda>x. x AND LSR_TX_IDLE = 0" l] Cons by simp
  ultimately have "idle_count xs = idle_count l - 1" by (simp add: Cons idle_count_def)
  with Cons show ?thesis by (rule that)
qed

definition sent :: "u8 list \<Rightarrow> 'a dev_state_scheme \<Rightarrow> 'a dev_state_scheme \<Rightarrow> bool" where
  "sent bs s t \<longleftrightarrow> (\<exists>l h. t = s\<lparr>uart_lsr := l, uart_log := uart_log s @ map (Pair THR) bs, hw := h\<rparr>
     \<and> idle_count l = idle_count (uart_lsr s) - length bs \<and> (h = hw s \<or> h = settle (hw s)))"

lemma uartputc_sync_Done:
  assumes "can_print 1 s"
  shows "\<exists>t. uartputc_sync c s = Done () t \<and> sent [c] s t"
proof -
  have "0 < idle_count (uart_lsr s)" using assms by (simp add: can_print_def)
  then obtain x xs where l: "dropWhile (\<lambda>x. x AND LSR_TX_IDLE = 0) (uart_lsr s) = x # xs"
    and n: "idle_count xs = idle_count (uart_lsr s) - 1"
    by (rule dropWhile_idle)
  have "uartputc_sync c s =
      Done () (s\<lparr>hw := settle (hw s), uart_lsr := xs, uart_log := uart_log s @ [(THR, c)]\<rparr>)"
    using assms
    by (simp add: uartputc_sync_def uart_wait_idle_def WriteReg_def kern_run l can_print_def)
  moreover have "sent [c] s (s\<lparr>hw := settle (hw s), uart_lsr := xs, uart_log := uart_log s @ [(THR, c)]\<rparr>)"
    unfolding sent_def
    by (rule exI [of _ xs], rule exI [of _ "settle (hw s)"]) (use assms n in \<open>simp add: can_print_def\<close>)
  ultimately show ?thesis by blast
qed

lemma sent_trans: "sent bs s t \<Longrightarrow> sent cs t u \<Longrightarrow> sent (bs @ cs) s u"
proof -
  assume "sent bs s t" "sent cs t u"
  then obtain l h l' h' where
    t: "t = s\<lparr>uart_lsr := l, uart_log := uart_log s @ map (Pair THR) bs, hw := h\<rparr>"
      "idle_count l = idle_count (uart_lsr s) - length bs" "h = hw s \<or> h = settle (hw s)"
    and u: "u = t\<lparr>uart_lsr := l', uart_log := uart_log t @ map (Pair THR) cs, hw := h'\<rparr>"
      "idle_count l' = idle_count (uart_lsr t) - length cs" "h' = hw t \<or> h' = settle (hw t)"
    unfolding sent_def by blast
  have "u = s\<lparr>uart_lsr := l', uart_log := uart_log s @ map (Pair THR) (bs @ cs), hw := h'\<rparr>"
    by (simp add: u(1) t(1))
  moreover have "idle_count l' = idle_count (uart_lsr s) - length (bs @ cs)"
    using t(2) u(2) by (simp add: t(1))
  moreover have "h' = hw s \<or> h' = settle (hw s)" using t(3) u(3) by (auto simp: t(1))
  ultimately show ?thesis unfolding sent_def by blast
qed

lemma sent_can_print: "sent bs s t \<Longrightarrow> can_print (length bs + n) s \<Longrightarrow> can_print n t"
  by (auto simp: sent_def can_print_def)

lemma consputc_byte: "consputc (uint c) = uartputc_sync (c :: u8)"
  using unsigned_less [of c, where 'a = int] by (simp add: consputc_def BACKSPACE_def)

lemma puts_Done:
  "can_print (length bs) s \<Longrightarrow> \<exists>t. puts bs s = Done () t \<and> sent bs s t"
proof (induction bs arbitrary: s)
  case Nil
  then have "sent [] s s"
    unfolding sent_def by (intro exI [of _ "uart_lsr s"] exI [of _ "hw s"]) (simp add: can_print_def)
  then show ?case by (simp add: puts_def kern_run)
next
  case (Cons c bs)
  have "can_print 1 s" using Cons.prems by (simp add: can_print_def)
  then obtain t where t: "uartputc_sync c s = Done () t" "sent [c] s t"
    using uartputc_sync_Done by blast
  then have "can_print (length bs) t" using Cons.prems by (simp add: sent_can_print [OF t(2)])
  then obtain u where u: "puts bs t = Done () u" "sent bs t u" using Cons.IH by blast
  then have "puts (c # bs) s = Done () u" by (simp add: puts_def consputc_byte t)
  with sent_trans [OF t(2) u(2)] show ?case by auto
qed

text \<open>A concrete state: zeroed memory and tables, and a serial line that is ready 16 times.\<close>

definition dev_ready :: dev_state where
  "dev_ready = \<lparr>hw = zero_machine, mem = (\<lambda>_. 0), kmem_freelist = 0, kernel_pagetable = 0,
     procs = (\<lambda>_. zero_proc), nextpid = 1, initproc = None, ticks = 0,
     sleeplocks = (\<lambda>_. \<lparr>sl_locked = 0, sl_name = [], sl_pid = 0\<rparr>),
     uart_lsr = replicate 16 0x20, uart_rx = [], uart_log = [], uart_tx_buf = replicate 32 0,
     uart_tx_w = 0, uart_tx_r = 0, panicked = 0, pr_locking = 1, cons_buf = replicate 128 0,
     cons_r = 0, cons_w = 0, cons_e = 0\<rparr>"

lemma dev_ready_print: "can_print 16 dev_ready" "lock_free PrLock (hw dev_ready)"
  by (simp_all add: can_print_def dev_ready_def idle_count_def LSR_TX_IDLE_def cpu_ok_def lock_free_def
      zero_machine_def mycpu_def cpuid_def)

subsection \<open>Numerals\<close>

definition digit_value :: "u8 \<Rightarrow> nat" where
  "digit_value c = (if c \<le> 57 then unat c - 48 else unat c - 87)"

fun numeral_value :: "nat \<Rightarrow> u8 list \<Rightarrow> nat" where
  "numeral_value b [] = 0"
| "numeral_value b (c # cs) = digit_value c + b * numeral_value b cs"

lemma digits_eq: "digits = [48, 49, 50, 51, 52, 53, 54, 55, 56, 57, 97, 98, 99, 100, 101, 102]"
  by (simp add: digits_def bytes_def byte_def of_char_def)

lemma length_digits: "length digits = 16"
  by (simp add: digits_eq)

lemma digits_table:
  "\<forall>d \<in> set [0..<16]. digit_value (digits ! d) = d \<and> (digits ! d = 48 \<longleftrightarrow> d = 0)"
  unfolding digits_eq by code_simp

lemma digit_value_digits: "d < 16 \<Longrightarrow> digit_value (digits ! d) = d"
  using digits_table by simp

lemma digits_zero_iff: "d < 16 \<Longrightarrow> digits ! d = 48 \<longleftrightarrow> d = 0"
  using digits_table by simp

text \<open>The digits of a number, least significant first, as numbers; \<^verbatim>\<open>printint\<close> produces their
  characters.\<close>

function digit_list :: "nat \<Rightarrow> nat \<Rightarrow> nat list" where
  "digit_list b n = (if b \<le> 1 \<or> n < b then [n mod b] else (n mod b) # digit_list b (n div b))"
  by pat_completeness auto

termination
  by (relation "measure snd") auto

declare digit_list.simps [simp del]

lemma printint_digits_eq:
  assumes "\<not> base \<le> 1"
  shows "printint_digits x base = map ((!) digits) (digit_list (unat base) (unat x))"
  using assms
proof (induction x base rule: printint_digits.induct)
  case (1 x base)
  have b: "\<not> unat base \<le> 1" using 1(2) by (simp add: word_le_nat_alt)
  have z: "x div base = 0 \<longleftrightarrow> unat x < unat base"
  proof -
    have "x div base = 0 \<longleftrightarrow> unat (x div base) = 0" by (simp only: unat_eq_0)
    also have "\<dots> \<longleftrightarrow> unat x < unat base"
      using b by (simp add: unat_div_distrib div_eq_0_iff)
    finally show ?thesis .
  qed
  show ?case
  proof (cases "x div base = 0")
    case True
    then show ?thesis
      using b z by (simp add: printint_digits.simps [of x base] digit_list.simps [of "unat base"] unat_mod_distrib Let_def)
  next
    case False
    then have "printint_digits (x div base) base = map ((!) digits) (digit_list (unat base) (unat (x div base)))"
      using 1 by simp
    with False show ?thesis
      using b z 1(2)
      by (simp add: printint_digits.simps [of x base] digit_list.simps [of "unat base" "unat x"]
          unat_mod_distrib unat_div_distrib Let_def)
  qed
qed

lemma digit_list_bound: "1 < b \<Longrightarrow> \<forall>d \<in> set (digit_list b n). d < b"
  by (induction b n rule: digit_list.induct) (subst digit_list.simps, auto)

lemma digit_list_value:
  "1 < b \<Longrightarrow> b \<le> 16 \<Longrightarrow> numeral_value b (map ((!) digits) (digit_list b n)) = n"
proof (induction b n rule: digit_list.induct)
  case (1 b n)
  have "n mod b < 16" using 1(2,3) by (meson less_le_trans mod_less_divisor less_trans zero_less_one)
  then have "digit_value (digits ! (n mod b)) = n mod b" by (rule digit_value_digits)
  then show ?case using 1 by (cases "n < b") (subst digit_list.simps, simp)+
qed

lemma digit_list_not_Nil [simp]: "digit_list b n \<noteq> []"
  by (subst digit_list.simps) simp

lemma digit_list_last: "1 < b \<Longrightarrow> last (digit_list b n) = 0 \<longleftrightarrow> n = 0"
proof (induction b n rule: digit_list.induct)
  case (1 b n)
  show ?case
  proof (cases "n < b")
    case True
    with 1(2) show ?thesis by (subst digit_list.simps) simp
  next
    case False
    then have "n div b \<noteq> 0" "n \<noteq> 0" using 1(2) by (auto simp: div_eq_0_iff)
    with False show ?thesis using 1 by (subst digit_list.simps) simp
  qed
qed

text \<open>A number has more than \<open>k\<close> digits exactly when it is at least \<open>b ^ k\<close>.\<close>

lemma digit_list_length: "1 < b \<Longrightarrow> 0 < k \<Longrightarrow> k < length (digit_list b n) \<longleftrightarrow> b ^ k \<le> n"
proof (induction k arbitrary: n)
  case (Suc k)
  show ?case
  proof (cases "n < b")
    case True
    then have "length (digit_list b n) = 1" by (subst digit_list.simps) simp
    moreover have "b \<le> b ^ Suc k" using Suc.prems by simp
    ultimately show ?thesis using True by (metis One_nat_def leD less_le_trans not_less_eq not_less_zero)
  next
    case False
    then have len: "length (digit_list b n) = Suc (length (digit_list b (n div b)))"
      using Suc.prems by (subst digit_list.simps) simp
    show ?thesis
    proof (cases "k = 0")
      case True
      then show ?thesis using False by (simp add: len)
    next
      case k: False
      then have "k < length (digit_list b (n div b)) \<longleftrightarrow> b ^ k \<le> n div b"
        using Suc by simp
      also have "\<dots> \<longleftrightarrow> b ^ Suc k \<le> n"
        using Suc.prems by (simp add: less_eq_div_iff_mult_less_eq mult.commute)
      finally show ?thesis by (simp add: len)
    qed
  qed
qed simp

subsection \<open>Numbers on the line\<close>

lemma unat_uminus_sint: "sint x < 0 \<Longrightarrow> unat (- x) = nat (- sint x)" for x :: u64
proof -
  assume neg: "sint x < 0"
  have "sint x = uint x - 2 ^ 64 * of_bool (bit (uint x) 63)"
    using unsigned_less [of x, where 'a = int]
    by (simp add: sint_uint signed_take_bit_eq_take_bit_minus take_bit_int_eq_self)
  with neg have "sint x = uint x - 2 ^ 64" by (simp add: of_bool_def split: if_splits)
  moreover have "x \<noteq> 0" using neg by auto
  then have "uint (- x) = 2 ^ 64 - uint x"
    using unsigned_less [of x, where 'a = int] by (simp add: uint_word_ariths zmod_zminus1_eq_if uint_0_iff)
  ultimately have "uint (- x) = - sint x" by simp
  then show ?thesis by (metis nat_int unat_eq_nat_uint)
qed

text \<open>What a number needs in the buffer: its digits and a minus sign.\<close>

definition shown_value :: "u64 \<Rightarrow> bool \<Rightarrow> bool \<times> nat" where
  "shown_value x sign = (if sign \<and> sint x < 0 then (True, nat (- sint x)) else (False, unat x))"

definition int_text :: "u64 \<Rightarrow> u64 \<Rightarrow> bool \<Rightarrow> u8 list" where
  "int_text x base sign =
     (if fst (shown_value x sign) then [45] else []) @
     rev (map ((!) digits) (digit_list (unat base) (snd (shown_value x sign))))"

definition int_fits :: "u64 \<Rightarrow> nat \<Rightarrow> bool \<Rightarrow> bool" where
  "int_fits x b sign \<longleftrightarrow>
     snd (shown_value x sign) < b ^ (if fst (shown_value x sign) then 15 else 16)"

lemma printint_eq:
  assumes "\<not> base \<le> 1"
  shows "printint x base sign =
    (if int_fits x (unat base) sign then puts (int_text x base sign)
     else kfault ''printint: buf overflow'')"
proof -
  let ?neg = "sign \<and> sint x < 0"
  let ?v = "snd (shown_value x sign)"
  let ?ds = "digit_list (unat base) ?v"
  have b: "1 < unat base" using assms by (simp add: word_le_nat_alt)
  have ds: "printint_digits (if ?neg then - x else x) base = map ((!) digits) ?ds"
    using printint_digits_eq [OF assms] by (simp add: shown_value_def unat_uminus_sint)
  have minus: "byte CHR ''-'' = 45" by (simp add: byte_def of_char_def)
  have "16 < length (map ((!) digits) ?ds @ (if ?neg then [45] else [])) \<longleftrightarrow> \<not> int_fits x (unat base) sign"
    using digit_list_length [OF b, of 15 ?v] digit_list_length [OF b, of 16 ?v]
    by (auto simp: int_fits_def shown_value_def)
  then show ?thesis
    unfolding printint_def Let_def ds minus sizeof_printint_buf_def
    by (auto simp: puts_def int_text_def shown_value_def)
qed

lemma length_int_text:
  assumes "\<not> base \<le> 1" and "int_fits x (unat base) sign"
  shows "length (int_text x base sign) \<le> 16"
proof -
  have b: "1 < unat base" using assms(1) by (simp add: word_le_nat_alt)
  then show ?thesis
    using assms(2) digit_list_length [OF b, of 15 "snd (shown_value x sign)"]
      digit_list_length [OF b, of 16 "snd (shown_value x sign)"]
    by (auto simp: int_fits_def int_text_def split: if_splits)
qed

text \<open>C13. On a serial line that is ready, \<^verbatim>\<open>printint\<close> in base 10 or 16 sends exactly one numeral:
  a minus sign for a negative number printed as signed, then digits that denote its absolute value,
  without leading zeros. The exception are numbers that need more than the 16 bytes of
  \<^verbatim>\<open>buf\<close>: for these it writes past the end of the array.\<close>

theorem printint_correct:
  assumes "base = 10 \<or> base = 16" and "can_print 16 s"
  shows "if int_fits x (unat base) sign
    then \<exists>t ds. printint x base sign s = Done () t
      \<and> sent ((if sign \<and> sint x < 0 then [45] else []) @ ds) s t
      \<and> numeral_value (unat base) (rev ds) = (if sign \<and> sint x < 0 then nat (- sint x) else unat x)
      \<and> ds \<noteq> [] \<and> (hd ds = 48 \<longleftrightarrow> x = 0)
    else printint x base sign s = Fault ''printint: buf overflow''"
proof -
  let ?v = "snd (shown_value x sign)"
  let ?ds = "rev (map ((!) digits) (digit_list (unat base) ?v))"
  have b: "\<not> base \<le> 1" "1 < unat base" "unat base \<le> 16"
    using assms(1) by (auto simp: word_le_nat_alt)
  have v: "?v = (if sign \<and> sint x < 0 then nat (- sint x) else unat x)" "?v = 0 \<longleftrightarrow> x = 0"
    by (auto simp: shown_value_def unat_eq_0)
  have shown: "int_text x base sign = (if sign \<and> sint x < 0 then [45] else []) @ ?ds"
    by (simp add: int_text_def shown_value_def)
  show ?thesis
  proof (cases "int_fits x (unat base) sign")
    case False
    then show ?thesis by (simp add: printint_eq [OF b(1)] kern_run)
  next
    case True
    have "length (int_text x base sign) \<le> 16" using b(1) True by (rule length_int_text)
    then have "can_print (length (int_text x base sign)) s"
      using assms(2) by (simp add: can_print_def)
    then obtain t where t: "puts (int_text x base sign) s = Done () t" "sent (int_text x base sign) s t"
      using puts_Done by blast
    have last: "last (digit_list (unat base) ?v) < 16"
      using digit_list_bound [OF b(2), of ?v] b(3) by (meson digit_list_not_Nil last_in_set less_le_trans)
    have "hd ?ds = 48 \<longleftrightarrow> x = 0"
      using digits_zero_iff [OF last] digit_list_last [OF b(2), of ?v] v(2)
      by (simp add: hd_rev last_map)
    moreover have "sent ((if sign \<and> sint x < 0 then [45] else []) @ ?ds) s t"
      using t(2) by (simp only: shown)
    moreover have "numeral_value (unat base) (rev ?ds) =
        (if sign \<and> sint x < 0 then nat (- sint x) else unat x)"
      using digit_list_value [OF b(2,3), of ?v] by (simp only: rev_rev_ident v(1))
    moreover have "?ds \<noteq> []" by simp
    moreover have "printint x base sign s = Done () t"
      using True t(1) by (simp add: printint_eq [OF b(1)])
    ultimately show ?thesis
      unfolding if_P [OF True] by blast
  qed
qed

theorem printint_correct_witness:
  "\<exists>t ds. printint (- 7) 10 True dev_ready = Done () t \<and> sent (45 # ds) dev_ready t
     \<and> numeral_value 10 (rev ds) = 7 \<and> ds \<noteq> [] \<and> hd ds \<noteq> 48"
proof -
  have neg: "sint (- 7 :: u64) = - 7" by simp
  have "int_fits (- 7) 10 True" by (simp add: int_fits_def shown_value_def neg)
  then show ?thesis
    using printint_correct [of 10 dev_ready "- 7" True] by (simp add: dev_ready_print neg)
qed

definition print_ready :: "'a dev_state_scheme \<Rightarrow> bool" where
  "print_ready s \<longleftrightarrow> can_print 16 s \<and> lock_free PrLock (hw s)"

text \<open>Printing while the lock of \<^verbatim>\<open>printf\<close> is held, and giving the lock back.\<close>

lemma sent_release:
  assumes "sent bs (s\<lparr>hw := taken l (hw s)\<rparr>) t" and "cpu_ok (hw s)"
  shows "hw t = taken l (hw s)"
  using assms by (auto simp: sent_def)

lemma printf_u_bytes: "bytes ''%u'' = [37, 117]" "byte CHR ''%'' = 37"
  "printf_conv [117] = (CInt 10 False, 1)"
  by (simp_all add: bytes_def byte_def of_char_def printf_conv_def fmt_at_def)

lemma unat_scast_u32:
  "unat (scast (v :: u32) :: u64) = (if v < 0x80000000 then unat v else 2 ^ 64 - 2 ^ 32 + unat v)"
proof -
  have v: "uint v < 2 ^ 32" "0 \<le> uint v" using unsigned_less [of v, where 'a = int] by simp_all
  have bit: "bit (uint v) 31 \<longleftrightarrow> 2 ^ 31 \<le> uint v"
  proof (cases "2 ^ 31 \<le> uint v")
    case True
    with v have "uint v div 2 ^ 31 = 1" by simp
    with True show ?thesis by (simp add: bit_iff_odd)
  next
    case False
    with v have "uint v div 2 ^ 31 = 0" by simp
    with False show ?thesis by (simp add: bit_iff_odd)
  qed
  have "sint v = signed_take_bit 31 (uint v)" by (simp add: sint_uint)
  also have "\<dots> = take_bit 32 (uint v) - 2 ^ 32 * of_bool (bit (uint v) 31)"
    using signed_take_bit_eq_take_bit_minus [of 31 "uint v"] by (simp only: Suc_numeral semiring_norm)
  also have "take_bit 32 (uint v) = uint v" using v by (intro take_bit_int_eq_self) simp_all
  finally have s: "sint v = (if 2 ^ 31 \<le> uint v then uint v - 2 ^ 32 else uint v)"
    by (simp add: bit)
  have u: "uint (scast v :: u64) = sint v mod 2 ^ 64"
    unfolding scast_eq uint_word_of_int by simp
  have lt: "v < 0x80000000 \<longleftrightarrow> \<not> 2 ^ 31 \<le> uint v"
    by (simp add: word_less_def not_le)
  have "uint (scast v :: u64) = (if v < 0x80000000 then uint v else 2 ^ 64 - 2 ^ 32 + uint v)"
  proof (cases "2 ^ 31 \<le> uint v")
    case True
    have "(uint v - 2 ^ 32) mod 2 ^ 64 = (uint v - 2 ^ 32 + 2 ^ 64) mod 2 ^ 64"
      by (simp only: mod_add_self2)
    also have "\<dots> = uint v - 2 ^ 32 + 2 ^ 64" using v True by (intro mod_pos_pos_trivial) simp_all
    finally show ?thesis using True by (simp add: u s lt)
  next
    case False
    then show ?thesis using v by (simp add: u s lt)
  qed
  then have "nat (uint (scast v :: u64)) = (if v < 0x80000000 then nat (uint v) else 2 ^ 64 - 2 ^ 32 + nat (uint v))"
    using v(2) by (simp add: nat_add_distrib split: if_splits)
  then show ?thesis by (simp only: unat_eq_nat_uint)
qed

text \<open>C14. \<^verbatim>\<open>printf("%u", v)\<close> passes its 32-bit argument through \<^verbatim>\<open>int\<close>, so a value with the
  top bit set is printed as a 64-bit number of twenty digits, which the 16-byte buffer of
  \<^verbatim>\<open>printint\<close> does not hold: the call runs into undefined behaviour exactly for values of at
  least \<open>2 ^ 31\<close>, and returns for all others.\<close>

theorem printf_u_overflow:
  assumes "print_ready s"
  shows "if v < 0x80000000 then \<exists>t. printf (bytes ''%u'') [VInt v] s = Done 0 t
    else printf (bytes ''%u'') [VInt v] s = Fault ''printint: buf overflow''"
proof -
  have v: "unat v < 2 ^ 32" using unsigned_less [of v, where 'a = nat] by simp
  have fits: "int_fits (scast v) 10 False \<longleftrightarrow> v < 0x80000000"
    using v by (auto simp: int_fits_def shown_value_def unat_scast_u32)
  let ?s = "s\<lparr>hw := taken PrLock (hw s)\<rparr>"
  have ok: "lock_free PrLock (hw s)" "cpu_ok (hw s)" "can_print 16 s" "can_print 16 ?s"
    using assms by (simp_all add: print_ready_def can_print_def)
  note run = printf_def printf_u_bytes kern_run
  show ?thesis
  proof (cases "v < 0x80000000")
    case False
    then have "printint (scast v) 10 False t = Fault ''printint: buf overflow''"
      for t :: "'a dev_state_scheme"
      by (simp add: printint_eq fits kern_run word_le_nat_alt)
    with False show ?thesis using ok(1) by (simp add: run)
  next
    case True
    have "\<exists>t. printint (scast v) 10 False u = Done () t \<and> sent (int_text (scast v) 10 False) u t"
      if "can_print 16 u" for u :: "'a dev_state_scheme"
    proof -
      have "length (int_text (scast v) 10 False) \<le> 16"
        using True fits by (intro length_int_text) (simp_all add: word_le_nat_alt)
      with that have "can_print (length (int_text (scast v) 10 False)) u" by (simp add: can_print_def)
      then show ?thesis using puts_Done True fits by (simp add: printint_eq word_le_nat_alt)
    qed
    note print = this
    show ?thesis
    proof (cases "pr_locking s = 0")
      case True
      with print [OF ok(3)] \<open>v < 0x80000000\<close> show ?thesis by (auto simp: run)
    next
      case False
      obtain t where t: "printint (scast v) 10 False ?s = Done () t"
        "sent (int_text (scast v) 10 False) ?s t" using print [OF ok(4)] by blast
      with False ok sent_release [OF t(2) ok(2)] \<open>v < 0x80000000\<close> show ?thesis
        by (simp add: run)
    qed
  qed
qed

theorem printf_u_overflow_witness:
  "(\<exists>t. printf (bytes ''%u'') [VInt 7] dev_ready = Done 0 t)
   \<and> printf (bytes ''%u'') [VInt 0x80000000] dev_ready = Fault ''printint: buf overflow''"
  using printf_u_overflow [of dev_ready 7] printf_u_overflow [of dev_ready "0x80000000"]
  by (simp add: print_ready_def dev_ready_print)

end
