(* ===== verification/Page_Table.thy ===== *)
theory Page_Table
  imports Vm
begin

section \<open>Page tables as maps\<close>

text \<open>
  The three-level tree that \<^verbatim>\<open>walk\<close> follows, seen as a map. \<open>node m r is\<close> is the table page
  reached from the root \<open>r\<close> along the indices \<open>is\<close>; \<open>wf_pt\<close> says that different paths
  reach different pages, so that a store into one table changes nothing else; \<open>lookup\<close> is the entry
  that the table holds for a virtual address (0 when no table page is there). The functions of
  \<^verbatim>\<open>vm.c\<close> are then updates of \<open>lookup\<close>, with the table pages they use taken from the free
  list.
\<close>

subsection \<open>Entries\<close>


lemma page_aligned_PTE2PA [simp]: "page_aligned (PTE2PA pte)"
  by (simp add: page_aligned_bit PTE2PA_def bit_simps)

lemma PTE2PA_PA2PTE:
  assumes "page_aligned pa" and "\<And>n. bit f n \<Longrightarrow> n < 10"
  shows "PTE2PA (PA2PTE pa OR f) = pa"
proof (rule bit_word_eqI)
  fix n
  assume "n < LENGTH(64)"
  moreover have "\<not> bit f (n - 2)" if "12 \<le> n"
    using assms(2) [of "n - 2"] that by auto
  moreover have "\<not> bit pa n" if "n < 12"
    using assms(1) that by (simp add: page_aligned_bit)
  ultimately show "bit (PTE2PA (PA2PTE pa OR f)) n = bit pa n"
    by (cases "12 \<le> n") (auto simp: PTE2PA_def PA2PTE_def bit_simps numeral_2_eq_2)
qed

lemma bit_PTE_flags [simp]:
  "bit PTE_V n \<longleftrightarrow> n = 0" "bit PTE_R n \<longleftrightarrow> n = 1" "bit PTE_W n \<longleftrightarrow> n = 2" "bit PTE_X n \<longleftrightarrow> n = 3"
  "bit PTE_U n \<longleftrightarrow> n = 4"
  unfolding PTE_V_def PTE_R_def PTE_W_def PTE_X_def PTE_U_def bit_push_bit_iff bit_1_iff by auto

lemma PTE_V_nonzero [simp]: "PTE_V \<noteq> 0"
  by (simp add: PTE_V_def)

lemma pte_flag_test:
  "pte AND PTE_V = 0 \<longleftrightarrow> \<not> bit pte 0" "pte AND PTE_R = 0 \<longleftrightarrow> \<not> bit pte 1"
  "pte AND PTE_W = 0 \<longleftrightarrow> \<not> bit pte 2" "pte AND PTE_X = 0 \<longleftrightarrow> \<not> bit pte 3"
  "pte AND PTE_U = 0 \<longleftrightarrow> \<not> bit pte 4"
  unfolding PTE_V_def PTE_R_def PTE_W_def PTE_X_def PTE_U_def and_push_bit_1 by (rule refl)+

lemma bit_PTE_FLAGS: "bit (PTE_FLAGS pte) n \<longleftrightarrow> n < 10 \<and> bit pte n"
proof -
  have "(0x3FF :: u64) = mask 10" by (simp add: mask_eq_exp_minus_1)
  then show ?thesis
    unfolding PTE_FLAGS_def bit_and_iff by (simp only: bit_mask_iff) (auto dest: bit_imp_le_length)
qed

lemma PX_eq: "PX l va = take_bit 9 (drop_bit (PXSHIFT l) va)"
proof -
  have "PXMASK = mask 9" by (simp add: PXMASK_def mask_eq_exp_minus_1)
  then show ?thesis by (simp add: PX_def take_bit_eq_mask)
qed

lemma PX_less: "PX l va < 512"
proof -
  have "PX l va = drop_bit (PXSHIFT l) va mod 512"
    by (simp add: PX_eq take_bit_eq_mod)
  then show ?thesis by (simp add: word_mod_less_divisor)
qed

lemma bit_PX: "bit (PX l va) n \<longleftrightarrow> n < 9 \<and> bit va (12 + 9 * l + n)"
  by (auto simp: PX_eq bit_simps PXSHIFT_def PGSHIFT_def ac_simps)

text \<open>The three indices determine the page of an address below \<^verbatim>\<open>MAXVA\<close>.\<close>

lemma MAXVA_bit: "va < MAXVA \<Longrightarrow> bit va n \<Longrightarrow> n < 38"
proof -
  assume "va < MAXVA" and bit: "bit va n"
  then have "va < 2 ^ 38"
    by (simp add: MAXVA_def push_bit_of_1)
  then have "take_bit 38 va = va"
    by (simp add: take_bit_eq_mod word_unat_eq_iff unat_mod_distrib word_less_nat_alt)
  with bit show ?thesis by (metis bit_take_bit_iff)
qed

lemma PX_inject:
  assumes "va < MAXVA" "vb < MAXVA" "page_aligned va" "page_aligned vb"
    and "PX 2 va = PX 2 vb" "PX 1 va = PX 1 vb" "PX 0 va = PX 0 vb"
  shows "va = vb"
proof (rule bit_word_eqI)
  fix n :: nat
  have eq: "bit va (12 + 9 * l + k) = bit vb (12 + 9 * l + k)" if "k < 9" "l \<le> 2" for l k
  proof -
    have "PX l va = PX l vb"
      using assms that by (metis One_nat_def le_Suc_eq le_zero_eq numeral_2_eq_2)
    then show ?thesis using bit_PX [of l va k] bit_PX [of l vb k] that by simp
  qed
  consider "n < 12" | "12 \<le> n" "n < 39" | "39 \<le> n" by linarith
  then show "bit va n = bit vb n"
  proof cases
    case 1
    then show ?thesis using assms(3,4) by (simp add: page_aligned_bit)
  next
    case 2
    define d where "d = n - 12"
    have "n = 12 + 9 * (d div 9) + d mod 9" "d mod 9 < 9" "d div 9 \<le> 2"
      using 2 by (auto simp: d_def)
    then show ?thesis using eq by metis
  next
    case 3
    then show ?thesis using MAXVA_bit [OF assms(1), of n] MAXVA_bit [OF assms(2), of n] by auto
  qed
qed

subsection \<open>Slots\<close>

text \<open>Eight-byte slots of aligned pages: two of them are the same or do not overlap.\<close>

lemma unat_slot:
  assumes "i < 512"
  shows "unat (8 * i :: u64) = 8 * unat i" and "unat i < 512"
  using assms by (simp_all add: word_less_nat_alt unat_word_ariths)

lemma slot_byte:
  assumes "page_aligned p" "i < 512" "unat (x - (p + 8 * i)) < 8"
  shows "unat (x - p) = 8 * unat i + unat (x - (p + 8 * i))"
proof -
  have "x - p = (x - (p + 8 * i)) + 8 * i" by simp
  also have "unat \<dots> = unat (x - (p + 8 * i)) + unat (8 * i)"
    using assms unat_slot [OF assms(2)] by (subst unat_add_lem [THEN iffD1]) simp_all
  finally show ?thesis using unat_slot [OF assms(2)] by simp
qed

lemma slot_page:
  assumes "page_aligned p" "i < 512" "unat (x - (p + 8 * i)) < 8"
  shows "PGROUNDDOWN x = p"
  using slot_byte [OF assms] assms unat_slot [OF assms(2)] in_page [of p x] by simp

lemma separate_slots:
  assumes "page_aligned p" "page_aligned q" "i < 512" "j < 512" "(p, i) \<noteq> (q, j)"
  shows "separate (p + 8 * i) 8 (q + 8 * j) 8"
  unfolding separate_def
proof (intro allI notI)
  fix x
  assume x: "unat (x - (p + 8 * i)) < 8 \<and> unat (x - (q + 8 * j)) < 8"
  then have "p = q"
    using slot_page [OF assms(1,3)] slot_page [OF assms(2,4)] by auto
  moreover from this have "unat i = unat j"
    using slot_byte [OF assms(1,3)] slot_byte [OF assms(2,4)] x by fastforce
  ultimately show False using assms(5) by (simp add: word_unat_eq_iff)
qed

lemma load64_slot:
  assumes "page_aligned p" "page_aligned q" "i < 512" "j < 512"
  shows "load64 (store64 m (p + 8 * i) v) (q + 8 * j) =
    (if p = q \<and> i = j then v else load64 m (q + 8 * j))"
  using load64_store64_other [OF separate_slots [OF assms]] by auto

lemma store64_slot_outside:
  "page_aligned p \<Longrightarrow> i < 512 \<Longrightarrow> PGROUNDDOWN x \<noteq> p \<Longrightarrow> store64 m (p + 8 * i) v x = m x"
  using slot_page [of p i x] by (auto simp: store64_def store_bytes_def)

lemma load64_slot_cong:
  assumes "page_aligned p" "i < 512" "\<And>x. PGROUNDDOWN x = p \<Longrightarrow> m x = n x"
  shows "load64 m (p + 8 * i) = load64 n (p + 8 * i)"
proof -
  have "PGROUNDDOWN (p + 8 * i + of_nat k) = p" if "k < 8" for k
    using that by (intro slot_page [OF assms(1,2)]) (simp add: unat_of_nat_u64)
  then have "load_bytes m (p + 8 * i) 8 = load_bytes n (p + 8 * i) 8"
    by (intro nth_equalityI) (simp_all add: assms(3))
  then show ?thesis by (simp add: load64_def)
qed

lemma load64_zero_page:
  assumes "page_aligned p" "i < 512"
  shows "load64 (fill_page m p 0) (p + 8 * i) = 0"
proof -
  have "load64 (fill_page m p 0) (p + 8 * i) = load64 (\<lambda>_. 0) (p + 8 * i)"
    by (rule load64_slot_cong [OF assms]) (simp add: fill_page_inside assms)
  then show ?thesis by (simp add: load64_def load_bytes_def map_replicate_const)
qed

subsection \<open>The tree\<close>

fun node :: "memory \<Rightarrow> u64 \<Rightarrow> u64 list \<Rightarrow> u64 option" where
  "node m p [] = Some p"
| "node m p (i # is) =
     (let pte = load64 m (p + 8 * i) in
      if pte AND PTE_V \<noteq> 0 then node m (PTE2PA pte) is else None)"

definition path_ok :: "u64 list \<Rightarrow> bool" where
  "path_ok is \<longleftrightarrow> length is \<le> 2 \<and> (\<forall>i \<in> set is. i < 512)"

definition pt_pages :: "memory \<Rightarrow> u64 \<Rightarrow> u64 set" where
  "pt_pages m r = {p. \<exists>is. path_ok is \<and> node m r is = Some p}"

definition wf_pt :: "memory \<Rightarrow> u64 \<Rightarrow> bool" where
  "wf_pt m r \<longleftrightarrow>
     (\<forall>p \<in> pt_pages m r. page_aligned p \<and> p \<noteq> 0 \<and> p < PHYSTOP) \<and>
     (\<forall>is js p. path_ok is \<longrightarrow> path_ok js \<longrightarrow> node m r is = Some p \<longrightarrow> node m r js = Some p \<longrightarrow> is = js)"

definition lookup :: "memory \<Rightarrow> u64 \<Rightarrow> u64 \<Rightarrow> u64" where
  "lookup m r va =
     (case node m r [PX 2 va, PX 1 va] of None \<Rightarrow> 0 | Some p \<Rightarrow> load64 m (p + 8 * PX 0 va))"

lemma node_append: "node m p (is @ js) = Option.bind (node m p is) (\<lambda>q. node m q js)"
  by (induction "is" arbitrary: p) (simp_all add: Let_def)

declare node.simps(2) [simp del]

lemma node_snoc:
  "node m r (is @ [i]) = (case node m r is of None \<Rightarrow> None
     | Some p \<Rightarrow> if load64 m (p + 8 * i) AND PTE_V \<noteq> 0 then Some (PTE2PA (load64 m (p + 8 * i))) else None)"
  by (simp add: node_append node.simps(2) Let_def split: option.split)

lemma path_ok_Nil [simp]: "path_ok []"
  by (simp add: path_ok_def)

lemma path_ok_snocD: "path_ok (is @ [i]) \<Longrightarrow> path_ok is \<and> i < 512"
  by (simp add: path_ok_def)

lemma path_ok_va [simp]: "path_ok [PX k va, PX l va]" "path_ok [PX k va]"
  by (simp_all add: path_ok_def PX_less)

lemma pt_pagesI: "path_ok is \<Longrightarrow> node m r is = Some p \<Longrightarrow> p \<in> pt_pages m r"
  by (auto simp: pt_pages_def)

lemma wf_ptD:
  assumes "wf_pt m r"
  shows "p \<in> pt_pages m r \<Longrightarrow> page_aligned p" "p \<in> pt_pages m r \<Longrightarrow> p \<noteq> 0"
    "p \<in> pt_pages m r \<Longrightarrow> p < PHYSTOP"
    "path_ok is \<Longrightarrow> path_ok js \<Longrightarrow> node m r is = Some p \<Longrightarrow> node m r js = Some p \<Longrightarrow> is = js"
  using assms unfolding wf_pt_def by blast+

text \<open>Memory outside the table pages does not matter.\<close>

lemma node_frame:
  assumes "wf_pt m r" "\<forall>x. PGROUNDDOWN x \<in> pt_pages m r \<longrightarrow> m' x = m x" "path_ok is"
  shows "node m' r is = node m r is"
  using assms(3)
proof (induction "is" rule: rev_induct)
  case (snoc i "is")
  then have ok: "path_ok is" "i < 512" by (auto dest: path_ok_snocD)
  show ?case
  proof (cases "node m r is")
    case None
    then show ?thesis using snoc.IH [OF ok(1)] by (simp add: node_snoc)
  next
    case (Some p)
    then have p: "p \<in> pt_pages m r" using ok by (blast intro: pt_pagesI)
    then have "load64 m' (p + 8 * i) = load64 m (p + 8 * i)"
      using assms ok wf_ptD(1) [OF assms(1) p] by (intro load64_slot_cong) auto
    then show ?thesis using snoc.IH [OF ok(1)] Some by (simp add: node_snoc)
  qed
qed simp

lemma pt_frame:
  assumes "wf_pt m r" "\<forall>x. PGROUNDDOWN x \<in> pt_pages m r \<longrightarrow> m' x = m x"
  shows "pt_pages m' r = pt_pages m r" "wf_pt m' r" "lookup m' r va = lookup m r va"
proof -
  note n = node_frame [OF assms]
  show p: "pt_pages m' r = pt_pages m r"
    unfolding pt_pages_def using n by auto
  show "wf_pt m' r"
    using assms(1) n unfolding wf_pt_def p by auto
  show "lookup m' r va = lookup m r va"
  proof (cases "node m r [PX 2 va, PX 1 va]")
    case None
    then show ?thesis using n by (simp add: lookup_def)
  next
    case (Some q)
    then have "q \<in> pt_pages m r" by (rule pt_pagesI [rotated]) simp
    with Some show ?thesis
      using n load64_slot_cong [of q "PX 0 va" m' m] assms(2) wf_ptD(1) [OF assms(1)] PX_less
      by (auto simp: lookup_def)
  qed
qed

subsection \<open>Stores into a table\<close>

lemma node_store:
  assumes wf: "wf_pt m r" and p: "path_ok js" "node m r js = Some p" and i: "i < 512"
    and "path_ok is" "\<And>ks. is \<noteq> js @ i # ks"
  shows "node (store64 m (p + 8 * i) v) r is = node m r is"
  using assms(5,6)
proof (induction "is" rule: rev_induct)
  case (snoc k "is")
  then have ok: "path_ok is" "k < 512" by (auto dest: path_ok_snocD)
  have IH: "node (store64 m (p + 8 * i) v) r is = node m r is"
    by (rule snoc.IH [OF ok(1)]) (use snoc.prems(2) in \<open>metis append.assoc append_Cons\<close>)
  show ?case
  proof (cases "node m r is")
    case None
    then show ?thesis using IH by (simp add: node_snoc)
  next
    case (Some q)
    have "\<not> (p = q \<and> i = k)"
    proof
      assume eq: "p = q \<and> i = k"
      then have "is = js" using wf_ptD(4) [OF wf ok(1) p(1)] Some p(2) by simp
      then show False using snoc.prems(2) [of "[]"] eq by simp
    qed
    moreover have "page_aligned p" "page_aligned q"
      using wf_ptD(1) [OF wf] pt_pagesI p ok Some by blast+
    ultimately show ?thesis
      using IH Some load64_slot [of p q i k m v] i ok by (auto simp: node_snoc)
  qed
qed simp

lemma leaf_store:
  assumes wf: "wf_pt m r" and p: "node m r [PX 2 va, PX 1 va] = Some p"
    and m'_def: "m' = store64 m (p + 8 * PX 0 va) v"
  shows "pt_pages m' r = pt_pages m r" "wf_pt m' r"
    "lookup m' r vb =
      (if PX 2 vb = PX 2 va \<and> PX 1 vb = PX 1 va \<and> PX 0 vb = PX 0 va then v else lookup m r vb)"
proof -
  have n: "node m' r is = node m r is" if "path_ok is" for "is"
    unfolding m'_def using that
    by (intro node_store [OF wf _ p PX_less]) (auto simp: path_ok_def PX_less)
  show pages: "pt_pages m' r = pt_pages m r"
    unfolding pt_pages_def using n by auto
  show "wf_pt m' r"
    using wf n unfolding wf_pt_def pages by auto
  show "lookup m' r vb =
      (if PX 2 vb = PX 2 va \<and> PX 1 vb = PX 1 va \<and> PX 0 vb = PX 0 va then v else lookup m r vb)"
  proof (cases "node m r [PX 2 vb, PX 1 vb]")
    case None
    then show ?thesis using n [of "[PX 2 vb, PX 1 vb]"] p by (auto simp: lookup_def)
  next
    case (Some q)
    have "p = q \<longleftrightarrow> [PX 2 va, PX 1 va] = [PX 2 vb, PX 1 vb]"
      using wf_ptD(4) [OF wf path_ok_va(1) path_ok_va(1)] p Some by fastforce
    moreover have "page_aligned p" "page_aligned q"
      using wf_ptD(1) [OF wf] pt_pagesI [OF path_ok_va(1)] p Some by blast+
    ultimately show ?thesis
      using n [of "[PX 2 vb, PX 1 vb]"] Some load64_slot [of p q "PX 0 va" "PX 0 vb" m v] PX_less
      by (auto simp: lookup_def m'_def)
  qed
qed

lemma table_store:
  assumes wf: "wf_pt m r" and js: "path_ok (js @ [i])" "node m r js = Some p"
    "node m r (js @ [i]) = None"
    and q: "page_aligned q" "q \<noteq> 0" "q < PHYSTOP" "q \<notin> pt_pages m r"
    and m'_def: "m' = store64 (fill_page m q 0) (p + 8 * i) (PA2PTE q OR PTE_V)"
  shows "node m' r (js @ [i]) = Some q" and "pt_pages m' r = insert q (pt_pages m r)"
    and "wf_pt m' r" and "lookup m' r va = lookup m r va"
proof -
  let ?z = "fill_page m q 0"
  have ok: "path_ok js" "i < 512" using js(1) by (auto dest: path_ok_snocD)
  have p: "p \<in> pt_pages m r" "page_aligned p" "p \<noteq> q"
    using pt_pagesI [OF ok(1) js(2)] wf_ptD(1) [OF wf] q(4) by auto
  have same: "\<forall>x. PGROUNDDOWN x \<in> pt_pages m r \<longrightarrow> ?z x = m x"
    using page_writes_elsewhere(1) [OF q(1) _ q(4)] by blast
  note z = pt_frame [OF wf same] and nz = node_frame [OF wf same]
  have new: "load64 m' (p + 8 * i) = PA2PTE q OR PTE_V"
    by (simp add: m'_def)
  have pa: "PTE2PA (PA2PTE q OR PTE_V) = q"
    by (rule PTE2PA_PA2PTE) (use q in simp_all)
  have "node m' r js = Some p"
    using node_store [OF z(2) ok(1) _ ok(2) ok(1)] nz [OF ok(1)] js(2) by (simp add: m'_def)
  then show at: "node m' r (js @ [i]) = Some q"
    by (simp add: node_snoc new pa)
  have n: "node m' r is = (if is = js @ [i] then Some q else node m r is)" if "path_ok is" for "is"
  proof (cases "\<exists>ks. is = js @ i # ks")
    case False
    then show ?thesis
      using node_store [OF z(2) ok(1) _ ok(2) that] nz js(2) ok(1) that by (auto simp: m'_def)
  next
    case True
    then obtain ks where ks: "is = js @ i # ks" by blast
    show ?thesis
    proof (cases ks rule: rev_cases)
      case Nil
      with ks at show ?thesis by simp
    next
      case (snoc ls k)
      with ks that have ls: "ls = []" "js = []" "k < 512" by (auto simp: path_ok_def)
      have "load64 m' (q + 8 * k) = 0"
        using load64_slot [OF p(2) q(1) ok(2) ls(3)] load64_zero_page [OF q(1) ls(3)] p(3)
        by (simp add: m'_def)
      then show ?thesis
        using at js(3) ks snoc ls node_snoc [of m' r "js @ [i]" k] node_snoc [of m r "js @ [i]" k]
        by simp
    qed
  qed
  show pages: "pt_pages m' r = insert q (pt_pages m r)"
  proof (intro set_eqI iffI)
    fix x
    assume "x \<in> pt_pages m' r"
    then obtain "is" where "path_ok is" "node m' r is = Some x" by (auto simp: pt_pages_def)
    then show "x \<in> insert q (pt_pages m r)"
      using n [of "is"] by (cases "is = js @ [i]") (auto intro: pt_pagesI)
  next
    fix x
    assume "x \<in> insert q (pt_pages m r)"
    then consider "x = q" | "is" where "path_ok is" "node m r is = Some x"
      by (auto simp: pt_pages_def)
    then show "x \<in> pt_pages m' r"
    proof cases
      case 1
      then show ?thesis using pt_pagesI [OF js(1) at] by simp
    next
      case (2 "is")
      then have "node m' r is = Some x" using n [of "is"] js(3) by auto
      then show ?thesis by (rule pt_pagesI [OF 2(1)])
    qed
  qed
  have inj: "is = ks" if h: "path_ok is" "path_ok ks" "node m' r is = Some x" "node m' r ks = Some x" for "is" ks x
  proof (cases "x = q")
    case True
    then have "node m r is \<noteq> Some x" "node m r ks \<noteq> Some x"
      using pt_pagesI h(1,2) q(4) by blast+
    then show ?thesis using n [OF h(1)] n [OF h(2)] h(3,4) by (auto split: if_splits)
  next
    case False
    have "node m r is = Some x" using n [OF h(1)] h(3) False by (auto split: if_splits)
    moreover have "node m r ks = Some x" using n [OF h(2)] h(4) False by (auto split: if_splits)
    ultimately show ?thesis by (rule wf_ptD(4) [OF wf h(1,2)])
  qed
  show "wf_pt m' r"
    unfolding wf_pt_def pages using inj q wf_ptD(1-3) [OF wf] by blast
  have zero: "load64 m' (q + 8 * PX 0 va) = 0"
    using load64_slot [OF p(2) q(1) ok(2) PX_less] load64_zero_page [OF q(1) PX_less] p(3)
    by (simp add: m'_def)
  show "lookup m' r va = lookup m r va"
  proof (cases "node m r [PX 2 va, PX 1 va]")
    case None
    then show ?thesis
      using n [of "[PX 2 va, PX 1 va]"] zero by (auto simp: lookup_def)
  next
    case (Some s)
    have s: "s \<in> pt_pages m r" "page_aligned s" "s \<noteq> q"
      using pt_pagesI [OF _ Some] wf_ptD(1) [OF wf] q(4) by auto
    have "s \<noteq> p"
      using wf_ptD(4) [OF wf path_ok_va(1) ok(1) Some] js by (auto simp: path_ok_def)
    then have "load64 m' (s + 8 * PX 0 va) = load64 ?z (s + 8 * PX 0 va)"
      using load64_slot [OF p(2) s(2) ok(2) PX_less] by (simp add: m'_def)
    also have "\<dots> = load64 m (s + 8 * PX 0 va)"
      by (rule load64_slot_cong [OF s(2) PX_less]) (use same s in auto)
    finally show ?thesis
      using n [of "[PX 2 va, PX 1 va]"] Some js(3) by (auto simp: lookup_def)
  qed
qed

subsection \<open>Walking\<close>

text \<open>Without allocation \<^verbatim>\<open>walk\<close> only reads.\<close>

lemma walk_find:
  assumes "va < MAXVA"
  shows "walk r va False s = Done (case node (mem s) r [PX 2 va, PX 1 va] of None \<Rightarrow> 0
     | Some p \<Rightarrow> p + 8 * PX 0 va) s"
  using assms by (simp add: walk_def not_le numeral_2_eq_2 Let_def node.simps(2) kern_run)

text \<open>
  \<open>pt_ok s ps r\<close>: a well-formed free list \<open>ps\<close> and a well-formed page table \<open>r\<close> that use
  different pages. \<open>moved s ps t qs r\<close>: between \<open>s\<close> and \<open>t\<close> pages have only moved from the
  free list to tables; memory outside these pages and the rest of the kernel state are as before.
  \<open>grown\<close> says in addition that the table holds the same entries.
\<close>

definition pt_ok :: "'a kmem_state_scheme \<Rightarrow> u64 list \<Rightarrow> u64 \<Rightarrow> bool" where
  "pt_ok s ps r \<longleftrightarrow> kmem_inv s ps \<and> can_lock KmemLock s \<and> wf_pt (mem s) r \<and>
     set ps \<inter> pt_pages (mem s) r = {}"

definition same_rest :: "'a kmem_state_scheme \<Rightarrow> 'a kmem_state_scheme \<Rightarrow> bool" where
  "same_rest s t \<longleftrightarrow> kmem_state.more t = kmem_state.more s \<and> settle (hw t) = settle (hw s)"

definition moved :: "'a kmem_state_scheme \<Rightarrow> u64 list \<Rightarrow> 'a kmem_state_scheme \<Rightarrow> u64 list \<Rightarrow> u64 \<Rightarrow> bool" where
  "moved s ps t qs r \<longleftrightarrow> same_rest s t \<and>
     set qs \<union> pt_pages (mem t) r = set ps \<union> pt_pages (mem s) r \<and>
     pt_pages (mem s) r \<subseteq> pt_pages (mem t) r \<and>
     (\<forall>x. PGROUNDDOWN x \<notin> set ps \<union> pt_pages (mem s) r \<longrightarrow> mem t x = mem s x)"

definition grown :: "'a kmem_state_scheme \<Rightarrow> u64 list \<Rightarrow> 'a kmem_state_scheme \<Rightarrow> u64 list \<Rightarrow> u64 \<Rightarrow> bool" where
  "grown s ps t qs r \<longleftrightarrow> moved s ps t qs r \<and> (\<forall>va. lookup (mem t) r va = lookup (mem s) r va)"

lemma same_rest_refl [simp]: "same_rest s s"
  by (simp add: same_rest_def)

lemma same_rest_trans: "same_rest s t \<Longrightarrow> same_rest t u \<Longrightarrow> same_rest s u"
  by (simp add: same_rest_def)

lemma settle_cong:
  assumes "settle m = settle n"
  shows "lock_free l m = lock_free l n" "cpu_ok m = cpu_ok n" "syms m = syms n"
  using assms lock_free_settle [of l m] lock_free_settle [of l n] cpu_ok_settle [of m]
    cpu_ok_settle [of n] settle_fields(3) [of m] settle_fields(3) [of n] by simp_all

lemma moved_trans: "moved s ps t qs r \<Longrightarrow> moved t qs u us r \<Longrightarrow> moved s ps u us r"
  unfolding moved_def by (auto intro: same_rest_trans)

lemma grown_refl [simp]: "grown s ps s ps r"
  by (simp add: grown_def moved_def)

lemma grown_trans: "grown s ps t qs r \<Longrightarrow> grown t qs u us r \<Longrightarrow> grown s ps u us r"
  unfolding grown_def by (auto intro: moved_trans)

lemma pt_ok_disjoint: "pt_ok s ps r \<Longrightarrow> p \<in> set ps \<Longrightarrow> p \<notin> pt_pages (mem s) r"
  by (auto simp: pt_ok_def)

lemma alloc_table_page:
  assumes ok: "pt_ok s (q # ps) r" and js: "path_ok (js @ [i])" "node (mem s) r js = Some p"
    "node (mem s) r (js @ [i]) = None"
  defines "t \<equiv> s\<lparr>kmem_freelist := load64 (mem s) q, hw := settle (hw s),
    mem := store64 (fill_page (mem s) q 0) (p + 8 * i) (PA2PTE q OR PTE_V)\<rparr>"
  shows "pt_ok t ps r" "grown s (q # ps) t ps r" "node (mem t) r (js @ [i]) = Some q"
proof -
  have inv: "kmem_inv s (q # ps)" and wf: "wf_pt (mem s) r" and lock: "can_lock KmemLock s"
    and dis: "set (q # ps) \<inter> pt_pages (mem s) r = {}"
    using ok by (simp_all add: pt_ok_def)
  note q = kmem_invD [OF inv]
  have small: "q < PHYSTOP" using q(4) by (simp add: managed_def)
  have out: "q \<notin> pt_pages (mem s) r" using dis by auto
  note ts = table_store [OF wf js q(1,3) small out, where m' = "mem t"]
  have eq: "mem t = store64 (fill_page (mem s) q 0) (p + 8 * i) (PA2PTE q OR PTE_V)"
    by (simp add: t_def)
  show "node (mem t) r (js @ [i]) = Some q" by (rule ts(1) [OF eq])
  have ij: "path_ok js" "i < 512" using js(1) by (auto dest: path_ok_snocD)
  have p: "p \<in> pt_pages (mem s) r" "page_aligned p"
    using pt_pagesI [OF ij(1) js(2)] wf_ptD(1) [OF wf] by auto
  have frame: "mem t x = mem s x" if "PGROUNDDOWN x \<noteq> q" "PGROUNDDOWN x \<noteq> p" for x
    using that p ij q(1) by (simp add: eq store64_slot_outside fill_page_outside)
  have rest: "same_rest s t"
    by (simp add: same_rest_def t_def)
  let ?a = "s\<lparr>kmem_freelist := load64 (mem s) q, hw := settle (hw s), mem := fill_page (mem s) q 5\<rparr>"
  have inv_a: "kmem_inv ?a ps" by (rule kalloc_inv [OF inv]) simp_all
  have same: "mem t x = mem ?a x" if "PGROUNDDOWN x \<in> set ps" for x
  proof -
    have "PGROUNDDOWN x \<noteq> q" "PGROUNDDOWN x \<noteq> p" using that q(2) p(1) dis by auto
    then show ?thesis using frame q(1) by (simp add: fill_page_outside)
  qed
  have "kmem_inv t ps"
    by (rule kmem_inv_frame [OF inv_a _ _ same]) (simp_all add: t_def)
  moreover have "set ps \<inter> pt_pages (mem t) r = {}"
    using dis q(2) ts(2) [OF eq] by auto
  ultimately show "pt_ok t ps r"
    using lock ts(3) [OF eq] by (simp add: pt_ok_def t_def)
  show "grown s (q # ps) t ps r"
    unfolding grown_def moved_def using rest ts(2) [OF eq] ts(4) [OF eq] frame p(1) by auto
qed

lemma fill_page_twice: "fill_page (fill_page m p a) p b = fill_page m p b"
  by (simp add: fill_page_def store_store_same)

definition va_path :: "u64 \<Rightarrow> u64 list" where
  "va_path va = [PX 2 va, PX 1 va]"

lemma path_ok_take: "path_ok (take n (va_path va))"
  using set_take_subset [of n "va_path va"] by (auto simp: path_ok_def va_path_def PX_less)

lemma va_path_step: "l < 2 \<Longrightarrow> take (2 - l) (va_path va) = take (Suc 0 - l) (va_path va) @ [PX (Suc l) va]"
  by (cases l) (auto simp: va_path_def numeral_2_eq_2)

lemma slot_nonzero:
  assumes "page_aligned p" "p \<noteq> 0" "i < 512"
  shows "p + 8 * i \<noteq> 0"
proof
  assume "p + 8 * i = 0"
  then have "PGROUNDDOWN 0 = p"
    using slot_page [OF assms(1,3), of 0] by simp
  then show False using assms(2) by (simp add: PGROUNDDOWN_def)
qed

lemma pt_ok_settle:
  assumes "pt_ok s ps r"
  shows "pt_ok (s\<lparr>hw := settle (hw s)\<rparr>) ps r" "grown s ps (s\<lparr>hw := settle (hw s)\<rparr>) ps r"
proof -
  have "kmem_inv s ps" using assms by (simp add: pt_ok_def)
  then have "kmem_inv (s\<lparr>hw := settle (hw s)\<rparr>) ps"
    by (rule kmem_inv_frame) simp_all
  then show "pt_ok (s\<lparr>hw := settle (hw s)\<rparr>) ps r" using assms by (simp add: pt_ok_def)
  show "grown s ps (s\<lparr>hw := settle (hw s)\<rparr>) ps r"
    by (simp add: grown_def moved_def same_rest_def)
qed

definition walk_post :: "u64 \<Rightarrow> u64 \<Rightarrow> 'a kmem_state_scheme \<Rightarrow> u64 list \<Rightarrow> u64 \<Rightarrow> 'a kmem_state_scheme \<Rightarrow> bool" where
  "walk_post r va s ps a t \<longleftrightarrow> (\<exists>qs. pt_ok t qs r \<and> grown s ps t qs r \<and>
     (if a = 0 then qs = [] else \<exists>p. node (mem t) r (va_path va) = Some p \<and> a = p + 8 * PX 0 va))"

lemma walk_post_grown: "grown s ps t qs r \<Longrightarrow> walk_post r va t qs a u \<Longrightarrow> walk_post r va s ps a u"
  unfolding walk_post_def using grown_trans by blast

lemma walk_level_alloc:
  assumes "pt_ok s ps r" "l \<le> 2" "node (mem s) r (take (2 - l) (va_path va)) = Some p"
  shows "wp (walk_level l p va True) (walk_post r va s ps) s"
  using assms
proof (induction l arbitrary: s ps p)
  case 0
  then have n: "node (mem s) r (va_path va) = Some p" by (simp add: va_path_def)
  then have "p \<in> pt_pages (mem s) r"
    by (rule pt_pagesI [rotated]) (simp add: va_path_def)
  moreover have "wf_pt (mem s) r" using 0 by (simp add: pt_ok_def)
  ultimately have "p + 8 * PX 0 va \<noteq> 0"
    by (intro slot_nonzero wf_ptD(1,2) PX_less)
  then show ?case
    using 0 n by (auto simp: wp_simps walk_post_def intro!: exI [of _ ps])
next
  case (Suc l)
  let ?js = "take (Suc 0 - l) (va_path va)" and ?i = "PX (Suc l) va"
  have path: "take (2 - l) (va_path va) = ?js @ [?i]"
    using Suc.prems(2) by (intro va_path_step) simp
  have js: "node (mem s) r ?js = Some p"
    using Suc.prems(3) by simp
  have pok: "path_ok (?js @ [?i])"
    unfolding path [symmetric] by (rule path_ok_take)
  let ?pte = "load64 (mem s) (p + 8 * ?i)"
  have l: "l \<le> 2" using Suc.prems(2) by simp
  show ?case
  proof (cases "?pte AND PTE_V = 0")
    case False
    then have "node (mem s) r (take (2 - l) (va_path va)) = Some (PTE2PA ?pte)"
      by (simp add: path node_snoc js)
    with Suc.IH [OF Suc.prems(1) l] False show ?thesis
      by (simp add: wp_simps Let_def)
  next
    case True
    then have none: "node (mem s) r (?js @ [?i]) = None"
      by (simp add: node_snoc js)
    have lock: "can_lock KmemLock s" using Suc.prems(1) by (simp add: pt_ok_def)
    show ?thesis
    proof (cases ps)
      case Nil
      then have "kalloc s = Done 0 (s\<lparr>hw := settle (hw s)\<rparr>)"
        using Suc.prems(1) lock by (intro kalloc_Nil) (simp_all add: pt_ok_def)
      then show ?thesis
        using True pt_ok_settle [OF Suc.prems(1)] Nil by (auto simp: wp_simps Let_def wp_Done walk_post_def)
    next
      case (Cons q qs)
      have ok: "pt_ok s (q # qs) r" using Suc.prems(1) Cons by simp
      then have inv: "kmem_inv s (q # qs)" by (simp add: pt_ok_def)
      note ka = kalloc_Cons [OF inv lock] and q0 = kmem_invD(3) [OF inv]
      note new = alloc_table_page [OF ok pok js none]
      show ?thesis
        using True q0 Suc.IH [OF new(1) l] new(3) walk_post_grown [OF new(2)]
        by (simp add: wp_simps Let_def wp_Done [where m = kalloc, OF ka] memset_page fill_page_twice path Cons)
          (auto elim: wp_mono)
    qed
  qed
qed

lemma walk_alloc:
  assumes "pt_ok s ps r" "va < MAXVA"
  shows "wp (walk r va True) (walk_post r va s ps) s"
proof -
  have "\<not> MAXVA \<le> va" using assms(2) by simp
  then show ?thesis using walk_level_alloc [OF assms(1), of 2 va r] by (simp add: walk_def)
qed

subsection \<open>Mapping a range\<close>

text \<open>The table after mapping \<open>k\<close> pages from \<open>a\<close> on to the physical pages from \<open>pa\<close> on.\<close>

definition map_range :: "(u64 \<Rightarrow> u64) \<Rightarrow> u64 \<Rightarrow> nat \<Rightarrow> u64 \<Rightarrow> u64 \<Rightarrow> u64 \<Rightarrow> u64" where
  "map_range f a k pa perm va =
     (if unat (va - a) < k * 4096 then PA2PTE (pa + (va - a)) OR perm OR PTE_V else f va)"

lemma page_aligned_diff: "page_aligned a \<Longrightarrow> page_aligned b \<Longrightarrow> page_aligned (a - b)"
proof -
  assume "page_aligned a" "page_aligned b"
  then have "4096 dvd unat a" "4096 dvd unat b" by (simp_all add: page_aligned_unat dvd_eq_mod_eq_0)
  moreover have "4096 dvd (2 ^ 64 :: nat)" by simp
  ultimately have "4096 dvd unat (a - b)" unfolding unat_sub_if' by (simp add: dvd_diff_nat)
  then show ?thesis by (simp add: page_aligned_unat)
qed

lemma aligned_range_Suc:
  assumes "page_aligned va" "page_aligned a" "k * 4096 < 2 ^ 40"
  shows "unat (va - a) < Suc k * 4096 \<longleftrightarrow> va = a \<or> unat (va - (a + PGSIZE)) < k * 4096"
proof -
  define d where "d = va - a"
  have "page_aligned d" using assms by (simp add: d_def page_aligned_diff)
  then obtain j where j: "unat d = 4096 * j"
    by (auto simp: page_aligned_unat dvd_eq_mod_eq_0 [symmetric])
  have "unat (d - PGSIZE) = (if j = 0 then 2 ^ 64 - 4096 else 4096 * j - 4096)"
    using j by (auto simp: unat_sub_if' PGSIZE_def unat_eq_0 [symmetric])
  moreover have "va = a \<longleftrightarrow> j = 0" using j by (auto simp: d_def unat_eq_0)
  moreover have e: "va - (a + PGSIZE) = d - PGSIZE" by (simp add: d_def)
  ultimately show ?thesis
    using j assms(3) unfolding e d_def [symmetric] by auto
qed

lemma map_range_Suc:
  assumes "page_aligned va" "page_aligned a" "k * 4096 < 2 ^ 40"
  shows "map_range f a (Suc k) pa perm va =
    map_range (\<lambda>v. if v = a then PA2PTE pa OR perm OR PTE_V else f v) (a + PGSIZE) k (pa + PGSIZE) perm va"
proof (cases "va = a")
  case True
  have "\<not> unat (a - (a + PGSIZE)) < k * 4096"
    using assms(3) by (simp add: PGSIZE_def)
  with True show ?thesis by (simp add: map_range_def)
next
  case False
  then show ?thesis
    using aligned_range_Suc [OF assms] by (auto simp: map_range_def algebra_simps)
qed

lemma set_leaf:
  fixes v :: u64
  assumes ok: "pt_ok t qs r" and p: "node (mem t) r (va_path a) = Some p"
    and a: "a < MAXVA" "page_aligned a"
  defines "u \<equiv> t\<lparr>mem := store64 (mem t) (p + 8 * PX 0 a) v\<rparr>"
  shows "pt_ok u qs r" "moved t qs u qs r" "pt_pages (mem u) r = pt_pages (mem t) r"
    "vb < MAXVA \<Longrightarrow> page_aligned vb \<Longrightarrow> lookup (mem u) r vb = (if vb = a then v else lookup (mem t) r vb)"
proof -
  have wf: "wf_pt (mem t) r" using ok by (simp add: pt_ok_def)
  note ls = leaf_store [OF wf p [unfolded va_path_def], where m' = "mem u" and v = v]
  have eq: "mem u = store64 (mem t) (p + 8 * PX 0 a) v" by (simp add: u_def)
  have pp: "p \<in> pt_pages (mem t) r" "page_aligned p"
    using pt_pagesI [OF _ p] wf_ptD(1) [OF wf] by (auto simp: va_path_def)
  have frame: "mem u x = mem t x" if "PGROUNDDOWN x \<noteq> p" for x
    using that pp PX_less by (simp add: eq store64_slot_outside)
  show pages: "pt_pages (mem u) r = pt_pages (mem t) r" by (rule ls(1) [OF eq])
  have inv: "kmem_inv t qs" using ok by (simp add: pt_ok_def)
  have "kmem_inv u qs"
  proof (rule kmem_inv_frame [OF inv])
    show "mem u x = mem t x" if "PGROUNDDOWN x \<in> set qs" for x
      using that frame pp(1) pt_ok_disjoint [OF ok] by metis
  qed (simp_all add: u_def)
  then show "pt_ok u qs r"
    using ok ls(2) [OF eq] pages by (simp add: pt_ok_def u_def)
  show "moved t qs u qs r"
    unfolding moved_def pages using frame pp(1) by (fastforce simp: same_rest_def u_def)
  show "lookup (mem u) r vb = (if vb = a then v else lookup (mem t) r vb)"
    if "vb < MAXVA" "page_aligned vb"
    using ls(3) [OF eq, of vb] PX_inject [OF that(1) a(1) that(2) a(2)] by auto
qed

lemma lookup_slot: "node m r (va_path va) = Some p \<Longrightarrow> load64 m (p + 8 * PX 0 va) = lookup m r va"
  by (simp add: lookup_def va_path_def)

text \<open>What \<^verbatim>\<open>mappages\<close> establishes: on success the whole range is mapped; on failure the free
  list is empty and a proper prefix of the range is mapped.\<close>

definition map_post :: "u64 \<Rightarrow> u64 \<Rightarrow> nat \<Rightarrow> u64 \<Rightarrow> u64 \<Rightarrow> 'a kmem_state_scheme \<Rightarrow> u64 list \<Rightarrow> int \<Rightarrow>
    'a kmem_state_scheme \<Rightarrow> bool" where
  "map_post r a n pa perm s ps rc t \<longleftrightarrow> (\<exists>qs k. pt_ok t qs r \<and> moved s ps t qs r \<and>
     (if rc = 0 then k = n else rc = - 1 \<and> k < n \<and> qs = []) \<and>
     (\<forall>va. va < MAXVA \<longrightarrow> page_aligned va \<longrightarrow>
       lookup (mem t) r va = map_range (lookup (mem s) r) a k pa perm va))"

lemma map_range_0 [simp]: "map_range f a 0 pa perm va = f va"
  by (simp add: map_range_def)

lemma MAXVA_unat: "va < MAXVA \<longleftrightarrow> unat va < 2 ^ 38"
  by (simp add: MAXVA_def word_less_nat_alt push_bit_of_1)

lemma map_range_cong:
  "(\<not> unat (va - a) < k * 4096 \<Longrightarrow> f va = g va) \<Longrightarrow> map_range f a k pa perm va = map_range g a k pa perm va"
  by (simp add: map_range_def)

lemma map_post_step:
  assumes a: "page_aligned a" "a < MAXVA" "n * 4096 < 2 ^ 38"
    and mv: "moved s ps u us r"
    and look: "\<And>va. va < MAXVA \<Longrightarrow> page_aligned va \<Longrightarrow>
      lookup (mem u) r va = (if va = a then PA2PTE pa OR perm OR PTE_V else lookup (mem s) r va)"
    and rest: "map_post r (a + PGSIZE) n (pa + PGSIZE) perm u us rc t"
  shows "map_post r a (Suc n) pa perm s ps rc t"
proof -
  from rest obtain qs k where t: "pt_ok t qs r" "moved u us t qs r"
    "if rc = 0 then k = n else rc = - 1 \<and> k < n \<and> qs = []"
    "\<And>va. va < MAXVA \<Longrightarrow> page_aligned va \<Longrightarrow>
       lookup (mem t) r va = map_range (lookup (mem u) r) (a + PGSIZE) k (pa + PGSIZE) perm va"
    by (auto simp: map_post_def)
  have "k \<le> n" using t(3) by (auto split: if_splits)
  then have k: "k * 4096 < 2 ^ 40" using a(3) by simp
  have "lookup (mem t) r va = map_range (lookup (mem s) r) a (Suc k) pa perm va"
    if va: "va < MAXVA" "page_aligned va" for va
    unfolding map_range_Suc [OF va(2) a(1) k] t(4) [OF va]
    by (rule map_range_cong) (simp add: look va)
  with t(1,3) moved_trans [OF mv t(2)] show ?thesis
    by (auto simp: map_post_def intro!: exI [of _ qs] exI [of _ "Suc k"] split: if_splits)
qed

lemma mappages_from_eq:
  "mappages_from r a lst pa perm =
     kbind (walk r a True) (\<lambda>ptep.
     if ptep = 0 then kret (- 1)
     else kbind (load_word ptep) (\<lambda>pte.
       if pte AND PTE_V \<noteq> 0 then kpanic ''mappages: remap''
       else kdo (set_mem (\<lambda>m. store64 m ptep (PA2PTE pa OR perm OR PTE_V)))
         (if a = lst then kret 0 else mappages_from r (a + PGSIZE) lst (pa + PGSIZE) perm)))"
  by (rule ext, subst mappages_from.simps) (rule refl)

lemma mappages_step:
  assumes ok: "pt_ok s ps r" and a: "page_aligned a" "a < MAXVA"
    and free: "lookup (mem s) r a AND PTE_V = 0"
    and fail: "\<And>t. pt_ok t [] r \<Longrightarrow> grown s ps t [] r \<Longrightarrow> Q (- 1) t"
    and cont: "\<And>u us. pt_ok u us r \<Longrightarrow> moved s ps u us r \<Longrightarrow>
      (\<And>va. va < MAXVA \<Longrightarrow> page_aligned va \<Longrightarrow> lookup (mem u) r va =
        (if va = a then PA2PTE pa OR perm OR PTE_V else lookup (mem s) r va)) \<Longrightarrow>
      wp (if a = lst then kret 0 else mappages_from r (a + PGSIZE) lst (pa + PGSIZE) perm) Q u"
  shows "wp (mappages_from r a lst pa perm) Q s"
proof -
  from walk_alloc [OF ok a(2)] obtain ptep t qs where w: "walk r a True s = Done ptep t"
    and t: "pt_ok t qs r" "grown s ps t qs r"
    and slot: "if ptep = 0 then qs = [] else \<exists>p. node (mem t) r (va_path a) = Some p \<and> ptep = p + 8 * PX 0 a"
    by (auto simp: wp_iff walk_post_def)
  show ?thesis
  proof (cases "ptep = 0")
    case True
    with slot t fail show ?thesis
      by (subst mappages_from_eq) (simp add: wp_Done [where m = "walk r a True", OF w] wp_simps)
  next
    case False
    with slot obtain p where p: "node (mem t) r (va_path a) = Some p" "ptep = p + 8 * PX 0 a" by auto
    let ?u = "t\<lparr>mem := store64 (mem t) (p + 8 * PX 0 a) (PA2PTE pa OR perm OR PTE_V)\<rparr>"
    note leaf = set_leaf [OF t(1) p(1) a(2,1), where v = "PA2PTE pa OR perm OR PTE_V"]
    have "moved s ps ?u qs r"
      using t(2) leaf(2) moved_trans by (auto simp: grown_def)
    moreover have "lookup (mem ?u) r va = (if va = a then PA2PTE pa OR perm OR PTE_V else lookup (mem s) r va)"
      if "va < MAXVA" "page_aligned va" for va
      using leaf(4) [OF that] t(2) by (simp add: grown_def)
    ultimately have "wp (if a = lst then kret 0 else mappages_from r (a + PGSIZE) lst (pa + PGSIZE) perm) Q ?u"
      using leaf(1) by (intro cont)
    moreover have "load64 (mem t) ptep AND PTE_V = 0"
      using free t(2) lookup_slot [OF p(1)] p(2) by (simp add: grown_def)
    ultimately show ?thesis
      using False p(2)
      by (subst mappages_from_eq) (simp add: wp_Done [where m = "walk r a True", OF w] wp_simps)
  qed
qed

lemma unat_pages: "k * 4096 < 2 ^ 64 \<Longrightarrow> unat (of_nat k * PGSIZE) = k * 4096"
proof -
  assume k: "k * 4096 < 2 ^ 64"
  have "of_nat k * PGSIZE = of_nat (k * 4096)" by (simp add: PGSIZE_def)
  then show ?thesis by (simp only: unat_of_nat_u64 [OF k])
qed

lemma mappages_from_post:
  assumes "pt_ok s ps r" "page_aligned a" "unat a + n * 4096 < 2 ^ 38"
    "\<And>va. va < MAXVA \<Longrightarrow> page_aligned va \<Longrightarrow> unat (va - a) < Suc n * 4096 \<Longrightarrow> lookup (mem s) r va AND PTE_V = 0"
  shows "wp (mappages_from r a (a + of_nat n * PGSIZE) pa perm) (map_post r a (Suc n) pa perm s ps) s"
  using assms
proof (induction n arbitrary: s ps a pa)
  case 0
  show ?case
  proof (rule mappages_step [OF 0(1,2)])
    show "map_post r a (Suc 0) pa perm s ps (- 1) t" if "pt_ok t [] r" "grown s ps t [] r" for t
      using that by (auto simp: map_post_def grown_def intro!: exI [of _ "[]"] exI [of _ 0])
    fix u us
    assume u: "pt_ok u us r" "moved s ps u us r"
      and look: "\<And>va. va < MAXVA \<Longrightarrow> page_aligned va \<Longrightarrow> lookup (mem u) r va =
        (if va = a then PA2PTE pa OR perm OR PTE_V else lookup (mem s) r va)"
    have "map_post r a (Suc 0) pa perm s ps 0 u"
      using 0 u look by (intro map_post_step [OF 0(2) _ _ u(2) look])
        (auto simp: map_post_def MAXVA_unat moved_def)
    then show "wp (if a = a + of_nat 0 * PGSIZE then kret 0
      else mappages_from r (a + PGSIZE) (a + of_nat 0 * PGSIZE) (pa + PGSIZE) perm)
      (map_post r a (Suc 0) pa perm s ps) u"
      by (simp add: wp_simps)
  qed (use 0 in \<open>simp_all add: MAXVA_unat\<close>)
next
  case (Suc n)
  have up: "unat (a + PGSIZE) = unat a + 4096" "page_aligned (a + PGSIZE)"
    using Suc.prems(2,3) by (simp_all add: PGSIZE_def unat_word_ariths page_aligned_unat)
  show ?case
  proof (rule mappages_step [OF Suc.prems(1,2)])
    show "map_post r a (Suc (Suc n)) pa perm s ps (- 1) t" if "pt_ok t [] r" "grown s ps t [] r" for t
      using that by (auto simp: map_post_def grown_def intro!: exI [of _ "[]"] exI [of _ 0])
    fix u us
    assume u: "pt_ok u us r" "moved s ps u us r"
      and look: "\<And>va. va < MAXVA \<Longrightarrow> page_aligned va \<Longrightarrow> lookup (mem u) r va =
        (if va = a then PA2PTE pa OR perm OR PTE_V else lookup (mem s) r va)"
    have lim: "a + of_nat (Suc n) * PGSIZE = a + PGSIZE + of_nat n * PGSIZE"
      by (simp add: algebra_simps)
    have "unat (of_nat (Suc n) * PGSIZE) = Suc n * 4096"
      using Suc.prems(3) by (intro unat_pages) simp
    then have "a \<noteq> a + of_nat (Suc n) * PGSIZE" by auto
    moreover have "wp (mappages_from r (a + PGSIZE) (a + PGSIZE + of_nat n * PGSIZE) (pa + PGSIZE) perm)
      (map_post r (a + PGSIZE) (Suc n) (pa + PGSIZE) perm u us) u"
    proof (rule Suc.IH [OF u(1) up(2)])
      show "unat (a + PGSIZE) + n * 4096 < 2 ^ 38" using Suc.prems(3) up by simp
      show "lookup (mem u) r va AND PTE_V = 0"
        if va: "va < MAXVA" "page_aligned va" "unat (va - (a + PGSIZE)) < Suc n * 4096" for va
      proof -
        have "va \<noteq> a" using va(3) Suc.prems(3) by (auto simp: PGSIZE_def)
        moreover have "unat (va - a) < Suc (Suc n) * 4096"
          using aligned_range_Suc [OF va(2) Suc.prems(2), of "Suc n"] va(3) Suc.prems(3) by simp
        ultimately show ?thesis using Suc.prems(4) va look by simp
      qed
    qed
    ultimately show "wp (if a = a + of_nat (Suc n) * PGSIZE then kret 0
      else mappages_from r (a + PGSIZE) (a + of_nat (Suc n) * PGSIZE) (pa + PGSIZE) perm)
      (map_post r a (Suc (Suc n)) pa perm s ps) u"
      unfolding lim using map_post_step [OF Suc.prems(2) _ _ u(2) look] Suc.prems(3)
      by (auto simp: MAXVA_unat elim!: wp_mono)
  qed (use Suc.prems in \<open>simp_all add: MAXVA_unat\<close>)
qed

text \<open>C2. On a well-formed page table, with \<open>n\<close> unmapped pages from the aligned address \<open>va\<close> on
  below \<^verbatim>\<open>MAXVA\<close>, \<^verbatim>\<open>mappages\<close> returns 0 or -1. On 0 exactly these pages are mapped to
  consecutive physical pages with the given permissions and every other entry is unchanged; on -1
  the free list is empty and only a proper prefix is mapped. In both cases the table stays well formed,
  the free list and the tables together have the pages they had before, and no other memory changes.\<close>

theorem mappages_correct:
  assumes "pt_ok s ps r" "page_aligned va" "0 < n" "unat va + n * 4096 \<le> 2 ^ 38"
    and unmapped: "\<forall>v. v < MAXVA \<and> page_aligned v \<and> unat (v - va) < n * 4096 \<longrightarrow> lookup (mem s) r v AND PTE_V = 0"
  shows "wp (mappages r va (of_nat n * PGSIZE) pa perm) (map_post r va n pa perm s ps) s"
proof -
  obtain k where n: "n = Suc k" using assms(3) gr0_conv_Suc by auto
  have size: "unat (of_nat n * PGSIZE) = n * 4096"
    using assms(4) by (intro unat_pages) simp
  have "va mod PGSIZE = 0" "(of_nat n * PGSIZE) mod PGSIZE = 0" "of_nat n * PGSIZE \<noteq> 0"
    using assms(2,3) size page_aligned_unat [of "of_nat n * PGSIZE"]
    by (auto simp: page_aligned_def unat_eq_0 [symmetric])
  moreover have lim: "va + of_nat n * PGSIZE - PGSIZE = va + of_nat k * PGSIZE"
    by (simp add: n algebra_simps)
  moreover have "wp (mappages_from r va (va + of_nat k * PGSIZE) pa perm) (map_post r va (Suc k) pa perm s ps) s"
    using assms(4) unmapped by (intro mappages_from_post [OF assms(1,2)]) (auto simp: n)
  ultimately show ?thesis
    unfolding mappages_def lim n [symmetric] by simp
qed

text \<open>A root page without entries, as \<^verbatim>\<open>uvmcreate\<close> makes it.\<close>

lemma empty_root:
  assumes zero: "\<And>i. i < 512 \<Longrightarrow> load64 m (r + 8 * i) = 0" and r: "page_aligned r" "r \<noteq> 0" "r < PHYSTOP"
  shows "pt_pages m r = {r}" "wf_pt m r" "lookup m r va = 0"
proof -
  have n: "node m r is = (if is = [] then Some r else None)" if "path_ok is" for "is"
    using that zero by (cases "is") (auto simp: path_ok_def node.simps(2) Let_def)
  show pages: "pt_pages m r = {r}"
    unfolding pt_pages_def using n by (auto split: if_splits intro: exI [of _ "[]"])
  show "wf_pt m r"
    unfolding wf_pt_def pages using n r by (auto split: if_splits)
  show "lookup m r va = 0"
    using n [of "[PX 2 va, PX 1 va]"] by (simp add: lookup_def)
qed

lemma two_pages_zero:
  "i < 512 \<Longrightarrow> load64 (mem two_pages) (0x80024000 + 8 * i) = 0"
proof -
  assume i: "i < 512"
  have al: "page_aligned 0x80022000" "page_aligned 0x80024000"
    by (simp_all add: page_aligned_unat)
  have "load64 (store64 (\<lambda>_. 0) (0x80022000 + 8 * 0) 0x80023000) (0x80024000 + 8 * i) =
      load64 (\<lambda>_. 0) (0x80024000 + 8 * i)"
    by (subst load64_slot [OF al _ i]) simp_all
  then show ?thesis
    by (simp add: two_pages_def) (simp add: load64_def load_bytes_def map_replicate_const)
qed

lemma two_pages_root: "pt_ok two_pages [0x80022000, 0x80023000] 0x80024000"
  and two_pages_lookup: "lookup (mem two_pages) 0x80024000 va = 0"
proof -
  have r: "page_aligned 0x80024000" "(0x80024000 :: u64) \<noteq> 0" "0x80024000 < PHYSTOP"
    by (simp_all add: page_aligned_unat layout_defs)
  note root = empty_root [OF two_pages_zero r]
  show "pt_ok two_pages [0x80022000, 0x80023000] 0x80024000"
    using two_pages_inv root(1,2) by (simp add: pt_ok_def) (simp add: two_pages_def)
  show "lookup (mem two_pages) 0x80024000 va = 0"
    by (rule root(3))
qed

theorem mappages_correct_witness:
  "pt_ok two_pages [0x80022000, 0x80023000] 0x80024000 \<and>
   wp (mappages 0x80024000 0x1000 (of_nat 1 * PGSIZE) 0x80030000 (PTE_R OR PTE_U))
     (map_post 0x80024000 0x1000 1 0x80030000 (PTE_R OR PTE_U) two_pages [0x80022000, 0x80023000]) two_pages"
  using mappages_correct [OF two_pages_root, of "0x1000" 1 "0x80030000" "PTE_R OR PTE_U"] two_pages_root
  by (simp add: two_pages_lookup page_aligned_unat)

end
