(* ===== verification/Uvm.thy ===== *)
theory Uvm
  imports Page_Table "HOL-Library.Multiset"
begin

section \<open>User address spaces\<close>

text \<open>
  The functions of \<^verbatim>\<open>vm.c\<close> that give pages to a process and take them back, over the map
  view of page tables. \<open>own s ps r us\<close> says that the free list \<open>ps\<close>, the table pages of \<open>r\<close>
  and the pages \<open>us\<close> are disjoint and well formed; \<open>leaves m r a us\<close> that consecutive leaf
  entries from \<open>a\<close> on map the pages \<open>us\<close>.
\<close>

definition own :: "'a kmem_state_scheme \<Rightarrow> u64 list \<Rightarrow> u64 \<Rightarrow> u64 list \<Rightarrow> bool" where
  "own s ps r us \<longleftrightarrow> pt_ok s ps r \<and> distinct us \<and>
     (\<forall>u \<in> set us. managed s u \<and> u \<notin> set ps \<and> u \<notin> pt_pages (mem s) r)"

definition leaf_pte :: "u64 \<Rightarrow> bool" where
  "leaf_pte pte \<longleftrightarrow> pte AND PTE_V \<noteq> 0 \<and> PTE_FLAGS pte \<noteq> PTE_V"

fun leaves :: "memory \<Rightarrow> u64 \<Rightarrow> u64 \<Rightarrow> u64 list \<Rightarrow> bool" where
  "leaves m r a [] \<longleftrightarrow> True"
| "leaves m r a (u # us) \<longleftrightarrow> leaf_pte (lookup m r a) \<and> PTE2PA (lookup m r a) = u \<and>
     leaves m r (a + PGSIZE) us"

text \<open>Entries of \<open>k\<close> pages from \<open>a\<close> on cleared.\<close>

definition clear_range :: "(u64 \<Rightarrow> u64) \<Rightarrow> u64 \<Rightarrow> nat \<Rightarrow> u64 \<Rightarrow> u64" where
  "clear_range f a k va = (if unat (va - a) < k * 4096 then 0 else f va)"

lemma lookup_valid_node:
  "lookup m r va AND PTE_V \<noteq> 0 \<Longrightarrow> \<exists>p. node m r (va_path va) = Some p"
  by (cases "node m r (va_path va)") (auto simp: lookup_def va_path_def)

lemma managed_same: "syms (hw s) = syms (hw t) \<Longrightarrow> managed s u \<longleftrightarrow> managed t u"
  by (simp add: managed_def)

lemma same_rest_syms: "same_rest s t \<Longrightarrow> syms (hw t) = syms (hw s)"
  using settle_cong(3) [of "hw t" "hw s"] by (simp add: same_rest_def)

lemma same_rest_lock: "same_rest s t \<Longrightarrow> can_lock l t \<longleftrightarrow> can_lock l s"
  using settle_cong(1,2) [of "hw t" "hw s"] by (simp add: same_rest_def)

text \<open>Freeing one page that is neither free nor a table page.\<close>

lemma kfree_own:
  assumes own: "own s ps r (u # us)"
  shows "wp (kfree u) (\<lambda>_ t. own t (u # ps) r us \<and> same_rest s t \<and>
    pt_pages (mem t) r = pt_pages (mem s) r \<and> (\<forall>va. lookup (mem t) r va = lookup (mem s) r va) \<and>
    (\<forall>is. path_ok is \<longrightarrow> node (mem t) r is = node (mem s) r is) \<and>
    (\<forall>x. PGROUNDDOWN x \<noteq> u \<longrightarrow> mem t x = mem s x)) s"
proof -
  have ok: "pt_ok s ps r" and u: "managed s u" "u \<notin> set ps" "u \<notin> pt_pages (mem s) r"
    and us: "u \<notin> set us" "distinct us" "\<forall>v \<in> set us. managed s v \<and> v \<notin> set ps \<and> v \<notin> pt_pages (mem s) r"
    using own by (auto simp: own_def)
  have inv: "kmem_inv s ps" and lock: "can_lock KmemLock s" and wf: "wf_pt (mem s) r"
    and dis: "set ps \<inter> pt_pages (mem s) r = {}"
    using ok by (simp_all add: pt_ok_def)
  let ?t = "s\<lparr>hw := settle (hw s), mem := store64 (fill_page (mem s) u 1) u (kmem_freelist s),
    kmem_freelist := u\<rparr>"
  have al: "page_aligned u" using u(1) by (simp add: managed_def)
  have frame: "\<forall>x. PGROUNDDOWN x \<noteq> u \<longrightarrow> mem ?t x = mem s x"
    using al by (simp add: store64_outside_page fill_page_outside)
  then have pt: "\<forall>x. PGROUNDDOWN x \<in> pt_pages (mem s) r \<longrightarrow> mem ?t x = mem s x"
    using u(3) by metis
  have inv': "kmem_inv ?t (u # ps)"
    by (rule kfree_inv [OF inv u(1)]) (use u in simp_all)
  note fr = pt_frame [OF wf pt] and nd = node_frame [OF wf pt]
  have "own ?t (u # ps) r us"
    unfolding own_def pt_ok_def fr(1)
    using inv' lock fr(2) dis u us managed_same [of s ?t] by auto
  moreover have "same_rest s ?t" by (simp add: same_rest_def)
  ultimately show ?thesis
    using frame fr nd kfree_Done [OF u(1) lock] by (auto simp: wp_iff)
qed

lemma set_leaf_own:
  assumes own: "own s ps r us" and p: "node (mem s) r (va_path a) = Some p"
    and a: "a < MAXVA" "page_aligned a"
  shows "own (s\<lparr>mem := store64 (mem s) (p + 8 * PX 0 a) v\<rparr>) ps r us"
proof -
  have ok: "pt_ok s ps r" using own by (simp add: own_def)
  note leaf = set_leaf [OF ok p a, where v = v]
  show ?thesis
    using own leaf(1,3) by (simp add: own_def managed_def)
qed

subsection \<open>Unmapping\<close>

definition unmap_post :: "u64 \<Rightarrow> u64 \<Rightarrow> u64 list \<Rightarrow> u64 list \<Rightarrow> 'a kmem_state_scheme \<Rightarrow> u64 list \<Rightarrow>
    'a kmem_state_scheme \<Rightarrow> bool" where
  "unmap_post r a us vs s ps t \<longleftrightarrow> own t (rev us @ ps) r vs \<and> same_rest s t \<and>
     pt_pages (mem t) r = pt_pages (mem s) r \<and>
     (\<forall>va. va < MAXVA \<longrightarrow> page_aligned va \<longrightarrow>
       lookup (mem t) r va = clear_range (lookup (mem s) r) a (length us) va) \<and>
     (\<forall>x. PGROUNDDOWN x \<notin> set us \<union> pt_pages (mem s) r \<longrightarrow> mem t x = mem s x)"

lemma uvmunmap_from_eq:
  "uvmunmap_from r a lim do_free =
     (if a < lim then
       kbind (walk r a False) (\<lambda>ptep.
       if ptep = 0 then kpanic ''uvmunmap: walk''
       else kbind (load_word ptep) (\<lambda>pte.
         if pte AND PTE_V = 0 then kpanic ''uvmunmap: not mapped''
         else if PTE_FLAGS pte = PTE_V then kpanic ''uvmunmap: not a leaf''
         else kdo (kwhen do_free (kfree (PTE2PA pte)))
           (kdo (set_mem (\<lambda>m. store64 m ptep 0))
           (uvmunmap_from r (a + PGSIZE) lim do_free))))
      else kret ())"
  by (rule ext, subst uvmunmap_from.simps) (simp add: kret_def)

lemma clear_range_Suc:
  assumes "page_aligned va" "page_aligned a" "k * 4096 < 2 ^ 40"
  shows "clear_range f a (Suc k) va = clear_range (\<lambda>v. if v = a then 0 else f v) (a + PGSIZE) k va"
  using aligned_range_Suc [OF assms] by (auto simp: clear_range_def)

lemma leaves_cong:
  assumes "leaves m r a us" "page_aligned a" "unat a + length us * 4096 \<le> 2 ^ 38"
    "\<And>va. va < MAXVA \<Longrightarrow> page_aligned va \<Longrightarrow> a \<le> va \<Longrightarrow> lookup m' r va = lookup m r va"
  shows "leaves m' r a us"
  using assms
proof (induction us arbitrary: a)
  case (Cons u us)
  have up: "unat (a + PGSIZE) = unat a + 4096" "page_aligned (a + PGSIZE)"
    using Cons.prems(2,3) by (simp_all add: PGSIZE_def unat_word_ariths page_aligned_unat)
  have "leaves m' r (a + PGSIZE) us"
    by (rule Cons.IH) (use Cons.prems up in \<open>auto simp: word_le_nat_alt\<close>)
  moreover have "lookup m' r a = lookup m r a"
    using Cons.prems(2-4) by (simp add: MAXVA_unat)
  ultimately show ?case using Cons.prems(1) by simp
qed simp

lemma word_less_add_pos:
  fixes a b :: u64
  assumes "unat a + unat b < 2 ^ 64" "0 < unat b"
  shows "a < a + b"
  using assms by (simp add: word_less_nat_alt unat_add_lem [THEN iffD1])

lemma unmap_post_step:
  assumes a: "page_aligned a" "a < MAXVA" "length us * 4096 < 2 ^ 40"
    and t: "same_rest s t" "pt_pages (mem t) r = pt_pages (mem s) r"
      "\<And>va. va < MAXVA \<Longrightarrow> page_aligned va \<Longrightarrow> lookup (mem t) r va = (if va = a then 0 else lookup (mem s) r va)"
      "\<And>x. PGROUNDDOWN x \<notin> insert u (pt_pages (mem s) r) \<Longrightarrow> mem t x = mem s x"
    and post: "unmap_post r (a + PGSIZE) us vs t (u # ps) t'"
  shows "unmap_post r a (u # us) vs s ps t'"
proof -
  have "lookup (mem t') r va = clear_range (lookup (mem s) r) a (Suc (length us)) va"
    if va: "va < MAXVA" "page_aligned va" for va
    using post va t(3) [OF va]
    unfolding clear_range_Suc [OF va(2) a(1,3)] by (auto simp: unmap_post_def clear_range_def)
  moreover have "same_rest s t'"
    using post t(1) by (auto simp: unmap_post_def intro: same_rest_trans)
  ultimately show ?thesis
    using post t(2,4) by (simp add: unmap_post_def)
qed

lemma uvmunmap_from_post:
  assumes "own s ps r (us @ vs)" "page_aligned a" "unat a + length us * 4096 \<le> 2 ^ 38"
    "leaves (mem s) r a us"
  shows "wp (uvmunmap_from r a (a + of_nat (length us) * PGSIZE) True) (\<lambda>_. unmap_post r a us vs s ps) s"
  using assms
proof (induction us arbitrary: s ps a)
  case Nil
  then show ?case
    by (subst uvmunmap_from_eq) (simp add: wp_simps unmap_post_def clear_range_def)
next
  case (Cons u us)
  have up: "unat (a + PGSIZE) = unat a + 4096" "page_aligned (a + PGSIZE)" "a < MAXVA"
    using Cons.prems(2,3) by (simp_all add: PGSIZE_def unat_word_ariths page_aligned_unat MAXVA_unat)
  have len: "unat (of_nat (length (u # us)) * PGSIZE) = length (u # us) * 4096"
    using Cons.prems(3) by (intro unat_pages) simp
  define lim where "lim = a + of_nat (length (u # us)) * PGSIZE"
  have lim: "a < lim" unfolding lim_def
    using word_less_add_pos [of a "of_nat (length (u # us)) * PGSIZE"] len Cons.prems(3) by simp
  have lim': "lim = a + PGSIZE + of_nat (length us) * PGSIZE"
    by (simp add: lim_def algebra_simps)
  let ?pte = "lookup (mem s) r a"
  have pte: "?pte AND PTE_V \<noteq> 0" "PTE_FLAGS ?pte \<noteq> PTE_V" "PTE2PA ?pte = u"
    using Cons.prems(4) by (simp_all add: leaf_pte_def)
  obtain p where p: "node (mem s) r (va_path a) = Some p"
    using lookup_valid_node [OF pte(1)] by blast
  have wf: "wf_pt (mem s) r" using Cons.prems(1) by (simp add: own_def pt_ok_def)
  have pp: "p \<in> pt_pages (mem s) r" using p by (intro pt_pagesI [rotated]) (auto simp: va_path_def)
  have slot: "p + 8 * PX 0 a \<noteq> 0"
    using wf_ptD(1,2) [OF wf pp] PX_less by (intro slot_nonzero)
  have walk: "walk r a False s = Done (p + 8 * PX 0 a) s"
    using p walk_find [OF up(3), of r s] by (simp add: va_path_def)
  have "wp (kfree u) (\<lambda>_ t. wp (set_mem (\<lambda>m. store64 m (p + 8 * PX 0 a) 0))
      (\<lambda>_ t. wp (uvmunmap_from r (a + PGSIZE) lim True)
        (\<lambda>_. unmap_post r a (u # us) vs s ps) t) t) s"
  proof -
    from kfree_own [of s ps r u "us @ vs"] Cons.prems(1) obtain t where kf: "kfree u s = Done () t"
      and t: "own t (u # ps) r (us @ vs)" "same_rest s t" "pt_pages (mem t) r = pt_pages (mem s) r"
        "\<And>va. lookup (mem t) r va = lookup (mem s) r va" "node (mem t) r (va_path a) = Some p"
        "\<And>x. PGROUNDDOWN x \<noteq> u \<Longrightarrow> mem t x = mem s x"
      using p by (auto simp: wp_iff va_path_def)
    let ?w = "t\<lparr>mem := store64 (mem t) (p + 8 * PX 0 a) 0\<rparr>"
    have ok: "pt_ok t (u # ps) r" using t(1) by (simp add: own_def)
    note leaf = set_leaf [OF ok t(5) up(3) Cons.prems(2), where v = 0]
    have look: "lookup (mem ?w) r va = (if va = a then 0 else lookup (mem s) r va)"
      if "va < MAXVA" "page_aligned va" for va
      using leaf(4) [OF that] t(4) by simp
    have "leaves (mem s) r (a + PGSIZE) us" using Cons.prems(4) by simp
    then have "leaves (mem ?w) r (a + PGSIZE) us"
    proof (rule leaves_cong [OF _ up(2)])
      show "lookup (mem ?w) r va = lookup (mem s) r va"
        if "va < MAXVA" "page_aligned va" "a + PGSIZE \<le> va" for va
        using look [OF that(1,2)] that(3) up(1) by (auto simp: word_le_nat_alt)
    qed (use up Cons.prems(3) in simp)
    then have "wp (uvmunmap_from r (a + PGSIZE) lim True)
        (\<lambda>_. unmap_post r (a + PGSIZE) us vs ?w (u # ps)) ?w"
      unfolding lim' using Cons.prems(3) up set_leaf_own [OF t(1,5) up(3) Cons.prems(2)]
      by (intro Cons.IH) simp_all
    moreover have "unmap_post r a (u # us) vs s ps t'" if "unmap_post r (a + PGSIZE) us vs ?w (u # ps) t'" for t'
    proof (rule unmap_post_step [OF Cons.prems(2) up(3) _ _ _ look _ that])
      show "mem ?w x = mem s x" if "PGROUNDDOWN x \<notin> insert u (pt_pages (mem s) r)" for x
      proof -
        have "PGROUNDDOWN x \<noteq> p" "PGROUNDDOWN x \<noteq> u" using that pp by auto
        then show ?thesis using t(6) wf_ptD(1) [OF wf pp] PX_less by (simp add: store64_slot_outside)
      qed
    qed (use Cons.prems(3) t leaf(2,3) in \<open>auto simp: same_rest_def\<close>)
    ultimately show ?thesis
      using kf by (auto simp: wp_simps wp_Done elim: wp_mono)
  qed
  then show ?case
    unfolding lim_def [symmetric] using lim pte lookup_slot [OF p]
    by (subst uvmunmap_from_eq) (simp add: wp_simps wp_Done [where m = "walk r a False", OF walk] slot)
qed

lemma uvmunmap_post:
  assumes "own s ps r (us @ vs)" "page_aligned a" "unat a + length us * 4096 \<le> 2 ^ 38"
    "leaves (mem s) r a us"
  shows "wp (uvmunmap r a (of_nat (length us)) True) (\<lambda>_. unmap_post r a us vs s ps) s"
  using uvmunmap_from_post [OF assms] assms(2) by (simp add: uvmunmap_def page_aligned_def)

lemma unmap_post_Nil: "own s ps r vs \<Longrightarrow> unmap_post r a [] vs s ps s"
  by (simp add: unmap_post_def clear_range_def)

text \<open>The page count of \<^verbatim>\<open>uvmdealloc\<close> survives its conversion to \<^verbatim>\<open>int\<close> and back.\<close>

lemma small_int_round: "q < 2 ^ 31 \<Longrightarrow> (scast (ucast (of_nat q :: u64) :: 32 word) :: u64) = of_nat q"
proof -
  assume q: "q < 2 ^ 31"
  have "\<not> bit q n" if "31 \<le> n" for n
    using that q by (metis bit_take_bit_iff not_le take_bit_nat_eq_self)
  then show ?thesis
    by (intro bit_word_eqI) (auto simp: bit_simps min_def)
qed

lemma page_count:
  fixes a b :: u64
  assumes "unat a + k * 4096 = unat b"
  shows "(b - a) div PGSIZE = of_nat k"
proof -
  from assms have "unat (b - a) = k * 4096" by (simp add: unat_sub_if')
  moreover have "k < 2 ^ 64" using assms unsigned_less [of b, where 'a = nat] by simp
  ultimately show ?thesis
    by (simp add: word_unat_eq_iff unat_div_distrib PGSIZE_def unat_of_nat_u64)
qed

lemma uvmdealloc_post:
  assumes "own s ps r (us @ vs)" "newsz < oldsz" "unat oldsz \<le> 2 ^ 38"
    "unat (PGROUNDUP newsz) + length us * 4096 = unat (PGROUNDUP oldsz)"
    "leaves (mem s) r (PGROUNDUP newsz) us"
  shows "wp (uvmdealloc r oldsz newsz) (\<lambda>v t. v = newsz \<and> unmap_post r (PGROUNDUP newsz) us vs s ps t) s"
proof -
  have up: "unat (PGROUNDUP oldsz) \<le> 2 ^ 38"
    using assms(3) by (subst unat_PGROUNDUP) simp_all
  note diff = page_count [OF assms(4)]
  have lt: "\<not> oldsz \<le> newsz" using assms(2) by simp
  show ?thesis
  proof (cases "us = []")
    case True
    then have "\<not> PGROUNDUP newsz < PGROUNDUP oldsz"
      using assms(4) by (simp add: word_less_nat_alt)
    with True assms(1) lt show ?thesis
      by (simp add: uvmdealloc_def wp_simps unmap_post_Nil)
  next
    case False
    then have "PGROUNDUP newsz < PGROUNDUP oldsz"
      using assms(4) by (cases us) (simp_all add: word_less_nat_alt)
    moreover have "length us < 2 ^ 31" using assms(4) up by simp
    ultimately show ?thesis
      using lt uvmunmap_post [OF assms(1) _ _ assms(5)] assms(4) up
      by (simp add: uvmdealloc_def wp_simps diff small_int_round Let_def)
  qed
qed

subsection \<open>Growing\<close>

text \<open>The table after mapping the pages \<open>us\<close> at consecutive addresses from \<open>a\<close> on.\<close>

definition user_map :: "(u64 \<Rightarrow> u64) \<Rightarrow> u64 \<Rightarrow> u64 list \<Rightarrow> u64 \<Rightarrow> u64 \<Rightarrow> u64" where
  "user_map f a us perm va =
     (if unat (va - a) < length us * 4096
      then PA2PTE (us ! (unat (va - a) div 4096)) OR perm OR PTE_V else f va)"

text \<open>\<open>alloc_inv s ps r old perm vs us t qs\<close>: since \<open>s\<close> the pages \<open>us\<close> have been taken from the
  free list, zeroed and mapped from \<open>old\<close> on; table pages may have been taken too; nothing else has
  changed.\<close>

definition alloc_inv :: "'a kmem_state_scheme \<Rightarrow> u64 list \<Rightarrow> u64 \<Rightarrow> u64 \<Rightarrow> u64 \<Rightarrow> u64 list \<Rightarrow> u64 list \<Rightarrow>
    'a kmem_state_scheme \<Rightarrow> u64 list \<Rightarrow> bool" where
  "alloc_inv s ps r old perm vs us t qs \<longleftrightarrow> own t qs r (us @ vs) \<and> same_rest s t \<and>
     (\<forall>va. va < MAXVA \<longrightarrow> page_aligned va \<longrightarrow>
       lookup (mem t) r va = user_map (lookup (mem s) r) old us perm va) \<and>
     set qs \<union> pt_pages (mem t) r \<union> set us = set ps \<union> pt_pages (mem s) r \<and>
     pt_pages (mem s) r \<subseteq> pt_pages (mem t) r \<and>
     (\<forall>x. PGROUNDDOWN x \<notin> set ps \<union> pt_pages (mem s) r \<longrightarrow> mem t x = mem s x) \<and>
     (\<forall>x. PGROUNDDOWN x \<in> set us \<longrightarrow> mem t x = 0)"

lemma alloc_inv_start: "own s ps r vs \<Longrightarrow> alloc_inv s ps r old perm vs [] s ps"
  by (simp add: alloc_inv_def user_map_def)

lemma own_reorder: "own s ps r us \<Longrightarrow> mset vs = mset us \<Longrightarrow> own s ps r vs"
  unfolding own_def by (metis mset_eq_imp_distinct_iff mset_eq_setD)

text \<open>Taking one page and zeroing it.\<close>

lemma kalloc_zero_own:
  assumes own: "own t (q # qs) r us"
  defines "u \<equiv> t\<lparr>kmem_freelist := load64 (mem t) q, hw := settle (hw t), mem := fill_page (mem t) q 0\<rparr>"
  shows "own u qs r (q # us)" "same_rest t u" "pt_pages (mem u) r = pt_pages (mem t) r"
    "lookup (mem u) r va = lookup (mem t) r va" "PGROUNDDOWN x \<noteq> q \<Longrightarrow> mem u x = mem t x"
    "PGROUNDDOWN x = q \<Longrightarrow> mem u x = 0"
proof -
  have inv: "kmem_inv t (q # qs)" and lock: "can_lock KmemLock t" and wf: "wf_pt (mem t) r"
    and dis: "set (q # qs) \<inter> pt_pages (mem t) r = {}" and us: "distinct us"
      "\<forall>u \<in> set us. managed t u \<and> u \<notin> set (q # qs) \<and> u \<notin> pt_pages (mem t) r"
    using own by (simp_all add: own_def pt_ok_def)
  note q = kmem_invD [OF inv]
  show frame: "mem u x = mem t x" if "PGROUNDDOWN x \<noteq> q" for x
    using that q(1) by (simp add: u_def fill_page_outside)
  show "mem u x = 0" if "PGROUNDDOWN x = q"
    using that q(1) by (simp add: u_def fill_page_inside)
  show rest: "same_rest t u" by (simp add: u_def same_rest_def)
  have "\<forall>x. PGROUNDDOWN x \<in> pt_pages (mem t) r \<longrightarrow> mem u x = mem t x"
    using frame dis by (metis disjoint_iff list.set_intros(1))
  note pt = pt_frame [OF wf this]
  show "pt_pages (mem u) r = pt_pages (mem t) r" "lookup (mem u) r va = lookup (mem t) r va"
    by (rule pt(1), rule pt(3))
  let ?a = "t\<lparr>kmem_freelist := load64 (mem t) q, hw := settle (hw t), mem := fill_page (mem t) q 5\<rparr>"
  have inv_a: "kmem_inv ?a qs" by (rule kalloc_inv [OF inv]) simp_all
  have "kmem_inv u qs"
  proof (rule kmem_inv_frame [OF inv_a])
    show "mem u x = mem ?a x" if "PGROUNDDOWN x \<in> set qs" for x
    proof -
      have "PGROUNDDOWN x \<noteq> q" using that q(2) by auto
      then show ?thesis using frame q(1) by (simp add: fill_page_outside)
    qed
  qed (simp_all add: u_def)
  moreover have "managed u v = managed t v" for v by (simp add: managed_def u_def)
  moreover have "can_lock KmemLock u" using lock by (simp add: u_def)
  ultimately show "own u qs r (q # us)"
    unfolding own_def pt_ok_def pt(1) using pt(2) dis q us by auto
qed

lemma own_moved:
  assumes "own u qs r us" "pt_ok w ws r" "moved u qs w ws r"
  shows "own w ws r us"
proof -
  have "syms (hw w) = syms (hw u)" using assms(3) by (auto simp: moved_def dest: same_rest_syms)
  moreover have "set ws \<union> pt_pages (mem w) r = set qs \<union> pt_pages (mem u) r"
    using assms(3) by (simp add: moved_def)
  ultimately show ?thesis
    using assms(1,2) managed_same [of w u] unfolding own_def by (metis UnCI UnE)
qed

lemma leaves_nth:
  "leaves m r a us \<longleftrightarrow> (\<forall>j < length us. leaf_pte (lookup m r (a + of_nat j * PGSIZE)) \<and>
     PTE2PA (lookup m r (a + of_nat j * PGSIZE)) = us ! j)"
proof (induction us arbitrary: a)
  case (Cons u us)
  have "a + (1 + of_nat j) * PGSIZE = a + PGSIZE + of_nat j * PGSIZE" for j
    by (simp add: algebra_simps)
  then show ?case by (simp only: leaves.simps Cons.IH length_Cons All_less_Suc2 of_nat_Suc) simp
qed simp

lemma leaf_entry:
  assumes "page_aligned u" "\<And>n. bit perm n \<Longrightarrow> n < 10" "bit perm 1"
  shows "leaf_pte (PA2PTE u OR perm OR PTE_V)" "PTE2PA (PA2PTE u OR perm OR PTE_V) = u"
proof -
  let ?e = "PA2PTE u OR perm OR PTE_V"
  show "PTE2PA ?e = u"
    unfolding or.assoc by (rule PTE2PA_PA2PTE [OF assms(1)]) (auto simp: bit_or_iff dest: assms(2))
  have "bit (PTE_FLAGS ?e) 1" using assms(3) by (simp add: bit_PTE_FLAGS bit_or_iff)
  then have "PTE_FLAGS ?e \<noteq> PTE_V" by auto
  then show "leaf_pte ?e" by (simp add: leaf_pte_def pte_flag_test bit_or_iff)
qed

lemma leaves_user_map:
  assumes map: "\<And>va. va < MAXVA \<Longrightarrow> page_aligned va \<Longrightarrow> lookup m r va = user_map f old us perm va"
    and old: "page_aligned old" "unat old + length us * 4096 \<le> 2 ^ 38"
    and perm: "\<And>n. bit perm n \<Longrightarrow> n < 10" "bit perm 1" and us: "\<forall>u \<in> set us. page_aligned u"
  shows "leaves m r old us"
  unfolding leaves_nth
proof (intro allI impI)
  fix j
  assume j: "j < length us"
  then have off: "unat (of_nat j * PGSIZE) = j * 4096"
    using old(2) by (intro unat_pages) simp
  have "unat (old + of_nat j * PGSIZE) = unat old + j * 4096"
    using off old(2) j by (subst unat_add_lem [THEN iffD1]) simp_all
  then have "old + of_nat j * PGSIZE < MAXVA" "page_aligned (old + of_nat j * PGSIZE)"
    using old j by (simp_all add: MAXVA_unat page_aligned_unat)
  then have "lookup m r (old + of_nat j * PGSIZE) = PA2PTE (us ! j) OR perm OR PTE_V"
    using map j off by (simp add: user_map_def)
  then show "leaf_pte (lookup m r (old + of_nat j * PGSIZE)) \<and> PTE2PA (lookup m r (old + of_nat j * PGSIZE)) = us ! j"
    using leaf_entry [OF _ perm] us j by simp
qed

lemma aligned_end:
  assumes "page_aligned old" "unat old + k * 4096 \<le> 2 ^ 38"
  shows "unat (old + of_nat k * PGSIZE) = unat old + k * 4096" "page_aligned (old + of_nat k * PGSIZE)"
proof -
  have "unat (of_nat k * PGSIZE) = k * 4096" using assms(2) by (intro unat_pages) simp
  then show "unat (old + of_nat k * PGSIZE) = unat old + k * 4096"
    using assms(2) by (subst unat_add_lem [THEN iffD1]) simp_all
  then show "page_aligned (old + of_nat k * PGSIZE)" using assms(1) by (simp add: page_aligned_unat)
qed

lemma user_map_snoc:
  assumes va: "page_aligned va" and old: "page_aligned old" "unat old + length us * 4096 \<le> 2 ^ 38"
  shows "user_map f old (us @ [q]) perm va =
    map_range (user_map f old us perm) (old + of_nat (length us) * PGSIZE) 1 q perm va"
proof -
  let ?a = "old + of_nat (length us) * PGSIZE"
  have at: "unat (va - ?a) < 4096 \<longleftrightarrow> va = ?a"
    using in_page [OF aligned_end(2) [OF old], of va] va by simp
  have len: "unat (?a - old) = length us * 4096"
    using old(2) by (simp add: unat_pages)
  show ?thesis
  proof (cases "va = ?a")
    case True
    then show ?thesis using len by (simp add: user_map_def map_range_def)
  next
    case False
    have "page_aligned (va - old)" using va old by (simp add: page_aligned_diff)
    then obtain j where j: "unat (va - old) = 4096 * j"
      by (auto simp: page_aligned_unat dvd_eq_mod_eq_0 [symmetric])
    have "j \<noteq> length us"
    proof
      assume "j = length us"
      then have "va - old = ?a - old" using j len by (simp add: word_unat_eq_iff)
      then show False using False by (metis diff_add_cancel)
    qed
    then show ?thesis using at False j
      by (auto simp: user_map_def map_range_def nth_append)
  qed
qed

text \<open>The state after a failed \<^verbatim>\<open>uvmalloc\<close>: as before, except that some free pages may have
  become interior tables.\<close>

definition undone :: "'a kmem_state_scheme \<Rightarrow> u64 list \<Rightarrow> u64 \<Rightarrow> u64 list \<Rightarrow> 'a kmem_state_scheme \<Rightarrow> u64 list \<Rightarrow> bool" where
  "undone s ps r vs t qs \<longleftrightarrow> own t qs r vs \<and> same_rest s t \<and>
     (\<forall>va. va < MAXVA \<longrightarrow> page_aligned va \<longrightarrow> lookup (mem t) r va = lookup (mem s) r va) \<and>
     set qs \<union> pt_pages (mem t) r = set ps \<union> pt_pages (mem s) r \<and>
     pt_pages (mem s) r \<subseteq> pt_pages (mem t) r \<and>
     (\<forall>x. PGROUNDDOWN x \<notin> set ps \<union> pt_pages (mem s) r \<longrightarrow> mem t x = mem s x)"

lemma alloc_inv_undo:
  assumes inv: "alloc_inv s ps r old perm vs us t qs" and post: "unmap_post r old us vs t qs t'"
    and zero: "\<And>va. va < MAXVA \<Longrightarrow> page_aligned va \<Longrightarrow> unat (va - old) < length us * 4096 \<Longrightarrow> lookup (mem s) r va = 0"
  shows "undone s ps r vs t' (rev us @ qs)"
proof -
  have i: "same_rest s t"
    "\<And>va. va < MAXVA \<Longrightarrow> page_aligned va \<Longrightarrow> lookup (mem t) r va = user_map (lookup (mem s) r) old us perm va"
    "set qs \<union> pt_pages (mem t) r \<union> set us = set ps \<union> pt_pages (mem s) r"
    "pt_pages (mem s) r \<subseteq> pt_pages (mem t) r"
    "\<And>x. PGROUNDDOWN x \<notin> set ps \<union> pt_pages (mem s) r \<Longrightarrow> mem t x = mem s x"
    using inv unfolding alloc_inv_def by blast+
  have p: "own t' (rev us @ qs) r vs" "same_rest t t'" "pt_pages (mem t') r = pt_pages (mem t) r"
    "\<And>va. va < MAXVA \<Longrightarrow> page_aligned va \<Longrightarrow> lookup (mem t') r va = clear_range (lookup (mem t) r) old (length us) va"
    "\<And>x. PGROUNDDOWN x \<notin> set us \<union> pt_pages (mem t) r \<Longrightarrow> mem t' x = mem t x"
    using post unfolding unmap_post_def by blast+
  have "lookup (mem t') r va = lookup (mem s) r va" if "va < MAXVA" "page_aligned va" for va
    using i(2) [OF that] p(4) [OF that] zero [OF that] by (simp add: clear_range_def user_map_def)
  moreover have "mem t' x = mem s x" if x: "PGROUNDDOWN x \<notin> set ps \<union> pt_pages (mem s) r" for x
  proof -
    have "PGROUNDDOWN x \<notin> set us \<union> pt_pages (mem t) r" using x i(3) by blast
    then show ?thesis using p(5) i(5) [OF x] by simp
  qed
  moreover have "set (rev us @ qs) \<union> pt_pages (mem t') r = set ps \<union> pt_pages (mem s) r"
    unfolding p(3) i(3) [symmetric] by auto
  moreover have "same_rest s t'" using i(1) p(2) by (rule same_rest_trans)
  moreover have "pt_pages (mem s) r \<subseteq> pt_pages (mem t') r" unfolding p(3) by (rule i(4))
  ultimately show ?thesis using p(1) unfolding undone_def by blast
qed

text \<open>Mapping a fresh zeroed page at the end of the region.\<close>

lemma alloc_inv_grow:
  assumes inv: "alloc_inv s ps r old perm vs us t (q # qs)"
    and u: "u = t\<lparr>kmem_freelist := load64 (mem t) q, hw := settle (hw t), mem := fill_page (mem t) q 0\<rparr>"
    and old: "page_aligned old" "unat old + length us * 4096 \<le> 2 ^ 38"
    and map: "pt_ok w ws r" "moved u qs w ws r"
      "\<And>va. va < MAXVA \<Longrightarrow> page_aligned va \<Longrightarrow> lookup (mem w) r va =
         map_range (lookup (mem u) r) (old + of_nat (length us) * PGSIZE) 1 q perm va"
  shows "alloc_inv s ps r old perm vs (us @ [q]) w ws"
proof -
  have own_t: "own t (q # qs) r (us @ vs)" using inv by (simp add: alloc_inv_def)
  note z = kalloc_zero_own [OF own_t, folded u]
  have own_w: "own w ws r (q # us @ vs)"
    using own_moved [OF z(1) map(1,2)] by simp
  then have "own w ws r ((us @ [q]) @ vs)" by (rule own_reorder) simp
  moreover have "same_rest s w"
    using inv z(2) map(2) by (auto simp: alloc_inv_def moved_def intro: same_rest_trans)
  moreover have "lookup (mem w) r va = user_map (lookup (mem s) r) old (us @ [q]) perm va"
    if va: "va < MAXVA" "page_aligned va" for va
    unfolding user_map_snoc [OF va(2) old] map(3) [OF va]
    by (rule map_range_cong) (use inv va z(4) in \<open>simp add: alloc_inv_def\<close>)
  moreover have "set ws \<union> pt_pages (mem w) r \<union> set (us @ [q]) = set ps \<union> pt_pages (mem s) r"
    "pt_pages (mem s) r \<subseteq> pt_pages (mem w) r"
    using inv map(2) z(3) by (auto simp: alloc_inv_def moved_def)
  moreover have "mem w x = mem s x" if x: "PGROUNDDOWN x \<notin> set ps \<union> pt_pages (mem s) r" for x
  proof -
    have eq: "set (q # qs) \<union> pt_pages (mem t) r \<union> set us = set ps \<union> pt_pages (mem s) r"
      using inv by (simp add: alloc_inv_def)
    with x have "PGROUNDDOWN x \<notin> set qs \<union> pt_pages (mem u) r" "PGROUNDDOWN x \<noteq> q"
      using z(3) by auto
    then have "mem w x = mem t x" using map(2) z(5) by (simp add: moved_def)
    with x inv show ?thesis by (simp add: alloc_inv_def)
  qed
  moreover have "mem w x = 0" if x: "PGROUNDDOWN x \<in> set (us @ [q])" for x
  proof -
    have "PGROUNDDOWN x \<notin> set qs \<union> pt_pages (mem u) r"
      using x z(1) by (auto simp: own_def)
    then have "mem w x = mem u x" using map(2) by (simp add: moved_def)
    moreover have "mem u x = 0"
    proof (cases "PGROUNDDOWN x = q")
      case True
      then show ?thesis by (rule z(6))
    next
      case False
      with x inv z(5) show ?thesis by (simp add: alloc_inv_def)
    qed
    ultimately show ?thesis by simp
  qed
  ultimately show ?thesis unfolding alloc_inv_def by blast
qed

lemma alloc_invD:
  assumes "alloc_inv s ps r old perm vs us t qs"
  shows "own t qs r (us @ vs)" "same_rest s t"
    "va < MAXVA \<Longrightarrow> page_aligned va \<Longrightarrow> lookup (mem t) r va = user_map (lookup (mem s) r) old us perm va"
    "set qs \<union> pt_pages (mem t) r \<union> set us = set ps \<union> pt_pages (mem s) r"
    "pt_pages (mem s) r \<subseteq> pt_pages (mem t) r"
    "PGROUNDDOWN x \<notin> set ps \<union> pt_pages (mem s) r \<Longrightarrow> mem t x = mem s x"
    "PGROUNDDOWN x \<in> set us \<Longrightarrow> mem t x = 0"
  using assms unfolding alloc_inv_def by blast+

text \<open>When the page could not be mapped it is given back.\<close>

lemma alloc_inv_back:
  assumes inv: "alloc_inv s ps r old perm vs us t (q # qs)"
    and u: "u = t\<lparr>kmem_freelist := load64 (mem t) q, hw := settle (hw t), mem := fill_page (mem t) q 0\<rparr>"
    and map: "pt_ok w ws r" "moved u qs w ws r" "\<And>va. va < MAXVA \<Longrightarrow> page_aligned va \<Longrightarrow>
      lookup (mem w) r va = lookup (mem u) r va"
  shows "wp (kfree q) (\<lambda>_ w'. alloc_inv s ps r old perm vs us w' (q # ws)) w"
proof -
  note i = alloc_invD [OF inv]
  note z = kalloc_zero_own [OF i(1), folded u]
  have "own w ws r (q # us @ vs)" using own_moved [OF z(1) map(1,2)] by simp
  from kfree_own [OF this] obtain w' where k: "kfree q w = Done () w'"
    and w': "own w' (q # ws) r (us @ vs)" "same_rest w w'" "pt_pages (mem w') r = pt_pages (mem w) r"
      "\<And>va. lookup (mem w') r va = lookup (mem w) r va" "\<And>x. PGROUNDDOWN x \<noteq> q \<Longrightarrow> mem w' x = mem w x"
    by (auto simp: wp_iff)
  have mv: "same_rest u w" "set ws \<union> pt_pages (mem w) r = set qs \<union> pt_pages (mem u) r"
    "pt_pages (mem u) r \<subseteq> pt_pages (mem w) r"
    "\<And>x. PGROUNDDOWN x \<notin> set qs \<union> pt_pages (mem u) r \<Longrightarrow> mem w x = mem u x"
    using map(2) unfolding moved_def by blast+
  have outside: "mem w' x = mem t x" if "PGROUNDDOWN x \<noteq> q" "PGROUNDDOWN x \<notin> set qs \<union> pt_pages (mem t) r" for x
    using that w'(5) mv(4) z(3,5) by simp
  have "alloc_inv s ps r old perm vs us w' (q # ws)"
    unfolding alloc_inv_def
  proof (intro conjI allI impI)
    show "own w' (q # ws) r (us @ vs)" by (rule w'(1))
    show "same_rest s w'" using i(2) z(2) mv(1) w'(2) by (blast intro: same_rest_trans)
    show "lookup (mem w') r va = user_map (lookup (mem s) r) old us perm va"
      if "va < MAXVA" "page_aligned va" for va
      using w'(4) map(3) [OF that] z(4) i(3) [OF that] by simp
    show "set (q # ws) \<union> pt_pages (mem w') r \<union> set us = set ps \<union> pt_pages (mem s) r"
      using w'(3) mv(2) z(3) i(4) by auto
    show "pt_pages (mem s) r \<subseteq> pt_pages (mem w') r" using w'(3) mv(3) z(3) i(5) by auto
    show "mem w' x = mem s x" if "PGROUNDDOWN x \<notin> set ps \<union> pt_pages (mem s) r" for x
      using that outside [of x] i(4) i(6) [OF that] by auto
    show "mem w' x = 0" if "PGROUNDDOWN x \<in> set us" for x
      using that outside [of x] i(7) [OF that] i(1) by (auto simp: own_def)
  qed
  with k show ?thesis by (simp add: wp_iff)
qed

lemma alloc_inv_settle:
  assumes "alloc_inv s ps r old perm vs us t qs"
  shows "alloc_inv s ps r old perm vs us (t\<lparr>hw := settle (hw t)\<rparr>) qs"
proof -
  note i = alloc_invD [OF assms]
  have "pt_ok t qs r" using i(1) by (simp add: own_def)
  then have "own (t\<lparr>hw := settle (hw t)\<rparr>) qs r (us @ vs)"
    using i(1) pt_ok_settle(1) by (simp add: own_def managed_def)
  moreover have "same_rest s (t\<lparr>hw := settle (hw t)\<rparr>)"
    using i(2) by (simp add: same_rest_def)
  ultimately show ?thesis
    using i(3-7) unfolding alloc_inv_def by simp
qed

lemma alloc_fail:
  assumes inv: "alloc_inv s ps r old perm vs us t qs"
    and old: "page_aligned old" "unat old + length us * 4096 \<le> 2 ^ 38"
    and perm: "\<And>n. bit perm n \<Longrightarrow> n < 10" "bit perm 1"
    and zero: "\<And>va. va < MAXVA \<Longrightarrow> page_aligned va \<Longrightarrow> unat (va - old) < length us * 4096 \<Longrightarrow> lookup (mem s) r va = 0"
  shows "wp (uvmdealloc r (old + of_nat (length us) * PGSIZE) old) (\<lambda>_ t'. undone s ps r vs t' (rev us @ qs)) t"
proof (cases "us = []")
  case True
  have "unmap_post r old [] vs t qs t"
    using alloc_invD(1) [OF inv] True by (simp add: unmap_post_Nil)
  then show ?thesis
    using True alloc_inv_undo [OF inv _ zero] by (simp add: uvmdealloc_def wp_simps)
next
  case False
  note i = alloc_invD [OF inv] and e = aligned_end [OF old]
  have "leaves (mem t) r old us"
    using i(1) by (intro leaves_user_map [OF i(3) old perm]) (auto simp: own_def managed_def)
  moreover have "old < old + of_nat (length us) * PGSIZE"
    using e(1) False by (cases us) (simp_all add: word_less_nat_alt)
  ultimately have "wp (uvmdealloc r (old + of_nat (length us) * PGSIZE) old)
     (\<lambda>v t'. v = old \<and> unmap_post r (PGROUNDUP old) us vs t qs t') t"
    using e old by (intro uvmdealloc_post [OF i(1)]) (simp_all add: PGROUNDUP_aligned)
  then show ?thesis
    using alloc_inv_undo [OF inv _ zero] by (auto simp: PGROUNDUP_aligned old elim!: wp_mono)
qed

lemma uvmalloc_from_eq:
  "uvmalloc_from r a old newsz xperm =
     (if a < newsz then
       kbind kalloc (\<lambda>pg.
       if pg = 0 then kdo (uvmdealloc r a old) (kret 0)
       else kdo (set_mem (\<lambda>m. memset m pg 0 (ucast PGSIZE)))
         (kbind (mappages r a PGSIZE pg (PTE_R OR PTE_U OR xperm)) (\<lambda>rc.
         if rc \<noteq> 0 then kdo (kfree pg) (kdo (uvmdealloc r a old) (kret 0))
         else uvmalloc_from r (a + PGSIZE) old newsz xperm)))
      else kret newsz)"
  by (rule ext, subst uvmalloc_from.simps) (simp add: kret_def)

definition alloc_post :: "'a kmem_state_scheme \<Rightarrow> u64 list \<Rightarrow> u64 \<Rightarrow> u64 \<Rightarrow> u64 \<Rightarrow> u64 list \<Rightarrow> nat \<Rightarrow> u64 \<Rightarrow>
    u64 \<Rightarrow> 'a kmem_state_scheme \<Rightarrow> bool" where
  "alloc_post s ps r old perm vs n newsz v t \<longleftrightarrow>
     v = newsz \<and> (\<exists>us qs. length us = n \<and> alloc_inv s ps r old perm vs us t qs) \<or>
     v = 0 \<and> (\<exists>qs. undone s ps r vs t qs)"

lemma mappages_one:
  assumes "pt_ok s ps r" "page_aligned a" "unat a + 4096 \<le> 2 ^ 38" "lookup (mem s) r a AND PTE_V = 0"
  shows "wp (mappages r a PGSIZE pa perm) (map_post r a 1 pa perm s ps) s"
proof -
  have "wp (mappages_from r a (a + of_nat 0 * PGSIZE) pa perm) (map_post r a (Suc 0) pa perm s ps) s"
  proof (rule mappages_from_post [OF assms(1,2)])
    show "lookup (mem s) r va AND PTE_V = 0"
      if "va < MAXVA" "page_aligned va" "unat (va - a) < Suc 0 * 4096" for va
      using in_page [OF assms(2), of va] that assms(4) by simp
  qed (use assms(3) in simp)
  moreover have "PGSIZE \<noteq> 0" "PGSIZE mod PGSIZE = 0" by (simp_all add: PGSIZE_def)
  ultimately show ?thesis
    using assms(2) by (simp add: mappages_def page_aligned_def)
qed

lemma uvmalloc_from_post:
  assumes "alloc_inv s ps r old perm vs us t qs" "page_aligned old" "unat newsz \<le> 2 ^ 38"
    "unat (PGROUNDUP newsz) = unat old + (length us + n) * 4096"
    "perm = PTE_R OR PTE_U OR xperm" "\<And>n. bit xperm n \<Longrightarrow> n < 10"
    "\<And>va. va < MAXVA \<Longrightarrow> page_aligned va \<Longrightarrow> unat (va - old) < (length us + n) * 4096 \<Longrightarrow> lookup (mem s) r va = 0"
  shows "wp (uvmalloc_from r (old + of_nat (length us) * PGSIZE) old newsz xperm)
    (alloc_post s ps r old perm vs (length us + n) newsz) t"
  using assms
proof (induction n arbitrary: us t qs)
  case 0
  have up: "unat (PGROUNDUP newsz) \<le> 2 ^ 38"
    using 0(3) by (subst unat_PGROUNDUP) simp_all
  have "PGROUNDUP newsz = old + of_nat (length us) * PGSIZE"
    using 0(4) up aligned_end(1) [OF 0(2), of "length us"] by (simp add: word_unat_eq_iff)
  moreover have "newsz \<le> PGROUNDUP newsz"
    using PGROUNDUP_le_iff [of newsz "PGROUNDUP newsz"] 0(3) by simp
  ultimately have "\<not> old + of_nat (length us) * PGSIZE < newsz" by (simp add: not_less)
  with 0(1) show ?case
    by (subst uvmalloc_from_eq) (auto simp: wp_simps alloc_post_def)
next
  case (Suc n)
  let ?a = "old + of_nat (length us) * PGSIZE"
  have up: "unat (PGROUNDUP newsz) \<le> 2 ^ 38"
    using Suc.prems(3) by (subst unat_PGROUNDUP) simp_all
  have old: "unat old + length us * 4096 \<le> 2 ^ 38" using up Suc.prems(4) by simp
  note e = aligned_end [OF Suc.prems(2) old]
  have "PGROUNDUP newsz \<le> ?a \<longleftrightarrow> newsz \<le> ?a"
    using Suc.prems(3) e(2) by (intro PGROUNDUP_le_iff) simp_all
  moreover have "\<not> PGROUNDUP newsz \<le> ?a" using Suc.prems(4) e(1) by (simp add: word_le_nat_alt)
  ultimately have lt: "?a < newsz" by (metis not_le)
  have perm: "bit perm k \<Longrightarrow> k < 10" "bit perm 1" for k
    using Suc.prems(5,6) by (auto simp: bit_or_iff)
  have zero: "lookup (mem s) r va = 0"
    if "va < MAXVA" "page_aligned va" "unat (va - old) < length us * 4096" for va
    using that by (intro Suc.prems(7)) simp_all
  note i = alloc_invD [OF Suc.prems(1)]
  have lock: "can_lock KmemLock t" and inv: "kmem_inv t qs" using i(1) by (simp_all add: own_def pt_ok_def)
  note fail = alloc_fail [OF _ Suc.prems(2) old perm zero]
  show ?case
  proof (cases qs)
    case Nil
    have "kalloc t = Done 0 (t\<lparr>hw := settle (hw t)\<rparr>)"
      using inv lock by (intro kalloc_Nil) (simp_all add: Nil)
    then show ?thesis
      using lt fail [OF alloc_inv_settle [OF Suc.prems(1)]]
      by (subst uvmalloc_from_eq) (auto simp: wp_simps wp_Done alloc_post_def elim!: wp_mono)
  next
    case (Cons q ws)
    have inv': "kmem_inv t (q # ws)" and own: "own t (q # ws) r (us @ vs)"
      and ai: "alloc_inv s ps r old perm vs us t (q # ws)"
      using inv i(1) Suc.prems(1) by (simp_all add: Cons)
    define u where "u = t\<lparr>kmem_freelist := load64 (mem t) q, hw := settle (hw t), mem := fill_page (mem t) q 0\<rparr>"
    note ka = kalloc_Cons [OF inv' lock] and q0 = kmem_invD(3) [OF inv']
    note z = kalloc_zero_own [OF own, folded u_def]
    have ok: "pt_ok u ws r" using z(1) by (simp add: own_def)
    have small: "unat ?a + 4096 \<le> 2 ^ 38" using e(1) up Suc.prems(4) by simp
    have off: "unat (?a - old) = length us * 4096" using old by (simp add: unat_pages)
    have "?a < MAXVA" using small by (simp add: MAXVA_unat)
    then have "lookup (mem u) r ?a = lookup (mem s) r ?a"
      using z(4) i(3) [of ?a] e(2) off by (simp add: user_map_def)
    moreover have "lookup (mem s) r ?a = 0"
      using \<open>?a < MAXVA\<close> e(2) off by (intro Suc.prems(7)) simp_all
    ultimately have "lookup (mem u) r ?a = 0" by simp
    then have "wp (mappages r ?a PGSIZE q perm) (map_post r ?a 1 q perm u ws) u"
      using mappages_one [OF ok e(2) small] by simp
    then obtain rc w xs k where m: "mappages r ?a PGSIZE q perm u = Done rc w" "pt_ok w xs r"
      "moved u ws w xs r" "if rc = 0 then k = 1 else rc = - 1 \<and> k < 1 \<and> xs = []"
      "\<And>va. va < MAXVA \<Longrightarrow> page_aligned va \<Longrightarrow> lookup (mem w) r va = map_range (lookup (mem u) r) ?a k q perm va"
      unfolding wp_iff map_post_def by blast
    have "wp (if rc \<noteq> 0 then kdo (kfree q) (kdo (uvmdealloc r ?a old) (kret 0))
         else uvmalloc_from r (?a + PGSIZE) old newsz xperm)
      (alloc_post s ps r old perm vs (length us + Suc n) newsz) w"
    proof (cases "rc = 0")
      case True
      then have "alloc_inv s ps r old perm vs (us @ [q]) w xs"
        using m by (intro alloc_inv_grow [OF ai u_def Suc.prems(2) old]) auto
      from Suc.IH [OF this Suc.prems(2,3)] Suc.prems(4-7)
      have "wp (uvmalloc_from r (old + of_nat (length (us @ [q])) * PGSIZE) old newsz xperm)
        (alloc_post s ps r old perm vs (length (us @ [q]) + n) newsz) w"
        by simp
      moreover have next_a: "old + of_nat (length (us @ [q])) * PGSIZE = ?a + PGSIZE"
        by (simp add: algebra_simps)
      ultimately show ?thesis using True unfolding next_a by simp
    next
      case False
      then have "k = 0" "xs = []" using m(4) by auto
      then have "wp (kfree q) (\<lambda>_ w'. alloc_inv s ps r old perm vs us w' (q # xs)) w"
        using m by (intro alloc_inv_back [OF ai u_def]) auto
      then obtain w' where kf: "kfree q w = Done () w'" "alloc_inv s ps r old perm vs us w' (q # xs)"
        by (auto simp: wp_iff)
      from fail [OF kf(2)] show ?thesis
        using False kf(1) by (auto simp: wp_simps wp_Done alloc_post_def elim!: wp_mono)
    qed
    moreover have "t\<lparr>kmem_freelist := load64 (mem t) q, hw := settle (hw t),
        mem := memset (fill_page (mem t) q 5) q 0 (ucast PGSIZE)\<rparr> = u"
      by (simp add: u_def memset_page fill_page_twice)
    ultimately show ?thesis
      using lt q0 m(1) Suc.prems(5)
      by (subst uvmalloc_from_eq) (simp add: wp_simps wp_Done [where m = kalloc, OF ka] wp_Done)
  qed
qed

text \<open>C1. On a well-formed address space whose entries from \<^verbatim>\<open>PGROUNDUP(oldsz)\<close> to
  \<^verbatim>\<open>PGROUNDUP(newsz)\<close> are empty, \<^verbatim>\<open>uvmalloc\<close> returns. If it returns \<^verbatim>\<open>newsz\<close>, exactly
  these pages have been mapped, in order, to different zeroed pages from the free list, with the
  asked-for permissions. If it returns 0, every entry is as before and every page it took is free
  again or an interior table. In both cases the pages of the free list, the tables and the new region
  together are the same as before, and no other memory and no other kernel state has changed.\<close>

theorem uvmalloc_correct:
  assumes own: "own s ps r vs" and le: "oldsz \<le> newsz" "unat newsz \<le> 2 ^ 38"
    and n: "unat (PGROUNDUP newsz) = unat (PGROUNDUP oldsz) + n * 4096"
    and xperm: "\<forall>k. bit xperm k \<longrightarrow> k < 10"
    and empty: "\<forall>va. va < MAXVA \<and> page_aligned va \<and> unat (va - PGROUNDUP oldsz) < n * 4096 \<longrightarrow>
      lookup (mem s) r va = 0"
  shows "wp (uvmalloc r oldsz newsz xperm)
    (alloc_post s ps r (PGROUNDUP oldsz) (PTE_R OR PTE_U OR xperm) vs n newsz) s"
proof -
  have "\<not> newsz < oldsz" using le(1) by simp
  moreover have "wp (uvmalloc_from r (PGROUNDUP oldsz + of_nat (length ([] :: u64 list)) * PGSIZE)
      (PGROUNDUP oldsz) newsz xperm)
    (alloc_post s ps r (PGROUNDUP oldsz) (PTE_R OR PTE_U OR xperm) vs (length ([] :: u64 list) + n) newsz) s"
    using le n xperm empty by (intro uvmalloc_from_post [OF alloc_inv_start [OF own]]) auto
  ultimately show ?thesis by (simp add: uvmalloc_def)
qed

text \<open>Growing an empty address space by one page, from three free pages.\<close>

definition three_pages :: kmem_state where
  "three_pages = two_pages\<lparr>mem := store64 (mem two_pages) 0x80023000 0x80025000\<rparr>"

lemma three_pages_own: "own three_pages [0x80022000, 0x80023000, 0x80025000] 0x80024000 []"
  and three_pages_empty: "lookup (mem three_pages) 0x80024000 va = 0"
proof -
  have al: "page_aligned 0x80022000" "page_aligned 0x80023000" "page_aligned 0x80024000" "page_aligned 0x80025000"
    by (simp_all add: page_aligned_unat)
  have slot: "load64 (mem three_pages) (p + 8 * i) = load64 (mem two_pages) (p + 8 * i)"
    if "page_aligned p" "p \<noteq> 0x80023000" "i < 512" for p i
    using load64_slot [OF al(2) that(1) _ that(3), of 0 "mem two_pages" "0x80025000"] that
    by (simp add: three_pages_def)
  have r: "(0x80024000 :: u64) \<noteq> 0" "0x80024000 < PHYSTOP"
    by (simp_all add: layout_defs)
  have zero: "load64 (mem three_pages) (0x80024000 + 8 * i) = 0" if "i < 512" for i
    using slot [OF al(3) _ that] two_pages_zero [OF that] by simp
  note root = empty_root [OF zero al(3) r]
  have "load64 (mem two_pages) 0x80022000 = 0x80023000" by (simp add: two_pages_def)
  then have n1: "load64 (mem three_pages) 0x80022000 = 0x80023000"
    using slot [OF al(1), of 0] by simp
  have n2: "load64 (mem three_pages) 0x80023000 = 0x80025000" by (simp add: three_pages_def)
  have "load64 (mem two_pages) 0x80025000 = 0"
    using load64_slot [OF al(1,4), of 0 0 "\<lambda>_. 0" "0x80023000"]
    by (simp add: two_pages_def) (simp add: load64_def load_bytes_def map_replicate_const)
  then have n3: "load64 (mem three_pages) 0x80025000 = 0"
    using slot [OF al(4), of 0] by simp
  have f: "kmem_freelist three_pages = 0x80022000" "hw three_pages = hw boot_kmem"
    by (simp_all add: three_pages_def two_pages_def)
  have "kmem_inv three_pages [0x80022000, 0x80023000, 0x80025000]"
    using al by (simp add: kmem_inv_def f n1 n2 n3 managed_def layout_defs)
  then show "own three_pages [0x80022000, 0x80023000, 0x80025000] 0x80024000 []"
    using root(1,2) by (simp add: own_def pt_ok_def f)
  show "lookup (mem three_pages) 0x80024000 va = 0" by (rule root(3))
qed

theorem uvmalloc_correct_witness:
  "own three_pages [0x80022000, 0x80023000, 0x80025000] 0x80024000 [] \<and>
   wp (uvmalloc 0x80024000 0 4096 PTE_W) (alloc_post three_pages [0x80022000, 0x80023000, 0x80025000]
     0x80024000 0 (PTE_R OR PTE_U OR PTE_W) [] 1 4096) three_pages"
proof -
  have "PGROUNDUP 0 = 0" "PGROUNDUP 4096 = 4096"
    by (simp_all add: PGROUNDUP_aligned page_aligned_unat)
  then show ?thesis
    using uvmalloc_correct [OF three_pages_own, of 0 4096 1 PTE_W] three_pages_own
    by (simp add: three_pages_empty)
qed

end
