(* ===== verification/Frame.thy ===== *)
theory Frame
  imports Proc Uvm
begin

section \<open>What the memory functions leave alone\<close>

text \<open>
  Allocation, page tables and copying change memory, the free list and the processor part of the
  state, and nothing else. The locale states this once for every part \<open>f\<close> of the state that is
  independent of those three; it is interpreted for the process table and for the fields above it.
\<close>

lemma keeps_lift_hw: "(\<And>s h. f (s\<lparr>hw := h\<rparr>) = f s) \<Longrightarrow> keeps f (lift_hw m)"
  by (rule keepsI) (auto simp: lift_hw_def split: outcome.splits)

lemma keeps_kmodify: "(\<And>s. f (g s) = f s) \<Longrightarrow> keeps f (kmodify g)"
  by (simp add: keeps_def kern_run)

lemma keeps_option:
  "keeps f m \<Longrightarrow> (\<And>x. keeps f (n x)) \<Longrightarrow> keeps f (case a of None \<Rightarrow> m | Some x \<Rightarrow> n x)"
  by (cases a) simp_all

lemma keeps_let: "(\<And>x. keeps f (g x)) \<Longrightarrow> keeps f (let x = a in g x)"
  by simp

lemmas keeps_rules = keeps_intros keeps_option keeps_let

locale mem_blind =
  fixes f :: "'a kmem_state_scheme \<Rightarrow> 'b"
  assumes blind_hw: "f (s\<lparr>hw := h\<rparr>) = f s"
    and blind_mem: "f (s\<lparr>mem := m\<rparr>) = f s"
    and blind_freelist: "f (s\<lparr>kmem_freelist := l\<rparr>) = f s"
begin

lemma keeps_locks: "keeps f (kacquire l)" "keeps f (krelease l)" "keeps f (kinitlock l n)"
  unfolding kacquire_def krelease_def kinitlock_def by (rule keeps_lift_hw, rule blind_hw)+

lemma keeps_set_mem: "keeps f (set_mem g)" "keeps f (kmodify (\<lambda>s. s\<lparr>kmem_freelist := k s\<rparr>))"
  "keeps f (kmodify (\<lambda>s. s\<lparr>mem := n s\<rparr>))" "keeps f (kmodify (\<lambda>s. s\<lparr>hw := h s\<rparr>))"
  by (simp_all add: keeps_kmodify blind_mem blind_freelist blind_hw)

lemmas keeps_mem = keeps_rules keeps_locks keeps_set_mem

lemma keeps_kalloc: "keeps f kalloc" and keeps_kfree: "keeps f (kfree pa)"
  unfolding kalloc_def kfree_def by (intro keeps_mem)+

lemma keeps_walk_level: "keeps f (walk_level l pt va al)"
proof (induction l arbitrary: pt)
  case 0
  show ?case by (simp add: keeps_intros)
next
  case (Suc l)
  show ?case
    unfolding walk_level.simps by (intro keeps_mem keeps_kalloc Suc.IH)
qed

lemma keeps_walk: "keeps f (walk pt va al)"
  unfolding walk_def by (intro keeps_mem keeps_walk_level)

lemma keeps_walkaddr: "keeps f (walkaddr pt va)"
  unfolding walkaddr_def by (intro keeps_mem keeps_walk)

lemma mappages_from_keeps: "mappages_from pt a lst pa perm s = Done r t \<Longrightarrow> f t = f s"
proof (induction pt a lst pa perm s arbitrary: r t rule: mappages_from.induct)
  case (1 pt a lst pa perm s)
  obtain ptep u where w: "walk pt a True s = Done ptep u"
    using "1.prems" by (subst (asm) mappages_from.simps) (auto simp: kbind_Done_iff)
  have u: "f u = f s" using keeps_walk w by (rule keepsD)
  show ?case
  proof (cases "ptep = 0")
    case True
    then show ?thesis using "1.prems" w u by (subst (asm) mappages_from.simps) (simp add: kern_run)
  next
    case False
    show ?thesis
      using "1.prems" w u False "1.IH" [OF w False]
      by (subst (asm) mappages_from.simps)
        (auto simp: kern_run blind_mem split: if_splits)
  qed
qed

lemma keeps_mappages: "keeps f (mappages pt va n pa perm)"
  unfolding mappages_def by (intro keeps_mem keepsI) (rule mappages_from_keeps)

lemma keeps_uvmunmap_from: "keeps f (uvmunmap_from pt a lim fr)"
proof (induction "2 ^ 64 - unat a" arbitrary: a rule: less_induct)
  case less
  show ?case
  proof (cases "a < MAXVA")
    case True
    then have IH: "keeps f (uvmunmap_from pt (a + PGSIZE) lim fr)"
      using less next_page_measure by blast
    show ?thesis
      by (subst uvmunmap_from_eq) (intro keeps_mem keeps_walk keeps_kfree IH)
  next
    case False
    then show ?thesis
      by (intro keepsI) (auto simp: uvmunmap_from_eq [of pt a] kbind_Done_iff kret_def
        dest: walk_Done_bound split: if_splits)
  qed
qed

lemma keeps_uvmunmap: "keeps f (uvmunmap pt va n fr)"
  unfolding uvmunmap_def by (intro keeps_mem keeps_uvmunmap_from)

lemma keeps_freewalk_depth: "keeps f (freewalk_depth d pt)"
proof (induction d arbitrary: pt)
  case 0
  show ?case by (simp add: keeps_intros)
next
  case (Suc d)
  show ?case unfolding freewalk_depth.simps by (intro keeps_mem keeps_kfree Suc.IH)
qed

lemma keeps_uvmfree: "keeps f (uvmfree pt n)"
  unfolding uvmfree_def freewalk_def by (intro keeps_mem keeps_uvmunmap keeps_freewalk_depth)

lemma keeps_uvmcreate: "keeps f uvmcreate"
  unfolding uvmcreate_def by (intro keeps_mem keeps_kalloc)

lemma keeps_uvmdealloc: "keeps f (uvmdealloc pt a b)"
  unfolding uvmdealloc_def by (intro keeps_mem keeps_uvmunmap)

lemma keeps_proc_freepagetable: "keeps f (proc_freepagetable pt n)"
  unfolding proc_freepagetable_def by (intro keeps_mem keeps_uvmunmap keeps_uvmfree)

lemma keeps_uvmalloc_from: "keeps f (uvmalloc_from pt a old new perm)"
proof (induction "2 ^ 64 - unat a" arbitrary: a rule: less_induct)
  case less
  show ?case
  proof (cases "a < MAXVA")
    case True
    then have IH: "keeps f (uvmalloc_from pt (a + PGSIZE) old new perm)"
      using less next_page_measure by blast
    show ?thesis
      by (subst uvmalloc_from_eq)
        (intro keeps_mem keeps_kalloc keeps_mappages keeps_kfree keeps_uvmdealloc IH)
  next
    case False
    show ?thesis
    proof (rule keepsI)
      fix s t :: "'a kmem_state_scheme" and r
      assume "uvmalloc_from pt a old new perm s = Done r t"
      then show "f t = f s"
        using False keepsD [OF keeps_uvmdealloc] keepsD [OF keeps_kalloc]
        by (subst (asm) uvmalloc_from_eq)
          (fastforce simp: kbind_Done_iff kdo_def kret_def dest: mappages_Done_bound split: if_splits)
    qed
  qed
qed

lemma keeps_uvmalloc: "keeps f (uvmalloc pt old new perm)"
  unfolding uvmalloc_def by (intro keeps_mem keeps_uvmalloc_from)

lemma keeps_copyout: "keeps f (copyout pt va src)"
proof (induction "length src" arbitrary: va src rule: less_induct)
  case less
  have IH: "keeps f (copyout pt (PGROUNDDOWN va + PGSIZE)
      (drop (min (unat (PGSIZE - (va - PGROUNDDOWN va))) (length src)) src))" if "src \<noteq> []"
    using that page_rest_pos [of va] by (intro less) auto
  have eq: "copyout pt va src =
     (if src = [] then kret 0
      else if PGROUNDDOWN va \<ge> MAXVA then kret (- 1)
      else kbind (walk pt (PGROUNDDOWN va) False) (\<lambda>ptep.
        kbind (load_word ptep) (\<lambda>pte.
        if ptep = 0 \<or> pte AND PTE_V = 0 \<or> pte AND PTE_U = 0 \<or> pte AND PTE_W = 0 then kret (- 1)
        else let n = min (unat (PGSIZE - (va - PGROUNDDOWN va))) (length src) in
          kdo (set_mem (\<lambda>m. store_bytes m (PTE2PA pte + (va - PGROUNDDOWN va)) (take n src)))
          (copyout pt (PGROUNDDOWN va + PGSIZE) (drop n src)))))"
    by (rule ext, subst copyout.simps, unfold Let_def split_def) (simp add: kret_def)
  show ?case
    unfolding eq Let_def using IH
    by (cases "src = []") (simp_all add: keeps_mem keeps_walk)
qed

lemma keeps_copyin: "keeps f (copyin pt va len)"
proof (induction "unat len" arbitrary: va len rule: less_induct)
  case less
  let ?n = "min (PGSIZE - (va - PGROUNDDOWN va)) len"
  have IH: "keeps f (copyin pt (PGROUNDDOWN va + PGSIZE) (len - ?n))" if "len \<noteq> 0"
  proof (rule less)
    have "0 < ?n" "?n \<le> len"
      using page_rest_pos [of va] that by (simp_all add: min_def word_gt_0 unat_gt_0)
    then show "unat (len - ?n) < unat len" by (simp add: unat_sub word_less_nat_alt word_le_nat_alt)
  qed
  have eq: "copyin pt va len =
     (if len = 0 then kret (0, [])
      else kbind (walkaddr pt (PGROUNDDOWN va)) (\<lambda>pa0.
      if pa0 = 0 then kret (- 1, [])
      else kbind (kget (\<lambda>s. load_bytes (mem s) (pa0 + (va - PGROUNDDOWN va)) (unat ?n))) (\<lambda>bs.
        kbind (copyin pt (PGROUNDDOWN va + PGSIZE) (len - ?n)) (\<lambda>r. kret (fst r, bs @ snd r)))))"
    by (rule ext, subst copyin.simps, unfold Let_def split_def) (simp add: kret_def)
  show ?case
    unfolding eq using IH by (cases "len = 0") (simp_all add: keeps_mem keeps_walkaddr)
qed

lemma keeps_copyinstr: "keeps f (copyinstr pt va mx)"
proof (induction "unat mx" arbitrary: va mx rule: less_induct)
  case less
  let ?n = "min (PGSIZE - (va - PGROUNDDOWN va)) mx"
  have IH: "keeps f (copyinstr pt (PGROUNDDOWN va + PGSIZE) (mx - ?n))" if "mx \<noteq> 0"
  proof (rule less)
    have "0 < ?n" "?n \<le> mx"
      using page_rest_pos [of va] that by (simp_all add: min_def word_gt_0 unat_gt_0)
    then show "unat (mx - ?n) < unat mx" by (simp add: unat_sub word_less_nat_alt word_le_nat_alt)
  qed
  have eq: "copyinstr pt va mx =
     (if mx = 0 then kret (- 1, [])
      else kbind (walkaddr pt (PGROUNDDOWN va)) (\<lambda>pa0.
      if pa0 = 0 then kret (- 1, [])
      else kbind (kget (\<lambda>s. copy_until_null (mem s) (pa0 + (va - PGROUNDDOWN va)) (unat ?n))) (\<lambda>r.
        if fst r then kret (0, snd r)
        else kbind (copyinstr pt (PGROUNDDOWN va + PGSIZE) (mx - ?n)) (\<lambda>c. kret (fst c, snd r @ snd c)))))"
    by (rule ext, subst copyinstr.simps, unfold Let_def split_def) (simp add: kret_def)
  show ?case
    unfolding eq using IH by (cases "mx = 0") (simp_all add: keeps_mem keeps_walkaddr)
qed

lemmas keeps_vm = keeps_mem keeps_kalloc keeps_kfree keeps_walk keeps_walkaddr keeps_mappages
  keeps_uvmunmap keeps_uvmfree keeps_uvmcreate keeps_uvmdealloc keeps_uvmalloc
  keeps_proc_freepagetable keeps_copyout keeps_copyin keeps_copyinstr

end

interpretation procs_frame: mem_blind procs
  by unfold_locales simp_all

interpretation nextpid_frame: mem_blind nextpid
  by unfold_locales simp_all

interpretation sleeplocks_frame: mem_blind sleeplocks
  by unfold_locales simp_all

end
