(* ===== verification/Proc_Correct.thy ===== *)
theory Proc_Correct
  imports Calm Frame
begin

section \<open>Processes: waking, killing, allocation of slots\<close>

text \<open>
  Properties of \<^verbatim>\<open>kernel/proc.c\<close>: the exact effect of \<^verbatim>\<open>wakeup\<close> and \<^verbatim>\<open>kill\<close> on the
  process table, and what \<^verbatim>\<open>allocproc\<close> does to the slot it takes.
\<close>

subsection \<open>The scan for a free slot\<close>

lemma find_unused_Done:
  assumes "cpu_ok (hw s)" and "\<And>i. i \<in> set is \<Longrightarrow> lock_free (ProcLock i) (hw s)"
  shows "\<exists>h. find_unused is s = (case find (\<lambda>i. pstate (procs s i) = UNUSED) is of
      None \<Rightarrow> Done None (s\<lparr>hw := h\<rparr>)
    | Some i \<Rightarrow> Done (Some i) (s\<lparr>hw := taken (ProcLock i) h\<rparr>))
    \<and> (h = hw s \<or> h = settle (hw s))"
  using assms
proof (induction "is" arbitrary: s)
  case Nil
  show ?case by (simp add: kern_run) (metis kbase.surjective kbase.update_convs(1))
next
  case (Cons i "is")
  show ?case
  proof (cases "pstate (procs s i) = UNUSED")
    case True
    then show ?thesis using Cons.prems by (auto simp: kern_run)
  next
    case False
    let ?s = "s\<lparr>hw := settle (hw s)\<rparr>"
    have "find_unused (i # is) s = find_unused is ?s"
      using Cons.prems False by (simp add: kern_run)
    with False show ?thesis
      using Cons.IH [of ?s] Cons.prems by (auto split: option.split)
  qed
qed

lemma allocpid_keeps_procs: "keeps procs allocpid"
  unfolding allocpid_def by (intro procs_frame.keeps_mem keeps_kmodify) simp

text \<open>A part of a slot that the allocation of the slot does not write.\<close>

lemma proc_pagetable_keeps_procs: "keeps procs (proc_pagetable i)"
  unfolding proc_pagetable_def by (intro procs_frame.keeps_vm)

lemma kalloc_procs: "kalloc s = Done r t \<Longrightarrow> procs t = procs s"
  by (rule keepsD [OF procs_frame.keeps_kalloc])

lemma allocproc_killed:
  assumes "allocproc s = Done (Some i) t"
    and "\<And>r u. find_unused [0..<NPROC] s = Done r u \<Longrightarrow> procs u = procs s \<and> r = Some i"
  shows "pkilled (procs t i) = pkilled (procs s i)"
proof -
  note parts = keepsD [OF allocpid_keeps_procs] keepsD [OF proc_pagetable_keeps_procs] kalloc_procs
  show ?thesis
    using assms(1)
    by (auto simp: allocproc_def upd_proc_def kern_run kbind_Done_iff kdo_def
        dest!: assms(2) parts split: if_splits)
qed

lemma find_unused_slot:
  assumes "cpu_ok (hw s)" and "\<And>l. lock_free l (hw s)"
    and "find (\<lambda>i. pstate (procs s i) = UNUSED) [0..<NPROC] = Some j"
  obtains u where "find_unused [0..<NPROC] s = Done (Some j) u" "procs u = procs s"
  using find_unused_Done [of s "[0..<NPROC]"] assms by (simp add: assms(3)) fastforce

lemma allocproc_slot:
  assumes "find_unused [0..<NPROC] s = Done (Some j) u" and "allocproc s = Done (Some i) t"
  shows "i = j"
  using assms by (auto simp: allocproc_def kbind_Done_iff kret_def kdo_def split: if_splits)

text \<open>C17. \<^verbatim>\<open>kill(pid)\<close> acts on the first slot with that number: it marks it killed, makes it runnable
  if it was asleep, changes nothing else, and returns 0; it returns -1 if there is no such slot.
  Free slots have the number 0, so \<^verbatim>\<open>kill(0)\<close> reports success and marks a free slot; and as
  \<^verbatim>\<open>allocproc\<close> does not reset the mark, the next process created is killed from the start.\<close>

theorem kill_correct:
  assumes "calm p s"
  shows "kill n s = (case find (\<lambda>i. pid (procs s i) = n) [0..<NPROC] of
      None \<Rightarrow> Done (- 1) s
    | Some i \<Rightarrow> Done 0 (s\<lparr>procs := (procs s)(i := (procs s i)\<lparr>pkilled := 1,
        pstate := (if pstate (procs s i) = SLEEPING then RUNNABLE else pstate (procs s i))\<rparr>)\<rparr>))
    \<and> (\<forall>t i u. kill 0 s = Done 0 t \<longrightarrow>
        (\<forall>j < NPROC. pid (procs s j) = 0 \<longleftrightarrow> pstate (procs s j) = UNUSED) \<longrightarrow>
        allocproc t = Done (Some i) u \<longrightarrow> pkilled (procs u i) = 1)"
proof -
  note c = calmD [OF assms]
  have k: "kill n s = (case find (\<lambda>i. pid (procs s i) = n) [0..<NPROC] of
      None \<Rightarrow> Done (- 1) s
    | Some i \<Rightarrow> Done 0 (s\<lparr>procs := (procs s)(i := (procs s i)\<lparr>pkilled := 1,
        pstate := (if pstate (procs s i) = SLEEPING then RUNNABLE else pstate (procs s i))\<rparr>)\<rparr>))" for n
    using kill_scan_Done [of s "[0..<NPROC]" n] c(2,4,6)
    by (auto simp: kill_def split: option.split if_splits)
  show ?thesis
  proof (intro conjI allI impI)
    fix t i u
    assume t: "kill 0 s = Done 0 t" and a: "allocproc t = Done (Some i) u"
      and free: "\<forall>j < NPROC. pid (procs s j) = 0 \<longleftrightarrow> pstate (procs s j) = UNUSED"
    have same: "find (\<lambda>i. pid (procs s i) = 0) [0..<NPROC] = find (\<lambda>i. pstate (procs s i) = UNUSED) [0..<NPROC]"
      using free by (intro find_cong) auto
    obtain j where j: "find (\<lambda>i. pstate (procs s i) = UNUSED) [0..<NPROC] = Some j"
      using t k [of 0] by (auto simp: same split: option.splits)
    then have unused: "pstate (procs s j) = UNUSED" by (auto simp: find_Some_iff)
    then have t': "t = s\<lparr>procs := (procs s)(j := (procs s j)\<lparr>pkilled := 1, pstate := UNUSED\<rparr>)\<rparr>"
      using t k [of 0] by (simp add: same j)
    have "(\<lambda>i. pstate (procs t i) = UNUSED) = (\<lambda>i. pstate (procs s i) = UNUSED)"
      using unused by (auto simp: t')
    then obtain v where v: "find_unused [0..<NPROC] t = Done (Some j) v" "procs v = procs t"
      using find_unused_slot [of t j] c(2,6) j by (auto simp: t')
    have "pkilled (procs u i) = pkilled (procs t i)"
      using allocproc_killed [OF a] allocproc_slot [OF v(1) a] v by simp
    then show "pkilled (procs u i) = 1"
      using allocproc_slot [OF v(1) a] by (simp add: t')
  qed (rule k)
qed

theorem kill_correct_witness:
  "(\<exists>t. kill 1 one_thread = Done 0 t \<and> pkilled (procs t 0) = 1)
   \<and> (\<exists>t. kill 0 one_thread = Done 0 t \<and> pstate (procs t 1) = UNUSED \<and> pkilled (procs t 1) = 1)
   \<and> kill 7 one_thread = Done (- 1) one_thread"
proof -
  have up: "[0..<NPROC] = 0 # 1 # [2..<NPROC]" by (simp add: NPROC_def upt_conv_Cons)
  have find: "find (\<lambda>i. pid (thread_procs i) = n) [0..<NPROC] =
      (if n = 1 then Some 0 else if n = 0 then Some (Suc 0) else None)" for n
    by (auto simp: up thread_procs_def zero_proc_def find_None_iff)
  have t: "thread_procs 0 = zero_proc\<lparr>pstate := RUNNING, pid := 1\<rparr>" "thread_procs (Suc 0) = zero_proc"
    by (simp_all add: thread_procs_def)
  show ?thesis
    using kill_correct [OF one_thread_calm, of 1] kill_correct [OF one_thread_calm, of 0]
      kill_correct [OF one_thread_calm, of 7]
    by (simp add: one_thread_def find t) (simp add: t zero_proc_def)
qed

end
