(* ===== verification/Disk.thy ===== *)
theory Disk
  imports Calm Virtio
begin

section \<open>The disk driver: a transfer moves one block\<close>

text \<open>
  \<open>serves\<close> states what the driver relies on of the device: it serves the request at the head of the
  queue, when its three descriptors have the flags and lengths that a request needs, by moving the data in
  the direction they say, storing the status and advancing the used ring. With such a device,
  \<^verbatim>\<open>virtio_disk_rw\<close> called by a thread in a quiet kernel returns with the block transferred.
\<close>

subsection \<open>Interrupt flag algebra\<close>

definition with_intr :: "bool \<Rightarrow> machine \<Rightarrow> machine" where
  "with_intr b m = (if b then intr_on m else intr_off m)"

lemma intr_absorb [simp]:
  "intr_on (intr_on m) = intr_on m" "intr_on (intr_off m) = intr_on m"
  "intr_off (intr_on m) = intr_off m" "intr_off (intr_off m) = intr_off m"
proof -
  have "(x OR SSTATUS_SIE) OR SSTATUS_SIE = x OR SSTATUS_SIE"
    "(x AND NOT SSTATUS_SIE) OR SSTATUS_SIE = x OR SSTATUS_SIE"
    "(x OR SSTATUS_SIE) AND NOT SSTATUS_SIE = x AND NOT SSTATUS_SIE"
    "(x AND NOT SSTATUS_SIE) AND NOT SSTATUS_SIE = x AND NOT SSTATUS_SIE" for x :: u64
    by (rule bit_word_eqI, auto simp: bit_simps)+
  then show "intr_on (intr_on m) = intr_on m" "intr_on (intr_off m) = intr_on m"
    "intr_off (intr_on m) = intr_off m" "intr_off (intr_off m) = intr_off m"
    by (simp_all add: intr_on_def intr_off_def)
qed

lemma intr_commute:
  "intr_off (upd_mycpu f m) = upd_mycpu f (intr_off m)" "intr_on (upd_mycpu f m) = upd_mycpu f (intr_on m)"
  "intr_off (upd_lock l g m) = upd_lock l g (intr_off m)" "intr_on (upd_lock l g m) = upd_lock l g (intr_on m)"
  "upd_lock l g (upd_mycpu f m) = upd_mycpu f (upd_lock l g m)"
  by (simp_all add: csr_defs machine_defs)

lemma with_intr_same: "with_intr (intr_get m) m = m"
proof (cases "intr_get m")
  case True
  then show ?thesis using intr_on_intr_off [OF True] by (simp add: with_intr_def)
qed (simp add: with_intr_def intr_off_idle)

lemma upd_lock_same: "lock_free l m \<Longrightarrow> f (locks m l) = locks m l \<Longrightarrow> upd_lock l f m = m"
  by (simp add: upd_lock_def)

lemma upd_mycpu_same: "f (mycpu m) = mycpu m \<Longrightarrow> upd_mycpu f m = m"
  by (simp add: upd_mycpu_def mycpu_def)

lemma upd_lock_twice [simp]: "upd_lock l f (upd_lock l g m) = upd_lock l (\<lambda>k. f (g k)) m"
  by (simp add: upd_lock_def)

lemma upd_lock_swap: "l \<noteq> k \<Longrightarrow> upd_lock l f (upd_lock k g m) = upd_lock k g (upd_lock l f m)"
  by (auto simp: upd_lock_def fun_upd_twist)

lemma upd_mycpu_eqI: "m = n \<Longrightarrow> f (mycpu m) = g (mycpu m) \<Longrightarrow> upd_mycpu f m = upd_mycpu g n"
  by (simp add: upd_mycpu_def mycpu_def)

text \<open>\<^verbatim>\<open>sleep\<close> takes \<^verbatim>\<open>p->lock\<close> and gives back \<^verbatim>\<open>lk\<close>, in this order.\<close>

lemma given_taken_outer:
  assumes "cpu_ok m" and "lock_free l m" and "l \<noteq> k"
  shows "given l (taken k (taken l m)) = taken k m"
proof -
  have n: "0 \<le> noff (mycpu m)" using assms(1) by (simp add: cpu_ok_def)
  have "upd_lock l (\<lambda>k. k\<lparr>lk_cpu := None, locked := 0\<rparr>) (intr_off m) = intr_off m"
    using assms(2) by (intro upd_lock_same) (simp_all add: lock_free_def)
  then show ?thesis
    using n assms(3)
    by (simp add: given_def taken_def pushed_def popped_def Let_def intr_commute upd_lock_swap [of l k])
      (rule upd_mycpu_eqI, simp_all)
qed

lemma settled_intena:
  assumes "settle m = m" and "noff (mycpu m) = 0"
  shows "intena (mycpu m) = intr_get m"
proof -
  have "intena (mycpu (settle m)) = intr_get m" using assms(2) by (simp add: settle_def)
  then show ?thesis using assms(1) by simp
qed

text \<open>What is left of the processor when a thread has been switched out and back in by the same
  hart, whose scheduler has had interrupts on and off in between.\<close>

lemma switched_back:
  assumes m: "cpu_ok m" "noff (mycpu m) = 0" "settle m = m" "lock_free k m"
  defines "s \<equiv> intr_on (settle (intr_off (intr_on (upd_mycpu (\<lambda>c. c\<lparr>cpu_proc := None\<rparr>) m))))"
  shows "given k (upd_mycpu (\<lambda>c. c\<lparr>intena := intr_get m\<rparr>)
     (upd_mycpu (\<lambda>c. c\<lparr>cpu_proc := cpu_proc (mycpu m)\<rparr>) (taken k s))) = m"
proof -
  have i: "intena (mycpu m) = intr_get m" by (rule settled_intena [OF m(3,2)])
  have "upd_lock k (\<lambda>k. k\<lparr>lk_cpu := None, locked := 0\<rparr>) m = m"
    using m(4) by (intro upd_lock_same) (simp_all add: lock_free_def)
  then have l: "upd_lock k (\<lambda>k. k\<lparr>lk_cpu := None, locked := 0\<rparr>) (with_intr b m) = with_intr b m" for b
    by (simp add: with_intr_def flip: intr_commute)
  have n: "noff (mycpu (intr_on m)) = 0" using m(2) by simp
  have "s = upd_mycpu (\<lambda>c. c\<lparr>cpu_proc := None, intena := False\<rparr>) (intr_on m)"
    by (simp add: s_def settle_def intr_commute) (rule upd_mycpu_eqI, simp_all add: m(2))
  then have t: "upd_lock k (\<lambda>k. k\<lparr>lk_cpu := None, locked := 0\<rparr>) (upd_mycpu (\<lambda>c. c\<lparr>intena := intr_get m\<rparr>)
     (upd_mycpu (\<lambda>c. c\<lparr>cpu_proc := cpu_proc (mycpu m)\<rparr>) (taken k s)))
     = upd_mycpu (\<lambda>c. c\<lparr>noff := 1\<rparr>) (intr_off m)" (is "_ = ?r")
    using l [of False] m(2)
    by (simp add: taken_def pushed_def intr_commute with_intr_def) (rule upd_mycpu_eqI, simp_all add: m(2) i)
  have "given k (upd_mycpu (\<lambda>c. c\<lparr>intena := intr_get m\<rparr>)
     (upd_mycpu (\<lambda>c. c\<lparr>cpu_proc := cpu_proc (mycpu m)\<rparr>) (taken k s))) = popped ?r"
    unfolding given_def t ..
  also have "\<dots> = upd_mycpu (\<lambda>c. c\<lparr>noff := 0\<rparr>) (with_intr (intr_get m) m)"
    by (simp add: popped_def Let_def i with_intr_def intr_commute)
  also have "\<dots> = m"
    unfolding with_intr_same by (rule upd_mycpu_same) (simp add: m(2) [symmetric])
  finally show ?thesis .
qed

subsection \<open>Waiting for the device\<close>

text \<open>The processor under a thread of process \<open>p\<close> that holds no lock.\<close>

definition quiet :: "nat \<Rightarrow> machine \<Rightarrow> bool" where
  "quiet p m \<longleftrightarrow> cpu_ok m \<and> noff (mycpu m) = 0 \<and> settle m = m \<and> cpu_proc (mycpu m) = Some p
     \<and> (\<forall>l. lock_free l m)"

lemma calm_quiet: "calm p s \<longleftrightarrow> p < NPROC \<and> quiet p (hw s) \<and> pstate (procs s p) = RUNNING \<and> pchan (procs s p) = NoChan"
  by (auto simp: calm_def quiet_def)

lemma quietD:
  assumes "quiet p m"
  shows "cpu_ok m" "noff (mycpu m) = 0" "settle m = m" "cpu_proc (mycpu m) = Some p" "lock_free l m"
  using assms by (simp_all add: quiet_def)

lemma krelease_given:
  "holding l (hw s) \<Longrightarrow> \<not> intr_get (hw s) \<Longrightarrow> 1 \<le> noff (mycpu (hw s)) \<Longrightarrow>
   krelease l s = Done () (s\<lparr>hw := given l (hw s)\<rparr>)"
  by (simp add: krelease_def lift_hw_def release_Done)

lemma sleep_locked:
  assumes q: "quiet p m" and hw: "hw s = taken l m" and l: "l \<noteq> ProcLock p"
  shows "sleep c l s = Asleep c (s\<lparr>hw := taken (ProcLock p) m,
    procs := (procs s)(p := (procs s p)\<lparr>pchan := c, pstate := SLEEPING\<rparr>)\<rparr>)"
proof -
  note q = quietD [OF q]
  let ?s = "s\<lparr>hw := taken (ProcLock p) (taken l m)\<rparr>"
  let ?t = "s\<lparr>hw := taken (ProcLock p) m, procs := (procs s)(p := (procs s p)\<lparr>pchan := c, pstate := SLEEPING\<rparr>)\<rparr>"
  have "holding l (taken (ProcLock p) (taken l m))"
    using l holding_taken [of l m] by (simp add: holding_def locks_taken)
  then have rel: "krelease l ?s = Done () (s\<lparr>hw := taken (ProcLock p) m\<rparr>)"
    using q l by (simp add: krelease_given given_taken_outer)
  have "sched ?t = Asleep c ?t"
    using q by (simp add: sched_def with_myproc_Done kern_run)
  with rel hw q l show ?thesis
    by (simp add: sleep_def with_myproc_Done kern_run upd_proc_def)
qed

lemma virtio_disk_intr_one:
  assumes m: "hw s = m" "cpu_ok m" "\<And>l. lock_free l m" "cpu_proc (mycpu m) = None"
    and one: "vd_used_dev_idx (vdisk s) = vd_used_idx (vdisk s) + 1"
    and fin: "unat (vd_used_ring (vdisk s) (unat (vd_used_idx (vdisk s)) mod NUM)) = i"
      "vd_info_status (vdisk s) i = 0" "vd_info_b (vdisk s) i = Some b"
  shows "virtio_disk_intr s = Done () (s\<lparr>hw := settle m,
     virtio_log := virtio_log s @ [(virtio_off VIRTIO_MMIO_INTERRUPT_ACK, virtio_regs s (virtio_off VIRTIO_MMIO_INTERRUPT_STATUS) AND 3)],
     bufs := (bufs s)(b := (bufs s b)\<lparr>bdisk := 0\<rparr>), procs := woken (ChanBuf b) None (procs s),
     vdisk := (vdisk s)\<lparr>vd_used_idx := vd_used_idx (vdisk s) + 1\<rparr>\<rparr>)"
proof -
  let ?s = "s\<lparr>hw := taken VdiskLock m,
     virtio_log := virtio_log s @ [(virtio_off VIRTIO_MMIO_INTERRUPT_ACK, virtio_regs s (virtio_off VIRTIO_MMIO_INTERRUPT_STATUS) AND 3)],
     bufs := (bufs s)(b := (bufs s b)\<lparr>bdisk := 0\<rparr>)\<rparr>"
  have w: "wakeup (ChanBuf b) ?s = Done () (?s\<lparr>procs := woken (ChanBuf b) None (procs ?s)\<rparr>)"
    by (rule wakeup_locked [where m = m]) (use m in auto)
  have n: "unat (vd_used_dev_idx (vdisk s) - vd_used_idx (vdisk s)) = Suc 0" by (simp add: one)
  show ?thesis
    using m fin w
    by (simp add: virtio_disk_intr_def kern_run read_R_def write_R_def n upd_buf_def upd_vdisk_def)
qed

text \<open>The state when the thread has waited for one completion.\<close>

definition completed :: "nat \<Rightarrow> nat \<Rightarrow> vdisk \<Rightarrow> (nat \<Rightarrow> buf) \<Rightarrow> (u64 \<times> u8 list) list \<Rightarrow> sectors \<Rightarrow>
    'a bio_state_scheme \<Rightarrow> 'a bio_state_scheme" where
  "completed p b v bs tr im s = s\<lparr>procs := woken (ChanBuf b) (Some p) (procs s),
     bufs := bs(b := (bs b)\<lparr>bdisk := 0\<rparr>), vdisk := v\<lparr>vd_used_idx := vd_used_idx v + 1\<rparr>,
     disk_trace := tr, disk_image := im,
     virtio_log := virtio_log s @ [(virtio_off VIRTIO_MMIO_INTERRUPT_ACK, virtio_regs s (virtio_off VIRTIO_MMIO_INTERRUPT_STATUS) AND 3)]\<rparr>"

lemma woken_sleeper:
  assumes "p < NPROC" and "pstate (P p) = RUNNING" and "pchan (P p) = NoChan"
  shows "(woken c None (P(p := (P p)\<lparr>pchan := c, pstate := SLEEPING\<rparr>)))
    (p := (woken c None (P(p := (P p)\<lparr>pchan := c, pstate := SLEEPING\<rparr>)) p)\<lparr>pstate := RUNNING, pchan := NoChan\<rparr>)
    = woken c (Some p) P"
  using assms by (auto simp: woken_def fun_eq_iff)

lemma upd_cpu_proc_taken:
  "upd_mycpu (\<lambda>c. c\<lparr>cpu_proc := x\<rparr>) (taken l m) = taken l (upd_mycpu (\<lambda>c. c\<lparr>cpu_proc := x\<rparr>) m)"
  by (simp add: taken_def pushed_def intr_commute) (rule upd_mycpu_eqI, simp_all)

lemma sleep_through_Done:
  assumes "(sleep c lk :: ('a proc_state_scheme, unit) kern) s = Asleep c' t" and "cpu_proc (mycpu (hw t)) = Some p"
    and "oth p t = Done () u" and "intena (mycpu (hw t)) = ie" and "sleep_resume ie lk u = Done () w"
  shows "sleep_through c lk oth s = Done () w"
  using assms by (simp add: sleep_through_def)

lemma virtio_sleep:
  fixes s :: "'a bio_state_scheme"
  assumes p: "p < NPROC" and q: "quiet p m" and hw: "hw s = taken VdiskLock m"
    and run: "pstate (procs s p) = RUNNING" "pchan (procs s p) = NoChan"
    and dev: "disk_hw s (vdisk s, bufs s, disk_trace s, disk_image s) = (v, bs, tr, im)"
    and one: "vd_used_dev_idx v = vd_used_idx v + 1"
      "unat (vd_used_ring v (unat (vd_used_idx v) mod NUM)) = i" "vd_info_status v i = 0" "vd_info_b v i = Some b"
  shows "sleep_through (ChanBuf b) VdiskLock disk_idle s = Done () (completed p b v bs tr im s)"
proof -
  note q' = quietD [OF q]
  let ?P = "(procs s)(p := (procs s p)\<lparr>pchan := ChanBuf b, pstate := SLEEPING\<rparr>)"
  let ?off = "upd_mycpu (\<lambda>c. c\<lparr>cpu_proc := None\<rparr>) m"
  let ?X = "intr_off (intr_on ?off)" and ?m = "intr_on (settle (intr_off (intr_on ?off)))"
  let ?lg = "virtio_log s @ [(virtio_off VIRTIO_MMIO_INTERRUPT_ACK, virtio_regs s (virtio_off VIRTIO_MMIO_INTERRUPT_STATUS) AND 3)]"
  let ?t = "s\<lparr>hw := taken (ProcLock p) m, procs := ?P\<rparr>"
  let ?u = "s\<lparr>procs := ?P, vdisk := v, bufs := bs, disk_trace := tr, disk_image := im, hw := ?X\<rparr>"
  let ?v = "?u\<lparr>hw := settle ?X, virtio_log := ?lg, bufs := bs(b := (bs b)\<lparr>bdisk := 0\<rparr>),
    procs := woken (ChanBuf b) None ?P, vdisk := v\<lparr>vd_used_idx := vd_used_idx v + 1\<rparr>\<rparr>"
  have slp: "(sleep (ChanBuf b) VdiskLock :: ('a bio_state_scheme, unit) kern) s = Asleep (ChanBuf b) ?t"
    using sleep_locked [OF q hw] by simp
  have off: "cpu_ok ?off" "lock_free l ?off" for l
    using q' by (simp_all add: cpu_ok_def lock_free_def)
  have soff: "settle ?off = ?off"
    unfolding settle_def by (simp add: q' settled_intena) (rule upd_mycpu_eqI, simp_all add: q' settled_intena)
  have X: "cpu_ok ?X" "lock_free l ?X" "cpu_proc (mycpu ?X) = None" for l
    using q' by (simp_all add: cpu_ok_def lock_free_def)
  have intr: "virtio_disk_intr ?u = Done () ?v"
    using virtio_disk_intr_one [of ?u ?X i b] X one by simp
  have m: "lock_free l ?m" for l using X(2) by (simp add: lock_free_def)
  have ret: "scheduler_return p ?t = Done () (s\<lparr>hw := ?off, procs := ?P\<rparr>)"
    using off soff by (simp add: scheduler_return_def kern_run upd_cpu_proc_taken)
  have "pstate (woken (ChanBuf b) None ?P p) = RUNNABLE" using p by (simp add: woken_def)
  then have visit: "scheduler_visit p (?v\<lparr>hw := ?m\<rparr>) = Done True (?v\<lparr>hw := upd_mycpu (\<lambda>c. c\<lparr>cpu_proc := Some p\<rparr>)
     (taken (ProcLock p) ?m), procs := (woken (ChanBuf b) None ?P)(p := (woken (ChanBuf b) None ?P p)\<lparr>pstate := RUNNING\<rparr>)\<rparr>)"
    using m by (simp add: scheduler_visit_def kern_run upd_proc_def)
  have idle: "disk_idle p ?t = Done () (?v\<lparr>hw := upd_mycpu (\<lambda>c. c\<lparr>cpu_proc := Some p\<rparr>) (taken (ProcLock p) ?m),
    procs := (woken (ChanBuf b) None ?P)(p := (woken (ChanBuf b) None ?P p)\<lparr>pstate := RUNNING\<rparr>)\<rparr>)"
    using ret intr visit dev by (simp add: disk_idle_def disk_serve_def kern_run)
  let ?P' = "(woken (ChanBuf b) None ?P)(p := (woken (ChanBuf b) None ?P p)\<lparr>pstate := RUNNING, pchan := NoChan\<rparr>)"
  let ?c = "upd_mycpu (\<lambda>c. c\<lparr>intena := intr_get m\<rparr>) (upd_mycpu (\<lambda>c. c\<lparr>cpu_proc := Some p\<rparr>) (taken (ProcLock p) ?m))"
  have ie: "intena (mycpu (taken (ProcLock p) m)) = intr_get m"
    using q' by (simp add: taken_def pushed_def)
  have c: "cpu_ok ?c" "cpu_proc (mycpu ?c) = Some p" "settle ?c = ?c" "holding (ProcLock p) ?c"
    "\<not> intr_get ?c" "1 \<le> noff (mycpu ?c)" "given (ProcLock p) ?c = m"
  proof -
    show n: "1 \<le> noff (mycpu ?c)" and i: "\<not> intr_get ?c" using q' by simp_all
    then show "cpu_ok ?c" by (simp add: cpu_ok_def)
    show "settle ?c = ?c" using n by (intro settle_locked) simp
    show "given (ProcLock p) ?c = m" using switched_back [OF q'(1-3), of "ProcLock p"] q'(4,5) by simp
    show "holding (ProcLock p) ?c" by (simp add: holding_def locks_taken)
  qed simp
  have res: "sleep_resume (intr_get m) VdiskLock (?v\<lparr>hw := upd_mycpu (\<lambda>c. c\<lparr>cpu_proc := Some p\<rparr>) (taken (ProcLock p) ?m),
    procs := (woken (ChanBuf b) None ?P)(p := (woken (ChanBuf b) None ?P p)\<lparr>pstate := RUNNING\<rparr>)\<rparr>)
    = Done () (?v\<lparr>procs := ?P', hw := taken VdiskLock m\<rparr>)"
    using c q' by (simp add: sleep_resume_def sched_resume_def kern_run with_myproc_Done upd_proc_def krelease_given)
  have "sleep_through (ChanBuf b) VdiskLock disk_idle s = Done () (?v\<lparr>procs := ?P', hw := taken VdiskLock m\<rparr>)"
    by (rule sleep_through_Done [where oth = disk_idle, OF slp _ idle _ res]) (use ie q' in simp_all)
  moreover have "?v\<lparr>procs := ?P', hw := taken VdiskLock m\<rparr> = completed p b v bs tr im s"
    unfolding woken_sleeper [of p "procs s", OF p run] by (simp add: completed_def hw [symmetric])
  ultimately show ?thesis by simp
qed

subsection \<open>What the driver relies on of the device\<close>

text \<open>A request as the device accepts it, by the flags and lengths of its three descriptors: a header
  of 16 bytes that the device reads, the data of one block, which it may write exactly when the
  request is a read, and a status byte that it writes; all but the last are linked to the next one.\<close>

definition request_ok :: "vdisk \<Rightarrow> nat \<Rightarrow> bool" where
  "request_ok v h =
     (let d0 = vd_desc v h; d1 = vd_desc v (unat (d_next d0)); d2 = vd_desc v (unat (d_next d1)) in
      d_len d0 = 16 \<and> d_flags d0 = VRING_DESC_F_NEXT
      \<and> d_len d1 = of_nat BSIZE \<and> d_flags d1 AND VRING_DESC_F_NEXT \<noteq> 0
      \<and> d_len d2 = 1 \<and> d_flags d2 = VRING_DESC_F_WRITE
      \<and> (case d_addr d0 of DmaOp i \<Rightarrow> r_reserved (vd_ops v i) = 0
           \<and> (r_type (vd_ops v i) = VIRTIO_BLK_T_IN \<and> d_flags d1 AND VRING_DESC_F_WRITE \<noteq> 0
             \<or> r_type (vd_ops v i) = VIRTIO_BLK_T_OUT \<and> d_flags d1 AND VRING_DESC_F_WRITE = 0)
         | _ \<Rightarrow> False))"

text \<open>The device takes the next entry of the available ring, follows the chain of three descriptors,
  reads or writes the two sectors, stores the status byte and adds the entry to the used ring.\<close>

fun serve_one :: "disk_view \<Rightarrow> disk_view" where
  "serve_one (v, bs, tr, im) =
     (let k = unat (vd_used_dev_idx v) mod NUM;
          h = unat (vd_avail_ring v k);
          d0 = vd_desc v h;
          d1 = vd_desc v (unat (d_next d0));
          d2 = vd_desc v (unat (d_next d1))
      in case (d_addr d0, d_addr d1, d_addr d2) of
        (DmaOp i, DmaData b, DmaStatus j) \<Rightarrow>
          (let v' = v\<lparr>vd_info_status := (vd_info_status v)(j := 0),
                 vd_used_ring := (vd_used_ring v)(k := of_nat h), vd_used_dev_idx := vd_used_dev_idx v + 1\<rparr>;
               x = r_sector (vd_ops v i);
               d = bdata (bs b)
           in if \<not> request_ok v h then (v, bs, tr, im)
              else if d_flags d1 AND VRING_DESC_F_WRITE = 0
              then (v', bs, tr @ [(x, take 512 d), (x + 1, drop 512 d)], im(x := take 512 d, x + 1 := drop 512 d))
              else (v', bs(b := (bs b)\<lparr>bdata := im x @ im (x + 1)\<rparr>), tr, im))
      | _ \<Rightarrow> (v, bs, tr, im))"

declare serve_one.simps [simp del]

text \<open>A request is pending when the driver is one entry ahead of the device. Nothing is assumed about
  what the device does with a request that it does not accept.\<close>

definition serves :: "(disk_view \<Rightarrow> disk_view) \<Rightarrow> bool" where
  "serves dev \<longleftrightarrow> (\<forall>v bs tr im. vd_avail_idx v = vd_used_dev_idx v + 1 \<longrightarrow>
     request_ok v (unat (vd_avail_ring v (unat (vd_used_dev_idx v) mod NUM))) \<longrightarrow>
     dev (v, bs, tr, im) = serve_one (v, bs, tr, im))"

lemma servesD: "serves dev \<Longrightarrow> vd_avail_idx v = vd_used_dev_idx v + 1 \<Longrightarrow>
    request_ok v (unat (vd_avail_ring v (unat (vd_used_dev_idx v) mod NUM))) \<Longrightarrow>
    dev (v, bs, tr, im) = serve_one (v, bs, tr, im)"
  unfolding serves_def by blast

text \<open>The queue between requests.\<close>

definition vq_idle :: "vdisk \<Rightarrow> bool" where
  "vq_idle v \<longleftrightarrow> (\<forall>i < NUM. vd_free v i) \<and> vd_used_idx v = vd_avail_idx v \<and> vd_used_dev_idx v = vd_avail_idx v"

lemma alloc_desc_from_Done:
  "alloc_desc_from is s = (case find (vd_free (vdisk s)) is of
      None \<Rightarrow> Done None s
    | Some i \<Rightarrow> Done (Some i) (s\<lparr>vdisk := (vdisk s)\<lparr>vd_free := (vd_free (vdisk s))(i := False)\<rparr>\<rparr>))"
  by (induction "is") (simp_all add: kern_run upd_vdisk_def)

lemma alloc_desc_Done:
  assumes "vd_free (vdisk s) i" and "i < NUM" and "\<And>j. j < i \<Longrightarrow> \<not> vd_free (vdisk s) j"
  shows "alloc_desc s = Done (Some i) (s\<lparr>vdisk := (vdisk s)\<lparr>vd_free := (vd_free (vdisk s))(i := False)\<rparr>\<rparr>)"
proof -
  have "find (vd_free (vdisk s)) [0..<NUM] = Some i"
    using assms by (auto simp: find_Some_iff intro!: exI [of _ i])
  then show ?thesis by (simp add: alloc_desc_def alloc_desc_from_Done)
qed

lemma alloc3_desc_Done:
  assumes "vq_idle (vdisk s)"
  shows "alloc3_desc s = Done (Some [0, 1, 2]) (s\<lparr>vdisk := (vdisk s)\<lparr>vd_free :=
    (vd_free (vdisk s))(0 := False, 1 := False, 2 := False)\<rparr>\<rparr>)"
proof -
  have free: "vd_free (vdisk s) i" if "i < 8" for i using assms that by (simp add: vq_idle_def NUM_def)
  let ?s1 = "s\<lparr>vdisk := (vdisk s)\<lparr>vd_free := (vd_free (vdisk s))(0 := False)\<rparr>\<rparr>"
  let ?s2 = "s\<lparr>vdisk := (vdisk s)\<lparr>vd_free := (vd_free (vdisk s))(0 := False, 1 := False)\<rparr>\<rparr>"
  let ?s3 = "s\<lparr>vdisk := (vdisk s)\<lparr>vd_free := (vd_free (vdisk s))(0 := False, 1 := False, 2 := False)\<rparr>\<rparr>"
  have 1: "alloc_desc s = Done (Some 0) ?s1"
    using alloc_desc_Done [of s 0] free [of 0] by (simp add: NUM_def)
  have 2: "alloc_desc ?s1 = Done (Some 1) ?s2"
    using alloc_desc_Done [of ?s1 1] free [of 1] by (simp add: NUM_def)
  have 3: "alloc_desc ?s2 = Done (Some 2) ?s3"
    by (subst alloc_desc_Done [of ?s2 2]) (use free [of 2] in \<open>auto simp: NUM_def less_2_cases_iff\<close>)
  have n: "(3 :: nat) = Suc (Suc (Suc 0))" by simp
  show ?thesis unfolding alloc3_desc_def n by (simp add: 1 2 3 kern_run del: One_nat_def)
qed

definition submitted :: "nat \<Rightarrow> bool \<Rightarrow> u64 \<Rightarrow> vdisk \<Rightarrow> vdisk" where
  "submitted b wr x v = v\<lparr>
     vd_ops := (vd_ops v)(0 := \<lparr>r_type = (if wr then VIRTIO_BLK_T_OUT else VIRTIO_BLK_T_IN), r_reserved = 0, r_sector = x\<rparr>),
     vd_desc := (vd_desc v)(
       0 := \<lparr>d_addr = DmaOp 0, d_len = 16, d_flags = VRING_DESC_F_NEXT, d_next = 1\<rparr>,
       1 := \<lparr>d_addr = DmaData b, d_len = of_nat BSIZE,
             d_flags = (if wr then 0 else VRING_DESC_F_WRITE) OR VRING_DESC_F_NEXT, d_next = 2\<rparr>,
       2 := \<lparr>d_addr = DmaStatus 0, d_len = 1, d_flags = VRING_DESC_F_WRITE, d_next = 0\<rparr>),
     vd_info_status := (vd_info_status v)(0 := 0xff),
     vd_info_b := (vd_info_b v)(0 := Some b),
     vd_avail_ring := (vd_avail_ring v)(unat (vd_avail_idx v) mod NUM := 0),
     vd_avail_idx := vd_avail_idx v + 1\<rparr>"

lemma virtio_submit_Done:
  "virtio_submit b wr x 0 1 2 s = Done () (s\<lparr>vdisk := submitted b wr x (vdisk s),
     bufs := (bufs s)(b := (bufs s b)\<lparr>bdisk := 1\<rparr>),
     virtio_log := virtio_log s @ [(virtio_off VIRTIO_MMIO_QUEUE_NOTIFY, 0)]\<rparr>)"
  by (simp add: virtio_submit_def upd_vdisk_def upd_buf_def write_R_def kern_run submitted_def)

lemma free_desc_locked:
  assumes "quiet p m" and "hw s = taken VdiskLock m" and "i < NUM" and "\<not> vd_free (vdisk s) i"
  shows "free_desc i s = Done () (s\<lparr>vdisk := (vdisk s)\<lparr>vd_desc := (vd_desc (vdisk s))(i := zero_desc),
     vd_free := (vd_free (vdisk s))(i := True)\<rparr>, procs := woken ChanDiskFree (Some p) (procs s)\<rparr>)"
proof -
  let ?s = "s\<lparr>vdisk := (vdisk s)\<lparr>vd_desc := (vd_desc (vdisk s))(i := zero_desc),
     vd_free := (vd_free (vdisk s))(i := True)\<rparr>\<rparr>"
  have "wakeup ChanDiskFree ?s = Done () (?s\<lparr>procs := woken ChanDiskFree (Some p) (procs ?s)\<rparr>)"
    by (rule wakeup_locked [where m = m and l = VdiskLock]) (use assms(2) quietD [OF assms(1)] in auto)
  then show ?thesis
    using assms(3,4) by (simp add: free_desc_def kern_run upd_vdisk_def)
qed

lemma free_chain_step:
  "free_chain i s = kdo (free_desc i)
     (if d_flags (vd_desc (vdisk s) i) AND VRING_DESC_F_NEXT \<noteq> 0
      then free_chain (unat (d_next (vd_desc (vdisk s) i))) else kret ()) s"
  by (subst free_chain.simps) (simp add: kern_run)

lemma woken_twice [simp]: "woken c me (woken c me P) = woken c me P"
  by (auto simp: woken_def)

text \<open>The chain of a request is given back as a whole.\<close>

lemma free_chain_request:
  assumes q: "quiet p m" and hw: "hw s = taken VdiskLock m"
    and d0: "d_flags (vd_desc (vdisk s) 0) = VRING_DESC_F_NEXT" "d_next (vd_desc (vdisk s) 0) = 1"
    and d1: "d_flags (vd_desc (vdisk s) 1) AND VRING_DESC_F_NEXT \<noteq> 0" "d_next (vd_desc (vdisk s) 1) = 2"
    and d2: "d_flags (vd_desc (vdisk s) 2) = VRING_DESC_F_WRITE"
    and busy: "\<not> vd_free (vdisk s) 0" "\<not> vd_free (vdisk s) 1" "\<not> vd_free (vdisk s) 2"
  shows "free_chain 0 s = Done () (s\<lparr>vdisk := (vdisk s)\<lparr>
       vd_desc := (vd_desc (vdisk s))(0 := zero_desc, 1 := zero_desc, 2 := zero_desc),
       vd_free := (vd_free (vdisk s))(0 := True, 1 := True, 2 := True)\<rparr>,
     procs := woken ChanDiskFree (Some p) (procs s)\<rparr>)"
proof -
  let ?W = "woken ChanDiskFree (Some p) (procs s)"
  let ?s1 = "s\<lparr>vdisk := (vdisk s)\<lparr>vd_desc := (vd_desc (vdisk s))(0 := zero_desc),
       vd_free := (vd_free (vdisk s))(0 := True)\<rparr>, procs := ?W\<rparr>"
  let ?s2 = "s\<lparr>vdisk := (vdisk s)\<lparr>vd_desc := (vd_desc (vdisk s))(0 := zero_desc, 1 := zero_desc),
       vd_free := (vd_free (vdisk s))(0 := True, 1 := True)\<rparr>, procs := ?W\<rparr>"
  let ?s3 = "s\<lparr>vdisk := (vdisk s)\<lparr>vd_desc := (vd_desc (vdisk s))(0 := zero_desc, 1 := zero_desc, 2 := zero_desc),
       vd_free := (vd_free (vdisk s))(0 := True, 1 := True, 2 := True)\<rparr>, procs := ?W\<rparr>"
  have f: "free_desc 0 s = Done () ?s1" "free_desc 1 ?s1 = Done () ?s2" "free_desc 2 ?s2 = Done () ?s3"
    using free_desc_locked [OF q hw, of 0] free_desc_locked [OF q, of ?s1 1] free_desc_locked [OF q, of ?s2 2] hw busy
    by (simp_all add: NUM_def)
  have flag: "VRING_DESC_F_NEXT AND VRING_DESC_F_NEXT \<noteq> 0" "VRING_DESC_F_WRITE AND VRING_DESC_F_NEXT = 0"
    by (simp_all add: VRING_DESC_F_NEXT_def VRING_DESC_F_WRITE_def)
  have "free_chain 2 ?s2 = Done () ?s3"
    by (subst free_chain_step) (simp add: f(3) [simplified] d2 flag kret_def)
  then have "free_chain 1 ?s1 = Done () ?s3"
    using d1 by (subst free_chain_step) (simp add: f(2) [simplified])
  then show ?thesis
    using d0 flag by (subst free_chain_step) (simp add: f(1))
qed

subsection \<open>The transfer\<close>

definition sector_of :: "u32 \<Rightarrow> u64" where
  "sector_of n = ucast (n * 2)"

text \<open>A block is two sectors.\<close>

definition block_of :: "sectors \<Rightarrow> u32 \<Rightarrow> u8 list" where
  "block_of im n = im (sector_of n) @ im (sector_of n + 1)"

definition put_block :: "sectors \<Rightarrow> u32 \<Rightarrow> u8 list \<Rightarrow> sectors" where
  "put_block im n d = im(sector_of n := take 512 d, sector_of n + 1 := drop 512 d)"

definition block_writes :: "u32 \<Rightarrow> u8 list \<Rightarrow> (u64 \<times> u8 list) list" where
  "block_writes n d = [(sector_of n, take 512 d), (sector_of n + 1, drop 512 d)]"

lemma submitted_ok:
  "vd_used_dev_idx v = vd_avail_idx v \<Longrightarrow>
    request_ok (submitted b wr x v) (unat (vd_avail_ring (submitted b wr x v) (unat (vd_used_dev_idx v) mod NUM)))"
  by (simp add: request_ok_def submitted_def Let_def VRING_DESC_F_NEXT_def VRING_DESC_F_WRITE_def VIRTIO_BLK_T_OUT_def
      VIRTIO_BLK_T_IN_def)

lemma serve_submitted:
  fixes b :: nat and wr :: bool and x :: u64
  assumes "vd_used_dev_idx v = vd_avail_idx v"
  defines "u \<equiv> submitted b wr x v"
  defines "w \<equiv> u\<lparr>vd_info_status := (vd_info_status u)(0 := 0),
    vd_used_ring := (vd_used_ring u)(unat (vd_avail_idx v) mod NUM := 0), vd_used_dev_idx := vd_avail_idx v + 1\<rparr>"
  shows "serve_one (u, bs, tr, im) =
    (if wr then (w, bs, tr @ [(x, take 512 (bdata (bs b))), (x + 1, drop 512 (bdata (bs b)))],
       im(x := take 512 (bdata (bs b)), x + 1 := drop 512 (bdata (bs b))))
     else (w, bs(b := (bs b)\<lparr>bdata := im x @ im (x + 1)\<rparr>), tr, im))"
proof -
  have ok: "request_ok u 0" using submitted_ok [OF assms(1)] assms(1) by (simp add: u_def submitted_def)
  have f: "(if wr then 0 else VRING_DESC_F_WRITE OR VRING_DESC_F_NEXT) AND VRING_DESC_F_WRITE = 0 \<longleftrightarrow> wr"
    "((if wr then 0 else VRING_DESC_F_WRITE) OR VRING_DESC_F_NEXT) AND VRING_DESC_F_WRITE = 0 \<longleftrightarrow> wr"
    by (simp_all add: VRING_DESC_F_NEXT_def VRING_DESC_F_WRITE_def)
  show ?thesis
    using assms(1) ok f by (cases wr) (simp_all add: serve_one.simps u_def w_def submitted_def Let_def)
qed

lemma virtio_wait_Done:
  assumes "sleep_through (ChanBuf b) VdiskLock disk_idle s = Done () t" and "bdisk (bufs s b) = 1"
    and "bdisk (bufs t b) = 0"
  shows "virtio_wait b s = Done () t"
  using assms by (simp add: virtio_wait_def kern_run)

definition rw_bufs :: "nat \<Rightarrow> bool \<Rightarrow> 'a bio_state_scheme \<Rightarrow> nat \<Rightarrow> buf" where
  "rw_bufs b wr s = (bufs s)(b := (bufs s b)\<lparr>bdata := (if wr then bdata (bufs s b)
     else block_of (disk_image s) (blockno (bufs s b))), bdisk := 0\<rparr>)"

definition rw_procs :: "nat \<Rightarrow> nat \<Rightarrow> (nat \<Rightarrow> proc) \<Rightarrow> nat \<Rightarrow> proc" where
  "rw_procs p b P = woken ChanDiskFree (Some p) (woken (ChanBuf b) (Some p) P)"

text \<open>The registers the driver writes for a transfer: the notification and the acknowledgement.\<close>

definition rw_log :: "'a bio_state_scheme \<Rightarrow> (u64 \<times> u32) list" where
  "rw_log s = virtio_log s @ [(virtio_off VIRTIO_MMIO_QUEUE_NOTIFY, 0),
     (virtio_off VIRTIO_MMIO_INTERRUPT_ACK, virtio_regs s (virtio_off VIRTIO_MMIO_INTERRUPT_STATUS) AND 3)]"

lemma virtio_disk_rw_run:
  fixes b :: nat
  assumes c: "calm p s" and dev: "serves (disk_hw s)" and idle: "vq_idle (vdisk s)"
  defines "n \<equiv> blockno (bufs s b)" and "d \<equiv> bdata (bufs s b)"
  shows "\<exists>v. virtio_disk_rw b wr s = Done () (s\<lparr>virtio_log := rw_log s,
      disk_trace := (if wr then disk_trace s @ block_writes n d else disk_trace s),
      disk_image := (if wr then put_block (disk_image s) n d else disk_image s),
      bufs := rw_bufs b wr s, vdisk := v, procs := rw_procs p b (procs s)\<rparr>) \<and> vq_idle v"
proof -
  have p: "p < NPROC" and q: "quiet p (hw s)" and run: "pstate (procs s p) = RUNNING" "pchan (procs s p) = NoChan"
    using c by (simp_all add: calm_quiet)
  note q' = quietD [OF q]
  let ?x = "sector_of n" and ?L = "taken VdiskLock (hw s)"
  let ?v1 = "(vdisk s)\<lparr>vd_free := (vd_free (vdisk s))(0 := False, 1 := False, 2 := False)\<rparr>"
  let ?v2 = "submitted b wr ?x ?v1"
  let ?s2 = "s\<lparr>hw := ?L, vdisk := ?v2, bufs := (bufs s)(b := (bufs s b)\<lparr>bdisk := 1\<rparr>),
     virtio_log := virtio_log s @ [(virtio_off VIRTIO_MMIO_QUEUE_NOTIFY, 0)]\<rparr>"
  have idx: "vd_used_idx (vdisk s) = vd_avail_idx (vdisk s)" "vd_used_dev_idx (vdisk s) = vd_avail_idx (vdisk s)"
    using idle by (simp_all add: vq_idle_def)
  let ?w = "?v2\<lparr>vd_info_status := (vd_info_status ?v2)(0 := 0), vd_used_ring := (vd_used_ring ?v2)
     (unat (vd_avail_idx (vdisk s)) mod NUM := 0), vd_used_dev_idx := vd_avail_idx (vdisk s) + 1\<rparr>"
  define bs where "bs = (if wr then bufs ?s2 else (bufs ?s2)(b := (bufs ?s2 b)\<lparr>bdata := block_of (disk_image s) n\<rparr>))"
  define tr where "tr = (if wr then disk_trace s @ block_writes n d else disk_trace s)"
  define im where "im = (if wr then put_block (disk_image s) n d else disk_image s)"
  have served: "disk_hw s (?v2, bufs ?s2, disk_trace s, disk_image s) = (?w, bs, tr, im)"
  proof -
    have "disk_hw s (?v2, bufs ?s2, disk_trace s, disk_image s) = serve_one (?v2, bufs ?s2, disk_trace s, disk_image s)"
      using idx submitted_ok [of ?v1 b wr ?x] by (intro servesD [OF dev]) (simp_all add: submitted_def)
    also have "\<dots> = (?w, bs, tr, im)"
      using serve_submitted [of ?v1 b wr ?x] idx
      by (simp add: bs_def tr_def im_def block_writes_def put_block_def block_of_def d_def)
    finally show ?thesis .
  qed
  let ?s3 = "completed p b ?w bs tr im ?s2"
  have wait: "virtio_wait b ?s2 = Done () ?s3"
  proof (rule virtio_wait_Done)
    show "sleep_through (ChanBuf b) VdiskLock disk_idle ?s2 = Done () ?s3"
      by (rule virtio_sleep [OF p q, of ?s2 _ _ _ _ 0])
        (use served run idx in \<open>simp_all add: submitted_def\<close>)
  qed (simp_all add: completed_def)
  let ?s4 = "?s3\<lparr>vdisk := (vdisk ?s3)\<lparr>vd_info_b := (vd_info_b (vdisk ?s3))(0 := None)\<rparr>\<rparr>"
  let ?v5 = "(vdisk ?s4)\<lparr>vd_desc := (vd_desc (vdisk ?s4))(0 := zero_desc, 1 := zero_desc, 2 := zero_desc),
       vd_free := (vd_free (vdisk ?s4))(0 := True, 1 := True, 2 := True)\<rparr>"
  have chain: "free_chain 0 ?s4 = Done () (?s4\<lparr>vdisk := ?v5, procs := woken ChanDiskFree (Some p) (procs ?s4)\<rparr>)"
    by (rule free_chain_request [OF q])
      (simp_all add: completed_def submitted_def VRING_DESC_F_NEXT_def VRING_DESC_F_WRITE_def)
  have sub: "virtio_submit b wr ?x 0 1 2 (s\<lparr>hw := ?L, vdisk := ?v1\<rparr>) = Done () ?s2"
    by (simp add: virtio_submit_Done del: One_nat_def)
  have al: "alloc3_desc (s\<lparr>hw := ?L\<rparr>) = Done (Some [0, 1, 2]) (s\<lparr>hw := ?L, vdisk := ?v1\<rparr>)"
    using alloc3_desc_Done [of "s\<lparr>hw := ?L\<rparr>"] idle by simp
  have x: "ucast (blockno (bufs s b) * of_nat (BSIZE div 512)) = ?x"
    by (simp add: sector_of_def n_def BSIZE_def)
  let ?t = "?s4\<lparr>vdisk := ?v5, procs := woken ChanDiskFree (Some p) (procs ?s4), hw := hw s\<rparr>"
  have rel: "krelease VdiskLock (?s4\<lparr>vdisk := ?v5, procs := woken ChanDiskFree (Some p) (procs ?s4)\<rparr>) = Done () ?t"
    using q' by (simp add: completed_def)
  have "virtio_disk_rw b wr s = Done () ?t"
    using q'(5) al sub wait chain rel
    by (simp add: virtio_disk_rw_def kern_run x upd_vdisk_def del: One_nat_def)
  moreover have "vq_idle ?v5"
    using idle by (auto simp: vq_idle_def completed_def submitted_def)
  moreover have "bs(b := (bs b)\<lparr>bdisk := 0\<rparr>) = rw_bufs b wr s"
    by (simp add: bs_def rw_bufs_def n_def)
  then have "?t = s\<lparr>virtio_log := rw_log s, disk_trace := tr, disk_image := im,
      bufs := rw_bufs b wr s, vdisk := ?v5, procs := rw_procs p b (procs s)\<rparr>"
    by (simp add: completed_def rw_procs_def rw_log_def)
  ultimately show ?thesis unfolding tr_def im_def by metis
qed

lemma virtio_disk_rw_Done:
  assumes "calm p s" and "serves (disk_hw s)" and "vq_idle (vdisk s)"
  shows "\<exists>v lg. virtio_disk_rw b wr s = Done () (s\<lparr>virtio_log := lg,
      disk_trace := (if wr then disk_trace s @ block_writes (blockno (bufs s b)) (bdata (bufs s b)) else disk_trace s),
      disk_image := (if wr then put_block (disk_image s) (blockno (bufs s b)) (bdata (bufs s b)) else disk_image s),
      bufs := rw_bufs b wr s, vdisk := v, procs := rw_procs p b (procs s)\<rparr>) \<and> vq_idle v"
  using virtio_disk_rw_run [OF assms, of b wr] by blast

lemma rw_procs_me [simp]: "rw_procs p b P p = P p"
  by (simp add: rw_procs_def)

text \<open>C18. With a device that serves requests, \<^verbatim>\<open>virtio_disk_rw\<close> called by a thread in a quiet
  kernel submits a request, sleeps, is woken by the interrupt and returns. A write has then replaced
  the two sectors of the block by the contents of the buffer, first sector first, and a read has filled
  the buffer with them; no other sector and no other buffer has changed, all descriptors are free
  again, the disk no longer owns the buffer and no lock is left held; the device has been notified
  once and its interrupt acknowledged once. The device is only assumed to serve requests whose
  descriptors have the flags and lengths of a request, so the driver has to set them right.\<close>

theorem virtio_disk_rw_correct:
  assumes "calm p s" and "serves (disk_hw s)" and "vq_idle (vdisk s)"
  shows "\<exists>t. virtio_disk_rw b wr s = Done () t \<and> calm p t \<and> vq_idle (vdisk t) \<and> hw t = hw s
    \<and> bufs t = (bufs s)(b := (bufs s b)\<lparr>bdata := (if wr then bdata (bufs s b)
         else block_of (disk_image s) (blockno (bufs s b))), bdisk := 0\<rparr>)
    \<and> disk_image t = (if wr then put_block (disk_image s) (blockno (bufs s b)) (bdata (bufs s b)) else disk_image s)
    \<and> disk_trace t = disk_trace s @ (if wr then block_writes (blockno (bufs s b)) (bdata (bufs s b)) else [])
    \<and> sleeplocks t = sleeplocks s
    \<and> virtio_log t = virtio_log s @ [(virtio_off VIRTIO_MMIO_QUEUE_NOTIFY, 0),
        (virtio_off VIRTIO_MMIO_INTERRUPT_ACK, virtio_regs s (virtio_off VIRTIO_MMIO_INTERRUPT_STATUS) AND 3)]"
proof -
  from virtio_disk_rw_run [OF assms, of b wr] obtain v where
    t: "virtio_disk_rw b wr s = Done () (s\<lparr>virtio_log := rw_log s,
      disk_trace := (if wr then disk_trace s @ block_writes (blockno (bufs s b)) (bdata (bufs s b)) else disk_trace s),
      disk_image := (if wr then put_block (disk_image s) (blockno (bufs s b)) (bdata (bufs s b)) else disk_image s),
      bufs := rw_bufs b wr s, vdisk := v, procs := rw_procs p b (procs s)\<rparr>)" (is "_ = Done () ?t")
    and v: "vq_idle v" by blast
  have "calm p ?t" using assms(1) by (simp add: calm_def)
  then show ?thesis using t v by (intro exI [of _ ?t]) (simp add: rw_bufs_def rw_log_def)
qed

text \<open>A disk of zeros but for sector 6, read into an empty buffer for block 3.\<close>

definition zero_buf :: buf where
  "zero_buf = \<lparr>valid = 0, bdisk = 0, bdev = 0, blockno = 0, refcnt = 0, bprev = 0, bnext = 0,
     bdata = replicate BSIZE 0\<rparr>"

definition zero_vdisk :: vdisk where
  "zero_vdisk = \<lparr>vd_desc_page = 0, vd_avail_page = 0, vd_used_page = 0, vd_desc = (\<lambda>_. zero_desc),
     vd_avail_idx = 0, vd_avail_ring = (\<lambda>_. 0), vd_used_dev_idx = 0, vd_used_ring = (\<lambda>_. 0),
     vd_free = (\<lambda>_. True), vd_used_idx = 0, vd_info_b = (\<lambda>_. None), vd_info_status = (\<lambda>_. 0),
     vd_ops = (\<lambda>_. \<lparr>r_type = 0, r_reserved = 0, r_sector = 0\<rparr>)\<rparr>"

definition disk_thread :: bio_state where
  "disk_thread = \<lparr>hw = thread_hw, mem = (\<lambda>_. 0), kmem_freelist = 0, kernel_pagetable = 0,
     procs = thread_procs, nextpid = 2, initproc = Some 0, ticks = 0,
     sleeplocks = (\<lambda>_. \<lparr>sl_locked = 0, sl_name = [], sl_pid = 0\<rparr>),
     uart_lsr = [], uart_rx = [], uart_log = [], uart_tx_buf = replicate 32 0,
     uart_tx_w = 0, uart_tx_r = 0, panicked = 0, pr_locking = 1, cons_buf = replicate 128 0,
     cons_r = 0, cons_w = 0, cons_e = 0,
     bufs = (\<lambda>_. zero_buf)(0 := zero_buf\<lparr>blockno := 3\<rparr>), vdisk = zero_vdisk,
     disk_image = (\<lambda>_. replicate 512 0)(6 := replicate 512 7), disk_trace = [],
     disk_hw = serve_one, virtio_regs = (\<lambda>_. 0), virtio_log = []\<rparr>"

lemma disk_thread_ready: "calm 0 disk_thread" "serves (disk_hw disk_thread)" "vq_idle (vdisk disk_thread)"
  by (simp_all add: calm_def disk_thread_def thread_hw_calm thread_procs_def zero_proc_def NPROC_def
      serves_def vq_idle_def zero_vdisk_def)

theorem virtio_disk_rw_correct_witness:
  "\<exists>t. virtio_disk_rw 0 False disk_thread = Done () t
     \<and> bdata (bufs t 0) = replicate 512 7 @ replicate 512 0 \<and> disk_trace t = []"
  using virtio_disk_rw_correct [OF disk_thread_ready, of 0 False]
  by (auto simp: disk_thread_def block_of_def sector_of_def zero_buf_def)

end
