(* ===== verification/Bcache.thy ===== *)
theory Bcache
  imports Disk Bio Frame
begin

section \<open>The buffer cache keeps a faithful image of the disk\<close>

text \<open>
  The doubly linked list of \<^verbatim>\<open>kernel/bio.c\<close> as the list of its members, and the cache as an
  abstract map: for every block its contents as the file system sees them (\<open>view_of\<close>), its contents
  on the disk (\<open>disk_of\<close>), the number of references (\<open>refs_of\<close>) and the blocks whose buffer the
  running process holds (\<open>held_of\<close>). Each operation is shown to be the obvious operation on these maps.
\<close>

subsection \<open>The recency list\<close>

fun linked :: "(nat \<Rightarrow> buf) \<Rightarrow> nat list \<Rightarrow> bool" where
  "linked B (a # b # l) \<longleftrightarrow> bnext (B a) = b \<and> bprev (B b) = a \<and> linked B (b # l)"
| "linked B l \<longleftrightarrow> True"

definition ring :: "(nat \<Rightarrow> buf) \<Rightarrow> nat list \<Rightarrow> bool" where
  "ring B l \<longleftrightarrow> distinct l \<and> set l = {0..<NBUF} \<and> linked B (NBUF # l @ [NBUF])"

lemma linked_append: "linked B (k @ x # l) \<longleftrightarrow> linked B (k @ [x]) \<and> linked B (x # l)"
proof (induction k)
  case (Cons a k)
  then show ?case by (cases k) auto
qed simp

lemma linked_cong:
  "(\<And>x. x \<in> set (butlast l) \<Longrightarrow> bnext (B' x) = bnext (B x)) \<Longrightarrow>
   (\<And>x. x \<in> set (tl l) \<Longrightarrow> bprev (B' x) = bprev (B x)) \<Longrightarrow> linked B' l = linked B l"
proof (induction B l rule: linked.induct)
  case (1 B a b l)
  then show ?case by (auto split: if_splits)
qed auto

lemma linked_next: "linked B (a # l @ [z]) \<Longrightarrow> bnext (B a) = hd (l @ [z])"
  by (cases l) auto

lemma linked_prev: "linked B (a # l @ [z]) \<Longrightarrow> bprev (B z) = last (a # l)"
proof (induction l arbitrary: a)
  case (Cons b l)
  then show ?case by (auto split: if_splits)
qed simp

text \<open>The two scans of \<^verbatim>\<open>bget\<close> find what \<open>find\<close> finds along the list, forwards and backwards.\<close>

lemma bget_cached_Done:
  assumes "linked (bufs s) (a # l @ [NBUF])" and "NBUF \<notin> set l" and "length l \<le> n"
  shows "bget_cached n dev bno (bnext (bufs s a)) s =
    Done (find (\<lambda>b. bdev (bufs s b) = dev \<and> blockno (bufs s b) = bno) l) s"
  using assms
proof (induction l arbitrary: a n)
  case Nil
  then show ?case by (simp add: bget_cached.simps kern_run)
next
  case (Cons b l)
  then obtain k where n: "n = Suc k" by (cases n) auto
  have "bnext (bufs s a) = b" "b \<noteq> NBUF" using Cons.prems by auto
  then show ?case
    using Cons.IH [of b k] Cons.prems n by (subst bget_cached.simps) (auto simp: kern_run)
qed

lemma bget_unused_Done:
  assumes "linked (bufs s) (NBUF # l @ [z])" and "NBUF \<notin> set l" and "length l \<le> n"
  shows "bget_unused n (bprev (bufs s z)) s = Done (find (\<lambda>b. refcnt (bufs s b) = 0) (rev l)) s"
  using assms
proof (induction l arbitrary: z n rule: rev_induct)
  case Nil
  then show ?case by (simp add: bget_unused.simps kern_run)
next
  case (snoc b l)
  then obtain k where n: "n = Suc k" by (cases n) auto
  have "linked (bufs s) (NBUF # l @ [b])" "bprev (bufs s z) = b" "b \<noteq> NBUF"
    using snoc.prems linked_append [of "bufs s" "NBUF # l" b "[z]"] by auto
  then show ?case
    using snoc.IH [of b k] snoc.prems n by (subst bget_unused.simps) (auto simp: kern_run)
qed

text \<open>Unlinking a member and linking it in at the front.\<close>

definition unlink :: "(nat \<Rightarrow> buf) \<Rightarrow> nat \<Rightarrow> nat \<Rightarrow> buf" where
  "unlink B b = (let n = bnext (B b); p = bprev (B b); B1 = B(n := (B n)\<lparr>bprev := p\<rparr>)
     in B1(p := (B1 p)\<lparr>bnext := n\<rparr>))"

definition link_front :: "(nat \<Rightarrow> buf) \<Rightarrow> nat \<Rightarrow> nat \<Rightarrow> buf" where
  "link_front B b = (let first = bnext (B NBUF); B1 = B(b := (B b)\<lparr>bnext := first, bprev := NBUF\<rparr>);
       B2 = B1(first := (B1 first)\<lparr>bprev := b\<rparr>)
     in B2(NBUF := (B2 NBUF)\<lparr>bnext := b\<rparr>))"

lemma linked_sides:
  "linked B (k @ p # b # n # l) \<longleftrightarrow> linked B (k @ [p]) \<and> bnext (B p) = b \<and> bprev (B b) = p
     \<and> bnext (B b) = n \<and> bprev (B n) = b \<and> linked B (n # l)"
  using linked_append [of B k p "b # n # l"] by auto

lemma linked_unlink:
  assumes "linked B (k @ p # b # n # l)" and "p \<notin> set k" and "n \<notin> set l"
    and "p \<notin> set (butlast (n # l))" and "n \<notin> set (tl (k @ [p]))"
  shows "linked (unlink B b) (k @ p # n # l)"
proof -
  have B: "linked B (k @ [p])" "bprev (B b) = p" "bnext (B b) = n" "linked B (n # l)"
    using assms(1) by (simp_all add: linked_sides)
  have "linked (unlink B b) (k @ [p]) = linked B (k @ [p])"
    using assms(2,5) by (intro linked_cong) (auto simp: unlink_def Let_def B)
  moreover have "linked (unlink B b) (n # l) = linked B (n # l)"
    using assms(3,4) by (intro linked_cong) (auto simp: unlink_def Let_def B)
  moreover have "bnext (unlink B b p) = n" "bprev (unlink B b n) = p"
    by (auto simp: unlink_def Let_def B)
  ultimately show ?thesis
    using B linked_append [of "unlink B b" k p "n # l"] by simp
qed

lemma linked_front:
  assumes "linked B (NBUF # l @ [NBUF])" and "b \<notin> set l" and "b \<noteq> NBUF" and "NBUF \<notin> set l" and "distinct l"
  shows "linked (link_front B b) (NBUF # b # l @ [NBUF])"
proof (cases l)
  case Nil
  then show ?thesis using assms by (auto simp: link_front_def Let_def)
next
  case (Cons f m)
  have f: "bnext (B NBUF) = f" "linked B (f # m @ [NBUF])" using assms(1) Cons by auto
  have "linked (link_front B b) (f # m @ [NBUF]) = linked B (f # m @ [NBUF])"
    using assms(2-5) Cons by (intro linked_cong) (auto simp: link_front_def Let_def f butlast_append)
  then show ?thesis
    using assms Cons f by (auto simp: link_front_def Let_def)
qed

lemma ring_front:
  assumes "ring B l" and "b < NBUF"
  shows "ring (link_front (unlink B b) b) (b # remove1 b l)"
proof -
  have "b \<in> set l" "distinct l" "NBUF \<notin> set l" using assms by (auto simp: ring_def)
  then obtain us vs where l: "l = us @ b # vs" and rem: "remove1 b l = us @ vs"
    by (metis in_set_conv_decomp_first remove1_append remove1.simps(2))
  obtain k p where kp: "NBUF # us = k @ [p]" by (metis list.distinct(1) rev_exhaust)
  obtain n m where nm: "vs @ [NBUF] = n # m" by (metis append_is_Nil_conv list.distinct(1) neq_Nil_conv)
  have kp': "k = [] \<and> p = NBUF \<and> us = [] \<or> (\<exists>k'. k = NBUF # k' \<and> us = k' @ [p])"
    using kp by (cases k) auto
  have nm': "m = [] \<and> n = NBUF \<and> vs = [] \<or> (\<exists>m'. m = m' @ [NBUF] \<and> vs = n # m')"
    using nm by (cases vs) auto
  have d: "distinct us" "distinct vs" "set us \<inter> set vs = {}" "NBUF \<notin> set us" "NBUF \<notin> set vs" "b \<notin> set us" "b \<notin> set vs"
    using \<open>distinct l\<close> \<open>NBUF \<notin> set l\<close> by (auto simp: l)
  have "k @ p # b # n # m = (NBUF # us) @ b # (vs @ [NBUF])" unfolding kp nm by simp
  then have "linked B (k @ p # b # n # m)"
    using assms(1) by (simp add: ring_def l)
  then have "linked (unlink B b) (k @ p # n # m)"
    by (rule linked_unlink) (use kp' nm' d in \<open>auto simp: butlast_append\<close>)
  moreover have "k @ p # n # m = (NBUF # us) @ (vs @ [NBUF])" unfolding kp nm by simp
  ultimately have "linked (link_front (unlink B b) b) (NBUF # b # (us @ vs) @ [NBUF])"
    by (intro linked_front) (use d assms(2) in auto)
  moreover have "insert b (set (us @ vs)) = {0..<NBUF}" using assms(1) by (auto simp: ring_def l)
  ultimately show ?thesis using d by (auto simp: ring_def rem)
qed

lemma relink_payload [simp]:
  "valid (unlink B b x) = valid (B x)" "bdisk (unlink B b x) = bdisk (B x)" "bdev (unlink B b x) = bdev (B x)"
  "blockno (unlink B b x) = blockno (B x)" "refcnt (unlink B b x) = refcnt (B x)" "bdata (unlink B b x) = bdata (B x)"
  "valid (link_front B b x) = valid (B x)" "bdisk (link_front B b x) = bdisk (B x)" "bdev (link_front B b x) = bdev (B x)"
  "blockno (link_front B b x) = blockno (B x)" "refcnt (link_front B b x) = refcnt (B x)" "bdata (link_front B b x) = bdata (B x)"
  by (simp_all add: unlink_def link_front_def Let_def)

lemma ring_not_self:
  assumes "ring B l" and "b < NBUF"
  shows "bnext (B b) \<noteq> b"
proof -
  have "b \<in> set l" using assms by (auto simp: ring_def)
  then obtain us vs where l: "l = us @ b # vs" by (metis in_set_conv_decomp)
  have "linked B (NBUF # us @ b # vs @ [NBUF])" "distinct l" using assms(1) by (simp_all add: ring_def l)
  then have "bnext (B b) = hd (vs @ [NBUF])" "b \<notin> set vs"
    using linked_append [of B "NBUF # us" b "vs @ [NBUF]"] linked_next [of B b vs NBUF] by (auto simp: l)
  then show ?thesis using assms(2) by (cases vs) auto
qed

lemma brelse_front_Done:
  assumes "ring (bufs s) l" and "b < NBUF"
  shows "brelse_front b s = Done () (s\<lparr>bufs := link_front (unlink (bufs s) b) b\<rparr>)"
  using ring_not_self [OF assms] assms(2)
  by (simp add: brelse_front_def upd_buf_def kern_run unlink_def link_front_def Let_def)

lemma ring_cong:
  "(\<And>x. bnext (B' x) = bnext (B x) \<and> bprev (B' x) = bprev (B x)) \<Longrightarrow> ring B' l = ring B l"
  unfolding ring_def using linked_cong [of "NBUF # l @ [NBUF]" B' B] by auto

subsection \<open>The cache as maps over block numbers\<close>

text \<open>The slot that caches a block of device \<open>dev\<close>.\<close>

definition slot_of :: "u32 \<Rightarrow> (nat \<Rightarrow> buf) \<Rightarrow> u32 \<Rightarrow> nat option" where
  "slot_of dev B n = find (\<lambda>b. bdev (B b) = dev \<and> blockno (B b) = n) [0..<NBUF]"

text \<open>Block numbers are those whose sector number does not wrap.\<close>

definition block_ok :: "u32 \<Rightarrow> bool" where
  "block_ok n \<longleftrightarrow> n < 0x80000000"

definition disk_of :: "'a bio_state_scheme \<Rightarrow> u32 \<Rightarrow> u8 list" where
  "disk_of s n = (if block_ok n then block_of (disk_image s) n else [])"

definition view_of :: "u32 \<Rightarrow> 'a bio_state_scheme \<Rightarrow> u32 \<Rightarrow> u8 list" where
  "view_of dev s n = (case slot_of dev (bufs s) n of None \<Rightarrow> disk_of s n | Some b \<Rightarrow> bdata (bufs s b))"

definition refs_of :: "u32 \<Rightarrow> 'a bio_state_scheme \<Rightarrow> u32 \<Rightarrow> nat" where
  "refs_of dev s n = (case slot_of dev (bufs s) n of None \<Rightarrow> 0 | Some b \<Rightarrow> unat (refcnt (bufs s b)))"

definition held_of :: "u32 \<Rightarrow> 'a bio_state_scheme \<Rightarrow> u32 set" where
  "held_of dev s = {n. case slot_of dev (bufs s) n of None \<Rightarrow> False
     | Some b \<Rightarrow> sl_locked (sleeplocks s (BufLock b)) \<noteq> 0}"

text \<open>The invariant between operations of the thread of process \<open>p\<close>.\<close>

definition slot_ok :: "u32 \<Rightarrow> int \<Rightarrow> 'a bio_state_scheme \<Rightarrow> nat \<Rightarrow> bool" where
  "slot_ok dev me s b \<longleftrightarrow>
     (let x = bufs s b; k = sleeplocks s (BufLock b) in
      length (bdata x) = BSIZE \<and> bdisk x = 0
      \<and> (bdev x = dev \<longrightarrow> valid x = 1 \<and> block_ok (blockno x))
      \<and> (bdev x \<noteq> dev \<longrightarrow> refcnt x = 0)
      \<and> (refcnt x = 0 \<longrightarrow> sl_locked k = 0 \<and> (bdev x = dev \<longrightarrow> bdata x = disk_of s (blockno x)))
      \<and> (sl_locked k \<noteq> 0 \<longrightarrow> sl_pid k = me))"

definition one_slot :: "u32 \<Rightarrow> (nat \<Rightarrow> buf) \<Rightarrow> bool" where
  "one_slot dev B \<longleftrightarrow> (\<forall>b < NBUF. \<forall>c < NBUF. bdev (B b) = dev \<longrightarrow> bdev (B c) = dev \<longrightarrow>
     blockno (B b) = blockno (B c) \<longrightarrow> b = c)"

definition bc_inv :: "u32 \<Rightarrow> nat \<Rightarrow> 'a bio_state_scheme \<Rightarrow> bool" where
  "bc_inv dev p s \<longleftrightarrow> calm p s \<and> serves (disk_hw s) \<and> vq_idle (vdisk s)
     \<and> (\<forall>k. length (disk_image s k) = 512)
     \<and> (\<exists>l. ring (bufs s) l)
     \<and> (\<forall>b < NBUF. slot_ok dev (pid (procs s p)) s b)
     \<and> one_slot dev (bufs s)"

lemma bc_invD:
  assumes "bc_inv dev p s"
  shows "calm p s" "serves (disk_hw s)" "vq_idle (vdisk s)" "length (disk_image s k) = 512"
    "\<exists>l. ring (bufs s) l" "b < NBUF \<Longrightarrow> slot_ok dev (pid (procs s p)) s b" "one_slot dev (bufs s)"
  using assms by (simp_all add: bc_inv_def)

lemma slot_ofD: "slot_of dev B n = Some b \<Longrightarrow> b < NBUF \<and> bdev (B b) = dev \<and> blockno (B b) = n"
  by (auto simp: slot_of_def find_Some_iff)

lemma slot_of_iff:
  assumes "one_slot dev B"
  shows "slot_of dev B n = Some b \<longleftrightarrow> b < NBUF \<and> bdev (B b) = dev \<and> blockno (B b) = n"
proof
  assume b: "b < NBUF \<and> bdev (B b) = dev \<and> blockno (B b) = n"
  then have "slot_of dev B n \<noteq> None" by (auto simp: slot_of_def find_None_iff)
  then obtain c where "slot_of dev B n = Some c" by auto
  with slot_ofD [OF this] b assms show "slot_of dev B n = Some b" by (auto simp: one_slot_def)
qed (rule slot_ofD)

lemma slot_of_None_iff: "slot_of dev B n = None \<longleftrightarrow> (\<forall>b < NBUF. bdev (B b) = dev \<longrightarrow> blockno (B b) \<noteq> n)"
  by (auto simp: slot_of_def find_None_iff)

lemma slot_of_cong:
  "(\<And>b. b < NBUF \<Longrightarrow> bdev (B' b) = bdev (B b) \<and> blockno (B' b) = blockno (B b)) \<Longrightarrow> slot_of dev B' n = slot_of dev B n"
  unfolding slot_of_def by (rule find_cong) auto

subsection \<open>Blocks on the disk\<close>

lemma unat_sector_of:
  assumes "block_ok n"
  shows "unat (sector_of n) = 2 * unat n"
proof -
  have "unat (n * 2) = 2 * unat n"
    using assms by (simp add: block_ok_def word_less_nat_alt unat_word_ariths)
  moreover have "unat (ucast x :: u64) = unat x" for x :: u32
    using unsigned_less [of x, where 'a = nat] by (simp add: unsigned_ucast_eq take_bit_nat_eq_self)
  ultimately show ?thesis by (simp add: sector_of_def)
qed

lemma unat_sector_Suc:
  assumes "block_ok n"
  shows "unat (sector_of n + 1) = 2 * unat n + 1"
  using unat_sector_of [OF assms] assms
  by (simp add: unat_word_ariths block_ok_def word_less_nat_alt)

lemma sector_inj:
  assumes "block_ok m" "block_ok n"
  shows "sector_of m = sector_of n \<longleftrightarrow> m = n" "sector_of m \<noteq> sector_of n + 1"
    "sector_of m + 1 = sector_of n + 1 \<longleftrightarrow> m = n" "sector_of m + 1 \<noteq> sector_of n"
proof -
  note u = unat_sector_of [OF assms(1)] unat_sector_of [OF assms(2)] unat_sector_Suc [OF assms(1)] unat_sector_Suc [OF assms(2)]
  show 1: "sector_of m = sector_of n \<longleftrightarrow> m = n" using u(1,2) by (metis mult_left_cancel unsigned_word_eqI zero_neq_numeral)
  then show "sector_of m + 1 = sector_of n + 1 \<longleftrightarrow> m = n" by simp
  have odd: "2 * a \<noteq> 2 * b + 1" for a b :: nat by presburger
  show "sector_of m \<noteq> sector_of n + 1" using u(1,4) odd by metis
  show "sector_of m + 1 \<noteq> sector_of n" using u(2,3) odd by metis
qed

lemma block_of_put_block:
  assumes "block_ok m" "block_ok n"
  shows "block_of (put_block im n d) m = (if m = n then d else block_of im m)"
  using sector_inj [OF assms] by (auto simp: block_of_def put_block_def)

subsection \<open>Changing one slot\<close>

definition payload :: "buf \<Rightarrow> int \<times> int \<times> u32 \<times> u32 \<times> u32 \<times> u8 list" where
  "payload x = (valid x, bdisk x, bdev x, blockno x, refcnt x, bdata x)"

lemma payload_eqD:
  assumes "payload x = payload y"
  shows "valid x = valid y" "bdisk x = bdisk y" "bdev x = bdev y" "blockno x = blockno y" "refcnt x = refcnt y"
    "bdata x = bdata y"
  using assms by (simp_all add: payload_def)

lemma slot_ok_cong:
  assumes "payload (bufs t b) = payload (bufs s b)" and "sleeplocks t (BufLock b) = sleeplocks s (BufLock b)"
    and "bdev (bufs s b) = dev \<Longrightarrow> disk_of t (blockno (bufs s b)) = disk_of s (blockno (bufs s b))"
  shows "slot_ok dev me t b = slot_ok dev me s b"
  using assms(2,3) payload_eqD [OF assms(1)] by (auto simp: slot_ok_def Let_def)

text \<open>What every operation leaves: the thread in a quiet kernel, the device and the list.\<close>

definition bc_frame :: "nat \<Rightarrow> 'a bio_state_scheme \<Rightarrow> 'a bio_state_scheme \<Rightarrow> bool" where
  "bc_frame p s t \<longleftrightarrow> calm p t \<and> disk_hw t = disk_hw s \<and> vq_idle (vdisk t) \<and> (\<exists>l. ring (bufs t) l)
     \<and> pid (procs t p) = pid (procs s p) \<and> (\<forall>k. length (disk_image t k) = 512)"

lemma bc_touch:
  assumes inv: "bc_inv dev p s" and b: "slot_of dev (bufs s) n = Some b" and fr: "bc_frame p s t"
    and oth: "\<And>c. c < NBUF \<Longrightarrow> c \<noteq> b \<Longrightarrow>
      payload (bufs t c) = payload (bufs s c) \<and> sleeplocks t (BufLock c) = sleeplocks s (BufLock c)"
    and me: "bdev (bufs t b) = dev" "blockno (bufs t b) = n" "slot_ok dev (pid (procs s p)) t b"
    and disk: "\<And>m. m \<noteq> n \<Longrightarrow> disk_of t m = disk_of s m"
  shows "bc_inv dev p t" and "slot_of dev (bufs t) = slot_of dev (bufs s)"
    and "view_of dev t = (view_of dev s)(n := bdata (bufs t b))"
    and "refs_of dev t = (refs_of dev s)(n := unat (refcnt (bufs t b)))"
    and "held_of dev t = (if sl_locked (sleeplocks t (BufLock b)) \<noteq> 0 then insert n (held_of dev s) else held_of dev s - {n})"
proof -
  note D = bc_invD [OF inv] and B = slot_ofD [OF b]
  have ident: "bdev (bufs t c) = bdev (bufs s c)" "blockno (bufs t c) = blockno (bufs s c)" if "c < NBUF" for c
    using oth [OF that] me B payload_eqD [of "bufs t c" "bufs s c"] by (cases "c = b"; simp)+
  show slots: "slot_of dev (bufs t) = slot_of dev (bufs s)"
    using ident by (intro ext slot_of_cong) simp
  have other: "c \<noteq> b \<and> c < NBUF" if "slot_of dev (bufs s) m = Some c" "m \<noteq> n" for c m
    using slot_ofD [OF that(1)] B that(2) by auto
  have same: "bdata (bufs t c) = bdata (bufs s c)" "refcnt (bufs t c) = refcnt (bufs s c)" if "c \<noteq> b \<and> c < NBUF" for c
    using oth [of c] that payload_eqD [of "bufs t c" "bufs s c"] by simp_all
  have one: "one_slot dev (bufs t)" using D(7) ident by (simp add: one_slot_def)
  have "slot_ok dev (pid (procs s p)) t c" if c: "c < NBUF" for c
  proof (cases "c = b")
    case False
    have "blockno (bufs s c) \<noteq> n" if "bdev (bufs s c) = dev"
      using D(7) c B False that by (auto simp: one_slot_def)
    then show ?thesis
      using slot_ok_cong [of t c s dev] oth [OF c False] D(6) [OF c] disk by blast
  qed (use me in simp)
  then show "bc_inv dev p t"
    using fr one D(2) by (simp add: bc_inv_def bc_frame_def)
  have at: "view_of dev t n = bdata (bufs t b)" "refs_of dev t n = unat (refcnt (bufs t b))"
    "n \<in> held_of dev t \<longleftrightarrow> sl_locked (sleeplocks t (BufLock b)) \<noteq> 0"
    using b by (simp_all add: view_of_def refs_of_def held_of_def slots)
  have off: "view_of dev t m = view_of dev s m" "refs_of dev t m = refs_of dev s m"
    "m \<in> held_of dev t \<longleftrightarrow> m \<in> held_of dev s" if "m \<noteq> n" for m
  proof (atomize (full), cases "slot_of dev (bufs s) m")
    case None
    then show "view_of dev t m = view_of dev s m \<and> refs_of dev t m = refs_of dev s m \<and> (m \<in> held_of dev t) = (m \<in> held_of dev s)"
      using disk [OF that] by (simp add: view_of_def refs_of_def held_of_def slots)
  next
    case (Some c)
    then have "c < NBUF" "c \<noteq> b" using other [OF Some that] by auto
    then show "view_of dev t m = view_of dev s m \<and> refs_of dev t m = refs_of dev s m \<and> (m \<in> held_of dev t) = (m \<in> held_of dev s)"
      using Some same [of c] oth [of c] by (simp add: view_of_def refs_of_def held_of_def slots)
  qed
  show "view_of dev t = (view_of dev s)(n := bdata (bufs t b))"
    "refs_of dev t = (refs_of dev s)(n := unat (refcnt (bufs t b)))"
    by (rule ext, simp add: at off)+
  show "held_of dev t = (if sl_locked (sleeplocks t (BufLock b)) \<noteq> 0 then insert n (held_of dev s) else held_of dev s - {n})"
  proof (rule set_eqI)
    fix m
    show "m \<in> held_of dev t \<longleftrightarrow> m \<in> (if sl_locked (sleeplocks t (BufLock b)) \<noteq> 0 then insert n (held_of dev s)
      else held_of dev s - {n})"
      using at(3) off(3) [of m] by (cases "m = n") simp_all
  qed
qed

subsection \<open>What the operations may change\<close>

definition io_frame :: "'a bio_state_scheme \<Rightarrow> 'a bio_state_scheme \<Rightarrow> bool" where
  "io_frame s t \<longleftrightarrow> (\<exists>P L B v im tr lg. t = s\<lparr>procs := P, sleeplocks := L, bufs := B, vdisk := v,
     disk_image := im, disk_trace := tr, virtio_log := lg\<rparr>)"

lemma io_frame_refl [simp, intro]: "io_frame s s"
  unfolding io_frame_def by (cases s) auto

lemma io_frame_trans [trans]: "io_frame s t \<Longrightarrow> io_frame t u \<Longrightarrow> io_frame s u"
  unfolding io_frame_def by (cases s) auto

lemma io_frame_upd [intro]:
  "io_frame s u \<Longrightarrow> io_frame s (u\<lparr>procs := P\<rparr>)" "io_frame s u \<Longrightarrow> io_frame s (u\<lparr>sleeplocks := L\<rparr>)"
  "io_frame s u \<Longrightarrow> io_frame s (u\<lparr>bufs := B\<rparr>)" "io_frame s u \<Longrightarrow> io_frame s (u\<lparr>vdisk := v\<rparr>)"
  "io_frame s u \<Longrightarrow> io_frame s (u\<lparr>disk_image := im\<rparr>)" "io_frame s u \<Longrightarrow> io_frame s (u\<lparr>disk_trace := tr\<rparr>)"
  "io_frame s u \<Longrightarrow> io_frame s (u\<lparr>virtio_log := lg\<rparr>)"
  unfolding io_frame_def by (cases s, force)+

text \<open>The sectors after a sequence of writes.\<close>

fun replay :: "(u64 \<times> u8 list) list \<Rightarrow> sectors \<Rightarrow> sectors" where
  "replay [] im = im"
| "replay ((x, d) # ws) im = replay ws (im(x := d))"

lemma replay_append [simp]: "replay (ws @ vs) im = replay vs (replay ws im)"
  by (induction ws arbitrary: im) auto

lemma replay_block_writes: "replay (block_writes n d) im = put_block im n d"
  by (simp add: block_writes_def put_block_def)

text \<open>The state after an operation in terms of the maps.\<close>

definition bc_post :: "u32 \<Rightarrow> nat \<Rightarrow> 'a bio_state_scheme \<Rightarrow> (u32 \<Rightarrow> u8 list) \<Rightarrow> (u32 \<Rightarrow> u8 list) \<Rightarrow> (u32 \<Rightarrow> nat) \<Rightarrow>
    u32 set \<Rightarrow> (u64 \<times> u8 list) list \<Rightarrow> 'a bio_state_scheme \<Rightarrow> bool" where
  "bc_post dev p s V D R H tr t \<longleftrightarrow> bc_inv dev p t \<and> io_frame s t
     \<and> view_of dev t = V \<and> disk_of t = D \<and> refs_of dev t = R \<and> held_of dev t = H
     \<and> disk_trace t = disk_trace s @ tr \<and> disk_image t = replay tr (disk_image s)
     \<and> (\<forall>n. refs_of dev s n \<noteq> 0 \<longrightarrow> slot_of dev (bufs t) n = slot_of dev (bufs s) n)"

lemma upd_one_slot:
  assumes inv: "bc_inv dev p s" and b: "slot_of dev (bufs s) n = Some b"
    and x: "bdev x = dev" "blockno x = n" "bnext x = bnext (bufs s b)" "bprev x = bprev (bufs s b)"
    and ok: "slot_ok dev (pid (procs s p)) (s\<lparr>bufs := (bufs s)(b := x)\<rparr>) b"
  shows "bc_post dev p s ((view_of dev s)(n := bdata x)) (disk_of s) ((refs_of dev s)(n := unat (refcnt x)))
    (held_of dev s) [] (s\<lparr>bufs := (bufs s)(b := x)\<rparr>)"
proof -
  let ?t = "s\<lparr>bufs := (bufs s)(b := x)\<rparr>"
  note D = bc_invD [OF inv]
  obtain l where "ring (bufs s) l" using D(5) by blast
  then have "ring (bufs ?t) l" using x by (subst ring_cong [of _ "bufs s"]) auto
  then have fr: "bc_frame p s ?t" using D(1,3,4) by (auto simp: bc_frame_def calm_def)
  have "m \<noteq> n \<Longrightarrow> disk_of ?t m = disk_of s m" "disk_of ?t = disk_of s" for m by (auto simp: disk_of_def)
  note T = bc_touch [OF inv b fr _ _ _ ok this(1)]
  have "held_of dev ?t = (if sl_locked (sleeplocks s (BufLock b)) \<noteq> 0 then insert n (held_of dev s) else held_of dev s - {n})"
    using T(5) x by simp
  also have "\<dots> = held_of dev s"
    using b by (auto simp: held_of_def)
  finally show ?thesis
    using T(1-4) x \<open>disk_of ?t = disk_of s\<close> by (auto simp: bc_post_def)
qed

lemma slotD:
  assumes inv: "bc_inv dev p s" and b: "slot_of dev (bufs s) n = Some b"
  shows "b < NBUF" "bdev (bufs s b) = dev" "blockno (bufs s b) = n" "valid (bufs s b) = 1" "block_ok n"
    "length (bdata (bufs s b)) = BSIZE" "bdisk (bufs s b) = 0" "view_of dev s n = bdata (bufs s b)"
    "refs_of dev s n = unat (refcnt (bufs s b))" "n \<in> held_of dev s \<longleftrightarrow> sl_locked (sleeplocks s (BufLock b)) \<noteq> 0"
    "n \<in> held_of dev s \<Longrightarrow> sl_pid (sleeplocks s (BufLock b)) = pid (procs s p)"
    "n \<in> held_of dev s \<Longrightarrow> refcnt (bufs s b) \<noteq> 0"
    "refcnt (bufs s b) = 0 \<Longrightarrow> bdata (bufs s b) = disk_of s n"
    "slot_ok dev (pid (procs s p)) s b"
  using slot_ofD [OF b] bc_invD(6) [OF inv, of b] b
  by (auto simp: slot_ok_def Let_def view_of_def refs_of_def held_of_def)

lemma slot_idem:
  assumes "slot_of dev (bufs s) n = Some b"
  shows "(view_of dev s)(n := bdata (bufs s b)) = view_of dev s"
    "(refs_of dev s)(n := unat (refcnt (bufs s b))) = refs_of dev s"
  using assms by (auto simp: view_of_def refs_of_def)

lemma calm_locked_upd:
  assumes "calm p s"
  shows "kdo (kacquire l) (kdo (upd_buf b f) (krelease l)) s = Done () (s\<lparr>bufs := (bufs s)(b := f (bufs s b))\<rparr>)"
proof -
  note c = calmD [OF assms]
  have "kdo (kacquire l) (kdo (upd_buf b f) (krelease l)) s =
      Done () (s\<lparr>hw := settle (hw s), bufs := (bufs s)(b := f (bufs s b))\<rparr>)"
    using c by (simp add: upd_buf_def kern_run)
  then show ?thesis by (simp add: c(4))
qed

lemma unat_inc: "unat (x :: u32) < 2 ^ 32 - 1 \<Longrightarrow> unat (x + 1) = unat x + 1 \<and> x + 1 \<noteq> 0"
proof -
  assume "unat x < 2 ^ 32 - 1"
  then have "unat (x + 1) = unat x + 1" by (simp add: unat_word_ariths)
  then show ?thesis by (auto simp: unat_eq_0 [symmetric])
qed

lemma unat_dec: "(x :: u32) \<noteq> 0 \<Longrightarrow> unat (x - 1) = unat x - 1"
  by (rule unat_minus_one)

lemma bpin_post:
  assumes inv: "bc_inv dev p s" and b: "slot_of dev (bufs s) n = Some b" and lim: "refs_of dev s n < 2 ^ 32 - 1"
  shows "\<exists>t. bpin b s = Done () t \<and> bc_post dev p s (view_of dev s) (disk_of s)
    ((refs_of dev s)(n := refs_of dev s n + 1)) (held_of dev s) [] t"
proof -
  note S = slotD [OF inv b]
  let ?x = "(bufs s b)\<lparr>refcnt := refcnt (bufs s b) + 1\<rparr>"
  have r: "unat (refcnt ?x) = refs_of dev s n + 1" "refcnt ?x \<noteq> 0" using unat_inc [of "refcnt (bufs s b)"] lim S(9) by simp_all
  have "slot_ok dev (pid (procs s p)) (s\<lparr>bufs := (bufs s)(b := ?x)\<rparr>) b"
    using S(14,2) r(2) by (simp add: slot_ok_def Let_def)
  from upd_one_slot [OF inv b _ _ _ _ this] have "bc_post dev p s (view_of dev s) (disk_of s)
    ((refs_of dev s)(n := refs_of dev s n + 1)) (held_of dev s) [] (s\<lparr>bufs := (bufs s)(b := ?x)\<rparr>)"
    using S r(1) slot_idem [OF b] by simp
  then show ?thesis
    using calm_locked_upd [OF bc_invD(1) [OF inv], of BcacheLock b] by (auto simp: bpin_def)
qed

lemma bunpin_post:
  assumes inv: "bc_inv dev p s" and b: "slot_of dev (bufs s) n = Some b" and pos: "refs_of dev s n \<noteq> 0"
    and last: "refs_of dev s n = 1 \<Longrightarrow> n \<notin> held_of dev s \<and> view_of dev s n = disk_of s n"
  shows "\<exists>t. bunpin b s = Done () t \<and> bc_post dev p s (view_of dev s) (disk_of s)
    ((refs_of dev s)(n := refs_of dev s n - 1)) (held_of dev s) [] t"
proof -
  note S = slotD [OF inv b]
  let ?x = "(bufs s b)\<lparr>refcnt := refcnt (bufs s b) - 1\<rparr>"
  have nz: "refcnt (bufs s b) \<noteq> 0" using pos S(9) by (auto simp: unat_eq_0)
  then have r: "unat (refcnt ?x) = refs_of dev s n - 1" using unat_dec [OF nz] S(9) by simp
  have "n \<notin> held_of dev s \<and> bdata (bufs s b) = disk_of s n" if "refcnt ?x = 0"
    using that r last pos S(8) by (simp add: unat_eq_0 [symmetric])
  then have "slot_ok dev (pid (procs s p)) (s\<lparr>bufs := (bufs s)(b := ?x)\<rparr>) b"
    using S(2,3,10,14) by (auto simp: slot_ok_def Let_def disk_of_def)
  from upd_one_slot [OF inv b _ _ _ _ this] have "bc_post dev p s (view_of dev s) (disk_of s)
    ((refs_of dev s)(n := refs_of dev s n - 1)) (held_of dev s) [] (s\<lparr>bufs := (bufs s)(b := ?x)\<rparr>)"
    using S r(1) slot_idem [OF b] by simp
  then show ?thesis
    using calm_locked_upd [OF bc_invD(1) [OF inv], of BcacheLock b] by (auto simp: bunpin_def)
qed

text \<open>Writing into the data of a buffer that is held.\<close>

lemma set_data_post:
  assumes inv: "bc_inv dev p s" and b: "slot_of dev (bufs s) n = Some b" and held: "n \<in> held_of dev s"
    and len: "length (f (view_of dev s n)) = BSIZE"
  shows "\<exists>t. upd_buf b (\<lambda>x. x\<lparr>bdata := f (bdata x)\<rparr>) s = Done () t
    \<and> bc_post dev p s ((view_of dev s)(n := f (view_of dev s n))) (disk_of s) (refs_of dev s) (held_of dev s) [] t"
proof -
  note S = slotD [OF inv b]
  let ?x = "(bufs s b)\<lparr>bdata := f (bdata (bufs s b))\<rparr>"
  have "slot_ok dev (pid (procs s p)) (s\<lparr>bufs := (bufs s)(b := ?x)\<rparr>) b"
    using S(14) len S(12) [OF held] by (simp add: slot_ok_def Let_def S(2,3,8))
  from upd_one_slot [OF inv b _ _ _ _ this] show ?thesis
    using S(2,3,8) slot_idem [OF b] by (simp add: upd_buf_def kern_run)
qed

lemma disk_of_put_block:
  assumes "block_ok n" and "disk_image t = put_block (disk_image s) n d"
  shows "disk_of t = (disk_of s)(n := d)"
  using assms block_of_put_block [of _ n "disk_image s" d] by (auto simp: disk_of_def)

lemma put_block_length:
  assumes "\<And>k. length (im k) = 512" and "length d = BSIZE"
  shows "length (put_block im n d k) = 512"
  using assms by (simp add: put_block_def BSIZE_def)

lemma bwrite_post:
  assumes inv: "bc_inv dev p s" and b: "slot_of dev (bufs s) n = Some b" and held: "n \<in> held_of dev s"
  shows "\<exists>t. bwrite b s = Done () t \<and> bc_post dev p s (view_of dev s) ((disk_of s)(n := view_of dev s n))
    (refs_of dev s) (held_of dev s) (block_writes n (view_of dev s n)) t"
proof -
  note S = slotD [OF inv b] and D = bc_invD [OF inv]
  let ?d = "bdata (bufs s b)"
  have "(bufs s b)\<lparr>bdisk := 0\<rparr> = bufs s b" using S(7) by (cases "bufs s b") simp
  then have "rw_bufs b True s = bufs s" by (simp add: rw_bufs_def)
  with virtio_disk_rw_Done [OF D(1,2,3), of b True] S(3) obtain v lg where
    rw: "virtio_disk_rw b True s = Done () (s\<lparr>virtio_log := lg, disk_trace := disk_trace s @ block_writes n ?d,
      disk_image := put_block (disk_image s) n ?d, vdisk := v, procs := rw_procs p b (procs s)\<rparr>)"
    (is "_ = Done () ?t") and v: "vq_idle v"
    by auto
  have run: "bwrite b s = Done () ?t"
    using rw calm_holdingsleep [OF D(1), of "BufLock b"] S(10,11) held by (simp add: bwrite_def)
  have disk: "disk_of ?t = (disk_of s)(n := ?d)" by (rule disk_of_put_block [OF S(5)]) simp
  have fr: "bc_frame p s ?t"
    using D(1,4,5) v put_block_length [OF D(4) S(6)] by (simp add: bc_frame_def calm_def)
  have ok: "slot_ok dev (pid (procs s p)) ?t b"
    using S(14) S(12) [OF held] by (simp add: slot_ok_def Let_def)
  note T = bc_touch [OF inv b fr _ _ _ ok]
  have "bc_inv dev p ?t" by (rule T(1)) (simp_all add: disk S(2,3))
  moreover have "view_of dev ?t = view_of dev s" by (subst T(3)) (simp_all add: disk S(2,3) slot_idem [OF b])
  moreover have "refs_of dev ?t = refs_of dev s" by (subst T(4)) (simp_all add: disk S(2,3) slot_idem [OF b])
  moreover have "held_of dev ?t = held_of dev s" by (simp add: held_of_def cong: option.case_cong)
  moreover have "io_frame s ?t" by (intro io_frame_upd io_frame_refl)
  ultimately have "bc_post dev p s (view_of dev s) ((disk_of s)(n := view_of dev s n))
    (refs_of dev s) (held_of dev s) (block_writes n (view_of dev s n)) ?t"
    by (simp add: bc_post_def disk S(8) replay_block_writes)
  then show ?thesis using run by blast
qed

text \<open>Releasing a buffer. A block that is not referenced any more must be clean, because the buffer may
  be recycled then.\<close>

lemma brelse_Done:
  assumes c: "calm p s" and b: "b < NBUF" and r: "ring (bufs s) l"
    and k: "sl_locked (sleeplocks s (BufLock b)) \<noteq> 0" "sl_pid (sleeplocks s (BufLock b)) = pid (procs s p)"
  defines "B \<equiv> (bufs s)(b := (bufs s b)\<lparr>refcnt := refcnt (bufs s b) - 1\<rparr>)"
  shows "brelse b s = Done () (s\<lparr>sleeplocks := (sleeplocks s)(BufLock b := (sleeplocks s (BufLock b))\<lparr>sl_locked := 0, sl_pid := 0\<rparr>),
      procs := woken (ChanSleep (BufLock b)) (Some p) (procs s),
      bufs := (if refcnt (bufs s b) = 1 then link_front (unlink B b) b else B)\<rparr>)"
proof -
  note C = calmD [OF c]
  let ?s1 = "s\<lparr>sleeplocks := (sleeplocks s)(BufLock b := (sleeplocks s (BufLock b))\<lparr>sl_locked := 0, sl_pid := 0\<rparr>),
      procs := woken (ChanSleep (BufLock b)) (Some p) (procs s)\<rparr>"
  let ?s2 = "?s1\<lparr>hw := taken BcacheLock (hw s), bufs := B\<rparr>"
  have hold: "holdingsleep (BufLock b) s = Done True s"
    using calm_holdingsleep [OF c, of "BufLock b"] k by simp
  have rel: "releasesleep (BufLock b) s = Done () ?s1" by (rule calm_releasesleep [OF c])
  have ring: "ring B l" unfolding B_def by (subst ring_cong [of _ "bufs s"]) (auto simp: r)
  have rc: "refcnt (B b) = 0 \<longleftrightarrow> refcnt (bufs s b) = 1" by (simp add: B_def)
  have front: "brelse_front b ?s2 = Done () (?s2\<lparr>bufs := link_front (unlink B b) b\<rparr>)"
    using brelse_front_Done [of ?s2 l b] ring b by simp
  have hw: "s\<lparr>hw := settle (hw s)\<rparr> = s" using C(4) by simp
  have "brelse b s = Done () (s\<lparr>sleeplocks := (sleeplocks s)(BufLock b := (sleeplocks s (BufLock b))\<lparr>sl_locked := 0, sl_pid := 0\<rparr>),
      procs := woken (ChanSleep (BufLock b)) (Some p) (procs s), hw := settle (hw s),
      bufs := (if refcnt (bufs s b) = 1 then link_front (unlink B b) b else B)\<rparr>)"
    using C hold rel front rc
    by (cases "refcnt (bufs s b) = 1") (simp_all add: brelse_def upd_buf_def kern_run B_def)
  then show ?thesis using C(4) by (cases s) simp
qed

lemma brelse_post:
  assumes inv: "bc_inv dev p s" and b: "slot_of dev (bufs s) n = Some b" and held: "n \<in> held_of dev s"
    and last: "refs_of dev s n = 1 \<Longrightarrow> view_of dev s n = disk_of s n"
  shows "\<exists>t. brelse b s = Done () t \<and> bc_post dev p s (view_of dev s) (disk_of s)
    ((refs_of dev s)(n := refs_of dev s n - 1)) (held_of dev s - {n}) [] t"
proof -
  note S = slotD [OF inv b] and D = bc_invD [OF inv]
  obtain l where l: "ring (bufs s) l" using D(5) by blast
  define B where "B = (bufs s)(b := (bufs s b)\<lparr>refcnt := refcnt (bufs s b) - 1\<rparr>)"
  define B' where "B' = (if refcnt (bufs s b) = 1 then link_front (unlink B b) b else B)"
  let ?t = "s\<lparr>sleeplocks := (sleeplocks s)(BufLock b := (sleeplocks s (BufLock b))\<lparr>sl_locked := 0, sl_pid := 0\<rparr>),
      procs := woken (ChanSleep (BufLock b)) (Some p) (procs s), bufs := B'\<rparr>"
  have run: "brelse b s = Done () ?t"
    using brelse_Done [OF D(1) S(1) l] S(10,11) held by (simp add: B_def B'_def)
  have "ring B l" unfolding B_def by (subst ring_cong [of _ "bufs s"]) (auto simp: l)
  then have "\<exists>l'. ring B' l'" unfolding B'_def using ring_front S(1) by auto
  then have fr: "bc_frame p s ?t"
    using D(1,3,4) by (simp add: bc_frame_def calm_def)
  have pay: "payload (B' c) = payload (B c)" for c by (simp add: B'_def payload_def)
  have oth: "payload (bufs ?t c) = payload (bufs s c) \<and> sleeplocks ?t (BufLock c) = sleeplocks s (BufLock c)"
    if "c < NBUF" "c \<noteq> b" for c
    using that pay [of c] by (simp add: B_def)
  have nz: "refcnt (bufs s b) \<noteq> 0" by (rule S(12) [OF held])
  have me: "bdev (B' b) = dev" "blockno (B' b) = n" "bdata (B' b) = bdata (bufs s b)"
    "refcnt (B' b) = refcnt (bufs s b) - 1" "bdisk (B' b) = 0" "valid (B' b) = 1"
    using S(2-4,7) by (simp_all add: B'_def B_def)
  have disk: "disk_of ?t = disk_of s" by (auto simp: disk_of_def)
  have "bdata (bufs s b) = disk_of s n" if "refcnt (bufs s b) = 1"
    using last S(8,9) that by simp
  then have ok: "slot_ok dev (pid (procs s p)) ?t b"
    using S(5,6) me by (auto simp: slot_ok_def Let_def disk)
  have T: "bc_inv dev p ?t" "slot_of dev (bufs ?t) = slot_of dev (bufs s)"
    "view_of dev ?t = (view_of dev s)(n := bdata (bufs ?t b))"
    "refs_of dev ?t = (refs_of dev s)(n := unat (refcnt (bufs ?t b)))"
    "held_of dev ?t = (if sl_locked (sleeplocks ?t (BufLock b)) \<noteq> 0 then insert n (held_of dev s) else held_of dev s - {n})"
    by (rule bc_touch [OF inv b fr oth _ _ ok]; simp add: me disk)+
  have "io_frame s ?t" by (intro io_frame_upd io_frame_refl)
  then have "bc_post dev p s (view_of dev s) (disk_of s)
    ((refs_of dev s)(n := refs_of dev s n - 1)) (held_of dev s - {n}) [] ?t"
    using T me unat_dec [OF nz] S(9) slot_idem [OF b] by (simp add: bc_post_def disk)
  then show ?thesis using run by blast
qed

text \<open>The scans of the list agree with the map from block numbers to slots.\<close>

lemma find_SomeD: "find P xs = Some x \<Longrightarrow> x \<in> set xs \<and> P x"
  by (induction xs) (auto split: if_splits)

lemma ringD:
  assumes "ring B l"
  shows "set l = {0..<NBUF}" "linked B (NBUF # l @ [NBUF])" "NBUF \<notin> set l" "length l \<le> NBUF"
  using assms distinct_card [of l] by (auto simp: ring_def)

lemma scan_cached:
  assumes one: "one_slot dev (bufs s)" and l: "ring (bufs s) l"
  shows "bget_cached NBUF dev n (bnext (bufs s NBUF)) s = Done (slot_of dev (bufs s) n) s"
proof -
  note L = ringD [OF l]
  let ?P = "\<lambda>b. bdev (bufs s b) = dev \<and> blockno (bufs s b) = n"
  have "find ?P l = slot_of dev (bufs s) n"
  proof (cases "find ?P l")
    case None
    then have "slot_of dev (bufs s) n = None" using L(1) by (auto simp: find_None_iff slot_of_None_iff)
    with None show ?thesis by simp
  next
    case (Some b)
    then have "b < NBUF \<and> ?P b" using find_SomeD [OF Some] L(1) by auto
    then show ?thesis using Some slot_of_iff [OF one, of n b] by simp
  qed
  then show ?thesis using bget_cached_Done [OF L(2,3,4), of dev n] by simp
qed

lemma scan_unused:
  assumes l: "ring (bufs s) l" and free: "b < NBUF" "refcnt (bufs s b) = 0"
  obtains c where "c < NBUF" "refcnt (bufs s c) = 0" "bget_unused NBUF (bprev (bufs s NBUF)) s = Done (Some c) s"
proof -
  note L = ringD [OF l]
  have "find (\<lambda>b. refcnt (bufs s b) = 0) (rev l) \<noteq> None" using L(1) free by (auto simp: find_None_iff)
  then obtain c where c: "find (\<lambda>b. refcnt (bufs s b) = 0) (rev l) = Some c" by auto
  then have "c < NBUF" "refcnt (bufs s c) = 0" using find_SomeD [OF c] L(1) by auto
  then show ?thesis using that [of c] bget_unused_Done [OF L(2,3,4)] c by simp
qed

definition hit_state :: "nat \<Rightarrow> nat \<Rightarrow> 'a bio_state_scheme \<Rightarrow> 'a bio_state_scheme" where
  "hit_state p b s = s\<lparr>bufs := (bufs s)(b := (bufs s b)\<lparr>refcnt := refcnt (bufs s b) + 1\<rparr>),
     sleeplocks := (sleeplocks s)(BufLock b := (sleeplocks s (BufLock b))\<lparr>sl_locked := 1, sl_pid := pid (procs s p)\<rparr>)\<rparr>"

definition miss_state :: "u32 \<Rightarrow> u32 \<Rightarrow> nat \<Rightarrow> nat \<Rightarrow> 'a bio_state_scheme \<Rightarrow> 'a bio_state_scheme" where
  "miss_state dev n p b s = s\<lparr>bufs := (bufs s)(b := (bufs s b)\<lparr>bdev := dev, blockno := n, valid := 0, refcnt := 1\<rparr>),
     sleeplocks := (sleeplocks s)(BufLock b := (sleeplocks s (BufLock b))\<lparr>sl_locked := 1, sl_pid := pid (procs s p)\<rparr>)\<rparr>"

lemma bget_hit:
  assumes inv: "bc_inv dev p s" and b: "slot_of dev (bufs s) n = Some b" and free: "n \<notin> held_of dev s"
  shows "bget dev n s = Done b (hit_state p b s)"
proof -
  note C = calmD [OF bc_invD(1) [OF inv]] and S = slotD [OF inv b]
  obtain l where l: "ring (bufs s) l" using bc_invD(5) [OF inv] by blast
  let ?h = "s\<lparr>hw := taken BcacheLock (hw s)\<rparr>"
  let ?s1 = "s\<lparr>bufs := (bufs s)(b := (bufs s b)\<lparr>refcnt := refcnt (bufs s b) + 1\<rparr>)\<rparr>"
  have hit: "bget_cached NBUF dev n (bnext (bufs s NBUF)) ?h = Done (Some b) ?h"
    using scan_cached [of dev ?h l n] bc_invD(7) [OF inv] l b by simp
  have "calm p ?s1" using bc_invD(1) [OF inv] by (simp add: calm_def)
  then have lock: "acquiresleep (BufLock b) ?s1 = Done () (hit_state p b s)"
    using calm_acquiresleep [of p ?s1 "BufLock b"] free S(10) by (simp add: hit_state_def)
  have "bget dev n s = kdo (acquiresleep (BufLock b)) (kret b) (?s1\<lparr>hw := settle (hw s)\<rparr>)"
    using C hit by (simp add: bget_def upd_buf_def kern_run)
  then show ?thesis using C(4) lock by (simp add: kern_run)
qed

lemma bread_hit:
  assumes inv: "bc_inv dev p s" and b: "slot_of dev (bufs s) n = Some b" and free: "n \<notin> held_of dev s"
    and lim: "refs_of dev s n < 2 ^ 32 - 1"
  shows "bread dev n s = Done b (hit_state p b s) \<and> bc_post dev p s (view_of dev s) (disk_of s)
    ((refs_of dev s)(n := refs_of dev s n + 1)) (insert n (held_of dev s)) [] (hit_state p b s)"
proof -
  note S = slotD [OF inv b] and D = bc_invD [OF inv]
  let ?t = "hit_state p b s"
  obtain l where l: "ring (bufs s) l" using D(5) by blast
  have run: "bread dev n s = Done b ?t"
    using bget_hit [OF inv b free] S(4) by (simp add: bread_def kern_run hit_state_def)
  have r: "unat (refcnt (bufs s b) + 1) = refs_of dev s n + 1" "refcnt (bufs s b) + 1 \<noteq> 0"
    using unat_inc [of "refcnt (bufs s b)"] lim S(9) by simp_all
  have "ring (bufs ?t) l" by (subst ring_cong [of _ "bufs s"]) (auto simp: l hit_state_def)
  then have fr: "bc_frame p s ?t"
    using D(1,3,4) by (auto simp: bc_frame_def calm_def hit_state_def)
  have disk: "disk_of ?t = disk_of s" by (auto simp: disk_of_def hit_state_def)
  have ok: "slot_ok dev (pid (procs s p)) ?t b"
    using S(2-7) r by (simp add: slot_ok_def Let_def hit_state_def)
  have me: "bdev (bufs ?t b) = dev" "blockno (bufs ?t b) = n" "bdata (bufs ?t b) = bdata (bufs s b)"
    "unat (refcnt (bufs ?t b)) = refs_of dev s n + 1" "sl_locked (sleeplocks ?t (BufLock b)) = 1"
    using S(2,3) r by (simp_all add: hit_state_def)
  have oth: "payload (bufs ?t c) = payload (bufs s c) \<and> sleeplocks ?t (BufLock c) = sleeplocks s (BufLock c)"
    if "c < NBUF" "c \<noteq> b" for c
    using that by (simp add: hit_state_def)
  have T: "bc_inv dev p ?t" "slot_of dev (bufs ?t) = slot_of dev (bufs s)"
    "view_of dev ?t = (view_of dev s)(n := bdata (bufs ?t b))"
    "refs_of dev ?t = (refs_of dev s)(n := unat (refcnt (bufs ?t b)))"
    "held_of dev ?t = (if sl_locked (sleeplocks ?t (BufLock b)) \<noteq> 0 then insert n (held_of dev s) else held_of dev s - {n})"
    by (rule bc_touch [OF inv b fr oth _ _ ok]; simp add: me disk)+
  have "io_frame s ?t" unfolding hit_state_def by (intro io_frame_upd io_frame_refl)
  moreover have "disk_trace ?t = disk_trace s" "disk_image ?t = disk_image s" by (simp_all add: hit_state_def)
  ultimately show ?thesis
    using run T me slot_idem [OF b] by (simp add: bc_post_def disk)
qed

lemma bread_miss_run:
  assumes inv: "bc_inv dev p s" and none: "slot_of dev (bufs s) n = None" and ok: "block_ok n"
    and free: "c < NBUF" "refcnt (bufs s c) = 0"
  obtains b v lg P where "b < NBUF" "refcnt (bufs s b) = 0" "vq_idle v" "calm p (s\<lparr>procs := P\<rparr>)" "P p = procs s p"
    "bread dev n s = Done b (s\<lparr>sleeplocks := (sleeplocks s)(BufLock b := (sleeplocks s (BufLock b))\<lparr>sl_locked := 1, sl_pid := pid (procs s p)\<rparr>),
       virtio_log := lg, vdisk := v, procs := P,
       bufs := (bufs s)(b := (bufs s b)\<lparr>bdev := dev, blockno := n, refcnt := 1, bdata := disk_of s n, bdisk := 0, valid := 1\<rparr>)\<rparr>)"
proof -
  note C = calmD [OF bc_invD(1) [OF inv]] and D = bc_invD [OF inv]
  obtain l where l: "ring (bufs s) l" using D(5) by blast
  let ?h = "s\<lparr>hw := taken BcacheLock (hw s)\<rparr>"
  obtain b where b: "b < NBUF" "refcnt (bufs s b) = 0" "bget_unused NBUF (bprev (bufs s NBUF)) ?h = Done (Some b) ?h"
    using scan_unused [of ?h l c] l free by auto
  let ?s1 = "s\<lparr>bufs := (bufs s)(b := (bufs s b)\<lparr>bdev := dev, blockno := n, valid := 0, refcnt := 1\<rparr>)\<rparr>"
  let ?s2 = "miss_state dev n p b s"
  have miss: "bget_cached NBUF dev n (bnext (bufs s NBUF)) ?h = Done None ?h"
    using scan_cached [of dev ?h l n] D(7) l none by simp
  have "sl_locked (sleeplocks s (BufLock b)) = 0" using D(6) [OF b(1)] b(2) by (simp add: slot_ok_def Let_def)
  moreover have "calm p ?s1" using D(1) by (simp add: calm_def)
  ultimately have lock: "acquiresleep (BufLock b) ?s1 = Done () ?s2"
    using calm_acquiresleep [of p ?s1 "BufLock b"] by (simp add: miss_state_def)
  have "bget dev n s = kdo (acquiresleep (BufLock b)) (kret b) (?s1\<lparr>hw := settle (hw s)\<rparr>)"
    using C miss b(3) by (simp add: bget_def upd_buf_def kern_run)
  then have get: "bget dev n s = Done b ?s2" using C(4) lock by (simp add: kern_run)
  have "calm p ?s2" "serves (disk_hw ?s2)" "vq_idle (vdisk ?s2)" using D(1,2,3) by (simp_all add: calm_def miss_state_def)
  from virtio_disk_rw_Done [OF this, of b False] obtain v lg where v: "vq_idle v"
    and rw: "virtio_disk_rw b False ?s2 = Done () (?s2\<lparr>virtio_log := lg, disk_trace := disk_trace ?s2,
      disk_image := disk_image ?s2, bufs := rw_bufs b False ?s2, vdisk := v, procs := rw_procs p b (procs ?s2)\<rparr>)"
    by auto
  have "bread dev n s = Done b (s\<lparr>sleeplocks := (sleeplocks s)(BufLock b := (sleeplocks s (BufLock b))\<lparr>sl_locked := 1, sl_pid := pid (procs s p)\<rparr>),
       virtio_log := lg, vdisk := v, procs := rw_procs p b (procs s),
       bufs := (bufs s)(b := (bufs s b)\<lparr>bdev := dev, blockno := n, refcnt := 1, bdata := disk_of s n, bdisk := 0, valid := 1\<rparr>)\<rparr>)"
    using get rw ok
    by (simp add: bread_def kern_run upd_buf_def rw_bufs_def disk_of_def) (simp add: miss_state_def)
  moreover have "calm p (s\<lparr>procs := rw_procs p b (procs s)\<rparr>)" using D(1) by (simp add: calm_def)
  ultimately show ?thesis using that [OF b(1,2) v] by simp
qed

lemma slot_of_recycle:
  assumes one: "one_slot dev B" and none: "slot_of dev B n = None" and b: "b < NBUF" and x: "bdev x = dev" "blockno x = n"
  shows "one_slot dev (B(b := x))"
    and "slot_of dev (B(b := x)) m = (if m = n then Some b else if slot_of dev B m = Some b then None else slot_of dev B m)"
proof -
  have nn: "blockno (B c) \<noteq> n" if "c < NBUF" "bdev (B c) = dev" for c
    using none that by (simp add: slot_of_None_iff)
  then show new: "one_slot dev (B(b := x))" using one x unfolding one_slot_def by (metis fun_upd_apply)
  have "slot_of dev (B(b := x)) m = Some c \<longleftrightarrow>
      (if m = n then Some b else if slot_of dev B m = Some b then None else slot_of dev B m) = Some c" for c
    unfolding slot_of_iff [OF new] using slot_of_iff [OF one, of m c] slot_of_iff [OF one, of m b] b x nn [of c]
    by (cases "c = b"; cases "m = n") auto
  then show "slot_of dev (B(b := x)) m = (if m = n then Some b else if slot_of dev B m = Some b then None else slot_of dev B m)"
    by (metis option.exhaust)
qed

text \<open>Recycling a slot: the block it cached loses its slot, which changes nothing as it was clean.\<close>

lemma recycle_abs:
  assumes inv: "bc_inv dev p s" and none: "slot_of dev (bufs s) n = None"
    and b: "b < NBUF" "refcnt (bufs s b) = 0" and disk: "disk_of t = disk_of s"
    and t: "bufs t = (bufs s)(b := x)" "sleeplocks t = (sleeplocks s)(BufLock b := k)"
    and x: "bdev x = dev" "blockno x = n" "refcnt x = 1" "bdata x = disk_of s n" "sl_locked k = 1"
  shows "view_of dev t = view_of dev s" and "refs_of dev t = (refs_of dev s)(n := refs_of dev s n + 1)"
    and "held_of dev t = insert n (held_of dev s)"
    and "refs_of dev s m \<noteq> 0 \<Longrightarrow> slot_of dev (bufs t) m = slot_of dev (bufs s) m"
proof -
  note slot = slot_of_recycle(2) [OF bc_invD(7) [OF inv] none b(1) x(1,2)]
  have clean: "bdata (bufs s b) = disk_of s m" "sl_locked (sleeplocks s (BufLock b)) = 0" if "slot_of dev (bufs s) m = Some b" for m
    using slotD(13) [OF inv that] bc_invD(6) [OF inv b(1)] b(2) by (simp_all add: slot_ok_def Let_def)
  have abs: "view_of dev t m = view_of dev s m \<and> refs_of dev t m = (if m = n then refs_of dev s n + 1 else refs_of dev s m) \<and>
    (m \<in> held_of dev t \<longleftrightarrow> m = n \<or> m \<in> held_of dev s)" for m
  proof (cases "m \<noteq> n \<and> slot_of dev (bufs s) m \<noteq> Some b")
    case True
    then show ?thesis
      by (cases "slot_of dev (bufs s) m") (auto simp: view_of_def refs_of_def held_of_def disk t slot)
  next
    case False
    then show ?thesis
      using none b(2) clean [of m] x by (auto simp: view_of_def refs_of_def held_of_def disk t slot)
  qed
  show "view_of dev t = view_of dev s" using abs by blast
  show "refs_of dev t = (refs_of dev s)(n := refs_of dev s n + 1)" using abs by (intro ext) simp
  show "held_of dev t = insert n (held_of dev s)" using abs by blast
  show "slot_of dev (bufs t) m = slot_of dev (bufs s) m" if "refs_of dev s m \<noteq> 0"
    using that b(2) none by (auto simp: refs_of_def t slot)
qed

lemma bread_miss:
  assumes inv: "bc_inv dev p s" and none: "slot_of dev (bufs s) n = None" and ok: "block_ok n"
    and free: "c < NBUF" "refcnt (bufs s c) = 0"
  shows "\<exists>b t. bread dev n s = Done b t \<and> slot_of dev (bufs t) n = Some b \<and> bc_post dev p s (view_of dev s) (disk_of s)
    ((refs_of dev s)(n := refs_of dev s n + 1)) (insert n (held_of dev s)) [] t"
proof -
  note D = bc_invD [OF inv]
  obtain b v lg P where b: "b < NBUF" "refcnt (bufs s b) = 0"
    and v: "vq_idle v" and P: "calm p (s\<lparr>procs := P\<rparr>)" "P p = procs s p"
    and run: "bread dev n s = Done b (s\<lparr>sleeplocks := (sleeplocks s)(BufLock b := (sleeplocks s (BufLock b))\<lparr>sl_locked := 1, sl_pid := pid (procs s p)\<rparr>),
       virtio_log := lg, vdisk := v, procs := P,
       bufs := (bufs s)(b := (bufs s b)\<lparr>bdev := dev, blockno := n, refcnt := 1, bdata := disk_of s n, bdisk := 0, valid := 1\<rparr>)\<rparr>)"
    (is "_ = Done b ?t") by (rule bread_miss_run [OF inv none ok free])
  have disk: "disk_of ?t = disk_of s" by (auto simp: disk_of_def)
  obtain l where l: "ring (bufs s) l" using D(5) by blast
  have ring: "\<exists>l. ring (bufs ?t) l"
    by (rule exI [of _ l], subst ring_cong [of _ "bufs s"]) (auto simp: l)
  have one: "one_slot dev (bufs ?t)" using slot_of_recycle(1) [OF D(7) none b(1)] by simp
  have "length (disk_of s n) = BSIZE" using ok D(4) by (simp add: disk_of_def block_of_def BSIZE_def)
  then have slots: "slot_ok dev (pid (procs s p)) ?t c" if c: "c < NBUF" for c
    using D(6) [OF c] ok by (cases "c = b") (simp_all add: slot_ok_def Let_def disk)
  have "calm p ?t" using P(1) by (simp add: calm_def)
  then have tinv: "bc_inv dev p ?t"
    unfolding bc_inv_def using ring one slots D(2,4) v P(2) by simp
  have new: "slot_of dev (bufs ?t) n = Some b" using slot_of_recycle(2) [OF D(7) none b(1)] by simp
  have at: "bufs ?t = (bufs s)(b := bufs ?t b)"
    "sleeplocks ?t = (sleeplocks s)(BufLock b := sleeplocks ?t (BufLock b))"
    by simp_all
  note A = recycle_abs [OF inv none b disk at]
  have abs1: "view_of dev ?t = view_of dev s" by (rule A(1)) simp_all
  have abs2: "refs_of dev ?t = (refs_of dev s)(n := refs_of dev s n + 1)" by (rule A(2)) simp_all
  have abs3: "held_of dev ?t = insert n (held_of dev s)" by (rule A(3)) simp_all
  have kept: "slot_of dev (bufs ?t) m = slot_of dev (bufs s) m" if "refs_of dev s m \<noteq> 0" for m
    by (rule A(4)) (simp_all add: that)
  have "io_frame s ?t" by (intro io_frame_upd io_frame_refl)
  then have "bc_post dev p s (view_of dev s) (disk_of s)
    ((refs_of dev s)(n := refs_of dev s n + 1)) (insert n (held_of dev s)) [] ?t"
    unfolding bc_post_def abs1 abs2 abs3 disk using tinv kept by simp
  then show ?thesis using run new by blast
qed

text \<open>There is a buffer to recycle as long as fewer than \<^verbatim>\<open>NBUF\<close> blocks are referenced.\<close>

lemma free_slot:
  assumes inv: "bc_inv dev p s" and room: "card {m. refs_of dev s m \<noteq> 0} < NBUF"
  obtains b where "b < NBUF" "refcnt (bufs s b) = 0"
proof -
  have "\<exists>b < NBUF. refcnt (bufs s b) = 0"
  proof (rule ccontr)
    assume "\<not> (\<exists>b < NBUF. refcnt (bufs s b) = 0)"
    then have used: "refcnt (bufs s b) \<noteq> 0" if "b < NBUF" for b using that by blast
    then have live: "bdev (bufs s b) = dev" if "b < NBUF" for b
      using bc_invD(6) [OF inv that] that by (auto simp: slot_ok_def Let_def)
    have "inj_on (\<lambda>b. blockno (bufs s b)) {0..<NBUF}"
      using bc_invD(7) [OF inv] live by (auto simp: inj_on_def one_slot_def)
    then have "card ((\<lambda>b. blockno (bufs s b)) ` {0..<NBUF}) = NBUF" by (simp add: card_image)
    moreover have "(\<lambda>b. blockno (bufs s b)) ` {0..<NBUF} \<subseteq> {m. refs_of dev s m \<noteq> 0}"
    proof (rule image_subsetI)
      fix b
      assume b: "b \<in> {0..<NBUF}"
      then have "slot_of dev (bufs s) (blockno (bufs s b)) = Some b"
        using slot_of_iff [OF bc_invD(7) [OF inv]] live by simp
      then show "blockno (bufs s b) \<in> {m. refs_of dev s m \<noteq> 0}"
        using used [of b] b by (simp add: refs_of_def unat_gt_0)
    qed
    moreover have "finite {m. refs_of dev s m \<noteq> 0}" by (rule finite_subset [OF subset_UNIV]) simp
    ultimately show False using room by (metis card_mono not_less)
  qed
  then show ?thesis using that by blast
qed

lemma bread_post:
  assumes inv: "bc_inv dev p s" and ok: "block_ok n" and free: "n \<notin> held_of dev s"
    and lim: "refs_of dev s n < 2 ^ 32 - 1"
    and room: "refs_of dev s n \<noteq> 0 \<or> card {m. refs_of dev s m \<noteq> 0} < NBUF"
  shows "\<exists>b t. bread dev n s = Done b t \<and> slot_of dev (bufs t) n = Some b \<and> bc_post dev p s (view_of dev s) (disk_of s)
    ((refs_of dev s)(n := refs_of dev s n + 1)) (insert n (held_of dev s)) [] t"
proof (cases "slot_of dev (bufs s) n")
  case None
  then have "card {m. refs_of dev s m \<noteq> 0} < NBUF" using room by (simp add: refs_of_def)
  then obtain c where "c < NBUF" "refcnt (bufs s c) = 0" using free_slot [OF inv] by blast
  then show ?thesis using bread_miss [OF inv None ok] by blast
next
  case (Some b)
  then have "slot_of dev (bufs (hit_state p b s)) n = Some b"
    by (subst slot_of_cong [of _ "bufs s"]) (simp_all add: hit_state_def)
  then show ?thesis using bread_hit [OF inv Some free lim] by blast
qed

subsection \<open>Initialisation\<close>

definition binit_one :: "nat \<Rightarrow> ('a bio_state_scheme, unit) kern" where
  "binit_one b =
     kbind (get_buf NBUF bnext) (\<lambda>first.
     kdo (upd_buf b (\<lambda>x. x\<lparr>bnext := first\<rparr>))
     (kdo (upd_buf b (\<lambda>x. x\<lparr>bprev := NBUF\<rparr>))
     (kdo (initsleeplock (BufLock b) ''buffer'')
     (kdo (upd_buf first (\<lambda>x. x\<lparr>bprev := b\<rparr>))
     (upd_buf NBUF (\<lambda>h. h\<lparr>bnext := b\<rparr>))))))"

definition zero_sleeplock :: "sleeplock" where
  "zero_sleeplock = \<lparr>sl_locked = 0, sl_name = ''buffer'', sl_pid = 0\<rparr>"

definition init_lock :: "lockid \<Rightarrow> string \<Rightarrow> machine \<Rightarrow> machine" where
  "init_lock l nm m = upd_lock l (\<lambda>k. k\<lparr>lk_name := nm, locked := 0, lk_cpu := None\<rparr>) m"

lemma kinitlock_Done: "kinitlock l nm s = Done () (s\<lparr>hw := init_lock l nm (hw s)\<rparr>)"
  by (simp add: kinitlock_def lift_hw_def initlock_def kmodify_def init_lock_def)

lemma zero_sleeplock_eq: "k\<lparr>sl_name := ''buffer'', sl_locked := 0, sl_pid := 0\<rparr> = zero_sleeplock"
  by (cases k) (simp add: zero_sleeplock_def)

lemma binit_one_Done:
  "b \<noteq> NBUF \<Longrightarrow> binit_one b s = Done () (s\<lparr>hw := init_lock (SleepLk (BufLock b)) ''sleep lock'' (hw s),
     sleeplocks := (sleeplocks s)(BufLock b := zero_sleeplock), bufs := link_front (bufs s) b\<rparr>)"
  by (simp add: binit_one_def upd_buf_def kern_run initsleeplock_def kinitlock_Done upd_sleeplock_def link_front_def
      zero_sleeplock_eq Let_def)

text \<open>After some turns of the loop: the buffers so far are linked, last one first.\<close>

definition binit_rest :: "'a bio_state_scheme \<Rightarrow> 'a bio_state_scheme \<Rightarrow> bool" where
  "binit_rest s t \<longleftrightarrow> (\<exists>h B L. t = s\<lparr>hw := h, sleeplocks := L, bufs := B\<rparr> \<and> cpus h = cpus (hw s)
     \<and> csr h = csr (hw s) \<and> tp h = tp (hw s) \<and> (\<forall>l. lock_free l (hw s) \<longrightarrow> lock_free l h))"

lemma binit_rest_step:
  assumes "binit_rest s t"
  shows "binit_rest s (t\<lparr>hw := init_lock l nm (hw t), sleeplocks := L, bufs := B\<rparr>)"
proof -
  from assms obtain h B' L' where t: "t = s\<lparr>hw := h, sleeplocks := L', bufs := B'\<rparr>"
    and h: "cpus h = cpus (hw s)" "csr h = csr (hw s)" "tp h = tp (hw s)" "\<forall>l. lock_free l (hw s) \<longrightarrow> lock_free l h"
    by (auto simp: binit_rest_def)
  have "cpus (init_lock l nm h) = cpus (hw s) \<and> csr (init_lock l nm h) = csr (hw s) \<and> tp (init_lock l nm h) = tp (hw s)
    \<and> (\<forall>k. lock_free k (hw s) \<longrightarrow> lock_free k (init_lock l nm h))"
    using h by (auto simp: init_lock_def upd_lock_def lock_free_def)
  then show ?thesis by (auto simp: binit_rest_def t)
qed

definition binit_upto :: "nat \<Rightarrow> 'a bio_state_scheme \<Rightarrow> 'a bio_state_scheme \<Rightarrow> bool" where
  "binit_upto k s t \<longleftrightarrow> linked (bufs t) (NBUF # rev [0..<k] @ [NBUF])
     \<and> (\<forall>x. payload (bufs t x) = payload (bufs s x))
     \<and> (\<forall>b < k. sleeplocks t (BufLock b) = zero_sleeplock)
     \<and> binit_rest s t"

lemma payload_link_front [simp]: "payload (link_front B b x) = payload (B x)"
  by (simp add: payload_def)

lemma binit_loop:
  assumes "k \<le> NBUF" and "binit_upto 0 s s0"
  shows "\<exists>t. kfor [0..<k] binit_one s0 = Done () t \<and> binit_upto k s t"
  using assms(1)
proof (induction k)
  case 0
  show ?case using assms(2) by (simp add: kern_run)
next
  case (Suc k)
  then obtain t where t: "kfor [0..<k] binit_one s0 = Done () t" "binit_upto k s t" by auto
  let ?u = "t\<lparr>hw := init_lock (SleepLk (BufLock k)) ''sleep lock'' (hw t),
     sleeplocks := (sleeplocks t)(BufLock k := zero_sleeplock), bufs := link_front (bufs t) k\<rparr>"
  have "kfor [0..<Suc k] binit_one s0 = Done () ?u"
    using t(1) Suc.prems by (simp add: kfor_append binit_one_Done kern_run)
  moreover have "linked (bufs ?u) (NBUF # rev [0..<Suc k] @ [NBUF])"
    using linked_front [of "bufs t" "rev [0..<k]" k] t(2) Suc.prems by (simp add: binit_upto_def)
  then have "binit_upto (Suc k) s ?u"
    using t(2) binit_rest_step [of s t] by (simp add: binit_upto_def less_Suc_eq)
  ultimately show ?case by blast
qed

lemma binit_eq: "binit = kdo (kinitlock BcacheLock ''bcache'') (kdo (upd_buf NBUF (\<lambda>h. h\<lparr>bprev := NBUF\<rparr>))
     (kdo (upd_buf NBUF (\<lambda>h. h\<lparr>bnext := NBUF\<rparr>)) (kfor [0..<NBUF] binit_one)))"
  by (simp add: binit_def binit_one_def [abs_def])

lemma binit_Done:
  obtains t where "binit s = Done () t" "ring (bufs t) (rev [0..<NBUF])" "binit_upto NBUF s t"
proof -
  let ?B = "(bufs s)(NBUF := (bufs s NBUF)\<lparr>bprev := NBUF, bnext := NBUF\<rparr>)"
  let ?s0 = "s\<lparr>hw := init_lock BcacheLock ''bcache'' (hw s), bufs := ?B\<rparr>"
  have "binit_rest s s" unfolding binit_rest_def by (cases s) auto
  from binit_rest_step [OF this, where l = BcacheLock and nm = "''bcache''" and L = "sleeplocks s" and B = ?B]
  have "binit_upto 0 s ?s0" by (simp add: binit_upto_def payload_def)
  then obtain t where t: "kfor [0..<NBUF] binit_one ?s0 = Done () t" "binit_upto NBUF s t"
    using binit_loop [of NBUF s ?s0] by auto
  have "binit s = Done () t"
    using t(1) by (simp add: binit_eq kinitlock_Done upd_buf_def kern_run)
  moreover have "ring (bufs t) (rev [0..<NBUF])" using t(2) by (simp add: ring_def binit_upto_def)
  ultimately show ?thesis using that t(2) by blast
qed

lemma binit_inv:
  assumes zero: "\<forall>b < NBUF. bdev (bufs s b) = 0 \<and> refcnt (bufs s b) = 0 \<and> bdisk (bufs s b) = 0 \<and> length (bdata (bufs s b)) = BSIZE"
    and t: "ring (bufs t) l" "binit_upto NBUF s t" and dev: "dev \<noteq> 0"
    and u: "calm p u" "serves (disk_hw u)" "vq_idle (vdisk u)" "\<forall>k. length (disk_image u k) = 512"
      "bufs u = bufs t" "sleeplocks u = sleeplocks t"
  shows "bc_inv dev p u \<and> held_of dev u = {} \<and> refs_of dev u = (\<lambda>_. 0) \<and> view_of dev u = disk_of u"
proof -
  have b: "bdev (bufs u b) = 0 \<and> refcnt (bufs u b) = 0 \<and> bdisk (bufs u b) = 0 \<and> length (bdata (bufs u b)) = BSIZE"
    "sl_locked (sleeplocks u (BufLock b)) = 0" if "b < NBUF" for b
    using zero t(2) that payload_eqD [of "bufs t b" "bufs s b"]
    by (auto simp: binit_upto_def u zero_sleeplock_def)
  have "slot_of dev (bufs u) n = None" for n using b dev by (simp add: slot_of_None_iff)
  moreover have "slot_ok dev me u b" if "b < NBUF" for b me
    using b [OF that] dev by (simp add: slot_ok_def Let_def)
  moreover have "one_slot dev (bufs u)" using b(1) dev by (simp add: one_slot_def)
  ultimately show ?thesis
    using u t(1) by (auto simp: bc_inv_def held_of_def refs_of_def view_of_def)
qed

text \<open>C24. \<^verbatim>\<open>binit\<close> links the \<^verbatim>\<open>NBUF\<close> buffers into one circular doubly linked list, the last one
  first. Any thread that later finds the zeroed buffers as \<^verbatim>\<open>binit\<close> left them has the invariant of
  the cache: no block is referenced or held, and the cache shows every block as it is on the disk.\<close>

theorem binit_establishes:
  assumes "\<forall>b < NBUF. bdev (bufs s b) = 0 \<and> refcnt (bufs s b) = 0 \<and> bdisk (bufs s b) = 0 \<and> length (bdata (bufs s b)) = BSIZE"
  shows "\<exists>t. binit s = Done () t \<and> ring (bufs t) (rev [0..<NBUF])
    \<and> (\<forall>dev p u. dev \<noteq> 0 \<longrightarrow> calm p u \<longrightarrow> serves (disk_hw u) \<longrightarrow> vq_idle (vdisk u) \<longrightarrow>
         (\<forall>k. length (disk_image u k) = 512) \<longrightarrow> bufs u = bufs t \<longrightarrow> sleeplocks u = sleeplocks t \<longrightarrow>
         bc_inv dev p u \<and> held_of dev u = {} \<and> refs_of dev u = (\<lambda>_. 0) \<and> view_of dev u = disk_of u)"
proof -
  obtain t where t: "binit s = Done () t" "ring (bufs t) (rev [0..<NBUF])" "binit_upto NBUF s t"
    by (rule binit_Done)
  show ?thesis
    using t(1,2) binit_inv [OF assms t(2,3)] by blast
qed

text \<open>The cache of the concrete state of theory \<open>Disk\<close>.\<close>

lemma disk_thread_zero:
  "\<forall>b < NBUF. bdev (bufs disk_thread b) = 0 \<and> refcnt (bufs disk_thread b) = 0 \<and> bdisk (bufs disk_thread b) = 0
     \<and> length (bdata (bufs disk_thread b)) = BSIZE"
  by (simp add: disk_thread_def zero_buf_def)

definition cached_thread :: bio_state where
  "cached_thread = (case binit disk_thread of Done _ t \<Rightarrow> t | _ \<Rightarrow> disk_thread)"

lemma binit_rest_calm:
  assumes "binit_rest s t" and "calm p s"
  shows "calm p t" "disk_hw t = disk_hw s" "vdisk t = vdisk s" "disk_image t = disk_image s"
proof -
  from assms(1) obtain h B L where t: "t = s\<lparr>hw := h, sleeplocks := L, bufs := B\<rparr>"
    and h: "cpus h = cpus (hw s)" "csr h = csr (hw s)" "tp h = tp (hw s)" "\<forall>l. lock_free l (hw s) \<longrightarrow> lock_free l h"
    by (auto simp: binit_rest_def)
  have my: "mycpu h = mycpu (hw s)" "intr_get h = intr_get (hw s)"
    using h by (simp_all add: mycpu_def cpuid_def intr_get_def r_sstatus_def mycsr_def)
  have "intena (mycpu (hw s)) = intr_get (hw s)"
    using settled_intena calmD(3,4) [OF assms(2)] by blast
  then have "settle h = h"
    unfolding settle_def by (intro upd_mycpu_same) (simp add: my calmD [OF assms(2)])
  then show "calm p t"
    using assms(2) h my by (simp add: calm_def t cpu_ok_def)
  show "disk_hw t = disk_hw s" "vdisk t = vdisk s" "disk_image t = disk_image s" by (simp_all add: t)
qed

lemma cached_thread_inv:
  "bc_inv 1 0 cached_thread" "held_of 1 cached_thread = {}" "refs_of 1 cached_thread = (\<lambda>_. 0)"
  "view_of 1 cached_thread = disk_of cached_thread" "disk_image cached_thread = disk_image disk_thread"
proof -
  obtain t where t: "binit disk_thread = Done () t" "ring (bufs t) (rev [0..<NBUF])" "binit_upto NBUF disk_thread t"
    by (rule binit_Done)
  then have c: "cached_thread = t" by (simp add: cached_thread_def)
  have rest: "binit_rest disk_thread t" using t(3) by (simp add: binit_upto_def)
  note R = binit_rest_calm [OF rest disk_thread_ready(1)]
  have "\<forall>k. length (disk_image t k) = 512" unfolding R by (simp add: disk_thread_def)
  with binit_inv [OF disk_thread_zero t(2,3), of 1 0 t] R disk_thread_ready
  show "bc_inv 1 0 cached_thread" "held_of 1 cached_thread = {}" "refs_of 1 cached_thread = (\<lambda>_. 0)"
    "view_of 1 cached_thread = disk_of cached_thread" "disk_image cached_thread = disk_image disk_thread"
    by (simp_all add: c)
qed

theorem binit_establishes_witness:
  "\<exists>t. binit disk_thread = Done () t \<and> ring (bufs t) (rev [0..<NBUF])"
  using binit_establishes [OF disk_thread_zero] by blast

subsection \<open>Refinement\<close>

lemma bc_post_data:
  assumes "bc_post dev p s V D R H tr t" and "slot_of dev (bufs t) n = Some b"
  shows "bdata (bufs t b) = V n"
  using assms by (auto simp: bc_post_def view_of_def)

text \<open>C23. The buffer cache implements its specification over maps from block numbers. \<^verbatim>\<open>bread\<close>
  returns a locked buffer with the current contents of the block, recycling a buffer if the block is not
  cached and fewer than \<^verbatim>\<open>NBUF\<close> blocks are referenced; \<^verbatim>\<open>bwrite\<close> makes the disk agree with
  the buffer of one block; \<^verbatim>\<open>brelse\<close> gives the lock and a reference back, provided the block is clean
  when no reference is left; \<^verbatim>\<open>bpin\<close> and \<^verbatim>\<open>bunpin\<close> count references. None of them changes
  what any block contains, and only \<^verbatim>\<open>bwrite\<close> writes to the disk.\<close>

theorem bio_refines:
  assumes "bc_inv dev p s"
  shows "(block_ok n \<and> n \<notin> held_of dev s \<and> refs_of dev s n < 2 ^ 32 - 1 \<and>
        (refs_of dev s n \<noteq> 0 \<or> card {m. refs_of dev s m \<noteq> 0} < NBUF) \<longrightarrow>
      (\<exists>b t. bread dev n s = Done b t \<and> slot_of dev (bufs t) n = Some b \<and> bdata (bufs t b) = view_of dev s n
        \<and> bc_post dev p s (view_of dev s) (disk_of s) ((refs_of dev s)(n := refs_of dev s n + 1))
            (insert n (held_of dev s)) [] t))
    \<and> (slot_of dev (bufs s) n = Some b \<and> n \<in> held_of dev s \<longrightarrow>
      (\<exists>t. bwrite b s = Done () t \<and> bc_post dev p s (view_of dev s) ((disk_of s)(n := view_of dev s n))
        (refs_of dev s) (held_of dev s) (block_writes n (view_of dev s n)) t))
    \<and> (slot_of dev (bufs s) n = Some b \<and> n \<in> held_of dev s \<and> (refs_of dev s n = 1 \<longrightarrow> view_of dev s n = disk_of s n) \<longrightarrow>
      (\<exists>t. brelse b s = Done () t \<and> bc_post dev p s (view_of dev s) (disk_of s)
        ((refs_of dev s)(n := refs_of dev s n - 1)) (held_of dev s - {n}) [] t))
    \<and> (slot_of dev (bufs s) n = Some b \<and> refs_of dev s n < 2 ^ 32 - 1 \<longrightarrow>
      (\<exists>t. bpin b s = Done () t \<and> bc_post dev p s (view_of dev s) (disk_of s)
        ((refs_of dev s)(n := refs_of dev s n + 1)) (held_of dev s) [] t))
    \<and> (slot_of dev (bufs s) n = Some b \<and> refs_of dev s n \<noteq> 0 \<and>
        (refs_of dev s n = 1 \<longrightarrow> n \<notin> held_of dev s \<and> view_of dev s n = disk_of s n) \<longrightarrow>
      (\<exists>t. bunpin b s = Done () t \<and> bc_post dev p s (view_of dev s) (disk_of s)
        ((refs_of dev s)(n := refs_of dev s n - 1)) (held_of dev s) [] t))"
  using bread_post [OF assms, of n] bc_post_data bwrite_post [OF assms, of n b] brelse_post [OF assms, of n b]
    bpin_post [OF assms, of n b] bunpin_post [OF assms, of n b]
  by (intro conjI impI) blast+

theorem bio_refines_witness:
  "\<exists>b t. bread 1 3 cached_thread = Done b t \<and> bdata (bufs t b) = replicate 512 7 @ replicate 512 0
     \<and> disk_trace t = disk_trace cached_thread"
proof -
  have "view_of 1 cached_thread 3 = replicate 512 7 @ replicate 512 0"
    unfolding cached_thread_inv(4) disk_of_def cached_thread_inv(5)
    by (simp add: block_ok_def block_of_def sector_of_def disk_thread_def)
  moreover have pre: "block_ok 3 \<and> 3 \<notin> held_of 1 cached_thread \<and> refs_of 1 cached_thread 3 < 2 ^ 32 - 1 \<and>
      (refs_of 1 cached_thread 3 \<noteq> 0 \<or> card {m. refs_of 1 cached_thread m \<noteq> 0} < NBUF)"
    by (simp add: cached_thread_inv block_ok_def NBUF_def MAXOPBLOCKS_def)
  ultimately show ?thesis
    using bio_refines [OF cached_thread_inv(1), THEN conjunct1, THEN mp, OF pre] by (auto simp: bc_post_def)
qed

end
