(* ===== verification/Log_Correct.thy ===== *)
theory Log_Correct
  imports Log Bcache "HOL-Library.Sublist"
begin

section \<open>The write-ahead log survives a crash\<close>

text \<open>
  \<^verbatim>\<open>kernel/log.c\<close> over the specification of the buffer cache. \<open>bc_run\<close> describes a state some
  operations after a first one: what each block contains in the cache and on the disk, the reference
  counts, the locked blocks, and the sector writes the disk has made. The first part gives each operation
  of the log its effect in these terms; the second is about disk images alone: \<open>recovered\<close> is what
  recovery reads from an image, and every prefix of the writes of \<^verbatim>\<open>commit\<close> leaves an image from which
  either nothing or the whole transaction is recovered.
\<close>

subsection \<open>Runs of buffer operations\<close>

definition bc_run :: "u32 \<Rightarrow> nat \<Rightarrow> 'a bio_state_scheme \<Rightarrow> (u32 \<Rightarrow> u8 list) \<Rightarrow> (u32 \<Rightarrow> u8 list) \<Rightarrow> (u32 \<Rightarrow> nat) \<Rightarrow>
    u32 set \<Rightarrow> (u64 \<times> u8 list) list \<Rightarrow> 'a bio_state_scheme \<Rightarrow> bool" where
  "bc_run dev p s V D R H tr t \<longleftrightarrow> bc_inv dev p t
     \<and> view_of dev t = V \<and> disk_of t = D \<and> refs_of dev t = R \<and> held_of dev t = H
     \<and> disk_trace t = disk_trace s @ tr \<and> disk_image t = replay tr (disk_image s)"

text \<open>The buffers of referenced blocks stay where they are.\<close>

definition stays :: "u32 \<Rightarrow> 'a bio_state_scheme \<Rightarrow> 'a bio_state_scheme \<Rightarrow> bool" where
  "stays dev s t \<longleftrightarrow> io_frame s t \<and> (\<forall>n. refs_of dev s n \<noteq> 0 \<longrightarrow> slot_of dev (bufs t) n = slot_of dev (bufs s) n)"

lemma bc_runD:
  assumes "bc_run dev p s0 V D R H tr s"
  shows "bc_inv dev p s" "view_of dev s = V" "disk_of s = D" "refs_of dev s = R" "held_of dev s = H"
    "disk_trace s = disk_trace s0 @ tr" "disk_image s = replay tr (disk_image s0)"
  using assms by (simp_all add: bc_run_def)

lemma bc_run_start:
  "bc_inv dev p s \<Longrightarrow> bc_run dev p s (view_of dev s) (disk_of s) (refs_of dev s) (held_of dev s) [] s"
  by (simp add: bc_run_def)

lemma bc_run_post:
  assumes "bc_run dev p s0 V D R H tr s" and "bc_post dev p s V' D' R' H' tr' t"
  shows "bc_run dev p s0 V' D' R' H' (tr @ tr') t" "stays dev s t"
  using assms by (simp_all add: bc_run_def bc_post_def stays_def)

lemma staysD:
  assumes "stays dev s t" and "slot_of dev (bufs s) n = Some b" and "refs_of dev s n \<noteq> 0"
  shows "slot_of dev (bufs t) n = Some b"
  using assms by (simp add: stays_def)

lemma stays_frame: "stays dev s t \<Longrightarrow> io_frame s t"
  by (simp add: stays_def)

lemma stays_io: "stays dev s t \<Longrightarrow> io_frame t u \<Longrightarrow> io_frame s u"
  using io_frame_trans stays_frame by blast

lemma run_held:
  assumes "bc_run dev p s0 V D R H tr s" and "n \<in> H" and "slot_of dev (bufs s) n = Some b"
  shows "R n \<noteq> 0"
  using assms slotD(9,12) [of dev p s n b] by (auto simp: bc_run_def unat_eq_0)

lemma run_data:
  assumes "bc_run dev p s0 V D R H tr s" and "slot_of dev (bufs s) n = Some b"
  shows "get_buf b bdata s = Done (V n) s"
  using assms slotD(8) [of dev p s n b] by (auto simp: bc_run_def kern_run)

lemma bc_view:
  assumes inv: "bc_inv dev p s" and ok: "block_ok n"
  shows "length (view_of dev s n) = BSIZE" "refs_of dev s n = 0 \<Longrightarrow> view_of dev s n = disk_of s n"
proof -
  show "length (view_of dev s n) = BSIZE"
  proof (cases "slot_of dev (bufs s) n")
    case None
    then show ?thesis using bc_invD(4) [OF inv] ok
      by (simp add: view_of_def disk_of_def block_of_def BSIZE_def)
  next
    case (Some b)
    then show ?thesis using slotD(6,8) [OF inv Some] by simp
  qed
  show "view_of dev s n = disk_of s n" if "refs_of dev s n = 0"
  proof (cases "slot_of dev (bufs s) n")
    case (Some b)
    then show ?thesis using slotD(8,9,13) [OF inv Some] that by (simp add: unat_eq_0)
  qed (simp add: view_of_def)
qed

lemma run_bread:
  assumes run: "bc_run dev p s0 V D R H tr s" and ok: "block_ok n" "n \<notin> H" "R n < 2 ^ 32 - 1"
    and room: "R n \<noteq> 0 \<or> card {m. R m \<noteq> 0} < NBUF"
  obtains b t where "bread dev n s = Done b t" "slot_of dev (bufs t) n = Some b"
    "bc_run dev p s0 V D (R(n := R n + 1)) (insert n H) tr t" "stays dev s t"
proof -
  note r = bc_runD [OF run]
  obtain b t where t: "bread dev n s = Done b t" "slot_of dev (bufs t) n = Some b"
    "bc_post dev p s V D (R(n := R n + 1)) (insert n H) [] t"
    using bread_post [OF r(1) ok(1), unfolded r(2-5), OF ok(2,3) room] by blast
  then show ?thesis using bc_run_post [OF run t(3)] by (intro that [OF t(1,2)]) simp_all
qed

lemma run_bwrite:
  assumes run: "bc_run dev p s0 V D R H tr s" and b: "slot_of dev (bufs s) n = Some b" "n \<in> H"
  obtains t where "bwrite b s = Done () t"
    "bc_run dev p s0 V (D(n := V n)) R H (tr @ block_writes n (V n)) t" "stays dev s t"
proof -
  note r = bc_runD [OF run]
  obtain t where t: "bwrite b s = Done () t" "bc_post dev p s V (D(n := V n)) R H (block_writes n (V n)) t"
    using bwrite_post [OF r(1) b(1), unfolded r(2-5), OF b(2)] by blast
  then show ?thesis using bc_run_post [OF run t(2)] by (intro that [OF t(1)]) simp_all
qed

lemma run_brelse:
  assumes run: "bc_run dev p s0 V D R H tr s" and b: "slot_of dev (bufs s) n = Some b" "n \<in> H"
    and "R n = 1 \<Longrightarrow> V n = D n"
  obtains t where "brelse b s = Done () t" "bc_run dev p s0 V D (R(n := R n - 1)) (H - {n}) tr t" "stays dev s t"
proof -
  note r = bc_runD [OF run]
  obtain t where t: "brelse b s = Done () t" "bc_post dev p s V D (R(n := R n - 1)) (H - {n}) [] t"
    using brelse_post [OF r(1) b(1), unfolded r(2-5), OF b(2) assms(4)] by blast
  then show ?thesis using bc_run_post [OF run t(2)] by (intro that [OF t(1)]) simp_all
qed

lemma run_bunpin:
  assumes run: "bc_run dev p s0 V D R H tr s" and b: "slot_of dev (bufs s) n = Some b" "R n > 1"
  obtains t where "bunpin b s = Done () t" "bc_run dev p s0 V D (R(n := R n - 1)) H tr t" "stays dev s t"
proof -
  note r = bc_runD [OF run]
  have "R n \<noteq> 0" "R n = 1 \<Longrightarrow> n \<notin> H \<and> V n = D n" using b(2) by simp_all
  then obtain t where t: "bunpin b s = Done () t" "bc_post dev p s V D (R(n := R n - 1)) H [] t"
    using bunpin_post [OF r(1) b(1), unfolded r(2-5)] by blast
  then show ?thesis using bc_run_post [OF run t(2)] by (intro that [OF t(1)]) simp_all
qed

lemma run_bpin:
  assumes run: "bc_run dev p s0 V D R H tr s" and b: "slot_of dev (bufs s) n = Some b" "R n < 2 ^ 32 - 1"
  obtains t where "bpin b s = Done () t" "bc_run dev p s0 V D (R(n := R n + 1)) H tr t" "stays dev s t"
proof -
  note r = bc_runD [OF run]
  obtain t where t: "bpin b s = Done () t" "bc_post dev p s V D (R(n := R n + 1)) H [] t"
    using bpin_post [OF r(1) b(1), unfolded r(2-5), OF b(2)] by blast
  then show ?thesis using bc_run_post [OF run t(2)] by (intro that [OF t(1)]) simp_all
qed

lemma run_set_data:
  assumes run: "bc_run dev p s0 V D R H tr s" and b: "slot_of dev (bufs s) n = Some b" "n \<in> H"
    and "length (f (V n)) = BSIZE"
  obtains t where "set_block_data b f s = Done () t" "bc_run dev p s0 (V(n := f (V n))) D R H tr t" "stays dev s t"
proof -
  note r = bc_runD [OF run]
  obtain t where t: "set_block_data b f s = Done () t" "bc_post dev p s (V(n := f (V n))) D R H [] t"
    using set_data_post [OF r(1) b(1), of f, unfolded r(2-5), OF b(2) assms(4)] by (auto simp: set_block_data_def)
  then show ?thesis using bc_run_post [OF run t(2)] by (intro that [OF t(1)]) simp_all
qed

subsection \<open>The operations of the log\<close>

text \<open>Maps and traces of a loop that writes \<open>g i\<close> to block \<open>f i\<close>.\<close>

fun put_each :: "(nat \<Rightarrow> u32) \<Rightarrow> (nat \<Rightarrow> u8 list) \<Rightarrow> nat \<Rightarrow> (u32 \<Rightarrow> u8 list) \<Rightarrow> u32 \<Rightarrow> u8 list" where
  "put_each f g 0 M = M"
| "put_each f g (Suc k) M = (put_each f g k M)(f k := g k)"

fun unpins :: "(nat \<Rightarrow> u32) \<Rightarrow> nat \<Rightarrow> (u32 \<Rightarrow> nat) \<Rightarrow> u32 \<Rightarrow> nat" where
  "unpins f 0 R = R"
| "unpins f (Suc k) R = (unpins f k R)(f k := unpins f k R (f k) - 1)"

fun writes :: "(nat \<Rightarrow> u32) \<Rightarrow> (nat \<Rightarrow> u8 list) \<Rightarrow> nat \<Rightarrow> (u64 \<times> u8 list) list" where
  "writes f g 0 = []"
| "writes f g (Suc k) = writes f g k @ block_writes (f k) (g k)"

lemma put_each_off: "(\<And>i. i < k \<Longrightarrow> f i \<noteq> m) \<Longrightarrow> put_each f g k M m = M m"
  by (induction k) auto

lemma put_each_at: "inj_on f {..<k} \<Longrightarrow> i < k \<Longrightarrow> put_each f g k M (f i) = g i"
proof (induction k)
  case (Suc k)
  then have "inj_on f {..<k}" by (auto intro: inj_on_subset)
  with Suc show ?case using inj_on_contraD [OF Suc.prems(1), of i k] by (cases "i = k") auto
qed simp

lemma unpins_off: "(\<And>i. i < k \<Longrightarrow> f i \<noteq> m) \<Longrightarrow> unpins f k R m = R m"
  by (induction k) auto

lemma unpins_le: "unpins f k R m \<le> R m"
  by (induction k) (auto simp: le_diff_conv intro: le_SucI)

lemma put_each_cong:
  "(\<And>i. i < k \<Longrightarrow> f i = f' i) \<Longrightarrow> (\<And>i. i < k \<Longrightarrow> g i = h i) \<Longrightarrow> put_each f g k M = put_each f' h k M"
  by (induction k) auto

lemma writes_cong:
  "(\<And>i. i < k \<Longrightarrow> f i = f' i) \<Longrightarrow> (\<And>i. i < k \<Longrightarrow> g i = h i) \<Longrightarrow> writes f g k = writes f' h k"
  by (induction k) auto

text \<open>Block \<open>i\<close> of the log, and the block the transaction has at place \<open>i\<close>.\<close>

definition la :: "int \<Rightarrow> nat \<Rightarrow> u32" where
  "la st i = word_of_int (st + int i + 1)"

definition hb :: "int list \<Rightarrow> nat \<Rightarrow> u32" where
  "hb B i = word_of_int (B ! i)"

text \<open>The blocks outside the log.\<close>

definition home :: "int \<Rightarrow> u32 \<Rightarrow> bool" where
  "home st m \<longleftrightarrow> block_ok m \<and> \<not> (st \<le> uint m \<and> uint m \<le> st + int LOGSIZE)"

definition log_area :: "int \<Rightarrow> bool" where
  "log_area st \<longleftrightarrow> 0 \<le> st \<and> st + int LOGSIZE < 0x80000000"

lemma small_word: "0 \<le> x \<Longrightarrow> x < 0x80000000 \<Longrightarrow> uint (word_of_int x :: u32) = x"
  by (simp add: uint_word_of_int_eq take_bit_int_eq_self)

lemma block_ok_uint: "block_ok n \<longleftrightarrow> uint n < 0x80000000"
  by (simp add: block_ok_def word_less_def)

lemma la_uint: "log_area st \<Longrightarrow> i < LOGSIZE \<Longrightarrow> uint (la st i) = st + int i + 1"
  unfolding la_def log_area_def by (rule small_word) simp_all

lemma head_uint: "log_area st \<Longrightarrow> uint (word_of_int st :: u32) = st"
  unfolding log_area_def by (rule small_word) (simp_all add: LOGSIZE_def)

lemma la_facts:
  assumes "log_area st" and "i < LOGSIZE"
  shows "block_ok (la st i)" "\<not> home st (la st i)" "la st i \<noteq> word_of_int st"
    "j < LOGSIZE \<Longrightarrow> la st i = la st j \<longleftrightarrow> i = j"
proof -
  note u = la_uint [OF assms] and a = assms(1) [unfolded log_area_def]
  have le: "int i + 1 \<le> int LOGSIZE" using assms(2) by linarith
  show "block_ok (la st i)" unfolding block_ok_uint u using a le by linarith
  show "\<not> home st (la st i)" unfolding home_def u using le by linarith
  show "la st i \<noteq> word_of_int st"
  proof
    assume "la st i = word_of_int st"
    then have "st + int i + 1 = st" using u head_uint [OF assms(1)] by metis
    then show False by linarith
  qed
  show "la st i = la st j \<longleftrightarrow> i = j" if "j < LOGSIZE"
  proof
    assume "la st i = la st j"
    then have "st + int i + 1 = st + int j + 1" using u la_uint [OF assms(1) that] by metis
    then show "i = j" by linarith
  qed simp
qed

lemma head_facts:
  assumes "log_area st"
  shows "block_ok (word_of_int st)" "\<not> home st (word_of_int st)"
  using assms unfolding block_ok_uint home_def head_uint [OF assms] log_area_def by linarith+

lemma io_frame_log:
  fixes s :: "'a log_state_scheme"
  assumes "io_frame s t"
  shows "log_start t = log_start s" "log_dev t = log_dev s" "lh_n t = lh_n s" "lh_block t = lh_block s"
    "log_size t = log_size s" "log_outstanding t = log_outstanding s" "log_committing t = log_committing s"
  using assms by (auto simp: io_frame_def)

lemma write_log_one_run:
  fixes s :: "'a log_state_scheme"
  assumes run: "bc_run dev p s0 V D R H tr s" and dev: "dev = word_of_int (log_dev s)"
    and a: "a = la (log_start s) i" "block_ok a" "a \<notin> H" and n: "n = hb (lh_block s) i" "block_ok n" "n \<notin> H"
    and ne: "a \<noteq> n" and R: "R a < 2 ^ 32 - 1" "R n < 2 ^ 32 - 1" "R n \<noteq> 0" "card {m. R m \<noteq> 0} < NBUF"
  shows "\<exists>t. write_log_one i s = Done () t \<and> io_frame s t
    \<and> bc_run dev p s0 (V(a := V n)) (D(a := V n)) R H (tr @ block_writes a (V n)) t"
proof -
  obtain b s1 where s1: "bread dev a s = Done b s1" "slot_of dev (bufs s1) a = Some b"
    "bc_run dev p s0 V D (R(a := R a + 1)) (insert a H) tr s1" "stays dev s s1"
    by (rule run_bread [OF run a(2,3) R(1)]) (use R in simp_all)
  let ?R = "R(a := R a + 1, n := R n + 1)" and ?H = "insert n (insert a H)"
  obtain c s2 where s2: "bread dev n s1 = Done c s2" "slot_of dev (bufs s2) n = Some c"
    "bc_run dev p s0 V D ?R ?H tr s2" "stays dev s1 s2"
    by (rule run_bread [OF s1(3) n(2)]) (use ne n R in simp_all)
  have b2: "slot_of dev (bufs s2) a = Some b"
    by (rule staysD [OF s2(4) s1(2)]) (simp add: bc_runD(4) [OF s1(3)])
  have len: "length (V n) = BSIZE"
    using bc_view(1) [OF bc_runD(1) [OF s2(3)] n(2)] bc_runD(2) [OF s2(3)] by simp
  obtain s3 where s3: "set_block_data b (\<lambda>_. V n) s2 = Done () s3"
    "bc_run dev p s0 (V(a := V n)) D ?R ?H tr s3" "stays dev s2 s3"
    by (rule run_set_data [OF s2(3) b2, where f = "\<lambda>_. V n"]) (simp_all add: len)
  have b3: "slot_of dev (bufs s3) a = Some b" "slot_of dev (bufs s3) n = Some c"
    using staysD [OF s3(3) b2] staysD [OF s3(3) s2(2)] ne by (simp_all add: bc_runD(4) [OF s2(3)])
  obtain s4 where s4: "bwrite b s3 = Done () s4" "bc_run dev p s0 (V(a := V n)) (D(a := V n)) ?R ?H (tr @ block_writes a (V n)) s4"
    "stays dev s3 s4"
    by (rule run_bwrite [OF s3(2) b3(1)]) simp_all
  have b4: "slot_of dev (bufs s4) a = Some b" "slot_of dev (bufs s4) n = Some c"
    using staysD [OF s4(3) b3(1)] staysD [OF s4(3) b3(2)] ne by (simp_all add: bc_runD(4) [OF s3(2)])
  obtain s5 where s5: "brelse c s4 = Done () s5"
    "bc_run dev p s0 (V(a := V n)) (D(a := V n)) (?R(n := R n)) (insert a H) (tr @ block_writes a (V n)) s5" "stays dev s4 s5"
    by (rule run_brelse [OF s4(2) b4(2)]) (use ne n R in \<open>simp_all add: insert_Diff_if\<close>)
  have b5: "slot_of dev (bufs s5) a = Some b"
    using staysD [OF s5(3) b4(1)] ne by (simp add: bc_runD(4) [OF s4(2)])
  obtain s6 where s6: "brelse b s5 = Done () s6"
    "bc_run dev p s0 (V(a := V n)) (D(a := V n)) (?R(n := R n, a := R a)) H (tr @ block_writes a (V n)) s6" "stays dev s5 s6"
    by (rule run_brelse [OF s5(2) b5]) (use ne a in \<open>simp_all add: insert_Diff_if\<close>)
  have "?R(n := R n, a := R a) = R" by auto
  moreover have "io_frame s s6"
    by (rule s1(4) [THEN stays_io, OF s2(4) [THEN stays_io, OF s3(3) [THEN stays_io, OF s4(3) [THEN stays_io,
      OF s5(3) [THEN stays_io, OF s6(3) [THEN stays_frame]]]]]])
  moreover have "write_log_one i s = Done () s6"
    using s1(1) s2(1) s3(1) s4(1) s5(1) s6(1) run_data [OF s2(3,2)] io_frame_log(2,4) [OF stays_frame [OF s1(4)]]
    by (simp add: write_log_one_def log_bread_def kern_run dev a(1) n(1) la_def hb_def)
  ultimately show ?thesis using s6(2) by auto
qed

lemma card_one_more: "card {m. (R(a := x)) m \<noteq> (0 :: nat)} \<le> Suc (card {m. R m \<noteq> 0})"
proof -
  have "{m. (R(a := x)) m \<noteq> 0} \<subseteq> insert a {m. R m \<noteq> 0}" by auto
  show ?thesis
  proof (cases "finite {m. R m \<noteq> 0}")
    case True
    then have "card {m. (R(a := x)) m \<noteq> 0} \<le> card (insert a {m. R m \<noteq> 0})"
      using \<open>_ \<subseteq> _\<close> by (intro card_mono) simp_all
    then show ?thesis using card_insert_le_m1 [of "Suc (card {m. R m \<noteq> 0})" "{m. R m \<noteq> 0}" a] by simp
  next
    case False
    have "{m. R m \<noteq> 0} \<subseteq> insert a {m. (R(a := x)) m \<noteq> 0}" by auto
    with False have "infinite {m. (R(a := x)) m \<noteq> 0}" using finite_subset by fastforce
    then show ?thesis by simp
  qed
qed

lemma install_one_run:
  fixes s :: "'a log_state_scheme"
  assumes run: "bc_run dev p s0 V D R H tr s" and dev: "dev = word_of_int (log_dev s)"
    and a: "a = la (log_start s) i" "block_ok a" "a \<notin> H" and n: "n = hb (lh_block s) i" "block_ok n" "n \<notin> H"
    and ne: "a \<noteq> n" and R: "R a < 2 ^ 32 - 1" "R n < 2 ^ 32 - 1" "card {m. R m \<noteq> 0} < NBUF"
      "R n \<noteq> 0 \<or> Suc (card {m. R m \<noteq> 0}) < NBUF" and pin: "\<not> rec \<Longrightarrow> R n \<noteq> 0"
  shows "\<exists>t. install_one rec i s = Done () t \<and> io_frame s t
    \<and> bc_run dev p s0 (V(n := V a)) (D(n := V a)) (if rec then R else R(n := R n - 1)) H (tr @ block_writes n (V a)) t"
proof -
  define R1 where "R1 = R(a := R a + 1)"
  obtain b s1 where s1: "bread dev a s = Done b s1" "slot_of dev (bufs s1) a = Some b"
    "bc_run dev p s0 V D R1 (insert a H) tr s1" "stays dev s s1"
    by (rule run_bread [OF run a(2,3) R(1)]) (use R in \<open>simp_all add: R1_def\<close>)
  have R1: "R1 n = R n" "R1 a \<noteq> 0" using ne by (simp_all add: R1_def)
  have room: "R1 n \<noteq> 0 \<or> card {m. R1 m \<noteq> 0} < NBUF"
  proof (cases "R n = 0")
    case True
    then show ?thesis using R(4) unfolding R1_def by (intro disjI2 le_less_trans [OF card_one_more]) simp
  next
    case False
    then show ?thesis using R1 by simp
  qed
  let ?R = "R1(n := R n + 1)" and ?H = "insert n (insert a H)"
  obtain c s2 where s2: "bread dev n s1 = Done c s2" "slot_of dev (bufs s2) n = Some c"
    "bc_run dev p s0 V D ?R ?H tr s2" "stays dev s1 s2"
    by (rule run_bread [OF s1(3) n(2) _ _ room]) (use ne n R R1 in simp_all)
  have b2: "slot_of dev (bufs s2) a = Some b"
    by (rule staysD [OF s2(4) s1(2)]) (simp add: bc_runD(4) [OF s1(3)] R1)
  have len: "length (V a) = BSIZE"
    using bc_view(1) [OF bc_runD(1) [OF s2(3)] a(2)] bc_runD(2) [OF s2(3)] by simp
  obtain s3 where s3: "set_block_data c (\<lambda>_. V a) s2 = Done () s3"
    "bc_run dev p s0 (V(n := V a)) D ?R ?H tr s3" "stays dev s2 s3"
    by (rule run_set_data [OF s2(3,2), where f = "\<lambda>_. V a"]) (simp_all add: len)
  have b3: "slot_of dev (bufs s3) a = Some b" "slot_of dev (bufs s3) n = Some c"
    using staysD [OF s3(3) b2] staysD [OF s3(3) s2(2)] ne R1 by (simp_all add: bc_runD(4) [OF s2(3)])
  let ?V = "V(n := V a)" and ?D = "D(n := V a)" and ?tr = "tr @ block_writes n (V a)"
  obtain s4 where s4: "bwrite c s3 = Done () s4" "bc_run dev p s0 ?V ?D ?R ?H ?tr s4" "stays dev s3 s4"
    by (rule run_bwrite [OF s3(2) b3(2)]) simp_all
  have b4: "slot_of dev (bufs s4) a = Some b" "slot_of dev (bufs s4) n = Some c"
    using staysD [OF s4(3) b3(1)] staysD [OF s4(3) b3(2)] ne R1 by (simp_all add: bc_runD(4) [OF s3(2)])
  define r where "r = (if rec then R n + 1 else R n)"
  have r: "r \<noteq> 0" using pin by (auto simp: r_def)
  have "\<exists>s5. kwhen (\<not> rec) (bunpin c) s4 = Done () s5 \<and> bc_run dev p s0 ?V ?D (?R(n := r)) ?H ?tr s5 \<and> stays dev s4 s5"
  proof (cases rec)
    case True
    then show ?thesis using s4(2) by (simp add: r_def kern_run stays_def)
  next
    case False
    obtain s5 where "bunpin c s4 = Done () s5" "bc_run dev p s0 ?V ?D (?R(n := R n)) ?H ?tr s5" "stays dev s4 s5"
      by (rule run_bunpin [OF s4(2) b4(2)]) (use pin [OF False] in simp_all)
    then show ?thesis using False by (simp add: r_def kern_run)
  qed
  then obtain s5 where s5: "kwhen (\<not> rec) (bunpin c) s4 = Done () s5" "bc_run dev p s0 ?V ?D (?R(n := r)) ?H ?tr s5"
    "stays dev s4 s5" by blast
  have b5: "slot_of dev (bufs s5) a = Some b" "slot_of dev (bufs s5) n = Some c"
    using staysD [OF s5(3) b4(1)] staysD [OF s5(3) b4(2)] ne R1 by (simp_all add: bc_runD(4) [OF s4(2)])
  have clean: "V a = D a" if "R a = 0"
    using bc_view(2) [OF bc_runD(1) [OF run] a(2)] bc_runD(2-4) [OF run] that by simp
  obtain s6 where s6: "brelse b s5 = Done () s6"
    "bc_run dev p s0 ?V ?D (?R(n := r, a := R a)) (insert n H) ?tr s6" "stays dev s5 s6"
    by (rule run_brelse [OF s5(2) b5(1)]) (use ne a clean in \<open>simp_all add: insert_Diff_if R1_def\<close>)
  have b6: "slot_of dev (bufs s6) n = Some c"
    using staysD [OF s6(3) b5(2)] ne r R1 by (simp add: bc_runD(4) [OF s5(2)])
  obtain s7 where s7: "brelse c s6 = Done () s7"
    "bc_run dev p s0 ?V ?D (?R(n := r, a := R a, n := r - 1)) H ?tr s7" "stays dev s6 s7"
    by (rule run_brelse [OF s6(2) b6]) (use ne n in \<open>simp_all add: insert_Diff_if\<close>)
  have "?R(n := r, a := R a, n := r - 1) = (if rec then R else R(n := R n - 1))" by (auto simp: r_def R1_def)
  moreover have "io_frame s s7"
    by (rule s1(4) [THEN stays_io, OF s2(4) [THEN stays_io, OF s3(3) [THEN stays_io, OF s4(3) [THEN stays_io,
      OF s5(3) [THEN stays_io, OF s6(3) [THEN stays_io, OF s7(3) [THEN stays_frame]]]]]]])
  moreover have "install_one rec i s = Done () s7"
    using s1(1) s2(1) s3(1) s4(1) s5(1) s6(1) s7(1) run_data [OF s2(3) b2] io_frame_log(2,4) [OF stays_frame [OF s1(4)]]
    by (simp add: install_one_def log_bread_def kern_run dev a(1) n(1) la_def hb_def)
  ultimately show ?thesis using s7(2) by auto
qed

lemma kfor_upt_Suc:
  assumes "kfor [0..<k] f s = Done () t"
  shows "kfor [0..<Suc k] f s = f k t"
proof -
  have "kfor [k] f = f k" by (rule ext) (simp add: kern_defs split: outcome.splits)
  with assms show ?thesis by (simp add: kfor_append kern_run)
qed

text \<open>A transaction of \<open>n\<close> blocks: distinct blocks outside the log.\<close>

definition tx_ok :: "int \<Rightarrow> int list \<Rightarrow> nat \<Rightarrow> bool" where
  "tx_ok st B n \<longleftrightarrow> log_area st \<and> n \<le> LOGSIZE \<and> (\<forall>i < n. home st (hb B i)) \<and> inj_on (hb B) {..<n}"

lemma tx_okD:
  assumes "tx_ok st B n"
  shows "log_area st" "n \<le> LOGSIZE" "i < n \<Longrightarrow> home st (hb B i)" "i < n \<Longrightarrow> block_ok (hb B i)" "inj_on (hb B) {..<n}"
    "i < n \<Longrightarrow> block_ok (la st i)" "i < n \<Longrightarrow> j < n \<Longrightarrow> la st i \<noteq> hb B j"
    "i < n \<Longrightarrow> la st i \<noteq> word_of_int st" "inj_on (la st) {..<n}" "i < n \<Longrightarrow> hb B i \<noteq> word_of_int st"
    "i < n \<Longrightarrow> j < n \<Longrightarrow> hb B i = hb B j \<Longrightarrow> i = j"
proof -
  have a: "log_area st" "n \<le> LOGSIZE" "\<And>i. i < n \<Longrightarrow> home st (hb B i)" "inj_on (hb B) {..<n}"
    using assms by (simp_all add: tx_ok_def)
  show "log_area st" "n \<le> LOGSIZE" "inj_on (hb B) {..<n}" by (fact a)+
  show "i < n \<Longrightarrow> home st (hb B i)" by (fact a(3))
  then show "i < n \<Longrightarrow> block_ok (hb B i)" by (simp add: home_def)
  note l = la_facts [OF a(1) less_le_trans [OF _ a(2)]]
  show "i < n \<Longrightarrow> block_ok (la st i)" by (rule l(1))
  show "i < n \<Longrightarrow> j < n \<Longrightarrow> la st i \<noteq> hb B j" using l(2) a(3) by metis
  show "i < n \<Longrightarrow> la st i \<noteq> word_of_int st" by (rule l(3))
  show "inj_on (la st) {..<n}" using l(4) a(2) by (intro inj_onI) (metis lessThan_iff less_le_trans)
  show "i < n \<Longrightarrow> hb B i \<noteq> word_of_int st" using a(3) head_facts(2) [OF a(1)] by metis
  show "i < n \<Longrightarrow> j < n \<Longrightarrow> hb B i = hb B j \<Longrightarrow> i = j" using a(4) by (simp add: inj_on_def)
qed

lemma write_log_loop:
  fixes s :: "'a log_state_scheme"
  assumes run: "bc_run dev p s0 V D R {} tr s" and dev: "dev = word_of_int (log_dev s)"
    and tx: "tx_ok (log_start s) (lh_block s) n"
    and R: "\<And>m. R m < 2 ^ 32 - 1" "\<And>i. i < n \<Longrightarrow> R (hb (lh_block s) i) \<noteq> 0" "card {m. R m \<noteq> 0} < NBUF"
  defines "a \<equiv> la (log_start s)" and "g \<equiv> \<lambda>i. V (hb (lh_block s) i)"
  shows "k \<le> n \<Longrightarrow> \<exists>t. kfor [0..<k] write_log_one s = Done () t \<and> io_frame s t
    \<and> bc_run dev p s0 (put_each a g k V) (put_each a g k D) R {} (tr @ writes a g k) t"
proof (induction k)
  case 0
  then show ?case using run by (simp add: kern_run)
next
  case (Suc k)
  then have k: "k < n" by simp
  obtain t where t: "kfor [0..<k] write_log_one s = Done () t" "io_frame s t"
    "bc_run dev p s0 (put_each a g k V) (put_each a g k D) R {} (tr @ writes a g k) t"
    using Suc by auto
  note f = io_frame_log [OF t(2)] and x = tx_okD [OF tx]
  let ?n = "hb (lh_block s) k"
  have g: "put_each a g k V ?n = g k"
    using x(7) k unfolding g_def by (subst put_each_off) (auto simp: a_def)
  have "\<exists>u. write_log_one k t = Done () u \<and> io_frame t u \<and> bc_run dev p s0 ((put_each a g k V)(a k := put_each a g k V ?n))
      ((put_each a g k D)(a k := put_each a g k V ?n)) R {} ((tr @ writes a g k) @ block_writes (a k) (put_each a g k V ?n)) u"
    by (rule write_log_one_run [OF t(3)]) (use R k x dev in \<open>simp_all add: f a_def\<close>)
  then obtain u where u: "write_log_one k t = Done () u" "io_frame t u"
    "bc_run dev p s0 (put_each a g (Suc k) V) (put_each a g (Suc k) D) R {} (tr @ writes a g (Suc k)) u"
    by (auto simp: g)
  have "kfor [0..<Suc k] write_log_one s = Done () u" unfolding kfor_upt_Suc [OF t(1)] by (rule u(1))
  then show ?case using io_frame_trans [OF t(2) u(2)] u(3) by blast
qed

lemma unpins_at: "inj_on f {..<n} \<Longrightarrow> k < n \<Longrightarrow> unpins f k R (f k) = R (f k)"
  by (rule unpins_off) (metis inj_on_contraD lessThan_iff less_trans nat_neq_iff)

lemma card_unpins:
  assumes "finite {m. R m \<noteq> 0}"
  shows "card {m. unpins f k R m \<noteq> 0} \<le> card {m. R m \<noteq> 0}"
  by (rule card_mono [OF assms]) (auto intro: less_le_trans [OF _ unpins_le])

lemma refs_finite:
  assumes "bc_run dev p s0 V D R H tr s"
  shows "finite {m. R m \<noteq> 0}"
proof -
  have "{m. R m \<noteq> 0} \<subseteq> (\<lambda>b. blockno (bufs s b)) ` {..<NBUF}"
    using slot_ofD [of dev "bufs s"] by (fastforce simp: bc_runD(4) [OF assms, symmetric] refs_of_def split: option.splits)
  then show ?thesis by (rule finite_subset) simp
qed

lemma install_loop:
  fixes s :: "'a log_state_scheme"
  assumes run: "bc_run dev p s0 V D R {} tr s" and dev: "dev = word_of_int (log_dev s)"
    and tx: "tx_ok (log_start s) (lh_block s) n" and R: "\<And>m. R m < 2 ^ 32 - 1" "card {m. R m \<noteq> 0} < NBUF"
    and pin: "rec \<Longrightarrow> Suc (card {m. R m \<noteq> 0}) < NBUF" "\<And>i. \<not> rec \<Longrightarrow> i < n \<Longrightarrow> R (hb (lh_block s) i) \<noteq> 0"
  defines "h \<equiv> hb (lh_block s)" and "g \<equiv> \<lambda>i. V (la (log_start s) i)"
  defines "R' \<equiv> \<lambda>k. if rec then R else unpins h k R"
  shows "k \<le> n \<Longrightarrow> \<exists>t. kfor [0..<k] (install_one rec) s = Done () t \<and> io_frame s t
    \<and> bc_run dev p s0 (put_each h g k V) (put_each h g k D) (R' k) {} (tr @ writes h g k) t"
proof (induction k)
  case 0
  have "R' 0 = R" by (auto simp: R'_def)
  then show ?case using run by (simp add: kern_run)
next
  case (Suc k)
  then have k: "k < n" by simp
  obtain t where t: "kfor [0..<k] (install_one rec) s = Done () t" "io_frame s t"
    "bc_run dev p s0 (put_each h g k V) (put_each h g k D) (R' k) {} (tr @ writes h g k) t"
    using Suc by auto
  note f = io_frame_log [OF t(2)] and x = tx_okD [OF tx]
  let ?a = "la (log_start s) k"
  have g: "put_each h g k V ?a = g k"
    unfolding g_def by (rule put_each_off) (use x(7) k in \<open>metis h_def less_trans\<close>)
  have R': "R' k m < 2 ^ 32 - 1" "card {m. R' k m \<noteq> 0} < NBUF" "rec \<Longrightarrow> R' k = R"
    "R' k (h k) = R (h k)" for m
    using le_less_trans [OF unpins_le R(1)] R le_less_trans [OF card_unpins [OF refs_finite [OF run]] R(2)]
      unpins_at [OF x(5) k] by (simp_all add: R'_def h_def)
  have "\<exists>u. install_one rec k t = Done () u \<and> io_frame t u \<and> bc_run dev p s0 ((put_each h g k V)(h k := put_each h g k V ?a))
      ((put_each h g k D)(h k := put_each h g k V ?a)) (if rec then R' k else (R' k)(h k := R' k (h k) - 1)) {}
      ((tr @ writes h g k) @ block_writes (h k) (put_each h g k V ?a)) u"
  proof (rule install_one_run [OF t(3)])
    show "R' k (h k) \<noteq> 0 \<or> Suc (card {m. R' k m \<noteq> 0}) < NBUF"
      using R'(3) pin k by (cases rec) (auto simp: R'(4) h_def [symmetric])
  qed (use R' R(1) pin k x dev in \<open>simp_all add: f h_def\<close>)
  moreover have "(if rec then R' k else (R' k)(h k := R' k (h k) - 1)) = R' (Suc k)" by (simp add: R'_def)
  ultimately obtain u where u: "install_one rec k t = Done () u" "io_frame t u"
    "bc_run dev p s0 (put_each h g (Suc k) V) (put_each h g (Suc k) D) (R' (Suc k)) {} (tr @ writes h g (Suc k)) u"
    by (auto simp: g)
  have "kfor [0..<Suc k] (install_one rec) s = Done () u" unfolding kfor_upt_Suc [OF t(1)] by (rule u(1))
  then show ?case using io_frame_trans [OF t(2) u(2)] u(3) by blast
qed

text \<open>The header block that \<^verbatim>\<open>write_head\<close> makes of \<open>d\<close>, after \<open>k\<close> of its block numbers.\<close>

fun header :: "u8 list \<Rightarrow> int \<Rightarrow> int list \<Rightarrow> nat \<Rightarrow> u8 list" where
  "header d n B 0 = put32 d 0 (word_of_int n)"
| "header d n B (Suc k) = put32 (header d n B k) (4 + 4 * k) (hb B k)"

lemma length_put32: "i + 4 \<le> length d \<Longrightarrow> length (put32 d i v) = length d"
  by (simp add: put32_def)

lemma get32_put32: "i + 4 \<le> length d \<Longrightarrow> get32 (put32 d i v) i = v"
  by (simp add: put32_def get32_def)

lemma get32_put32_other:
  assumes "i + 4 \<le> length d" and "j + 4 \<le> i \<or> i + 4 \<le> j"
  shows "get32 (put32 d i v) j = get32 d j"
proof (cases "j + 4 \<le> i")
  case True
  then have "take 4 (drop j (put32 d i v)) = take 4 (drop j d)" using assms(1)
    by (simp add: put32_def drop_take min_def)
  then show ?thesis by (simp add: get32_def)
next
  case False
  then have "drop j (put32 d i v) = drop j d" using assms by (simp add: put32_def)
  then show ?thesis by (simp add: get32_def)
qed

lemma length_header: "length d = BSIZE \<Longrightarrow> k \<le> LOGSIZE \<Longrightarrow> length (header d n B k) = BSIZE"
  by (induction k) (simp_all add: length_put32 BSIZE_def LOGSIZE_def MAXOPBLOCKS_def)

lemma get32_header_n: "length d = BSIZE \<Longrightarrow> k \<le> LOGSIZE \<Longrightarrow> get32 (header d n B k) 0 = word_of_int n"
proof (induction k)
  case (Suc k)
  then show ?case using length_header [of d k n B]
    by (simp add: get32_put32_other BSIZE_def LOGSIZE_def MAXOPBLOCKS_def)
qed (simp add: get32_put32 BSIZE_def)

lemma get32_header:
  "length d = BSIZE \<Longrightarrow> k \<le> LOGSIZE \<Longrightarrow> i < k \<Longrightarrow> get32 (header d n B k) (4 + 4 * i) = hb B i"
proof (induction k)
  case (Suc k)
  then have len: "length (header d n B k) = BSIZE" "4 + 4 * k + 4 \<le> BSIZE"
    using length_header [of d k n B] by (simp_all add: BSIZE_def LOGSIZE_def MAXOPBLOCKS_def)
  show ?case
  proof (cases "i = k")
    case True
    then show ?thesis using len by (simp add: get32_put32)
  next
    case False
    then show ?thesis using Suc len by (simp add: get32_put32_other)
  qed
qed simp

text \<open>Filling in the header in the locked buffer.\<close>

lemma head_loop:
  fixes s :: "'a log_state_scheme"
  assumes run: "bc_run dev p s0 (V(h := header d n B 0)) D R H tr s" and b: "slot_of dev (bufs s) h = Some b" "h \<in> H"
    and len: "length d = BSIZE" and B: "lh_block s = B"
  defines "step \<equiv> \<lambda>i. kbind (kget (\<lambda>s. lh_block s ! i)) (\<lambda>x. set_block_data b (\<lambda>d. put32 d (4 + 4 * i) (word_of_int x)))"
  shows "k \<le> LOGSIZE \<Longrightarrow> \<exists>t. kfor [0..<k] step s = Done () t \<and> stays dev s t
    \<and> bc_run dev p s0 (V(h := header d n B k)) D R H tr t"
proof (induction k)
  case 0
  show ?case by (intro exI [of _ s] conjI run) (simp_all add: kern_run stays_def)
next
  case (Suc k)
  obtain t where t: "kfor [0..<k] step s = Done () t" "stays dev s t" "bc_run dev p s0 (V(h := header d n B k)) D R H tr t"
    using Suc.IH [OF Suc_leD [OF Suc.prems]] by blast
  have R: "refs_of dev s h \<noteq> 0" using run_held [OF run b(2,1)] bc_runD(4) [OF run] by simp
  have bt: "slot_of dev (bufs t) h = Some b" by (rule staysD [OF t(2) b(1) R])
  have 4: "length (put32 (header d n B k) (4 + 4 * k) (hb B k)) = BSIZE"
    using length_header [OF len Suc.prems] by simp
  obtain u where u: "set_block_data b (\<lambda>d. put32 d (4 + 4 * k) (hb B k)) t = Done () u"
    "bc_run dev p s0 (V(h := header d n B (Suc k))) D R H tr u" "stays dev t u"
    by (rule run_set_data [OF t(3) bt b(2), where f = "\<lambda>d. put32 d (4 + 4 * k) (hb B k)"]) (simp_all add: 4)
  have "step k t = Done () u"
    using u(1) io_frame_log(4) [OF stays_frame [OF t(2)]] by (simp add: step_def kern_run B hb_def)
  then have "kfor [0..<Suc k] step s = Done () u" unfolding kfor_upt_Suc [OF t(1)] .
  moreover have "stays dev s u"
    using t(2) u(3) bc_runD(4) [OF run] bc_runD(4) [OF t(3)] io_frame_trans by (auto simp: stays_def)
  ultimately show ?case using u(2) by blast
qed

lemma write_head_run:
  fixes s :: "'a log_state_scheme"
  assumes run: "bc_run dev p s0 V D R {} tr s" and dev: "dev = word_of_int (log_dev s)"
    and st: "log_area (log_start s)" "lh_n s \<le> int LOGSIZE" and R: "\<And>m. R m < 2 ^ 32 - 1" "card {m. R m \<noteq> 0} < NBUF"
  defines "h \<equiv> word_of_int (log_start s)"
  defines "hdr \<equiv> header (V h) (lh_n s) (lh_block s) (nat (lh_n s))"
  shows "\<exists>t. write_head s = Done () t \<and> io_frame s t
    \<and> bc_run dev p s0 (V(h := hdr)) (D(h := hdr)) R {} (tr @ block_writes h hdr) t"
proof -
  have ok: "block_ok h" using head_facts(1) [OF st(1)] by (simp add: h_def)
  obtain b s1 where s1: "bread dev h s = Done b s1" "slot_of dev (bufs s1) h = Some b"
    "bc_run dev p s0 V D (R(h := R h + 1)) {h} tr s1" "stays dev s s1"
    by (rule run_bread [OF run ok _ R(1)]) (use R in simp_all)
  have len: "length (V h) = BSIZE" using bc_view(1) [OF bc_runD(1) [OF run] ok] bc_runD(2) [OF run] by simp
  let ?R = "R(h := R h + 1)"
  obtain s2 where s2: "set_block_data b (\<lambda>d. put32 d 0 (word_of_int (lh_n s))) s1 = Done () s2"
    "bc_run dev p s0 (V(h := header (V h) (lh_n s) (lh_block s) 0)) D ?R {h} tr s2" "stays dev s1 s2"
    by (rule run_set_data [OF s1(3,2), where f = "\<lambda>d. put32 d 0 (word_of_int (lh_n s))"])
      (simp_all add: length_put32 len BSIZE_def)
  have b2: "slot_of dev (bufs s2) h = Some b"
    by (rule staysD [OF s2(3) s1(2)]) (simp add: bc_runD(4) [OF s1(3)])
  note f1 = io_frame_log [OF stays_frame [OF s1(4)]]
  note f2 = io_frame_log [OF stays_io [OF s1(4) stays_frame [OF s2(3)]]]
  have k: "nat (lh_n s) \<le> LOGSIZE" using st(2) by simp
  obtain s3 where s3: "kfor [0..<nat (lh_n s)] (\<lambda>i. kbind (kget (\<lambda>s. lh_block s ! i))
      (\<lambda>x. set_block_data b (\<lambda>d. put32 d (4 + 4 * i) (word_of_int x)))) s2 = Done () s3" "stays dev s2 s3"
    "bc_run dev p s0 (V(h := hdr)) D ?R {h} tr s3"
    using head_loop [OF s2(2) b2 _ len f2(4) k] unfolding hdr_def by blast
  have b3: "slot_of dev (bufs s3) h = Some b"
    by (rule staysD [OF s3(2) b2]) (simp add: bc_runD(4) [OF s2(2)])
  obtain s4 where s4: "bwrite b s3 = Done () s4" "bc_run dev p s0 (V(h := hdr)) (D(h := hdr)) ?R {h} (tr @ block_writes h hdr) s4"
    "stays dev s3 s4"
    by (rule run_bwrite [OF s3(3) b3]) simp_all
  have b4: "slot_of dev (bufs s4) h = Some b"
    by (rule staysD [OF s4(3) b3]) (simp add: bc_runD(4) [OF s3(3)])
  obtain s5 where s5: "brelse b s4 = Done () s5" "bc_run dev p s0 (V(h := hdr)) (D(h := hdr)) R {} (tr @ block_writes h hdr) s5"
    "stays dev s4 s5"
    by (rule run_brelse [OF s4(2) b4]) simp_all
  have "write_head s = Done () s5"
    using s1(1) s2(1) s3(1) s4(1) s5(1) f1 st(2)
    by (simp add: write_head_def log_bread_def kern_run dev h_def lh_bounds_def)
  moreover have "io_frame s s5"
    by (rule s1(4) [THEN stays_io, OF s2(3) [THEN stays_io, OF s3(2) [THEN stays_io, OF s4(3) [THEN stays_io,
      OF s5(3) [THEN stays_frame]]]]])
  ultimately show ?thesis using s5(2) by blast
qed

text \<open>What \<^verbatim>\<open>read_head\<close> makes of \<^verbatim>\<open>log.lh\<close>.\<close>

fun heads :: "u8 list \<Rightarrow> int list \<Rightarrow> nat \<Rightarrow> int list" where
  "heads d B 0 = B"
| "heads d B (Suc k) = (heads d B k)[k := sint (get32 d (4 + 4 * k))]"

lemma length_heads [simp]: "length (heads d B k) = length B"
  by (induction k) simp_all

lemma hb_heads: "k \<le> length B \<Longrightarrow> i < k \<Longrightarrow> hb (heads d B k) i = get32 d (4 + 4 * i)"
  by (induction k) (auto simp: hb_def nth_list_update)

lemma heads_loop:
  fixes s :: "'a log_state_scheme"
  shows "kfor [0..<k] (\<lambda>i. kmodify (\<lambda>s. s\<lparr>lh_block := (lh_block s)[i := sint (get32 d (4 + 4 * i))]\<rparr>)) s =
    Done () (s\<lparr>lh_block := heads d (lh_block s) k\<rparr>)"
proof (induction k)
  case (Suc k)
  show ?case unfolding kfor_upt_Suc [OF Suc] by (simp add: kern_run)
qed (simp add: kern_run)

lemma lh_frame_maps:
  fixes s :: "'a log_state_scheme" and n :: int and B :: "int list"
  defines "t \<equiv> s\<lparr>lh_n := n, lh_block := B\<rparr>"
  shows "bc_inv dev p t \<longleftrightarrow> bc_inv dev p s" "view_of dev t = view_of dev s" "disk_of t = disk_of s"
    "refs_of dev t = refs_of dev s" "held_of dev t = held_of dev s"
proof -
  show d: "disk_of t = disk_of s" by (rule ext) (simp add: disk_of_def t_def)
  have e: "bufs t = bufs s" "sleeplocks t = sleeplocks s" by (simp_all add: t_def)
  show "view_of dev t = view_of dev s" "refs_of dev t = refs_of dev s" "held_of dev t = held_of dev s"
    unfolding view_of_def refs_of_def held_of_def d e by simp_all
  have "slot_ok dev me t b \<longleftrightarrow> slot_ok dev me s b" for me b
    unfolding slot_ok_def Let_def d e by simp
  then show "bc_inv dev p t \<longleftrightarrow> bc_inv dev p s" by (simp add: bc_inv_def t_def calm_def)
qed

lemma bc_run_lh:
  fixes s :: "'a log_state_scheme"
  shows "bc_run dev p s0 V D R H tr (s\<lparr>lh_n := n, lh_block := B\<rparr>) \<longleftrightarrow> bc_run dev p s0 V D R H tr s"
  by (simp add: bc_run_def lh_frame_maps)

lemma read_head_run:
  fixes s :: "'a log_state_scheme"
  assumes run: "bc_run dev p s0 V D R {} tr s" and dev: "dev = word_of_int (log_dev s)"
    and st: "log_area (log_start s)" and R: "\<And>m. R m < 2 ^ 32 - 1" "card {m. R m \<noteq> 0} < NBUF"
  defines "d \<equiv> V (word_of_int (log_start s))"
  assumes n: "sint (get32 d 0) \<le> int LOGSIZE"
  shows "\<exists>t. read_head s = Done () t
    \<and> io_frame (s\<lparr>lh_n := sint (get32 d 0), lh_block := heads d (lh_block s) (nat (sint (get32 d 0)))\<rparr>) t
    \<and> bc_run dev p s0 V D R {} tr t"
proof -
  let ?h = "word_of_int (log_start s) :: u32" and ?n = "sint (get32 d 0)"
  have ok: "block_ok ?h" by (rule head_facts(1) [OF st])
  obtain b s1 where s1: "bread dev ?h s = Done b s1" "slot_of dev (bufs s1) ?h = Some b"
    "bc_run dev p s0 V D (R(?h := R ?h + 1)) {?h} tr s1" "stays dev s s1"
    by (rule run_bread [OF run ok _ R(1)]) (use R in simp_all)
  let ?s2 = "s1\<lparr>lh_n := ?n, lh_block := heads d (lh_block s) (nat ?n)\<rparr>"
  note f1 = io_frame_log [OF stays_frame [OF s1(4)]]
  have s2: "bc_run dev p s0 V D (R(?h := R ?h + 1)) {?h} tr ?s2" "slot_of dev (bufs ?s2) ?h = Some b"
    using s1(2,3) by (simp_all only: bc_run_lh) simp
  have clean: "V ?h = D ?h" if "R ?h = 0"
    using bc_view(2) [OF bc_runD(1) [OF run] ok] bc_runD(2-4) [OF run] that by simp
  obtain s3 where s3: "brelse b ?s2 = Done () s3" "bc_run dev p s0 V D R {} tr s3" "stays dev ?s2 s3"
    by (rule run_brelse [OF s2]) (use clean in simp_all)
  have "read_head s = Done () s3"
    using s1(1) s3(1) run_data [OF s1(3,2)] n f1
    by (simp add: read_head_def log_bread_def kern_run dev lh_bounds_def heads_loop d_def)
  moreover have "io_frame (s\<lparr>lh_n := ?n, lh_block := heads d (lh_block s) (nat ?n)\<rparr>) ?s2"
    using stays_frame [OF s1(4)] unfolding io_frame_def by (cases s) auto
  ultimately show ?thesis using s3(2) io_frame_trans [OF _ stays_frame [OF s3(3)]] by blast
qed

lemma io_frame_lh:
  fixes s :: "'a log_state_scheme"
  assumes "io_frame s t"
  shows "io_frame (s\<lparr>lh_n := n\<rparr>) (t\<lparr>lh_n := n\<rparr>)"
  using assms unfolding io_frame_def by (cases s) auto

text \<open>The writes of a commit: the log blocks, the header, the home blocks, the cleared header.\<close>

definition commit_writes :: "int \<Rightarrow> int list \<Rightarrow> nat \<Rightarrow> (u32 \<Rightarrow> u8 list) \<Rightarrow> (u64 \<times> u8 list) list" where
  "commit_writes st B n V = (let g = \<lambda>i. V (hb B i); h = header (V (word_of_int st)) (int n) B n in
     writes (la st) g n @ block_writes (word_of_int st) h @ writes (hb B) g n
       @ block_writes (word_of_int st) (put32 h 0 0))"

text \<open>A state in which \<^verbatim>\<open>commit\<close> may run: the blocks of the transaction are pinned, no buffer is
  locked, and one buffer at least is free.\<close>

definition tx_ready :: "u32 \<Rightarrow> nat \<Rightarrow> 'a log_state_scheme \<Rightarrow> nat \<Rightarrow> bool" where
  "tx_ready dev p s n \<longleftrightarrow> bc_inv dev p s \<and> dev = word_of_int (log_dev s) \<and> lh_n s = int n
     \<and> tx_ok (log_start s) (lh_block s) n \<and> held_of dev s = {}
     \<and> (\<forall>m. refs_of dev s m < 2 ^ 32 - 1) \<and> card {m. refs_of dev s m \<noteq> 0} < NBUF
     \<and> (\<forall>i < n. refs_of dev s (hb (lh_block s) i) \<noteq> 0)"

lemma tx_readyD:
  assumes "tx_ready dev p s n"
  shows "bc_inv dev p s" "dev = word_of_int (log_dev s)" "lh_n s = int n" "tx_ok (log_start s) (lh_block s) n"
    "held_of dev s = {}" "refs_of dev s m < 2 ^ 32 - 1" "card {m. refs_of dev s m \<noteq> 0} < NBUF"
    "i < n \<Longrightarrow> refs_of dev s (hb (lh_block s) i) \<noteq> 0"
  using assms unfolding tx_ready_def by blast+

lemma commit_run:
  assumes rdy: "tx_ready dev p s n" and pos: "0 < n"
  defines "st \<equiv> log_start s" and "B \<equiv> lh_block s" and "V \<equiv> view_of dev s"
  shows "\<exists>t V'. commit s = Done () t \<and> io_frame (s\<lparr>lh_n := 0\<rparr>) t \<and> (\<forall>m. home st m \<longrightarrow> V' m = V m)
    \<and> bc_run dev p s V' (disk_of t) (unpins (hb B) n (refs_of dev s)) {} (commit_writes st B n V) t"
proof -
  note r = tx_readyD [OF rdy, folded st_def B_def] and x = tx_okD [OF r(4)]
  let ?R = "refs_of dev s" and ?D = "disk_of s" and ?h = "word_of_int st :: u32"
  define g where "g = (\<lambda>i. V (hb B i))"
  have k: "lh_n s = int n" "nat (lh_n s) = n" "lh_n s \<le> int LOGSIZE" using r(3) x(2) by simp_all
  have run: "bc_run dev p s V ?D ?R {} [] s" using bc_run_start [OF r(1)] by (simp add: V_def r(5))
  obtain s1 where s1: "kfor [0..<n] write_log_one s = Done () s1" "io_frame s s1"
    "bc_run dev p s (put_each (la st) g n V) (put_each (la st) g n ?D) ?R {} (writes (la st) g n) s1"
    using write_log_loop [OF run r(2) tx_readyD(4) [OF rdy] r(6) tx_readyD(8) [OF rdy] r(7) order.refl]
    unfolding g_def st_def B_def by auto
  note f1 = io_frame_log [OF s1(2), folded st_def B_def, unfolded k]
  define hdr where "hdr = header (V ?h) (int n) B n"
  have Vh: "put_each (la st) g n V ?h = V ?h" by (rule put_each_off) (rule x(8))
  let ?V2 = "(put_each (la st) g n V)(?h := hdr)" and ?D2 = "(put_each (la st) g n ?D)(?h := hdr)"
  obtain s2 where s2: "write_head s1 = Done () s2" "io_frame s1 s2"
    "bc_run dev p s ?V2 ?D2 ?R {} (writes (la st) g n @ block_writes ?h hdr) s2"
    using write_head_run [OF s1(3), unfolded f1, OF r(2) x(1) _ r(6,7), unfolded nat_int Vh, folded hdr_def] x(2) by auto
  note f2 = io_frame_log [OF s2(2), unfolded f1]
  have g2: "?V2 (la st i) = g i" if "i < n" for i using x(8) [OF that] put_each_at [OF x(9) that, of g V] by simp
  have c: "put_each (hb B) (\<lambda>i. ?V2 (la st i)) n M = put_each (hb B) g n M"
    "writes (hb B) (\<lambda>i. ?V2 (la st i)) n = writes (hb B) g n" for M
    using g2 by (auto intro: put_each_cong writes_cong)
  let ?V3 = "put_each (hb B) g n ?V2" and ?R3 = "unpins (hb B) n ?R"
  let ?tr3 = "writes (la st) g n @ block_writes ?h hdr @ writes (hb B) g n"
  obtain s3 where s3: "kfor [0..<n] (install_one False) s2 = Done () s3" "io_frame s2 s3"
    "bc_run dev p s ?V3 (put_each (hb B) g n ?D2) ?R3 {} ?tr3 s3"
    using install_loop [OF s2(3), unfolded f2, OF r(2) r(4,6,7), of False n] c r(8) by auto
  note f3 = io_frame_log [OF s3(2), unfolded f2]
  have Vh3: "?V3 ?h = hdr" by (subst put_each_off) (use x(10) in auto)
  have "bc_run dev p s ?V3 (put_each (hb B) g n ?D2) ?R3 {} ?tr3 (s3\<lparr>lh_n := 0\<rparr>)"
    using s3(3) bc_run_lh [where s = s3 and n = 0 and B = "lh_block s3"] by simp
  note W = write_head_run [OF this]
  have R3: "?R3 m < 2 ^ 32 - 1" "card {m. ?R3 m \<noteq> 0} < NBUF" for m
    using le_less_trans [OF unpins_le [of "hb B" n ?R m] r(6)] le_less_trans [OF card_unpins [OF refs_finite [OF run]] r(7)] by blast+
  obtain s4 where s4: "write_head (s3\<lparr>lh_n := 0\<rparr>) = Done () s4" "io_frame (s3\<lparr>lh_n := 0\<rparr>) s4"
    "bc_run dev p s (?V3(?h := put32 hdr 0 0)) ((put_each (hb B) g n ?D2)(?h := put32 hdr 0 0)) ?R3 {}
       (?tr3 @ block_writes ?h (put32 hdr 0 0)) s4"
    using W R3 r(2) x(1) by (auto simp: f3 Vh3)
  have "commit s = Done () s4"
    using s1(1) s2(1) s3(1) s4(1) pos f1 f2 x(2)
    by (simp add: commit_def write_log_def install_trans_def lh_bounds_def kern_run k)
  moreover have "io_frame (s\<lparr>lh_n := 0\<rparr>) s4"
    by (rule io_frame_trans [OF io_frame_lh s4(2)]) (rule io_frame_trans [OF s1(2) io_frame_trans [OF s2(2) s3(2)]])
  moreover have "(?V3(?h := put32 hdr 0 0)) m = V m" if m: "home st m" for m
  proof (cases "\<exists>i < n. hb B i = m")
    case True
    then show ?thesis using put_each_at [OF x(5), of _ g ?V2] x(10) by (auto simp: g_def)
  next
    case False
    then have "?V3 m = ?V2 m" by (intro put_each_off) blast
    also have "\<dots> = V m"
      using head_facts(2) [OF x(1)] la_facts(2) [OF x(1) less_le_trans [OF _ x(2)]] m by (auto intro: put_each_off)
    finally show ?thesis using head_facts(2) [OF x(1)] m by auto
  qed
  moreover have "?tr3 @ block_writes ?h (put32 hdr 0 0) = commit_writes st B n V"
    by (simp add: commit_writes_def Let_def g_def hdr_def)
  ultimately show ?thesis using s4(3) bc_runD(3) [OF s4(3)] by metis
qed

subsection \<open>What recovery makes of a disk\<close>

definition log_count :: "int \<Rightarrow> sectors \<Rightarrow> nat" where
  "log_count st X = nat (sint (get32 (block_of X (word_of_int st)) 0))"

definition log_home :: "int \<Rightarrow> sectors \<Rightarrow> nat \<Rightarrow> u32" where
  "log_home st X i = get32 (block_of X (word_of_int st)) (4 + 4 * i)"

definition recovered :: "int \<Rightarrow> sectors \<Rightarrow> u32 \<Rightarrow> u8 list" where
  "recovered st X m = (case find (\<lambda>i. log_home st X i = m) [0..<log_count st X] of
     None \<Rightarrow> block_of X m | Some i \<Rightarrow> block_of X (la st i))"

definition log_wf :: "int \<Rightarrow> sectors \<Rightarrow> bool" where
  "log_wf st X \<longleftrightarrow> log_area st \<and> log_count st X \<le> LOGSIZE
     \<and> (\<forall>i < log_count st X. home st (log_home st X i)) \<and> inj_on (log_home st X) {..<log_count st X}"

definition recover_writes :: "int \<Rightarrow> sectors \<Rightarrow> (u64 \<times> u8 list) list" where
  "recover_writes st X = writes (log_home st X) (\<lambda>i. block_of X (la st i)) (log_count st X)
     @ block_writes (word_of_int st) (put32 (block_of X (word_of_int st)) 0 0)"

text \<open>A kernel that has just booted: nothing is referenced.\<close>

definition booted :: "u32 \<Rightarrow> nat \<Rightarrow> 'a log_state_scheme \<Rightarrow> bool" where
  "booted dev p s \<longleftrightarrow> bc_inv dev p s \<and> dev = word_of_int (log_dev s) \<and> length (lh_block s) = LOGSIZE
     \<and> held_of dev s = {} \<and> refs_of dev s = (\<lambda>_. 0)"

lemma put_each_recovered:
  assumes "log_wf st X" and "home st m"
  shows "put_each (log_home st X) (\<lambda>i. block_of X (la st i)) (log_count st X) (block_of X) m = recovered st X m"
proof (cases "find (\<lambda>i. log_home st X i = m) [0..<log_count st X]")
  case None
  then have "recovered st X m = block_of X m" by (simp add: recovered_def)
  then show ?thesis using None by (auto simp: find_None_iff intro: put_each_off)
next
  case (Some i)
  then have i: "i < log_count st X" "log_home st X i = m" by (auto simp: find_Some_iff)
  have "inj_on (log_home st X) {..<log_count st X}" using assms(1) by (simp add: log_wf_def)
  from put_each_at [OF this i(1), of "\<lambda>i. block_of X (la st i)" "block_of X"] show ?thesis
    by (simp add: recovered_def Some i(2))
qed

lemma put_each_base_cong: "M m = M' m \<Longrightarrow> put_each f g k M m = put_each f g k M' m"
  by (induction k) auto

lemma booted_run:
  assumes "booted dev p s"
  shows "\<exists>V. bc_run dev p s V (disk_of s) (\<lambda>_. 0) {} [] s
    \<and> (\<forall>m. block_ok m \<longrightarrow> V m = block_of (disk_image s) m)"
proof -
  have b: "bc_inv dev p s" "held_of dev s = {}" "refs_of dev s = (\<lambda>_. 0)"
    using assms unfolding booted_def by blast+
  have "view_of dev s m = block_of (disk_image s) m" if "block_ok m" for m
    using bc_view(2) [OF b(1) that] b(3) that by (simp add: disk_of_def)
  then show ?thesis using bc_run_start [OF b(1), unfolded b] by blast
qed

lemma block_of_disk: "block_ok m \<Longrightarrow> disk_of s m = block_of (disk_image s) m"
  by (simp add: disk_of_def)

lemma recover_run:
  fixes s :: "'a log_state_scheme"
  assumes boot: "booted dev p s"
  defines "st \<equiv> log_start s" and "X \<equiv> disk_image s"
  assumes wf: "log_wf st X"
  shows "\<exists>t V D. recover_from_log s = Done () t \<and> lh_n t = 0 \<and> (\<forall>m. home st m \<longrightarrow> D m = recovered st X m)
    \<and> bc_run dev p s V D (\<lambda>_. 0) {} (recover_writes st X) t"
proof -
  let ?h = "word_of_int st :: u32" and ?n = "log_count st X"
  have dev: "dev = word_of_int (log_dev s)" "length (lh_block s) = LOGSIZE"
    using boot unfolding booted_def by blast+
  have w: "log_area st" "?n \<le> LOGSIZE" "\<And>i. i < ?n \<Longrightarrow> home st (log_home st X i)" "inj_on (log_home st X) {..<?n}"
    using wf by (simp_all add: log_wf_def)
  have R: "(0 :: nat) < 2 ^ 32 - 1" "card {m :: u32. (0 :: nat) \<noteq> 0} < NBUF" "Suc (card {m :: u32. (0 :: nat) \<noteq> 0}) < NBUF"
    by (simp_all add: NBUF_def MAXOPBLOCKS_def)
  obtain V where run: "bc_run dev p s V (disk_of s) (\<lambda>_. 0) {} [] s"
    and V: "\<And>m. block_ok m \<Longrightarrow> V m = block_of X m"
    using booted_run [OF boot] unfolding X_def by blast
  have d: "V ?h = block_of X ?h" by (rule V) (rule head_facts(1) [OF w(1)])
  let ?c = "sint (get32 (block_of X ?h) 0)" and ?B = "heads (block_of X ?h) (lh_block s) ?n"
  have c: "nat ?c = ?n" "?c \<le> int LOGSIZE" using w(2) by (simp_all add: log_count_def)
  have h: "hb ?B i = log_home st X i" if "i < ?n" for i
    using hb_heads [OF _ that, of "lh_block s" "block_of X ?h"] w(2) dev(2) by (simp add: log_home_def)
  obtain s1 where s1: "read_head s = Done () s1" "io_frame (s\<lparr>lh_n := ?c, lh_block := ?B\<rparr>) s1"
    "bc_run dev p s V (disk_of s) (\<lambda>_. 0) {} [] s1"
    using read_head_run [OF run dev(1) w(1) [unfolded st_def] R(1,2), folded st_def, unfolded d c(1), OF c(2)] by blast
  note f1 = io_frame_log [OF s1(2), simplified, folded st_def]
  have tx: "tx_ok (log_start s1) (lh_block s1) ?n"
    using w h by (simp add: tx_ok_def f1 inj_on_def)
  have g: "V (la st i) = block_of X (la st i)" if "i < ?n" for i
    using that la_facts(1) [OF w(1)] w(2) by (intro V) simp
  let ?g = "\<lambda>i. block_of X (la st i)"
  have e: "put_each (hb ?B) (\<lambda>i. V (la st i)) ?n M = put_each (log_home st X) ?g ?n M"
    "writes (hb ?B) (\<lambda>i. V (la st i)) ?n = writes (log_home st X) ?g ?n" for M
    by (rule put_each_cong; (rule h | rule g); assumption) (rule writes_cong; (rule h | rule g); assumption)
  let ?V2 = "put_each (log_home st X) ?g ?n V" and ?D2 = "put_each (log_home st X) ?g ?n (disk_of s)"
  obtain s2 where s2: "kfor [0..<?n] (install_one True) s1 = Done () s2" "io_frame s1 s2"
    "bc_run dev p s ?V2 ?D2 (\<lambda>_. 0) {} (writes (log_home st X) ?g ?n) s2"
    using install_loop [OF s1(3) _ tx R(1,2) R(3) _ order.refl, of True] dev f1 e by auto
  note f2 = io_frame_log [OF s2(2), unfolded f1]
  have "bc_run dev p s ?V2 ?D2 (\<lambda>_. 0) {} (writes (log_home st X) ?g ?n) (s2\<lparr>lh_n := 0\<rparr>)"
    using s2(3) bc_run_lh [where s = s2 and n = 0 and B = "lh_block s2"] by simp
  note W = write_head_run [OF this]
  have Vh: "?V2 ?h = block_of X ?h"
    unfolding d [symmetric] by (rule put_each_off) (use head_facts(2) [OF w(1)] w(3) in metis)
  let ?z = "put32 (block_of X ?h) 0 0"
  obtain s3 where s3: "write_head (s2\<lparr>lh_n := 0\<rparr>) = Done () s3" "io_frame (s2\<lparr>lh_n := 0\<rparr>) s3"
    "bc_run dev p s (?V2(?h := ?z)) (?D2(?h := ?z)) (\<lambda>_. 0) {} (recover_writes st X) s3"
    using W R w(1) dev(1) unfolding recover_writes_def by (auto simp: f2 Vh)
  have "recover_from_log s = Done () s3"
    using s1(1) s2(1) s3(1) f1 c
    by (simp add: recover_from_log_def install_trans_def lh_bounds_def kern_run)
  moreover have "lh_n s3 = 0" using io_frame_log(3) [OF s3(2)] by simp
  moreover have "(?D2(?h := ?z)) m = recovered st X m" if m: "home st m" for m
  proof -
    have "disk_of s m = block_of X m" using m by (simp add: block_of_disk home_def X_def)
    then have "?D2 m = recovered st X m" using put_each_recovered [OF wf m] put_each_base_cong by metis
    then show ?thesis using head_facts(2) [OF w(1)] m by auto
  qed
  ultimately show ?thesis using s3(3) by blast
qed

subsection \<open>Crashes in the middle of the writes\<close>

lemma replay_other: "x \<notin> fst ` set ws \<Longrightarrow> replay ws X x = X x"
  by (induction ws arbitrary: X) auto

lemma writes_sectors: "x \<in> fst ` set (writes f g k) \<Longrightarrow> \<exists>i < k. x = sector_of (f i) \<or> x = sector_of (f i) + 1"
  by (induction k) (auto simp: block_writes_def less_Suc_eq)

text \<open>A block that a prefix of some writes does not touch.\<close>

lemma prefix_writes_other:
  assumes "prefix ws (writes f g k)" and "\<And>i. i < k \<Longrightarrow> block_ok (f i) \<and> f i \<noteq> m" and "block_ok m"
  shows "replay ws X (sector_of m) = X (sector_of m)" "block_of (replay ws X) m = block_of X m"
proof -
  have "x \<noteq> sector_of m \<and> x \<noteq> sector_of m + 1" if "x \<in> fst ` set ws" for x
  proof -
    have "x \<in> fst ` set (writes f g k)" using that set_mono_prefix [OF assms(1)] by blast
    then obtain i where "i < k" "x = sector_of (f i) \<or> x = sector_of (f i) + 1" using writes_sectors by blast
    then show ?thesis using assms(2) [of i] sector_inj [of "f i" m] sector_inj [of m "f i"] assms(3) by auto
  qed
  then have "sector_of m \<notin> fst ` set ws" "sector_of m + 1 \<notin> fst ` set ws" by blast+
  then show "replay ws X (sector_of m) = X (sector_of m)" "block_of (replay ws X) m = block_of X m"
    by (simp_all add: replay_other block_of_def)
qed

lemma replay_writes:
  assumes "\<And>i. i < k \<Longrightarrow> block_ok (f i)" and "block_ok m"
  shows "block_of (replay (writes f g k) X) m = put_each f g k (block_of X) m"
  using assms by (induction k) (simp_all add: replay_block_writes block_of_put_block)

text \<open>The header is in the first sector of its block.\<close>

lemma get32_append: "j + 4 \<le> length a \<Longrightarrow> get32 (a @ b) j = get32 a j"
  by (simp add: get32_def)

lemma get32_first_sector:
  assumes "X (sector_of h) = take 512 d" and "length d = BSIZE" and "j + 4 \<le> 512"
  shows "get32 (block_of X h) j = get32 d j"
proof -
  have "get32 (block_of X h) j = get32 (take 512 d) j"
    using assms by (simp add: block_of_def get32_append BSIZE_def)
  also have "\<dots> = get32 (take 512 d @ drop 512 d) j"
    using assms by (subst get32_append) (simp_all add: BSIZE_def)
  finally show ?thesis by simp
qed

lemma header_on_disk:
  assumes tx: "tx_ok st B n" and X: "X (sector_of (word_of_int st)) = take 512 (header d (int n) B n)" and d: "length d = BSIZE"
  shows "log_count st X = n" "i < n \<Longrightarrow> log_home st X i = hb B i" "log_wf st X"
proof -
  note x = tx_okD [OF tx] and l = length_header [OF d x(2), of "int n" B]
  have n: "int n \<le> 30" using x(2) by (simp add: LOGSIZE_def MAXOPBLOCKS_def)
  have "get32 (block_of X (word_of_int st)) 0 = word_of_int (int n)"
    using get32_first_sector [where X = X, OF X l, of 0] get32_header_n [OF d x(2)] by simp
  moreover have "sint (word_of_int (int n) :: u32) = int n" 
    unfolding sint_sbintrunc' using n by (intro signed_take_bit_int_eq_self) simp_all
  ultimately show c: "log_count st X = n" unfolding log_count_def by (metis nat_int)
  show h: "log_home st X i = hb B i" if "i < n" for i
    using get32_first_sector [where X = X, OF X l, of "4 + 4 * i"] get32_header [OF d x(2) that] that n by (simp add: log_home_def)
  show "log_wf st X" using x h by (simp add: log_wf_def c inj_on_def)
qed

lemma new_recovered:
  assumes tx: "tx_ok st B n" and hdr: "X (sector_of (word_of_int st)) = take 512 (header d (int n) B n)" "length d = BSIZE"
    and logged: "\<And>i. i < n \<Longrightarrow> block_of X (la st i) = V (hb B i)"
    and rest: "(\<And>i. i < n \<Longrightarrow> hb B i \<noteq> m) \<Longrightarrow> block_of X m = V m"
  shows "recovered st X m = V m"
proof (cases "find (\<lambda>i. log_home st X i = m) [0..<log_count st X]")
  case None
  then have "recovered st X m = block_of X m" by (simp add: recovered_def)
  also have "\<dots> = V m"
    using None header_on_disk(1,2) [where X = X, OF tx hdr] by (intro rest) (auto simp: find_None_iff)
  finally show ?thesis .
next
  case (Some i)
  then have "recovered st X m = block_of X (la st i)" by (simp add: recovered_def)
  then show ?thesis using Some logged header_on_disk(1,2) [where X = X, OF tx hdr] by (auto simp: find_Some_iff)
qed

lemma none_recovered:
  assumes "log_area st" and "log_count st X = 0"
  shows "recovered st X m = block_of X m" "log_wf st X"
  using assms by (simp_all add: recovered_def log_wf_def)

text \<open>A prefix of the writes of one block.\<close>

lemma prefix_block_writes:
  "prefix ws (block_writes m d) \<longleftrightarrow> ws = [] \<or> ws = [(sector_of m, take 512 d)] \<or> ws = block_writes m d"
  by (auto simp: block_writes_def prefix_Cons)

lemma part_block:
  assumes "prefix ws (block_writes h d)" "ws \<noteq> []" and "block_ok h"
  shows "replay ws X (sector_of h) = take 512 d" "block_ok m \<Longrightarrow> m \<noteq> h \<Longrightarrow> block_of (replay ws X) m = block_of X m"
proof -
  have ws: "ws = [(sector_of h, take 512 d)] \<or> ws = block_writes h d" using assms(1,2) by (simp add: prefix_block_writes)
  then show "replay ws X (sector_of h) = take 512 d"
    using sector_inj(2) [OF assms(3,3)] by (auto simp: block_writes_def)
  show "block_of (replay ws X) m = block_of X m" if "block_ok m" "m \<noteq> h"
    using ws sector_inj [OF that(1) assms(3)] that(2) by (auto simp: block_writes_def block_of_def)
qed

lemma zero_head_count:
  assumes "X (sector_of (word_of_int st)) = take 512 (put32 d 0 0)" and "length d = BSIZE"
  shows "log_count st X = 0"
proof -
  have l: "length (put32 d 0 0) = BSIZE" using assms(2) by (simp add: length_put32 BSIZE_def)
  have "get32 (block_of X (word_of_int st)) 0 = 0"
    using get32_first_sector [where X = X, OF assms(1) l, of 0] assms(2) by (simp add: get32_put32 BSIZE_def)
  then show ?thesis by (simp add: log_count_def)
qed

text \<open>The image after the log blocks and part of the rest has been written.\<close>

lemma la_home: "tx_ok st B n \<Longrightarrow> home st m \<Longrightarrow> i < n \<Longrightarrow> block_ok (la st i) \<and> la st i \<noteq> m"
  using la_facts(1,2) [of st i] tx_okD(1,2) [of st B n] by auto

lemma commit_body:
  assumes tx: "tx_ok st B n" and X: "X = replay (writes (la st) g n) X0"
  shows "i < n \<Longrightarrow> block_of X (la st i) = g i" "home st m \<Longrightarrow> block_of X m = block_of X0 m"
proof -
  note x = tx_okD [OF tx]
  show "block_of X (la st i) = g i" if "i < n"
    using replay_writes [of n "la st" "la st i" g X0] x(6) that put_each_at [OF x(9) that] by (simp add: X)
  show "block_of X m = block_of X0 m" if "home st m"
    using prefix_writes_other(2) [OF prefix_order.refl la_home [OF tx that], where g = g and X = X0] that
    by (simp add: X home_def)
qed

lemma commit_new:
  assumes tx: "tx_ok st B n" and len: "length (V (word_of_int st)) = BSIZE"
    and hdr: "X (sector_of (word_of_int st)) = take 512 (header (V (word_of_int st)) (int n) B n)"
    and body: "\<And>i. i < n \<Longrightarrow> block_of X (la st i) = V (hb B i)"
    and rest: "\<And>m. home st m \<Longrightarrow> (\<And>i. i < n \<Longrightarrow> hb B i \<noteq> m) \<Longrightarrow> block_of X m = V m"
  shows "log_wf st X \<and> (\<forall>m. home st m \<longrightarrow> recovered st X m = V m)"
  using header_on_disk(3) [where X = X, OF tx hdr len] new_recovered [where X = X, OF tx hdr len] body rest by simp

lemma prefix_four:
  assumes "prefix ws (a @ b @ c @ d)"
  obtains (1) "prefix ws a" | (2) us where "ws = a @ us" "prefix us b" "us \<noteq> []"
    | (3) us where "ws = a @ b @ us" "prefix us c" | (4) us where "ws = a @ b @ c @ us" "prefix us d" "us \<noteq> []"
proof (cases "prefix ws a")
  case False
  then obtain us where us: "ws = a @ us" "prefix us (b @ c @ d)" "us \<noteq> []" using assms by (auto simp: prefix_append)
  show ?thesis
  proof (cases "prefix us b")
    case False
    then obtain vs where vs: "us = b @ vs" "prefix vs (c @ d)" using us(2) by (auto simp: prefix_append)
    show ?thesis
    proof (cases "prefix vs c")
      case False
      then obtain xs where "vs = c @ xs" "prefix xs d" using vs(2) by (auto simp: prefix_append)
      then show ?thesis using False by (intro 4 [of xs]) (auto simp: us vs)
    qed (use us vs 3 in simp)
  qed (use us 2 in simp)
qed (rule 1)

lemma commit_done:
  assumes tx: "tx_ok st B n" and len: "length (V (word_of_int st)) = BSIZE"
    and clean: "\<And>m. home st m \<Longrightarrow> (\<And>i. i < n \<Longrightarrow> hb B i \<noteq> m) \<Longrightarrow> V m = block_of X0 m"
  defines "g \<equiv> \<lambda>i. V (hb B i)" and "hdr \<equiv> header (V (word_of_int st)) (int n) B n"
  assumes us: "prefix us (block_writes (word_of_int st) (put32 hdr 0 0))" "us \<noteq> []"
  defines "X \<equiv> replay us (replay (writes (hb B) g n) (replay (block_writes (word_of_int st) hdr) (replay (writes (la st) g n) X0)))"
  shows "log_count st X = 0" "home st m \<Longrightarrow> block_of X m = V m"
proof -
  note x = tx_okD [OF tx] and h = head_facts [OF tx_okD(1) [OF tx]]
  let ?h = "word_of_int st :: u32"
  let ?X1 = "replay (writes (la st) g n) X0"
  let ?X2 = "replay (block_writes ?h hdr) ?X1"
  let ?X3 = "replay (writes (hb B) g n) ?X2"
  note p = part_block [OF us h(1), where X = ?X3] and p2 = part_block [OF prefix_order.refl _ h(1), where d = hdr and X = ?X1]
  have lh: "length hdr = BSIZE" unfolding hdr_def by (rule length_header [OF len x(2)])
  show "log_count st X = 0" unfolding X_def by (rule zero_head_count) (rule p(1), rule lh)
  assume m: "home st m"
  then have ok: "block_ok m" "m \<noteq> ?h" using h(2) by (auto simp: home_def)
  have "block_of X m = put_each (hb B) g n (block_of ?X2) m"
    using p(2) replay_writes [of n "hb B" m g ?X2] x(4) ok by (simp add: X_def)
  also have "\<dots> = V m"
  proof (cases "\<exists>i < n. hb B i = m")
    case True
    then show ?thesis using put_each_at [OF x(5), of _ g "block_of ?X2"] by (auto simp: g_def)
  next
    case False
    then have "put_each (hb B) g n (block_of ?X2) m = block_of ?X2 m" by (intro put_each_off) blast
    then show ?thesis
      using p2(2) ok commit_body(2) [OF tx, of ?X1 g X0, OF refl m] clean [OF m] False by (simp add: block_writes_def)
  qed
  finally show "block_of X m = V m" .
qed

lemma commit_atomic:
  assumes tx: "tx_ok st B n" and len: "length (V (word_of_int st)) = BSIZE" and idle: "log_count st X0 = 0"
    and clean: "\<And>m. home st m \<Longrightarrow> (\<And>i. i < n \<Longrightarrow> hb B i \<noteq> m) \<Longrightarrow> V m = block_of X0 m"
    and cut: "prefix ws (commit_writes st B n V)"
  shows "log_wf st (replay ws X0) \<and>
    ((\<forall>m. home st m \<longrightarrow> recovered st (replay ws X0) m = block_of X0 m)
     \<or> (\<forall>m. home st m \<longrightarrow> recovered st (replay ws X0) m = V m))"
proof -
  note x = tx_okD [OF tx] and h = head_facts [OF x(1)]
  let ?h = "word_of_int st :: u32"
  define g where "g = (\<lambda>i. V (hb B i))"
  define hdr where "hdr = header (V ?h) (int n) B n"
  have lh: "length hdr = BSIZE" unfolding hdr_def by (rule length_header [OF len x(2)])
  let ?A = "writes (la st) g n" and ?I = "writes (hb B) g n" and ?H = "block_writes ?h hdr"
  let ?X1 = "replay ?A X0"
  let ?X2 = "replay ?H ?X1"
  note body = commit_body [OF tx, of ?X1 g X0, OF refl]
  have off: "block_ok (la st i) \<and> la st i \<noteq> ?h" "block_ok (hb B i) \<and> hb B i \<noteq> ?h"
    "j < n \<Longrightarrow> block_ok (hb B j) \<and> hb B j \<noteq> la st i" if "i < n" for i j
    using x(4,6,8,10) x(7) [of i j] that by auto
  have ok: "block_ok m" "m \<noteq> ?h" if "home st m" for m using that h(2) by (auto simp: home_def)
  note new = commit_new [where V = V, OF tx len, folded hdr_def]
  consider (a) "prefix ws ?A" | (b) us where "ws = ?A @ us" "prefix us ?H" "us \<noteq> []"
    | (c) us where "ws = ?A @ ?H @ us" "prefix us ?I"
    | (d) us where "ws = ?A @ ?H @ ?I @ us" "prefix us (block_writes ?h (put32 hdr 0 0))" "us \<noteq> []"
    using cut unfolding commit_writes_def Let_def g_def [symmetric] hdr_def [symmetric] by (rule prefix_four)
  then show ?thesis
  proof cases
    case a
    have "log_count st (replay ws X0) = 0"
      using idle prefix_writes_other(2) [OF a off(1) h(1)] by (simp add: log_count_def)
    moreover have "block_of (replay ws X0) m = block_of X0 m" if "home st m" for m
      using prefix_writes_other(2) [OF a la_home [OF tx that] ok(1) [OF that]] .
    ultimately show ?thesis using none_recovered [OF x(1)] by simp
  next
    case b
    note p = part_block [OF b(2,3) h(1), where X = ?X1]
    have "log_wf st (replay us ?X1) \<and> (\<forall>m. home st m \<longrightarrow> recovered st (replay us ?X1) m = V m)"
      by (rule new) (use p off ok body clean in \<open>simp_all add: g_def\<close>)
    then show ?thesis by (simp add: b(1))
  next
    case c
    note p = part_block [OF prefix_order.refl _ h(1), where d = hdr and X = ?X1]
    note q = prefix_writes_other [OF c(2)]
    have "log_wf st (replay us ?X2) \<and> (\<forall>m. home st m \<longrightarrow> recovered st (replay us ?X2) m = V m)"
    proof (rule new)
      show "replay us ?X2 (sector_of ?h) = take 512 hdr"
        using q(1) [OF off(2) h(1)] p(1) by (simp add: block_writes_def)
      show "block_of (replay us ?X2) (la st i) = V (hb B i)" if "i < n" for i
        using q(2) [OF off(3) [OF that]] p(2) off(1) [OF that] body(1) [OF that] by (simp add: block_writes_def g_def)
      show "block_of (replay us ?X2) m = V m" if m: "home st m" "\<And>i. i < n \<Longrightarrow> hb B i \<noteq> m" for m
        using q(2) [of m] x(4) m ok p(2) body(2) clean by (simp add: block_writes_def)
    qed
    then show ?thesis by (simp add: c(1))
  next
    case d
    note e = commit_done [where V = V, OF tx len clean, folded g_def hdr_def, OF _ _ d(2,3)]
    show ?thesis using none_recovered [OF x(1) e(1)] e(2) by (simp add: d(1))
  qed
qed

lemma recover_restartable:
  assumes wf: "log_wf st X" and len: "\<And>k. length (X k) = 512" and cut: "prefix ws (recover_writes st X)"
  shows "log_wf st (replay ws X)" "home st m \<Longrightarrow> recovered st (replay ws X) m = recovered st X m"
proof -
  let ?h = "word_of_int st :: u32" and ?n = "log_count st X" and ?f = "log_home st X" and ?g = "\<lambda>i. block_of X (la st i)"
  have w: "log_area st" "?n \<le> LOGSIZE" "\<And>i. i < ?n \<Longrightarrow> home st (?f i)" using wf by (simp_all add: log_wf_def)
  note h = head_facts [OF w(1)]
  have ok: "block_ok m" "m \<noteq> ?h" if "home st m" for m using that h(2) by (auto simp: home_def)
  have la: "block_ok (la st i) \<and> \<not> home st (la st i)" if "i < ?n" for i
    using la_facts(1,2) [OF w(1)] that w(2) by simp
  have "log_wf st (replay ws X) \<and> (\<forall>m. home st m \<longrightarrow> recovered st (replay ws X) m = recovered st X m)"
  proof (cases "prefix ws (writes ?f ?g ?n)")
    case True
    note q = prefix_writes_other(2) [OF True, where X = X]
    have "block_of (replay ws X) ?h = block_of X ?h" using w(3) ok h(1) by (intro q) (auto dest: ok)
    then have e: "log_count st (replay ws X) = ?n" "log_home st (replay ws X) = ?f"
      by (simp_all add: log_count_def log_home_def fun_eq_iff)
    have "recovered st (replay ws X) m = recovered st X m" if m: "home st m" for m
    proof (cases "find (\<lambda>i. ?f i = m) [0..<?n]")
      case None
      then have "block_of (replay ws X) m = block_of X m"
        using w(3) ok m by (intro q) (auto simp: find_None_iff)
      then show ?thesis by (simp add: recovered_def e None)
    next
      case (Some i)
      then have i: "i < ?n" by (auto simp: find_Some_iff)
      have "block_of (replay ws X) (la st i) = block_of X (la st i)"
        using la [OF i] w(3) ok by (intro q) metis+
      then show ?thesis by (simp add: recovered_def e Some)
    qed
    then show ?thesis using wf by (simp add: log_wf_def e)
  next
    case False
    then obtain us where us: "ws = writes ?f ?g ?n @ us" "prefix us (block_writes ?h (put32 (block_of X ?h) 0 0))" "us \<noteq> []"
      using cut by (auto simp: recover_writes_def prefix_append)
    note p = part_block [OF us(2,3) h(1), where X = "replay (writes ?f ?g ?n) X"]
    have "log_count st (replay ws X) = 0"
      unfolding us(1) replay_append by (rule zero_head_count, rule p(1)) (simp add: block_of_def len BSIZE_def)
    note N = none_recovered [OF w(1) this]
    have "block_of (replay ws X) m = recovered st X m" if m: "home st m" for m
      using p(2) [OF ok [OF m]] replay_writes [of ?n ?f m ?g X] w(3) ok [OF m] ok put_each_recovered [OF wf m]
      by (simp add: us(1))
    then show ?thesis using N by simp
  qed
  then show "log_wf st (replay ws X)" "home st m \<Longrightarrow> recovered st (replay ws X) m = recovered st X m" by blast+
qed

subsection \<open>Adding a block to the transaction\<close>

lemma log_slot_spec:
  "log_slot B x i k \<le> i + k" "i \<le> log_slot B x i k" "log_slot B x i k < i + k \<Longrightarrow> B ! log_slot B x i k = x"
  "i \<le> j \<Longrightarrow> j < log_slot B x i k \<Longrightarrow> B ! j \<noteq> x"
proof (induction k arbitrary: i)
  case (Suc k)
  { case 1 show ?case using Suc(1) [of "Suc i"] by simp }
  { case 2 show ?case using Suc(2) [of "Suc i"] by simp }
  { case 3 then show ?case using Suc(3) [of "Suc i"] by (simp split: if_splits) }
  { case 4 then show ?case using Suc(4) [of "Suc i"] by (cases "j = i") (simp_all split: if_splits) }
qed simp_all

definition logged :: "'a log_state_scheme \<Rightarrow> nat \<Rightarrow> int \<Rightarrow> nat \<Rightarrow> 'a log_state_scheme" where
  "logged s n x b = s\<lparr>lh_n := int n + 1, lh_block := (lh_block s)[n := x],
     bufs := (bufs s)(b := (bufs s b)\<lparr>refcnt := refcnt (bufs s b) + 1\<rparr>)\<rparr>"

lemma log_write_Done:
  fixes b :: nat
  assumes calm: "calm p s" and n: "lh_n s = int n" "n < LOGSIZE" "int n < log_size s - 1" and out: "log_outstanding s \<ge> 1"
  defines "x \<equiv> sint (blockno (bufs s b))"
  defines "i \<equiv> log_slot (lh_block s) x 0 n"
  shows "log_write b s = Done () (if i < n then s else logged s n x b)"
proof -
  note c = calmD [OF calm]
  have i: "i \<le> n" "i < n \<Longrightarrow> lh_block s ! i = x" using log_slot_spec(1,3) [of "lh_block s" x 0 n] by (simp_all add: i_def)
  have "log_write b s = Done () (if i < n then s\<lparr>hw := settle (hw s), lh_block := (lh_block s)[i := x]\<rparr>
      else (logged s n x b)\<lparr>hw := settle (hw s)\<rparr>)"
    using c n out i(1) by (cases "i < n") (simp_all add: log_write_def bpin_def upd_buf_def kern_run x_def i_def logged_def)
  moreover have "(lh_block s)[i := x] = lh_block s" if "i < n" using i(2) [OF that] by auto
  moreover have "hw (logged s n x b) = hw s" by (simp add: logged_def)
  ultimately show ?thesis using c(4) by (simp split: if_splits)
qed

lemma log_write_panics:
  assumes "calm p s"
  shows "lh_n s \<ge> int LOGSIZE \<or> lh_n s \<ge> log_size s - 1 \<Longrightarrow> log_write b s = Panicked ''too big a transaction''"
    "lh_n s < int LOGSIZE \<Longrightarrow> lh_n s < log_size s - 1 \<Longrightarrow> log_outstanding s < 1 \<Longrightarrow>
       log_write b s = Panicked ''log_write outside of trans''"
  using calmD [OF assms] by (auto simp: log_write_def kern_run)

text \<open>The invariant of an open transaction: its blocks are pinned, and a block that is neither locked nor
  in the transaction is as on the disk.\<close>

definition tx_open :: "u32 \<Rightarrow> nat \<Rightarrow> 'a log_state_scheme \<Rightarrow> nat \<Rightarrow> bool" where
  "tx_open dev p s n \<longleftrightarrow> bc_inv dev p s \<and> dev = word_of_int (log_dev s) \<and> lh_n s = int n
     \<and> length (lh_block s) = LOGSIZE \<and> tx_ok (log_start s) (lh_block s) n
     \<and> (\<forall>i < n. lh_block s ! i = sint (hb (lh_block s) i))
     \<and> (\<forall>i < n. refs_of dev s (hb (lh_block s) i) \<noteq> 0)
     \<and> (\<forall>m. home (log_start s) m \<longrightarrow> m \<notin> held_of dev s \<longrightarrow> m \<notin> hb (lh_block s) ` {..<n} \<longrightarrow>
          view_of dev s m = disk_of s m)"

lemma tx_openD:
  assumes "tx_open dev p s n"
  shows "bc_inv dev p s" "dev = word_of_int (log_dev s)" "lh_n s = int n" "length (lh_block s) = LOGSIZE"
    "tx_ok (log_start s) (lh_block s) n" "i < n \<Longrightarrow> refs_of dev s (hb (lh_block s) i) \<noteq> 0"
    "home (log_start s) m \<Longrightarrow> m \<notin> held_of dev s \<Longrightarrow> m \<notin> hb (lh_block s) ` {..<n} \<Longrightarrow> view_of dev s m = disk_of s m"
    "i < n \<Longrightarrow> lh_block s ! i = sint (hb (lh_block s) i)"
  using assms unfolding tx_open_def by blast+

lemma tx_ok_append:
  assumes tx: "tx_ok st B n" and n: "n < LOGSIZE" "length B = LOGSIZE" and x: "word_of_int x = m" "home st m" "m \<notin> hb B ` {..<n}"
  shows "tx_ok st (B[n := x]) (Suc n)" "hb (B[n := x]) ` {..<Suc n} = insert m (hb B ` {..<n})"
proof -
  have e: "hb (B[n := x]) n = m" "i < n \<Longrightarrow> hb (B[n := x]) i = hb B i" for i using n x(1) by (simp_all add: hb_def)
  have *: "hb (B[n := x]) ` {..<n} = hb B ` {..<n}" by (intro image_cong) (simp_all add: e)
  then show "hb (B[n := x]) ` {..<Suc n} = insert m (hb B ` {..<n})" by (simp add: lessThan_Suc e(1))
  have "inj_on (hb (B[n := x])) {..<n}" using tx_okD(5) [OF tx] e(2) by (simp add: inj_on_def)
  then have "inj_on (hb (B[n := x])) {..<Suc n}" using x(3) * by (simp add: lessThan_Suc e(1))
  then show "tx_ok st (B[n := x]) (Suc n)"
    using tx_okD(1,2,3) [OF tx] n x e by (auto simp: tx_ok_def less_Suc_eq)
qed

lemma logged_open:
  assumes op: "tx_open dev p s n" and n: "n < LOGSIZE" and b: "slot_of dev (bufs s) m = Some b"
    and m: "home (log_start s) m" "m \<notin> hb (lh_block s) ` {..<n}" "refs_of dev s m < 2 ^ 32 - 1"
  defines "t \<equiv> logged s n (sint m) b"
  shows "tx_open dev p t (Suc n)" "hb (lh_block t) ` {..<Suc n} = insert m (hb (lh_block s) ` {..<n})"
    "view_of dev t = view_of dev s" "disk_of t = disk_of s" "held_of dev t = held_of dev s"
    "refs_of dev t = (refs_of dev s)(m := refs_of dev s m + 1)" "disk_trace t = disk_trace s"
proof -
  note o = tx_openD [OF op]
  let ?u = "s\<lparr>bufs := (bufs s)(b := (bufs s b)\<lparr>refcnt := refcnt (bufs s b) + 1\<rparr>)\<rparr>"
  have "bpin b s = Done () ?u" using calm_locked_upd [OF bc_invD(1) [OF o(1)]] by (simp add: bpin_def)
  with bpin_post [OF o(1) b m(3)] have u: "bc_post dev p s (view_of dev s) (disk_of s)
    ((refs_of dev s)(m := refs_of dev s m + 1)) (held_of dev s) [] ?u" by simp
  have t: "t = ?u\<lparr>lh_n := int n + 1, lh_block := (lh_block s)[n := sint m]\<rparr>" by (simp add: t_def logged_def)
  show v: "view_of dev t = view_of dev s" "disk_of t = disk_of s" "held_of dev t = held_of dev s"
    "refs_of dev t = (refs_of dev s)(m := refs_of dev s m + 1)" "disk_trace t = disk_trace s"
    using u unfolding t lh_frame_maps by (simp_all add: bc_post_def)
  note a = tx_ok_append [OF o(5) n o(4), of "sint m" m, OF _ m(1,2), simplified]
  show h: "hb (lh_block t) ` {..<Suc n} = insert m (hb (lh_block s) ` {..<n})" using a(2) by (simp add: t)
  have inv: "bc_inv dev p t" using u unfolding t lh_frame_maps by (simp add: bc_post_def)
  have "refs_of dev t k \<noteq> 0" if "k \<in> hb (lh_block t) ` {..<Suc n}" for k
    using that o(6) unfolding h v by auto
  then have "refs_of dev t (hb (lh_block t) i) \<noteq> 0" if "i < Suc n" for i using that by blast
  moreover have "view_of dev t k = disk_of t k"
    if "home (log_start s) k" "k \<notin> held_of dev t" "k \<notin> hb (lh_block t) ` {..<Suc n}" for k
    using o(7) [of k] that unfolding h v by auto
  moreover have "lh_block t ! i = sint (hb (lh_block t) i)" if "i < Suc n" for i
    using o(8) [of i] that n o(4) by (cases "i = n") (simp_all add: t hb_def)
  moreover have "dev = word_of_int (log_dev t)" "lh_n t = int (Suc n)" "length (lh_block t) = LOGSIZE"
    "log_start t = log_start s" "tx_ok (log_start s) (lh_block t) (Suc n)"
    using o(2,4) a(1) by (simp_all add: t)
  ultimately show "tx_open dev p t (Suc n)" using inv unfolding tx_open_def by metis
qed

text \<open>C21. \<^verbatim>\<open>log_write\<close> on a buffer of a block outside the log keeps the invariant of an open
  transaction: afterwards the block is in the transaction, exactly once and pinned, nothing has been
  written to the disk and no block's contents have changed. It panics exactly when the transaction is
  full or no operation is outstanding.\<close>

theorem log_write_correct:
  assumes "tx_open dev p s n" and "slot_of dev (bufs s) m = Some b" and "home (log_start s) m"
    and "refs_of dev s m < 2 ^ 32 - 1"
  shows "if n \<ge> LOGSIZE \<or> int n \<ge> log_size s - 1 then log_write b s = Panicked ''too big a transaction''
    else if log_outstanding s < 1 then log_write b s = Panicked ''log_write outside of trans''
    else \<exists>t k. log_write b s = Done () t \<and> tx_open dev p t k \<and> k = (if m \<in> hb (lh_block s) ` {..<n} then n else Suc n)
      \<and> hb (lh_block t) ` {..<k} = insert m (hb (lh_block s) ` {..<n})
      \<and> view_of dev t = view_of dev s \<and> disk_of t = disk_of s \<and> held_of dev t = held_of dev s
      \<and> disk_trace t = disk_trace s"
proof -
  note o = tx_openD [OF assms(1)] and c = bc_invD(1) [OF tx_openD(1) [OF assms(1)]]
  show ?thesis
  proof (cases "n \<ge> LOGSIZE \<or> int n \<ge> log_size s - 1 \<or> log_outstanding s < 1")
    case True
    then show ?thesis using log_write_panics [OF c, of b] o(3) by auto
  next
    case False
    let ?B = "lh_block s"
    define i where "i = log_slot ?B (sint m) 0 n"
    have run: "log_write b s = Done () (if i < n then s else logged s n (sint m) b)"
      using log_write_Done [OF c o(3), of b] False slot_ofD [OF assms(2)] by (simp add: i_def)
    have in_tx: "i < n \<longleftrightarrow> m \<in> hb ?B ` {..<n}"
    proof
      assume "i < n"
      then show "m \<in> hb ?B ` {..<n}"
        using log_slot_spec(3) [of ?B "sint m" 0 n] by (intro image_eqI [of _ _ i]) (simp_all add: i_def hb_def)
    next
      assume "m \<in> hb ?B ` {..<n}"
      then obtain j where j: "j < n" "hb ?B j = m" by auto
      have "?B ! j = sint m" using o(8) [OF j(1)] j(2) by simp
      then have "i \<le> j" using log_slot_spec(4) [of 0 j ?B "sint m" n] by (auto simp: i_def not_le [symmetric])
      then show "i < n" using j(1) by simp
    qed
    show ?thesis
    proof (cases "i < n")
      case True
      then have "insert m (hb ?B ` {..<n}) = hb ?B ` {..<n}" using in_tx by blast
      then show ?thesis using run True False assms(1) in_tx by auto
    next
      case new: False
      then show ?thesis
        using logged_open [OF assms(1) _ assms(2,3) _ assms(4)] run in_tx False by auto
    qed
  qed
qed

subsection \<open>Commit and recovery\<close>

lemma tx_open_ready:
  assumes "tx_open dev p s n" and "held_of dev s = {}" and "\<And>m. refs_of dev s m < 2 ^ 32 - 1"
    and "card {m. refs_of dev s m \<noteq> 0} < NBUF"
  shows "tx_ready dev p s n"
  using tx_openD [OF assms(1)] assms(2-) unfolding tx_ready_def by blast

lemma commit_writes_full:
  assumes "tx_ok st B n" and "length (V (word_of_int st)) = BSIZE"
    and "\<And>m. home st m \<Longrightarrow> (\<And>i. i < n \<Longrightarrow> hb B i \<noteq> m) \<Longrightarrow> V m = block_of X0 m"
  shows "log_count st (replay (commit_writes st B n V) X0) = 0"
    "home st m \<Longrightarrow> block_of (replay (commit_writes st B n V) X0) m = V m"
proof -
  have ne: "block_writes h d \<noteq> []" for h d by (simp add: block_writes_def)
  note D = commit_done [where V = V, OF assms prefix_order.refl ne]
  show "log_count st (replay (commit_writes st B n V) X0) = 0"
    using D(1) by (simp add: commit_writes_def Let_def)
  show "block_of (replay (commit_writes st B n V) X0) m = V m" if "home st m"
    using D(2) [OF _ _ that] by (simp add: commit_writes_def Let_def)
qed

text \<open>C19. \<^verbatim>\<open>commit\<close> makes a transaction durable, all or nothing. It returns with the contents of every
  block outside the log on the disk, an empty log, and the cache as it was; and if the machine stops after
  any prefix of its sector writes, the log on the disk is well formed and recovery gets from it either the
  contents before the transaction in every block or those after it in every block.\<close>

theorem commit_crash_safe:
  assumes "tx_open dev p s n" and "held_of dev s = {}" and "\<forall>m. refs_of dev s m < 2 ^ 32 - 1"
    and "card {m. refs_of dev s m \<noteq> 0} < NBUF" and "log_count (log_start s) (disk_image s) = 0"
  shows "\<exists>t ws. commit s = Done () t \<and> disk_trace t = disk_trace s @ ws \<and> lh_n t = 0 \<and> bc_inv dev p t
    \<and> (\<forall>m. home (log_start s) m \<longrightarrow> view_of dev t m = view_of dev s m \<and> disk_of t m = view_of dev s m)
    \<and> log_count (log_start s) (disk_image t) = 0
    \<and> (\<forall>vs. prefix vs ws \<longrightarrow> log_wf (log_start s) (replay vs (disk_image s)) \<and>
        ((\<forall>m. home (log_start s) m \<longrightarrow> recovered (log_start s) (replay vs (disk_image s)) m = disk_of s m)
         \<or> (\<forall>m. home (log_start s) m \<longrightarrow> recovered (log_start s) (replay vs (disk_image s)) m = view_of dev s m)))"
proof -
  note o = tx_openD [OF assms(1)]
  have rdy: "tx_ready dev p s n" using assms by (intro tx_open_ready) simp_all
  let ?st = "log_start s" and ?B = "lh_block s" and ?V = "view_of dev s" and ?X = "disk_image s"
  have area: "log_area ?st" by (rule tx_okD(1) [OF o(5)])
  have ok: "block_ok m" if "home ?st m" for m using that by (simp add: home_def)
  have len: "length (?V (word_of_int ?st)) = BSIZE" by (rule bc_view(1) [OF o(1) head_facts(1) [OF area]])
  have clean: "?V m = block_of ?X m" if "home ?st m" "\<And>i. i < n \<Longrightarrow> hb ?B i \<noteq> m" for m
    using o(7) [OF that(1)] that assms(2) ok [OF that(1)] by (auto simp: block_of_disk)
  show ?thesis
  proof (cases "n = 0")
    case True
    have "commit s = Done () s" using o(3) True by (simp add: commit_def kern_run)
    moreover have "?V m = disk_of s m" if "home ?st m" for m using o(7) [OF that] True assms(2) by simp
    ultimately show ?thesis
      using o(1,3) True none_recovered [OF area assms(5)] assms(5) ok by (intro exI [of _ s] exI [of _ "[]"]) (auto simp: block_of_disk)
  next
    case False
    then obtain t V' where t: "commit s = Done () t" "io_frame (s\<lparr>lh_n := 0\<rparr>) t" "\<And>m. home ?st m \<Longrightarrow> V' m = ?V m"
      "bc_run dev p s V' (disk_of t) (unpins (hb ?B) n (refs_of dev s)) {} (commit_writes ?st ?B n ?V) t"
      using commit_run [OF rdy] by blast
    note r = bc_runD [OF t(4)] and full = commit_writes_full [where V = ?V, OF o(5) len clean]
    have "view_of dev t m = ?V m \<and> disk_of t m = ?V m" if "home ?st m" for m
      using full(2) [OF _ _ that] t(3) [OF that] ok [OF that] r(2,7) by (simp add: block_of_disk)
    moreover have "lh_n t = 0" using io_frame_log(3) [OF t(2)] by simp
    moreover have "log_count ?st (disk_image t) = 0" using full(1) r(7) by simp
    moreover have "log_wf ?st (replay vs ?X) \<and> ((\<forall>m. home ?st m \<longrightarrow> recovered ?st (replay vs ?X) m = disk_of s m)
        \<or> (\<forall>m. home ?st m \<longrightarrow> recovered ?st (replay vs ?X) m = ?V m))"
      if "prefix vs (commit_writes ?st ?B n ?V)" for vs
      using commit_atomic [where V = ?V, OF o(5) len assms(5) clean that] by (simp add: block_of_disk ok)
    ultimately show ?thesis
      using t(1) r(1,6) by (intro exI [of _ t] exI [of _ "commit_writes ?st ?B n ?V"]) simp
  qed
qed

lemma recover_clears:
  assumes wf: "log_wf st X" and len: "\<And>k. length (X k) = 512"
  shows "log_count st (replay (recover_writes st X) X) = 0"
proof -
  let ?h = "word_of_int st :: u32" and ?d = "block_of X (word_of_int st)"
  have h: "block_ok ?h" using head_facts(1) wf by (simp add: log_wf_def)
  have "replay (block_writes ?h (put32 ?d 0 0)) Y (sector_of ?h) = take 512 (put32 ?d 0 0)" for Y
    by (rule part_block(1) [OF prefix_order.refl _ h]) (simp add: block_writes_def)
  then show ?thesis
    unfolding recover_writes_def replay_append by (rule zero_head_count) (simp add: block_of_def len BSIZE_def)
qed

text \<open>C20. Recovery at boot is correct and can itself be interrupted. From any well-formed log on the disk
  \<^verbatim>\<open>recover_from_log\<close> returns with the recovered contents in every block outside the log and with the
  log empty, in memory and on the disk; and if the machine stops after any prefix of its sector writes, the next recovery gets the same
  contents.\<close>

theorem recovery_correct:
  assumes "booted dev p s" and "log_wf (log_start s) (disk_image s)"
  shows "\<exists>t ws. recover_from_log s = Done () t \<and> disk_trace t = disk_trace s @ ws \<and> lh_n t = 0 \<and> bc_inv dev p t
    \<and> log_count (log_start s) (disk_image t) = 0
    \<and> (\<forall>m. home (log_start s) m \<longrightarrow> disk_of t m = recovered (log_start s) (disk_image s) m)
    \<and> (\<forall>vs m. prefix vs ws \<and> home (log_start s) m \<longrightarrow> log_wf (log_start s) (replay vs (disk_image s)) \<and>
        recovered (log_start s) (replay vs (disk_image s)) m = recovered (log_start s) (disk_image s) m)"
proof -
  have inv: "bc_inv dev p s" using assms(1) unfolding booted_def by blast
  obtain t V D where t: "recover_from_log s = Done () t" "lh_n t = 0"
    "\<And>m. home (log_start s) m \<Longrightarrow> D m = recovered (log_start s) (disk_image s) m"
    "bc_run dev p s V D (\<lambda>_. 0) {} (recover_writes (log_start s) (disk_image s)) t"
    using recover_run [OF assms] by blast
  note r = bc_runD [OF t(4)]
  have len: "\<And>k. length (disk_image s k) = 512" by (rule bc_invD(4) [OF inv])
  note c = recover_restartable [OF assms(2) len]
  show ?thesis
    using t(1-3) r(1,3,6,7) c recover_clears [OF assms(2) len]
    by (intro exI [of _ t] exI [of _ "recover_writes (log_start s) (disk_image s)"]) simp
qed

subsection \<open>A concrete transaction\<close>

definition log_thread :: log_state where
  "log_thread = bio_state.extend cached_thread (log_state.fields 2 30 1 False 1 0 (replicate LOGSIZE 0))"

lemma log_thread_sel:
  "hw log_thread = hw cached_thread" "procs log_thread = procs cached_thread" "sleeplocks log_thread = sleeplocks cached_thread"
  "bufs log_thread = bufs cached_thread" "vdisk log_thread = vdisk cached_thread" "disk_hw log_thread = disk_hw cached_thread"
  "disk_image log_thread = disk_image cached_thread" "log_start log_thread = 2" "log_size log_thread = 30"
  "log_outstanding log_thread = 1" "log_dev log_thread = 1" "lh_n log_thread = 0" "lh_block log_thread = replicate LOGSIZE 0"
  by (simp_all add: log_thread_def bio_state.defs log_state.defs)

lemma log_thread_maps:
  "disk_of log_thread = disk_of cached_thread" "view_of 1 log_thread = view_of 1 cached_thread"
  "refs_of 1 log_thread = refs_of 1 cached_thread" "held_of 1 log_thread = held_of 1 cached_thread"
  "bc_inv 1 0 log_thread"
proof -
  show d: "disk_of log_thread = disk_of cached_thread" by (rule ext) (simp add: disk_of_def log_thread_sel)
  show "view_of 1 log_thread = view_of 1 cached_thread" "refs_of 1 log_thread = refs_of 1 cached_thread"
    "held_of 1 log_thread = held_of 1 cached_thread"
    unfolding view_of_def refs_of_def held_of_def d log_thread_sel by simp_all
  have "slot_ok 1 me log_thread b \<longleftrightarrow> slot_ok 1 me cached_thread b" for me b
    unfolding slot_ok_def Let_def d log_thread_sel by simp
  then show "bc_inv 1 0 log_thread"
    using cached_thread_inv(1) by (simp add: bc_inv_def log_thread_sel calm_def)
qed

lemma log_thread_disk: "log_count 2 (disk_image log_thread) = 0"
  by (simp add: log_count_def log_thread_sel cached_thread_inv(5) disk_thread_def block_of_def sector_of_def get32_def)

lemma log_area_2: "log_area 2" "home 2 100"
  by (simp_all add: log_area_def home_def block_ok_def LOGSIZE_def MAXOPBLOCKS_def)

text \<open>A write to block 100, as a client of the log makes it.\<close>

definition log_client :: "('a log_state_scheme, unit) kern" where
  "log_client = kbind (bread 1 100) (\<lambda>b. kdo (set_block_data b (\<lambda>_. replicate BSIZE 5)) (kdo (log_write b) (brelse b)))"

definition logged_thread :: log_state where
  "logged_thread = (case log_client log_thread of Done _ t \<Rightarrow> t | _ \<Rightarrow> log_thread)"

lemma log_thread_open: "tx_open 1 0 log_thread 0"
  using log_thread_maps log_area_2 cached_thread_inv(4)
  by (simp add: tx_open_def log_thread_sel tx_ok_def)

lemma logged_thread_open:
  "log_client log_thread = Done () logged_thread" "tx_open 1 0 logged_thread 1" "held_of 1 logged_thread = {}"
  "refs_of 1 logged_thread = (\<lambda>_. 0)(100 := 1)" "view_of 1 logged_thread 100 = replicate BSIZE 5"
  "log_start logged_thread = 2" "disk_image logged_thread = disk_image log_thread" "hb (lh_block logged_thread) 0 = 100"
  "log_size logged_thread = 30" "log_outstanding logged_thread = 1"
proof -
  let ?V = "disk_of log_thread" and ?d = "replicate BSIZE 5 :: u8 list"
  have run: "bc_run 1 0 log_thread ?V ?V (\<lambda>_. 0) {} [] log_thread"
    using bc_run_start [OF log_thread_maps(5)] by (simp add: log_thread_maps cached_thread_inv)
  obtain b s1 where s1: "bread 1 100 log_thread = Done b s1" "slot_of 1 (bufs s1) 100 = Some b"
    "bc_run 1 0 log_thread ?V ?V ((\<lambda>_. 0)(100 := 1)) {100} [] s1" "stays 1 log_thread s1"
    by (rule run_bread [OF run, of 100]) (simp_all add: block_ok_def NBUF_def MAXOPBLOCKS_def)
  obtain s2 where s2: "set_block_data b (\<lambda>_. ?d) s1 = Done () s2"
    "bc_run 1 0 log_thread (?V(100 := ?d)) ?V ((\<lambda>_. 0)(100 := 1)) {100} [] s2" "stays 1 s1 s2"
    by (rule run_set_data [OF s1(3,2), where f = "\<lambda>_. ?d"]) simp_all
  have b2: "slot_of 1 (bufs s2) 100 = Some b"
    by (rule staysD [OF s2(3) s1(2)]) (simp add: bc_runD(4) [OF s1(3)])
  note f = io_frame_log [OF stays_io [OF s1(4) stays_frame [OF s2(3)]], unfolded log_thread_sel] and r2 = bc_runD [OF s2(2)]
  have op: "tx_open 1 0 s2 0" using r2 log_area_2 by (simp add: tx_open_def f tx_ok_def)
  define t where "t = logged s2 0 100 b"
  have c: "calm 0 s2" by (rule bc_invD(1) [OF r2(1)])
  have wr: "log_write b s2 = Done () t"
    using log_write_Done [OF c, of 0 b] slot_ofD [OF b2] by (simp add: f t_def LOGSIZE_def MAXOPBLOCKS_def)
  have m: "home (log_start s2) 100" "100 \<notin> hb (lh_block s2) ` {..<0}" "refs_of 1 s2 100 < 2 ^ 32 - 1" "0 < LOGSIZE"
    using log_area_2 by (simp_all add: f r2 LOGSIZE_def MAXOPBLOCKS_def)
  note L = logged_open [OF op m(4) b2 m(1-3), simplified, folded t_def]
  have t: "tx_open 1 0 t 1" "hb (lh_block t) 0 = 100"
    using L(1) m(4) by (simp_all add: t_def logged_def hb_def f)
  have im: "disk_image t = disk_image s2" by (simp add: t_def logged_def)
  have runt: "bc_run 1 0 log_thread (?V(100 := ?d)) ?V ((\<lambda>_. 0)(100 := 2)) {100} [] t"
    using L(3-7) r2 tx_openD(1) [OF t(1)] im by (simp add: bc_run_def numeral_2_eq_2)
  have bt: "slot_of 1 (bufs t) 100 = Some b"
    unfolding b2 [symmetric] by (rule slot_of_cong) (simp_all add: t_def logged_def)
  obtain u where u: "brelse b t = Done () u" "bc_run 1 0 log_thread (?V(100 := ?d)) ?V ((\<lambda>_. 0)(100 := 1)) {} [] u" "stays 1 t u"
    by (rule run_brelse [OF runt bt]) simp_all
  have "log_client log_thread = Done () u" using s1(1) s2(1) wr u(1) by (simp add: log_client_def kern_run)
  then have e: "logged_thread = u" by (simp add: logged_thread_def)
  note r = bc_runD [OF u(2)] and o = tx_openD [OF t(1)] and g = io_frame_log [OF stays_frame [OF u(3)]]
  have st: "log_start t = 2" "log_size t = 30" "log_outstanding t = 1" by (simp_all add: t_def logged_def f)
  show "log_client log_thread = Done () logged_thread" "held_of 1 logged_thread = {}"
    "refs_of 1 logged_thread = (\<lambda>_. 0)(100 := 1)" "view_of 1 logged_thread 100 = replicate BSIZE 5"
    "log_start logged_thread = 2" "disk_image logged_thread = disk_image log_thread" "hb (lh_block logged_thread) 0 = 100"
    "log_size logged_thread = 30" "log_outstanding logged_thread = 1"
    using \<open>log_client log_thread = Done () u\<close> r t(2) by (simp_all add: e g st)
  show "tx_open 1 0 logged_thread 1"
    using o(2-6,8) t(2) r unfolding e by (simp add: tx_open_def g)
qed

lemma logged_thread_room: "\<forall>m. refs_of 1 logged_thread m < 2 ^ 32 - 1" "card {m. refs_of 1 logged_thread m \<noteq> 0} < NBUF"
proof -
  have "{m. refs_of 1 logged_thread m \<noteq> 0} = {100}" by (auto simp: logged_thread_open(4))
  then show "card {m. refs_of 1 logged_thread m \<noteq> 0} < NBUF" by (simp add: NBUF_def MAXOPBLOCKS_def)
qed (simp add: logged_thread_open(4))

theorem log_write_correct_witness:
  "\<exists>b t. slot_of 1 (bufs logged_thread) 100 = Some b \<and> log_write b logged_thread = Done () t \<and> tx_open 1 0 t 1
     \<and> hb (lh_block t) ` {..<1} = {100}"
proof -
  have r: "refs_of 1 logged_thread 100 = 1" by (simp add: logged_thread_open(4))
  then obtain b where b: "slot_of 1 (bufs logged_thread) 100 = Some b"
    by (cases "slot_of 1 (bufs logged_thread) 100") (simp_all add: refs_of_def)
  have h: "home (log_start logged_thread) 100" using log_area_2 by (simp add: logged_thread_open)
  have "hb (lh_block logged_thread) ` {..<1} = {100}" by (simp add: lessThan_Suc logged_thread_open)
  then show ?thesis
    using log_write_correct [OF logged_thread_open(2) b h] b r
    by (auto simp: logged_thread_open LOGSIZE_def MAXOPBLOCKS_def)
qed

theorem commit_crash_safe_witness:
  "\<exists>t. commit logged_thread = Done () t \<and> disk_of t 100 = replicate BSIZE 5 \<and> disk_of logged_thread 100 = replicate BSIZE 0"
proof -
  have "disk_of logged_thread 100 = replicate BSIZE 0" 
    by (simp add: disk_of_def logged_thread_open log_thread_sel cached_thread_inv(5) disk_thread_def block_of_def
      sector_of_def block_ok_def BSIZE_def replicate_add [symmetric])
  then show ?thesis
    using commit_crash_safe [OF logged_thread_open(2,3) logged_thread_room] log_thread_disk log_area_2
    by (auto simp: logged_thread_open)
qed

text \<open>A machine that stopped after the header of a transaction on block 100 was written.\<close>

definition crashed_thread :: log_state where
  "crashed_thread = log_thread\<lparr>disk_image := (\<lambda>_. replicate 512 0)
     (4 := [1, 0, 0, 0, 100, 0, 0, 0] @ replicate 504 0, 6 := replicate 512 5, 7 := replicate 512 5)\<rparr>"

lemma crashed_thread_booted: "booted 1 0 crashed_thread"
proof -
  obtain t where t: "binit disk_thread = Done () t" "ring (bufs t) (rev [0..<NBUF])" "binit_upto NBUF disk_thread t"
    by (rule binit_Done)
  then have c: "cached_thread = t" by (simp add: cached_thread_def)
  have sel: "bufs crashed_thread = bufs t" "sleeplocks crashed_thread = sleeplocks t" "disk_hw crashed_thread = disk_hw log_thread"
    "vdisk crashed_thread = vdisk log_thread" "\<And>k. length (disk_image crashed_thread k) = 512"
    by (simp_all add: crashed_thread_def log_thread_sel c)
  have "calm 0 log_thread" "serves (disk_hw log_thread)" "vq_idle (vdisk log_thread)"
    using bc_invD(1,2,3) [OF log_thread_maps(5)] by simp_all
  moreover from this have "calm 0 crashed_thread" by (simp add: calm_def crashed_thread_def)
  ultimately show ?thesis
    using binit_inv [OF disk_thread_zero t(2,3), of 1 0 crashed_thread] sel
    by (simp add: booted_def) (simp add: crashed_thread_def log_thread_sel)
qed

lemma crashed_thread_log:
  "log_count 2 (disk_image crashed_thread) = 1" "log_home 2 (disk_image crashed_thread) 0 = 100" "log_start crashed_thread = 2"
  "log_wf 2 (disk_image crashed_thread)" "recovered 2 (disk_image crashed_thread) 100 = replicate BSIZE 5"
proof -
  show c: "log_count 2 (disk_image crashed_thread) = 1" and h: "log_home 2 (disk_image crashed_thread) 0 = 100"
    by (simp_all add: log_count_def log_home_def crashed_thread_def block_of_def sector_of_def get32_def le_word.simps)
  show "log_start crashed_thread = 2" by (simp add: crashed_thread_def log_thread_sel)
  show "log_wf 2 (disk_image crashed_thread)"
    using log_area_2 by (simp add: log_wf_def c h LOGSIZE_def MAXOPBLOCKS_def inj_on_def)
  show "recovered 2 (disk_image crashed_thread) 100 = replicate BSIZE 5"
    by (simp add: recovered_def c h)
      (simp add: la_def crashed_thread_def block_of_def sector_of_def BSIZE_def replicate_add [symmetric])
qed

theorem recovery_correct_witness:
  "\<exists>t. recover_from_log crashed_thread = Done () t \<and> disk_of t 100 = replicate BSIZE 5
     \<and> log_count 2 (disk_image crashed_thread) = 1 \<and> log_count 2 (disk_image t) = 0"
  using recovery_correct [OF crashed_thread_booted] crashed_thread_log log_area_2(2) by auto

subsection \<open>Admission\<close>

lemma begin_op_Done:
  assumes "calm p s" and "\<not> log_committing s" and "lh_n s + (log_outstanding s + 1) * int MAXOPBLOCKS \<le> int LOGSIZE"
  shows "begin_op s = Done () (s\<lparr>log_outstanding := log_outstanding s + 1\<rparr>)"
proof -
  note c = calmD [OF assms(1)]
  have "begin_op s = Done () (s\<lparr>hw := settle (hw s), log_outstanding := log_outstanding s + 1\<rparr>)"
    using c assms(2,3) by (simp add: begin_op_def begin_op_loop_def kern_run)
  then show ?thesis by (simp add: c(4))
qed

lemma log_write_many:
  assumes "calm p s" and "lh_n s = int n" and "n + length bs \<le> LOGSIZE" and "int (n + length bs) < log_size s"
    and "log_outstanding s \<ge> 1" and "length (lh_block s) = LOGSIZE" and "distinct (map (\<lambda>b. blockno (bufs s b)) bs)"
    and "\<forall>i < n. \<forall>b \<in> set bs. lh_block s ! i \<noteq> sint (blockno (bufs s b))"
  shows "\<exists>t. kfor bs log_write s = Done () t \<and> calm p t \<and> lh_n t = int (n + length bs) \<and> log_size t = log_size s
    \<and> log_outstanding t = log_outstanding s"
  using assms
proof (induction bs arbitrary: s n)
  case Nil
  then show ?case by (simp add: kern_run)
next
  case (Cons b bs)
  let ?x = "sint (blockno (bufs s b))"
  let ?t = "logged s n ?x b"
  have "log_slot (lh_block s) ?x 0 n = n"
    using log_slot_spec(1,3) [of "lh_block s" ?x 0 n] Cons.prems(8) by (auto simp: le_less)
  then have wr: "log_write b s = Done () ?t" using log_write_Done [OF Cons.prems(1,2)] Cons.prems(3,4,5) by simp
  have bn: "blockno (bufs ?t c) = blockno (bufs s c)" for c by (simp add: logged_def)
  have "\<exists>u. kfor bs log_write ?t = Done () u \<and> calm p u \<and> lh_n u = int (Suc n + length bs) \<and> log_size u = log_size ?t
      \<and> log_outstanding u = log_outstanding ?t"
  proof (rule Cons.IH)
    show "calm p ?t" using Cons.prems(1) by (simp add: logged_def calm_def)
    show "\<forall>i < Suc n. \<forall>c \<in> set bs. lh_block ?t ! i \<noteq> sint (blockno (bufs ?t c))"
    proof (intro allI impI ballI)
      fix i c
      assume "i < Suc n" "c \<in> set bs"
      then show "lh_block ?t ! i \<noteq> sint (blockno (bufs ?t c))"
        unfolding bn using Cons.prems(3,6,7,8) by (cases "i = n") (auto simp: logged_def dest: signed_word_eqI)
    qed
  qed (use Cons.prems in \<open>simp_all add: logged_def bn [unfolded logged_def, simplified] cong: map_cong\<close>)
  then show ?case using wr by (auto simp: kern_run logged_def)
qed

text \<open>Three system calls that write blocks: as the lock of the log serialises them, each starts its
  operation, and then they write.\<close>

definition three_ops :: "nat list \<Rightarrow> ('a log_state_scheme, unit) kern" where
  "three_ops bs = kdo begin_op (kdo begin_op (kdo begin_op (kfor bs log_write)))"

lemma three_ops_start:
  assumes "calm p s" and "\<not> log_committing s" and "log_outstanding s = 0" and "lh_n s = 0"
  shows "three_ops bs s = kfor bs log_write (s\<lparr>log_outstanding := 3\<rparr>)"
proof -
  have c: "calm p (s\<lparr>log_outstanding := k\<rparr>)" for k using assms(1) by (simp add: calm_def)
  note b = begin_op_Done [OF assms(1,2)] begin_op_Done [OF c [of 1]] begin_op_Done [OF c [of 2]]
  show ?thesis using assms b by (simp add: three_ops_def kern_run LOGSIZE_def MAXOPBLOCKS_def)
qed

text \<open>C22. \<^verbatim>\<open>begin_op\<close> admits more than the log holds. On a disk whose log has \<^verbatim>\<open>LOGSIZE\<close> blocks,
  header included, as \<^verbatim>\<open>mkfs\<close> makes it, an empty log lets three operations start, since each
  reserves \<^verbatim>\<open>MAXOPBLOCKS\<close> blocks. If together they write \<open>3 * MAXOPBLOCKS\<close> different blocks, no
  more than they have reserved, all but the last \<^verbatim>\<open>log_write\<close> go through, and the last one panics.\<close>

theorem begin_op_admits_too_much:
  assumes "calm p s" and "\<not> log_committing s" and "log_outstanding s = 0" and "lh_n s = 0"
    and "log_size s = int LOGSIZE" and "length (lh_block s) = LOGSIZE"
    and "length bs = 3 * MAXOPBLOCKS" and "distinct (map (\<lambda>b. blockno (bufs s b)) bs)"
  shows "(\<exists>t. three_ops (butlast bs) s = Done () t \<and> log_outstanding t = 3 \<and> lh_n t = int (3 * MAXOPBLOCKS) - 1)
    \<and> three_ops bs s = Panicked ''too big a transaction''"
proof -
  let ?s = "s\<lparr>log_outstanding := 3\<rparr>"
  obtain cs b where bs: "bs = cs @ [b]" "length cs = 29"
    using assms(7) by (cases bs rule: rev_cases) (auto simp: MAXOPBLOCKS_def)
  have "\<exists>t. kfor cs log_write ?s = Done () t \<and> calm p t \<and> lh_n t = int (0 + length cs) \<and> log_size t = log_size ?s
      \<and> log_outstanding t = log_outstanding ?s"
    by (rule log_write_many) (use assms bs in \<open>simp_all add: calm_def LOGSIZE_def MAXOPBLOCKS_def\<close>)
  then obtain t where t: "kfor cs log_write ?s = Done () t" "calm p t" "lh_n t = 29" "log_size t = 30" "log_outstanding t = 3"
    using assms(5) bs(2) by (auto simp: LOGSIZE_def MAXOPBLOCKS_def)
  have "log_write b t = Panicked ''too big a transaction''" using log_write_panics(1) [OF t(2)] t(3,4) by simp
  then have "kfor (cs @ [b]) log_write ?s = Panicked ''too big a transaction''"
    using t(1) by (simp add: kfor_append kern_run)
  then show ?thesis
    using three_ops_start [OF assms(1-4)] t by (auto simp: bs(1) MAXOPBLOCKS_def)
qed

definition full_thread :: log_state where
  "full_thread = log_thread\<lparr>log_outstanding := 0, bufs := (\<lambda>b. (bufs log_thread b)\<lparr>blockno := of_nat (100 + b)\<rparr>)\<rparr>"

theorem begin_op_admits_too_much_witness: "three_ops [0..<30] full_thread = Panicked ''too big a transaction''"
proof -
  have "calm 0 log_thread" by (rule bc_invD(1) [OF log_thread_maps(5)])
  then have "calm 0 full_thread" by (simp add: calm_def full_thread_def)
  moreover have "\<not> log_committing full_thread"
    by (simp add: full_thread_def log_thread_def bio_state.defs log_state.defs)
  moreover have "distinct (map (\<lambda>b. blockno (bufs full_thread b)) [0..<30])"
    unfolding full_thread_def by simp code_simp
  ultimately show ?thesis
    using begin_op_admits_too_much [of 0 full_thread "[0..<30]"]
    by (simp add: LOGSIZE_def MAXOPBLOCKS_def full_thread_def log_thread_sel)
qed

end
