(* ===== verification/User.thy ===== *)
theory User
  imports Layout CString
begin

section \<open>User programs: the system call interface and user/ulib.c\<close>

text \<open>
  A user program is run against whatever answers its system calls. Its state is the state of the answering
  side, the function that gives a reply, and the trace of the calls made so far; a call that is never
  answered means that the program has not returned (\<^const>\<open>None\<close>), \<^verbatim>\<open>exit\<close> ends it, and undefined behaviour is a fault.
  A reply is the value in \<open>a0\<close> and the bytes stored through the pointer argument of the call (the data
  of \<^verbatim>\<open>read\<close>, the descriptors of \<^verbatim>\<open>pipe\<close>, the \<^verbatim>\<open>struct stat\<close>, the status of
  \<^verbatim>\<open>wait\<close>). \<^verbatim>\<open>fork\<close> is answered with 0 in the child and with a process id in the parent. A
  NUL-terminated string is the list of the bytes before its NUL, and \<open>at\<close> reads it, the terminator
  included.
\<close>

subsection \<open>System calls\<close>

datatype ucall =
    Sys_fork | Sys_exit int | Sys_wait | Sys_pipe | Sys_read int nat | Sys_write int "u8 list" | Sys_close int
  | Sys_kill int | Sys_exec "u8 list" "u8 list list" | Sys_open "u8 list" u32 | Sys_mknod "u8 list" int int
  | Sys_unlink "u8 list" | Sys_fstat int | Sys_link "u8 list" "u8 list" | Sys_mkdir "u8 list" | Sys_chdir "u8 list"
  | Sys_dup int | Sys_getpid | Sys_sbrk int | Sys_sleep int | Sys_uptime

datatype reply = Reply (rv: int) (stored: "u8 list")

record 'k uproc =
  kst :: 'k
  answer :: "'k \<Rightarrow> ucall \<Rightarrow> (reply \<times> 'k) option"
  trace :: "ucall list"

datatype 'a uout = URet 'a | UExit int | UFault string

type_synonym ('k, 'a) prog = "'k uproc \<Rightarrow> ('a uout \<times> 'k uproc) option"

definition uret :: "'a \<Rightarrow> ('k, 'a) prog" where
  "uret x s = Some (URet x, s)"

definition ubind :: "('k, 'a) prog \<Rightarrow> ('a \<Rightarrow> ('k, 'b) prog) \<Rightarrow> ('k, 'b) prog" where
  "ubind m f s = Option.bind (m s) (\<lambda>(r, t). case r of URet x \<Rightarrow> f x t | UExit c \<Rightarrow> Some (UExit c, t)
     | UFault e \<Rightarrow> Some (UFault e, t))"

definition udo :: "('k, 'a) prog \<Rightarrow> ('k, 'b) prog \<Rightarrow> ('k, 'b) prog" where
  "udo m n = ubind m (\<lambda>_. n)"

definition usys :: "ucall \<Rightarrow> ('k, reply) prog" where
  "usys c s = (case answer s (kst s) c of None \<Rightarrow> None
     | Some (r, k) \<Rightarrow> Some (URet r, s\<lparr>kst := k, trace := trace s @ [c]\<rparr>))"

definition uexit :: "int \<Rightarrow> ('k, 'a) prog" where
  "uexit c s = Some (UExit c, s\<lparr>trace := trace s @ [Sys_exit c]\<rparr>)"

definition ufault :: "string \<Rightarrow> ('k, 'a) prog" where
  "ufault e s = Some (UFault e, s)"

lemma ubind_mono [partial_function_mono]:
  assumes "\<And>t. mono_option (\<lambda>f. B f t)" and "\<And>y t. mono_option (\<lambda>f. C y f t)"
  shows "mono_option (\<lambda>f. ubind (B f) (\<lambda>y. C y f) s)"
  unfolding ubind_def
  by (intro bind_mono assms(1)) (use assms(2) in \<open>auto split: prod.splits uout.splits simp: monotone_def flat_ord_def\<close>)

lemma udo_mono [partial_function_mono]:
  assumes "\<And>t. mono_option (\<lambda>f. B f t)" and "\<And>t. mono_option (\<lambda>f. C f t)"
  shows "mono_option (\<lambda>f. udo (B f) (C f) s)"
  unfolding udo_def by (intro ubind_mono assms)

lemma u_run [simp]:
  "ubind (uret x) f s = f x s" "udo (uret x) n s = n s" "ubind (uexit c) f s = uexit c s" "udo (uexit c) n s = uexit c s"
  by (simp_all add: ubind_def udo_def uret_def uexit_def)

text \<open>
  A side that answers from an input stream: \<^verbatim>\<open>read\<close> returns some of the bytes that are left, at
  least one unless none is left or none was asked for, cut as the list of numbers says; \<^verbatim>\<open>write\<close>
  accepts all its bytes; any other call returns 0.
\<close>

definition from_stream :: "u8 list \<times> nat list \<Rightarrow> ucall \<Rightarrow> (reply \<times> u8 list \<times> nat list) option" where
  "from_stream k c = (case c of
     Sys_read fd n \<Rightarrow> (case k of (inp, cs) \<Rightarrow>
       let j = min n (min (length inp) (case cs of [] \<Rightarrow> n | c # _ \<Rightarrow> Suc c)) in
       Some (Reply (int j) (take j inp), (drop j inp, drop 1 cs)))
   | Sys_write fd bs \<Rightarrow> Some (Reply (int (length bs)) [], k)
   | _ \<Rightarrow> Some (Reply 0 [], k))"

definition on_stream :: "u8 list \<Rightarrow> nat list \<Rightarrow> ucall list \<Rightarrow> (u8 list \<times> nat list) uproc" where
  "on_stream inp cs tr = \<lparr>kst = (inp, cs), answer = from_stream, trace = tr\<rparr>"

lemma usys_write_stream [simp]:
  "usys (Sys_write fd bs) (on_stream inp cs tr) =
     Some (URet (Reply (int (length bs)) []), on_stream inp cs (tr @ [Sys_write fd bs]))"
  by (simp add: usys_def on_stream_def from_stream_def)

text \<open>A \<^verbatim>\<open>read\<close> takes a nonempty piece of what is left.\<close>

lemma usys_read_stream:
  assumes "0 < n"
  shows "\<exists>bs rest cs'. inp = bs @ rest \<and> length bs \<le> n \<and> (bs = [] \<longleftrightarrow> inp = []) \<and>
    usys (Sys_read fd n) (on_stream inp cs tr) =
      Some (URet (Reply (int (length bs)) bs), on_stream rest cs' (tr @ [Sys_read fd n]))"
proof -
  define j where "j = min n (min (length inp) (case cs of [] \<Rightarrow> n | c # _ \<Rightarrow> Suc c))"
  have "j = 0 \<longleftrightarrow> inp = []" using assms by (auto simp: j_def min_def split: list.splits)
  moreover have "j \<le> n" "length (take j inp) = j" by (auto simp: j_def)
  moreover have "usys (Sys_read fd n) (on_stream inp cs tr) =
      Some (URet (Reply (int j) (take j inp)), on_stream (drop j inp) (drop 1 cs) (tr @ [Sys_read fd n]))"
    by (simp add: usys_def on_stream_def from_stream_def Let_def j_def)
  ultimately show ?thesis
    by (intro exI [of _ "take j inp"] exI [of _ "drop j inp"] exI [of _ "drop 1 cs"]) auto
qed

text \<open>What a trace has written to a descriptor.\<close>

fun written :: "int \<Rightarrow> ucall list \<Rightarrow> u8 list" where
  "written fd [] = []"
| "written fd (Sys_write d bs # cs) = (if d = fd then bs else []) @ written fd cs"
| "written fd (c # cs) = written fd cs"

lemma written_append [simp]: "written fd (xs @ ys) = written fd xs @ written fd ys"
  by (induction fd xs rule: written.induct) auto

subsection \<open>Strings and memory\<close>

definition at :: "u8 list \<Rightarrow> nat \<Rightarrow> u8" where
  "at s i = (if i < length s then s ! i else 0)"

definition ascii :: "char \<Rightarrow> u8" where
  "ascii c = of_char c"

fun ustrcmp :: "u8 list \<Rightarrow> u8 list \<Rightarrow> int" where
  "ustrcmp [] q = 0 - uint (at q 0)"
| "ustrcmp (c # p) q = (if c = at q 0 then ustrcmp p (drop 1 q) else uint c - uint (at q 0))"

fun ustrlen_from :: "u8 list \<Rightarrow> nat \<Rightarrow> nat" where
  "ustrlen_from [] n = n"
| "ustrlen_from (c # s) n = ustrlen_from s (n + 1)"

definition ustrlen :: "u8 list \<Rightarrow> nat" where
  "ustrlen s = ustrlen_from s 0"

text \<open>The pointer that \<^verbatim>\<open>strchr\<close> returns is the rest of the string.\<close>

fun strchr :: "u8 list \<Rightarrow> u8 \<Rightarrow> u8 list option" where
  "strchr [] c = None"
| "strchr (x # s) c = (if x = c then Some (x # s) else strchr s c)"

text \<open>\<^verbatim>\<open>strcpy\<close> and \<^verbatim>\<open>memset\<close> on a buffer.\<close>

definition strcpy :: "u8 list \<Rightarrow> u8 list \<Rightarrow> u8 list" where
  "strcpy s t = overwrite s (t @ [0])"

fun umemset_from :: "u8 list \<Rightarrow> u8 \<Rightarrow> nat \<Rightarrow> nat \<Rightarrow> u8 list" where
  "umemset_from dst c i 0 = dst"
| "umemset_from dst c i (Suc n) = umemset_from (dst[i := c]) c (Suc i) n"

definition umemset :: "u8 list \<Rightarrow> u8 \<Rightarrow> nat \<Rightarrow> u8 list" where
  "umemset dst c n = umemset_from dst c 0 n"

text \<open>\<^verbatim>\<open>memmove\<close>, \<^verbatim>\<open>memcmp\<close> and \<^verbatim>\<open>memcpy\<close> on memory. The test of \<^verbatim>\<open>memmove\<close> is not the kernel's.\<close>

definition umemmove :: "memory \<Rightarrow> u64 \<Rightarrow> u64 \<Rightarrow> nat \<Rightarrow> memory" where
  "umemmove m dst src n =
     (if src > dst then copy_up m dst src n else copy_down m (dst + of_nat n) (src + of_nat n) n)"

definition umemcmp :: "cptr \<Rightarrow> cptr \<Rightarrow> nat \<Rightarrow> int" where
  "umemcmp s1 s2 n = memcmp s1 s2 n"

definition umemcpy :: "memory \<Rightarrow> u64 \<Rightarrow> u64 \<Rightarrow> nat \<Rightarrow> memory" where
  "umemcpy m dst src n = umemmove m dst src n"

text \<open>\<^verbatim>\<open>atoi\<close>. The sum \<^verbatim>\<open>n*10 + *s++\<close> is formed before the \<^verbatim>\<open>'0'\<close> is subtracted; a signed
  overflow is undefined and gives \<^const>\<open>None\<close>.\<close>

definition int_ok :: "int \<Rightarrow> bool" where
  "int_ok x \<longleftrightarrow> - 0x80000000 \<le> x \<and> x < 0x80000000"

fun atoi_from :: "int \<Rightarrow> u8 list \<Rightarrow> int option" where
  "atoi_from n [] = Some n"
| "atoi_from n (c # s) =
     (if ascii CHR ''0'' \<le> c \<and> c \<le> ascii CHR ''9'' then
        if int_ok (n * 10) \<and> int_ok (n * 10 + uint c) then atoi_from (n * 10 + uint c - uint (ascii CHR ''0'')) s
        else None
      else Some n)"

definition atoi :: "u8 list \<Rightarrow> int option" where
  "atoi s = atoi_from 0 s"

text \<open>\<^verbatim>\<open>gets\<close> reads a byte at a time; the result is the string in the buffer.\<close>

fun gets_loop :: "nat \<Rightarrow> u8 list \<Rightarrow> ('k, u8 list) prog" where
  "gets_loop 0 acc = uret acc"
| "gets_loop (Suc k) acc =
     ubind (usys (Sys_read 0 1)) (\<lambda>r.
     if rv r < 1 then uret acc
     else let c = at (stored r) 0 in
       if c = ascii (CHR 0x0A) \<or> c = ascii (CHR 0x0D) then uret (acc @ [c]) else gets_loop k (acc @ [c]))"

definition gets :: "nat \<Rightarrow> ('k, u8 list) prog" where
  "gets mx = gets_loop (mx - 1) []"

definition ustat :: "u8 list \<Rightarrow> ('k, reply) prog" where
  "ustat n =
     ubind (usys (Sys_open n 0)) (\<lambda>r.
     if rv r < 0 then uret (Reply (- 1) [])
     else ubind (usys (Sys_fstat (rv r))) (\<lambda>st.
       udo (usys (Sys_close (rv r))) (uret st)))"

text \<open>\<^verbatim>\<open>start\<close> calls \<^verbatim>\<open>main\<close> and exits.\<close>

definition ustart :: "('k, unit) prog \<Rightarrow> ('k, unit) prog" where
  "ustart prog_main = udo prog_main (uexit 0)"

end
