(* ===== verification/Grep.thy ===== *)
theory Grep
  imports User
begin

section \<open>user/grep.c\<close>

text \<open>
  The matcher, function by function, and the loop of \<^verbatim>\<open>grep\<close> over its buffer. A pattern and a text are
  strings; the pointers \<^verbatim>\<open>re\<close> and \<^verbatim>\<open>text\<close> advance by dropping bytes. \<open>matches\<close> says what a pattern
  means without reference to the search: a list of items, each taking some bytes of the text.
\<close>

function matchhere :: "u8 list \<Rightarrow> u8 list \<Rightarrow> bool"
  and matchstar :: "u8 \<Rightarrow> u8 list \<Rightarrow> u8 list \<Rightarrow> bool" where
  "matchhere re txt' =
     (if at re 0 = 0 then True
      else if at re 1 = ascii CHR ''*'' then matchstar (at re 0) (drop 2 re) txt'
      else if at re 0 = ascii CHR ''$'' \<and> at re 1 = 0 then at txt' 0 = 0
      else if at txt' 0 \<noteq> 0 \<and> (at re 0 = ascii CHR ''.'' \<or> at re 0 = at txt' 0)
      then matchhere (drop 1 re) (drop 1 txt')
      else False)"
| "matchstar c re txt' =
     (if matchhere re txt' then True
      else if at txt' 0 \<noteq> 0 \<and> (at txt' 0 = c \<or> c = ascii CHR ''.'') then matchstar c re (drop 1 txt')
      else False)"
  by pat_completeness auto
termination
  by (relation "measure (\<lambda>x. case x of Inl (re, t) \<Rightarrow> 2 * (length re + length t)
        | Inr (c, re, t) \<Rightarrow> 2 * (length re + length t) + 1)")
    (auto simp: at_def ascii_def neq_Nil_conv split: if_splits)

declare matchhere.simps [simp del] matchstar.simps [simp del]

function match_from :: "u8 list \<Rightarrow> u8 list \<Rightarrow> bool" where
  "match_from re txt' =
     (if matchhere re txt' then True else if at txt' 0 \<noteq> 0 then match_from re (drop 1 txt') else False)"
  by pat_completeness auto
termination
  by (relation "measure (\<lambda>(re, t). length t)") (auto simp: at_def split: if_splits)

declare match_from.simps [simp del]

definition match :: "u8 list \<Rightarrow> u8 list \<Rightarrow> bool" where
  "match re txt' =
     (if at re 0 = ascii CHR ''^'' then matchhere (drop 1 re) txt' else match_from re txt')"

text \<open>
  The buffer of \<^verbatim>\<open>grep\<close> holds the bytes \<open>b\<close> that belong to no complete line yet. The strings
  inside it end at the NUL that \<^verbatim>\<open>grep\<close> puts after the data, or at a NUL in the data.
\<close>

definition newline :: u8 where
  "newline = ascii (CHR 0x0A)"

abbreviation cstring :: "u8 list \<Rightarrow> u8 list" where
  "cstring p \<equiv> takeWhile (\<lambda>c. c \<noteq> 0) p"

lemma strchr_length: "strchr s c = Some q \<Longrightarrow> length q \<le> length s \<and> q \<noteq> []"
  by (induction s c rule: strchr.induct) (auto split: if_splits)

function grep_lines :: "u8 list \<Rightarrow> u8 list \<Rightarrow> ('k, u8 list) prog" where
  "grep_lines pat p = (case strchr (cstring p) newline of
     None \<Rightarrow> uret p
   | Some q \<Rightarrow>
       (let k = length (cstring p) - length q; line = take k p in
        udo (if match pat line then udo (usys (Sys_write 1 (line @ [newline]))) (uret ()) else uret ())
          (grep_lines pat (drop (k + 1) p))))"
  by pat_completeness auto
termination
proof (relation "measure (\<lambda>(pat, p). length p)")
  fix p q :: "u8 list" and k
  assume "strchr (cstring p) newline = Some q"
  then have "cstring p \<noteq> []" by auto
  then show "((pat, drop (k + 1) p), pat, p) \<in> measure (\<lambda>(pat, p). length p)" for pat :: "u8 list"
    by (cases p) auto
qed simp

declare grep_lines.simps [simp del]

definition sizeof_grep_buf :: nat where
  "sizeof_grep_buf = 1024"

partial_function (option) grep_loop :: "u8 list \<Rightarrow> int \<Rightarrow> u8 list \<Rightarrow> ('k, unit) prog" where
  "grep_loop pat fd b s =
     ubind (usys (Sys_read fd (sizeof_grep_buf - length b - 1))) (\<lambda>r s.
     if rv r > 0 then ubind (grep_lines pat (b @ take (nat (rv r)) (stored r))) (grep_loop pat fd) s
     else uret () s) s"

definition grep :: "u8 list \<Rightarrow> int \<Rightarrow> ('k, unit) prog" where
  "grep pat fd = grep_loop pat fd []"

subsection \<open>What a pattern means\<close>

datatype item = IStar u8 | IChar u8 | IEnd

fun items :: "u8 list \<Rightarrow> item list" where
  "items [] = []"
| "items [c] = [if c = ascii CHR ''$'' then IEnd else IChar c]"
| "items (c # d # re) = (if d = ascii CHR ''*'' then IStar c # items re else IChar c # items (d # re))"

definition takes :: "u8 \<Rightarrow> u8 \<Rightarrow> bool" where
  "takes c x \<longleftrightarrow> c = ascii CHR ''.'' \<or> c = x"

fun matches :: "item list \<Rightarrow> u8 list \<Rightarrow> bool" where
  "matches [] t \<longleftrightarrow> True"
| "matches (IStar c # is) t \<longleftrightarrow> (\<exists>k \<le> length t. (\<forall>x \<in> set (take k t). takes c x) \<and> matches is (drop k t))"
| "matches (IChar c # is) t \<longleftrightarrow> t \<noteq> [] \<and> takes c (hd t) \<and> matches is (tl t)"
| "matches (IEnd # is) t \<longleftrightarrow> t = []"

definition pattern_matches :: "u8 list \<Rightarrow> u8 list \<Rightarrow> bool" where
  "pattern_matches re t \<longleftrightarrow>
     (if re \<noteq> [] \<and> hd re = ascii CHR ''^'' then matches (items (tl re)) t
      else \<exists>k \<le> length t. matches (items re) (drop k t))"

lemma at_simps [simp]: "at [] i = 0" "at (x # s) 0 = x" "at (x # s) (Suc i) = at s i"
  by (simp_all add: at_def)

lemma ex_le_Suc: "(\<exists>k \<le> Suc n. P k) \<longleftrightarrow> P 0 \<or> (\<exists>k \<le> n. P (Suc k))"
  by (metis Suc_le_mono le0 not0_implies_Suc)

lemma matchstar_matches:
  assumes "\<And>t. 0 \<notin> set t \<Longrightarrow> matchhere re t = matches is t"
  shows "0 \<notin> set t \<Longrightarrow> matchstar c re t = matches (IStar c # is) t"
proof (induction t)
  case Nil
  then show ?case using assms [of "[]"] by (subst matchstar.simps) simp
next
  case (Cons x t)
  then show ?case using assms [of "x # t"]
    by (subst matchstar.simps) (auto simp: ex_le_Suc takes_def)
qed

lemma matchhere_matches: "0 \<notin> set re \<Longrightarrow> 0 \<notin> set t \<Longrightarrow> matchhere re t = matches (items re) t"
proof (induction re arbitrary: t rule: items.induct)
  case 1
  then show ?case by (simp add: matchhere.simps)
next
  case (2 c)
  have "matchhere [] u" for u by (simp add: matchhere.simps)
  then show ?case using 2 by (cases t) (auto simp: matchhere.simps [of "[c]"] takes_def ascii_def)
next
  case (3 c d re)
  show ?case
  proof (cases "d = ascii CHR ''*''")
    case True
    then have "matchhere (c # d # re) t = matchstar c re t" using 3(3) by (subst matchhere.simps) simp
    also have "\<dots> = matches (IStar c # items re) t"
      using 3(1) [OF True] 3(3,4) by (intro matchstar_matches) simp_all
    finally show ?thesis using True by simp
  next
    case False
    then show ?thesis using 3(2) [OF False] 3(3,4)
      by (cases t) (auto simp: matchhere.simps [of "c # d # re"] takes_def)
  qed
qed

lemma match_from_matches:
  assumes "0 \<notin> set re"
  shows "0 \<notin> set t \<Longrightarrow> match_from re t = (\<exists>k \<le> length t. matches (items re) (drop k t))"
proof (induction t)
  case Nil
  then show ?case using matchhere_matches [OF assms] by (subst match_from.simps) simp
next
  case (Cons x t)
  then show ?case using matchhere_matches [OF assms, of "x # t"]
    by (subst match_from.simps) (auto simp: ex_le_Suc)
qed

lemma match_iff:
  assumes "0 \<notin> set re" and "0 \<notin> set t"
  shows "match re t \<longleftrightarrow> pattern_matches re t"
proof (cases re)
  case Nil
  then show ?thesis using match_from_matches [of "[]" t] assms by (simp add: match_def pattern_matches_def ascii_def)
next
  case (Cons c r)
  then show ?thesis
    using match_from_matches [OF assms] matchhere_matches [of r t] assms
    by (simp add: match_def pattern_matches_def)
qed

text \<open>C30. The matcher decides the meaning of a pattern: a sequence of bytes and dots, each possibly
  starred, anchored at the start of the text by a leading \<^verbatim>\<open>^\<close> and at its end by a final
  \<^verbatim>\<open>$\<close>. The search of \<^verbatim>\<open>match\<close>, \<^verbatim>\<open>matchhere\<close> and \<^verbatim>\<open>matchstar\<close> ends on every input,
  finds a match wherever there is one and no others.\<close>

theorem match_correct:
  assumes "0 \<notin> set re" and "0 \<notin> set t"
  shows "match re t \<longleftrightarrow> pattern_matches re t"
  using assms by (rule match_iff)

theorem match_correct_witness:
  "pattern_matches (map ascii ''b*c$'') (map ascii ''abbc'') \<and> \<not> pattern_matches (map ascii ''^b'') (map ascii ''abbc'')"
proof -
  have "match (map ascii ''b*c$'') (map ascii ''abbc'')" "\<not> match (map ascii ''^b'') (map ascii ''abbc'')"
    by code_simp+
  moreover have "0 \<notin> set (map ascii ''b*c$'')" "0 \<notin> set (map ascii ''abbc'')" "0 \<notin> set (map ascii ''^b'')"
    by (simp_all add: ascii_def)
  ultimately show ?thesis using match_correct by blast
qed

subsection \<open>The lines of the input\<close>

function lines_of :: "u8 list \<Rightarrow> u8 list list" where
  "lines_of s = (if newline \<in> set s
     then takeWhile (\<lambda>c. c \<noteq> newline) s # lines_of (drop 1 (dropWhile (\<lambda>c. c \<noteq> newline) s)) else [])"
  by pat_completeness auto
termination
proof (relation "measure length")
  fix s :: "u8 list"
  assume "newline \<in> set s"
  then have "length s > 0" by auto
  moreover have "length (dropWhile (\<lambda>c. c \<noteq> newline) s) \<le> length s" by (rule length_dropWhile_le)
  ultimately have "length (dropWhile (\<lambda>c. c \<noteq> newline) s) - 1 < length s" by linarith
  then show "(drop 1 (dropWhile (\<lambda>c. c \<noteq> newline) s), s) \<in> measure length" by simp
qed simp

declare lines_of.simps [simp del]

definition last_line :: "u8 list \<Rightarrow> u8 list" where
  "last_line s = rev (takeWhile (\<lambda>c. c \<noteq> newline) (rev s))"

definition grepped :: "u8 list \<Rightarrow> u8 list \<Rightarrow> u8 list" where
  "grepped pat s = concat (map (\<lambda>l. l @ [newline]) (filter (pattern_matches pat) (lines_of s)))"

lemma lines_of_none: "newline \<notin> set s \<Longrightarrow> lines_of s = []"
  by (simp add: lines_of.simps)

lemma takeWhile_line: "newline \<notin> set l \<Longrightarrow> takeWhile (\<lambda>c. c \<noteq> newline) (l @ newline # r) = l"
  "newline \<notin> set l \<Longrightarrow> takeWhile (\<lambda>c. c \<noteq> newline) l = l"
  "newline \<notin> set l \<Longrightarrow> dropWhile (\<lambda>c. c \<noteq> newline) (l @ newline # r) = newline # r"
  by (induction l) auto

lemma lines_of_line: "newline \<notin> set l \<Longrightarrow> lines_of (l @ newline # s) = l # lines_of s"
  by (subst lines_of.simps) (simp add: takeWhile_line)

lemma last_line_none: "newline \<notin> set s \<Longrightarrow> last_line s = s"
  by (simp add: last_line_def takeWhile_line)

lemma last_line_line: "last_line (l @ newline # r) = last_line r"
proof (cases "newline \<in> set r")
  case True
  then have "takeWhile (\<lambda>c. c \<noteq> newline) (rev r @ newline # rev l) = takeWhile (\<lambda>c. c \<noteq> newline) (rev r)"
    by (intro takeWhile_append1 [of newline]) simp_all
  then show ?thesis by (simp add: last_line_def)
next
  case False
  then show ?thesis by (simp add: last_line_def takeWhile_line)
qed

text \<open>A text is a sequence of lines and what follows the last newline.\<close>

lemma text_cases:
  obtains "newline \<notin> set s" | l r where "s = l @ newline # r" "newline \<notin> set l"
  by (meson in_set_conv_decomp_first that)

lemma strchr_newline: "newline \<notin> set l \<Longrightarrow> strchr (l @ newline # r) newline = Some (newline # r)"
  by (induction l) auto

lemma strchr_None: "newline \<notin> set l \<Longrightarrow> strchr l newline = None"
  by (induction l) auto

lemma grep_lines_stream:
  assumes pat: "0 \<notin> set pat"
  shows "0 \<notin> set p \<Longrightarrow> \<exists>tr'. grep_lines pat p (on_stream inp cs tr) = Some (URet (last_line p), on_stream inp cs tr')
    \<and> written 1 tr' = written 1 tr @ grepped pat p"
proof (induction "length p" arbitrary: p tr rule: less_induct)
  case less
  have c: "cstring p = p" using less.prems by (auto simp: takeWhile_eq_all_conv)
  show ?case
  proof (cases rule: text_cases [of p])
    case 1
    then have "grep_lines pat p (on_stream inp cs tr) = Some (URet (last_line p), on_stream inp cs tr)"
      by (subst grep_lines.simps) (simp add: c strchr_None uret_def last_line_none)
    then show ?thesis using 1 by (auto simp: grepped_def lines_of_none)
  next
    case (2 l r)
    let ?w = "if match pat l then [Sys_write 1 (l @ [newline])] else []"
    have "length r < length p" "0 \<notin> set r" using less.prems 2 by auto
    from less.hyps [OF this, of "tr @ ?w"] obtain tr' where
      IH: "grep_lines pat r (on_stream inp cs (tr @ ?w)) = Some (URet (last_line r), on_stream inp cs tr')"
        "written 1 tr' = written 1 (tr @ ?w) @ grepped pat r" by blast
    have m: "match pat l = pattern_matches pat l" using less.prems 2 by (intro match_iff pat) auto
    have "grep_lines pat p (on_stream inp cs tr) = grep_lines pat r (on_stream inp cs (tr @ ?w))"
      using c 2 by (subst grep_lines.simps) (simp add: strchr_newline Let_def udo_def ubind_def uret_def)
    moreover have "written 1 tr' = written 1 tr @ grepped pat p"
      using IH(2) m 2 by (simp add: grepped_def lines_of_line)
    ultimately show ?thesis using IH(1) 2(1) by (auto simp: last_line_line)
  qed
qed

lemma text_induct [case_names last line]:
  assumes "\<And>s. newline \<notin> set s \<Longrightarrow> P s" and "\<And>l r. newline \<notin> set l \<Longrightarrow> P r \<Longrightarrow> P (l @ newline # r)"
  shows "P s"
proof (induction "length s" arbitrary: s rule: less_induct)
  case less
  show ?case
  proof (cases rule: text_cases [of s])
    case 1
    then show ?thesis by (rule assms(1))
  next
    case (2 l r)
    then show ?thesis using assms(2) [of l r] less by simp
  qed
qed

lemma lines_of_append: "lines_of (p @ s) = lines_of p @ lines_of (last_line p @ s)"
  by (induction p rule: text_induct) (simp_all add: lines_of_none last_line_none lines_of_line last_line_line)

lemma last_line_append: "last_line (p @ s) = last_line (last_line p @ s)"
  by (induction p rule: text_induct) (simp_all add: last_line_none last_line_line)

lemma last_line_newline: "newline \<notin> set (last_line p)"
  by (induction p rule: text_induct) (simp_all add: last_line_none last_line_line)

lemma last_line_0: "0 \<notin> set p \<Longrightarrow> 0 \<notin> set (last_line p)"
  by (induction p rule: text_induct) (auto simp: last_line_none last_line_line)

text \<open>Every line, and what follows the last newline, leaves room in the buffer.\<close>

definition short_lines :: "u8 list \<Rightarrow> bool" where
  "short_lines s \<longleftrightarrow> (\<forall>l \<in> set (last_line s # lines_of s). length l < sizeof_grep_buf - 1)"

lemma short_lines_append:
  assumes "short_lines (p @ s)"
  shows "short_lines (last_line p @ s)" "length (last_line p) < sizeof_grep_buf - 1"
proof -
  show short: "short_lines (last_line p @ s)"
    using assms lines_of_append [of p s] last_line_append [of p s] by (simp add: short_lines_def)
  show "length (last_line p) < sizeof_grep_buf - 1"
  proof (cases rule: text_cases [of s])
    case 1
    then show ?thesis using short last_line_newline [of p]
      by (simp add: short_lines_def last_line_none)
  next
    case (2 l r)
    then have "lines_of (last_line p @ s) = (last_line p @ l) # lines_of r"
      using lines_of_line [of "last_line p @ l" r] last_line_newline [of p] by simp
    then show ?thesis using short by (auto simp: short_lines_def)
  qed
qed

lemma grep_loop_stream:
  assumes pat: "0 \<notin> set pat"
  shows "newline \<notin> set b \<Longrightarrow> 0 \<notin> set (b @ inp) \<Longrightarrow> short_lines (b @ inp) \<Longrightarrow>
    \<exists>cs' tr'. grep_loop pat fd b (on_stream inp cs tr) = Some (URet (), on_stream [] cs' tr')
      \<and> written 1 tr' = written 1 tr @ grepped pat (b @ inp)"
proof (induction "length inp" arbitrary: b inp cs tr rule: less_induct)
  case less
  let ?n = "sizeof_grep_buf - length b - 1"
  have n: "0 < ?n" using short_lines_append(2) [OF less.prems(3)] less.prems(1) by (simp add: last_line_none)
  obtain bs rest cs' where r: "inp = bs @ rest" "bs = [] \<longleftrightarrow> inp = []"
    "usys (Sys_read fd ?n) (on_stream inp cs tr) =
      Some (URet (Reply (int (length bs)) bs), on_stream rest cs' (tr @ [Sys_read fd ?n]))"
    using usys_read_stream [OF n, of inp fd cs tr] by (elim exE conjE) (rule that)
  show ?case
  proof (cases "inp = []")
    case True
    have e: "bs = []" "rest = []" using r(1,2) True by auto
    have "grep_loop pat fd b (on_stream inp cs tr) = Some (URet (), on_stream [] cs' (tr @ [Sys_read fd ?n]))"
      using r(3) by (subst grep_loop.simps) (simp add: ubind_def uret_def e)
    then show ?thesis using less.prems(1) True
      by (intro exI [of _ cs'] exI [of _ "tr @ [Sys_read fd ?n]"]) (simp add: grepped_def lines_of_none)
  next
    case False
    let ?p = "b @ bs"
    have "bs \<noteq> []" using r(2) False by blast
    have p0: "0 \<notin> set ?p" using less.prems(2) r(1) by simp
    obtain tr1 where l: "grep_lines pat ?p (on_stream rest cs' (tr @ [Sys_read fd ?n])) =
        Some (URet (last_line ?p), on_stream rest cs' tr1)"
      "written 1 tr1 = written 1 (tr @ [Sys_read fd ?n]) @ grepped pat ?p"
      using grep_lines_stream [OF pat p0] by blast
    have a: "length rest < length inp" using r(1,2) False by (cases bs) auto
    have b: "0 \<notin> set (last_line ?p @ rest)" using last_line_0 [OF p0] less.prems(2) r(1) by simp
    have c: "short_lines (last_line ?p @ rest)"
      using short_lines_append(1) [of ?p rest] less.prems(3) r(1) by simp
    obtain cs2 tr2 where IH:
      "grep_loop pat fd (last_line ?p) (on_stream rest cs' tr1) = Some (URet (), on_stream [] cs2 tr2)"
      "written 1 tr2 = written 1 tr1 @ grepped pat (last_line ?p @ rest)"
      using less.hyps [OF a last_line_newline b c] by blast
    have "grep_loop pat fd b (on_stream inp cs tr) = Some (URet (), on_stream [] cs2 tr2)"
      using r(3) l(1) IH(1) \<open>bs \<noteq> []\<close> by (subst grep_loop.simps) (simp add: ubind_def)
    moreover have "grepped pat (b @ inp) = grepped pat ?p @ grepped pat (last_line ?p @ rest)"
      using lines_of_append [of ?p rest] r(1) by (simp add: grepped_def)
    ultimately show ?thesis using IH(2) l(2) by (intro exI [of _ cs2] exI [of _ tr2]) simp
  qed
qed

text \<open>C31. \<^verbatim>\<open>grep\<close> prints the lines of its input that match the pattern, in order, each with its
  newline, however the kernel cuts the input into reads, and returns at the end of the input; lines of
  at least 1023 bytes and input with NUL bytes are excluded, and what follows the last newline is not
  a line.\<close>

theorem grep_correct:
  assumes "0 \<notin> set pat" and "0 \<notin> set inp" and "short_lines inp"
  shows "\<exists>cs' tr'. grep pat fd (on_stream inp cs tr) = Some (URet (), on_stream [] cs' tr')
    \<and> written 1 tr' = written 1 tr @ concat (map (\<lambda>l. l @ [newline]) (filter (pattern_matches pat) (lines_of inp)))"
  using grep_loop_stream [OF assms(1), of "[]" inp fd cs tr] assms(2,3) by (simp add: grep_def grepped_def)

theorem grep_correct_witness:
  "\<exists>cs' tr'. grep (map ascii ''b'') 0 (on_stream (map ascii ''ab'' @ [newline]) [0, 0] []) =
     Some (URet (), on_stream [] cs' tr') \<and> written 1 tr' = map ascii ''ab'' @ [newline]"
proof -
  have l: "lines_of (map ascii ''ab'' @ [newline]) = [map ascii ''ab'']" "last_line (map ascii ''ab'' @ [newline]) = []"
    using lines_of_line [of "map ascii ''ab''" "[]"] last_line_line [of "map ascii ''ab''" "[]"]
    by (simp_all add: newline_def ascii_def lines_of_none last_line_none)
  have m: "pattern_matches (map ascii ''b'') (map ascii ''ab'')"
    using match_iff [of "map ascii ''b''" "map ascii ''ab''"] by (simp add: ascii_def) code_simp
  show ?thesis
    using grep_correct [of "map ascii ''b''" "map ascii ''ab'' @ [newline]" 0 "[0, 0]" "[]"] l m
    by (simp add: short_lines_def sizeof_grep_buf_def ascii_def newline_def)
qed

end
