(* ===== verification/User_Printf.thy ===== *)
theory User_Printf
  imports User Printf_Correct
begin

section \<open>user/printf.c\<close>

text \<open>
  The formatted output of user programs. Every byte is a \<^verbatim>\<open>write\<close> of its own, whose result is not
  looked at. The chain of tests on the bytes behind a percent sign is that of the kernel, and so is its
  model \<^const>\<open>printf_conv\<close>; but \<^verbatim>\<open>printint\<close> takes an \<^verbatim>\<open>int\<close> here, so the 64-bit
  conversions print the low half of their argument.
\<close>

definition uputc :: "int \<Rightarrow> u8 \<Rightarrow> ('k, unit) prog" where
  "uputc fd c = udo (usys (Sys_write fd [c])) (uret ())"

fun uputs :: "int \<Rightarrow> u8 list \<Rightarrow> ('k, unit) prog" where
  "uputs fd [] = uret ()"
| "uputs fd (c # cs) = udo (uputc fd c) (uputs fd cs)"

definition udigits :: "u8 list" where
  "udigits = map ascii ''0123456789ABCDEF''"

function uprintint_digits :: "u32 \<Rightarrow> u32 \<Rightarrow> u8 list" where
  "uprintint_digits x base =
     (let d = udigits ! unat (x mod base) in
      if base \<le> 1 \<or> x div base = 0 then [d] else d # uprintint_digits (x div base) base)"
  by pat_completeness auto
termination
proof (relation "measure (\<lambda>(x, base). unat x)", goal_cases)
  case (2 x base d)
  then have "1 < unat base" "0 < unat x"
    by (auto simp: word_le_nat_alt unat_gt_0 not_le intro: ccontr)
  then show ?case by (simp add: unat_div_distrib)
qed simp

declare uprintint_digits.simps [simp del]

definition sizeof_uprintint_buf :: nat where
  "sizeof_uprintint_buf = 16"

definition uprintint :: "int \<Rightarrow> u32 \<Rightarrow> u32 \<Rightarrow> bool \<Rightarrow> ('k, unit) prog" where
  "uprintint fd xx base sg =
     (let neg = sg \<and> sint xx < 0;
          buf = uprintint_digits (if neg then - xx else xx) base @ (if neg then [ascii CHR ''-''] else [])
      in if length buf > sizeof_uprintint_buf then ufault ''printint: buf overflow'' else uputs fd (rev buf))"

fun uprintptr_loop :: "int \<Rightarrow> nat \<Rightarrow> u64 \<Rightarrow> ('k, unit) prog" where
  "uprintptr_loop fd 0 x = uret ()"
| "uprintptr_loop fd (Suc n) x =
     udo (uputc fd (udigits ! unat (drop_bit 60 x))) (uprintptr_loop fd n (push_bit 4 x))"

definition uprintptr :: "int \<Rightarrow> u64 \<Rightarrow> ('k, unit) prog" where
  "uprintptr fd x =
     udo (uputc fd (ascii CHR ''0'')) (udo (uputc fd (ascii CHR ''x'')) (uprintptr_loop fd 16 x))"

fun vprintf_arg :: "int \<Rightarrow> conv \<Rightarrow> vaarg list \<Rightarrow> ('k, vaarg list) prog" where
  "vprintf_arg fd (CInt base sg) (VInt v # as) = udo (uprintint fd v (ucast base) sg) (uret as)"
| "vprintf_arg fd (CLong base sg) (VLong v # as) = udo (uprintint fd (ucast v) (ucast base) sg) (uret as)"
| "vprintf_arg fd CPtr (VLong v # as) = udo (uprintptr fd v) (uret as)"
| "vprintf_arg fd CStr (VStr None # as) = udo (uputs fd (map ascii ''(null)'')) (uret as)"
| "vprintf_arg fd CStr (VStr (Some bs) # as) = udo (uputs fd bs) (uret as)"
| "vprintf_arg fd CPercent as = udo (uputc fd (ascii CHR ''%'')) (uret as)"
| "vprintf_arg fd (CUnknown c) as = udo (uputc fd (ascii CHR ''%'')) (udo (uputc fd c) (uret as))"
| "vprintf_arg fd _ as = ufault ''va_arg''"

function vprintf :: "int \<Rightarrow> u8 list \<Rightarrow> vaarg list \<Rightarrow> ('k, unit) prog" where
  "vprintf fd [] as = uret ()"
| "vprintf fd (c # f) as =
     (if c \<noteq> ascii CHR ''%'' then udo (uputc fd c) (vprintf fd f as)
      else let (cv, n) = printf_conv f in
        if cv = CEnd then uret () else ubind (vprintf_arg fd cv as) (\<lambda>as'. vprintf fd (drop n f) as'))"
  by pat_completeness auto
termination
  by (relation "measure (\<lambda>(fd, f, as). length f)") auto

definition fprintf :: "int \<Rightarrow> string \<Rightarrow> vaarg list \<Rightarrow> ('k, unit) prog" where
  "fprintf fd fmt as = vprintf fd (map ascii fmt) as"

definition uprintf :: "string \<Rightarrow> vaarg list \<Rightarrow> ('k, unit) prog" where
  "uprintf fmt as = fprintf 1 fmt as"

subsection \<open>What is printed\<close>

lemma uputc_stream [simp]:
  "uputc fd c (on_stream inp cs tr) = Some (URet (), on_stream inp cs (tr @ [Sys_write fd [c]]))"
  by (simp add: uputc_def udo_def ubind_def uret_def)

lemma uputs_stream:
  "uputs fd bs (on_stream inp cs tr) = Some (URet (), on_stream inp cs (tr @ map (\<lambda>c. Sys_write fd [c]) bs))"
  by (induction bs arbitrary: tr) (simp_all add: uret_def udo_def ubind_def)

lemma written_puts [simp]: "written fd (map (\<lambda>c. Sys_write fd [c]) bs) = bs"
  by (induction bs) simp_all

lemma udigits_eq: "udigits = [48, 49, 50, 51, 52, 53, 54, 55, 56, 57, 65, 66, 67, 68, 69, 70]"
  by (simp add: udigits_def ascii_def)

lemma uprintint_digits_eq:
  assumes "\<not> base \<le> 1"
  shows "uprintint_digits x base = map ((!) udigits) (digit_list (unat base) (unat x))"
  using assms
proof (induction x base rule: uprintint_digits.induct)
  case (1 x base)
  have b: "\<not> unat base \<le> 1" using 1(2) by (simp add: word_le_nat_alt)
  have z: "x div base = 0 \<longleftrightarrow> unat x < unat base"
    using b unat_eq_0 [of "x div base"] by (simp add: unat_div_distrib div_eq_0_iff)
  show ?case
  proof (cases "x div base = 0")
    case True
    then show ?thesis
      using b z by (simp add: uprintint_digits.simps [of x base] digit_list.simps [of "unat base"] unat_mod_distrib Let_def)
  next
    case False
    then have "uprintint_digits (x div base) base = map ((!) udigits) (digit_list (unat base) (unat (x div base)))"
      using 1 by simp
    with False show ?thesis
      using b z 1(2)
      by (simp add: uprintint_digits.simps [of x base] digit_list.simps [of "unat base" "unat x"]
          unat_mod_distrib unat_div_distrib Let_def)
  qed
qed

lemma digit_list_32: "b \<in> {10, 16} \<Longrightarrow> n < 2 ^ 32 \<Longrightarrow> length (digit_list b n) \<le> 10"
  using digit_list_length [of b 10 n] by (auto simp: not_less [symmetric])

text \<open>The text of a number.\<close>

definition num_text :: "u32 \<Rightarrow> u32 \<Rightarrow> bool \<Rightarrow> u8 list" where
  "num_text v base sg = (let neg = sg \<and> sint v < 0 in
     (if neg then [ascii CHR ''-''] else []) @ map ((!) udigits) (rev (digit_list (unat base) (unat (if neg then - v else v)))))"

lemma uprintint_stream:
  assumes "base \<in> {10, 16}"
  shows "uprintint fd v base sg (on_stream inp cs tr) =
    Some (URet (), on_stream inp cs (tr @ map (\<lambda>c. Sys_write fd [c]) (num_text v base sg)))"
proof -
  let ?neg = "sg \<and> sint v < 0"
  let ?x = "if ?neg then - v else v"
  let ?buf = "uprintint_digits ?x base @ (if ?neg then [ascii CHR ''-''] else [])"
  have base: "\<not> base \<le> 1" "unat base \<in> {10, 16}" using assms by (auto simp: word_le_nat_alt)
  have "length (digit_list (unat base) (unat ?x)) \<le> 10" using unsigned_less [of ?x] by (intro digit_list_32 base) simp
  then have "length ?buf \<le> sizeof_uprintint_buf"
    unfolding uprintint_digits_eq [OF base(1)] length_append length_map sizeof_uprintint_buf_def by (auto split: if_splits)
  moreover have "rev ?buf = num_text v base sg"
    using uprintint_digits_eq [OF base(1), of ?x] by (simp add: num_text_def Let_def rev_map)
  ultimately show ?thesis unfolding uprintint_def Let_def by (simp add: uputs_stream not_less [symmetric])
qed

lemma fprintf_d:
  "fprintf fd ''%d'' [VInt v] (on_stream inp cs tr) =
     Some (URet (), on_stream inp cs (tr @ map (\<lambda>c. Sys_write fd [c]) (num_text v 10 True)))"
proof -
  have "printf_conv [ascii CHR ''d''] = (CInt 10 True, 1)" by (simp add: printf_conv_def fmt_at_def byte_def ascii_def)
  then show ?thesis
    using uprintint_stream [of 10 fd v True inp cs tr] by (simp add: fprintf_def udo_def ubind_def uret_def)
qed

subsection \<open>Reading a number back\<close>

lemma atoi_from_append:
  "atoi_from a (map ((!) udigits) xs @ ys) =
     (case atoi_from a (map ((!) udigits) xs) of None \<Rightarrow> None | Some b \<Rightarrow> atoi_from b ys)"
  if "\<forall>d \<in> set xs. d < 10" for xs
  using that
proof (induction xs arbitrary: a)
  case (Cons d xs)
  have "d \<in> {0, 1, 2, 3, 4, 5, 6, 7, 8, 9}" using Cons.prems by auto
  then have "48 \<le> udigits ! d \<and> udigits ! d \<le> 57" by (auto simp: udigits_eq)
  then show ?case using Cons by (simp add: ascii_def)
qed simp

lemma udigits_value: "d < 10 \<Longrightarrow> uint (udigits ! d) = 48 + int d" "d < 10 \<Longrightarrow> 48 \<le> udigits ! d \<and> udigits ! d \<le> 57"
proof -
  assume "d < 10"
  then have "d \<in> {0, 1, 2, 3, 4, 5, 6, 7, 8, 9}" by auto
  then show "uint (udigits ! d) = 48 + int d" "48 \<le> udigits ! d \<and> udigits ! d \<le> 57" by (auto simp: udigits_eq)
qed

lemma atoi_decimal:
  "n < 2 ^ 31 \<Longrightarrow> atoi (map ((!) udigits) (rev (digit_list 10 n))) = (if n < 2147483600 then Some (int n) else None)"
proof (induction "10 :: nat" n rule: digit_list.induct)
  case (1 n)
  have d: "n mod 10 < 10" by simp
  show ?case
  proof (cases "n < 10")
    case True
    then show ?thesis using udigits_value [OF True]
      by (subst digit_list.simps) (simp add: atoi_def ascii_def int_ok_def)
  next
    case False
    then have IH: "atoi (map ((!) udigits) (rev (digit_list 10 (n div 10)))) = Some (int (n div 10))" using 1 by simp
    have "digit_list 10 n = n mod 10 # digit_list 10 (n div 10)" using False by (subst digit_list.simps) simp
    moreover have "\<forall>d \<in> set (rev (digit_list 10 (n div 10))). d < 10" using digit_list_bound [of 10 "n div 10"] by simp
    ultimately have "atoi (map ((!) udigits) (rev (digit_list 10 n))) = atoi_from (int (n div 10)) [udigits ! (n mod 10)]"
      using IH by (simp add: atoi_def atoi_from_append)
    moreover have "int (n div 10) * 10 + int (n mod 10) = int n" by (metis div_mult_mod_eq of_nat_add of_nat_mult of_nat_numeral)
    ultimately show ?thesis using udigits_value [OF d] 1(2) by (simp add: ascii_def int_ok_def)
  qed
qed

lemma atoi_num_text:
  assumes "- 0x80000000 \<le> n" and "n < 0x80000000"
  shows "atoi (num_text (word_of_int n) 10 True) = (if n < 0 then Some 0 else if n < 2147483600 then Some n else None)"
proof -
  let ?v = "word_of_int n :: u32"
  have s: "sint ?v = n" unfolding sint_sbintrunc' using assms by (intro signed_take_bit_int_eq_self) simp_all
  show ?thesis
  proof (cases "n < 0")
    case True
    then show ?thesis using s by (simp add: num_text_def Let_def atoi_def ascii_def)
  next
    case False
    then have "uint ?v = n" using assms by (simp add: uint_word_of_int_eq take_bit_int_eq_self)
    then have "unat ?v = nat n" by (simp add: unat_eq_nat_uint)
    then have e: "num_text ?v 10 True = map ((!) udigits) (rev (digit_list 10 (nat n)))"
      using s False by (simp add: num_text_def Let_def)
    show ?thesis unfolding e using atoi_decimal [of "nat n"] assms False by (simp add: nat_less_iff)
  qed
qed




end
