(* ===== verification/User_Programs.thy ===== *)
theory User_Programs
  imports Grep User_Printf Sysfile
begin

section \<open>The small user programs\<close>

unbundle bit_operations_syntax

text \<open>
  \<^verbatim>\<open>cat\<close>, \<^verbatim>\<open>wc\<close>, \<^verbatim>\<open>echo\<close>, \<^verbatim>\<open>kill\<close>, \<^verbatim>\<open>ln\<close>, \<^verbatim>\<open>mkdir\<close>, \<^verbatim>\<open>rm\<close>, \<^verbatim>\<open>ls\<close>,
  \<^verbatim>\<open>zombie\<close>, \<^verbatim>\<open>init\<close>, \<^verbatim>\<open>stressfs\<close>, \<^verbatim>\<open>forktest\<close> and the main program of \<^verbatim>\<open>grep\<close>. Each takes the
  argument vector behind the program's name. Signed overflow, as of the counters of \<^verbatim>\<open>wc\<close>, is a
  fault.
\<close>

definition str :: "string \<Rightarrow> u8 list" where
  "str s = map ascii s"

text \<open>A loop over the arguments.\<close>

fun ufor :: "'a list \<Rightarrow> ('a \<Rightarrow> ('k, unit) prog) \<Rightarrow> ('k, unit) prog" where
  "ufor [] f = uret ()"
| "ufor (x # xs) f = udo (f x) (ufor xs f)"

subsection \<open>user/cat.c\<close>

partial_function (option) cat :: "int \<Rightarrow> ('k, unit) prog" where
  "cat fd s =
     ubind (usys (Sys_read fd 512)) (\<lambda>r s.
     if rv r > 0 then
       ubind (usys (Sys_write 1 (take (nat (rv r)) (stored r)))) (\<lambda>w s.
       if rv w \<noteq> rv r then udo (fprintf 2 ''cat: write error\<newline>'' []) (uexit 1) s
       else cat fd s) s
     else if rv r < 0 then udo (fprintf 2 ''cat: read error\<newline>'' []) (uexit 1) s
     else uret () s) s"

definition cat_file :: "u8 list \<Rightarrow> ('k, unit) prog" where
  "cat_file path =
     ubind (usys (Sys_open path O_RDONLY)) (\<lambda>r.
     if rv r < 0 then udo (fprintf 2 ''cat: cannot open %s\<newline>'' [VStr (Some path)]) (uexit 1)
     else udo (cat (rv r)) (udo (usys (Sys_close (rv r))) (uret ())))"

definition cat_main :: "u8 list list \<Rightarrow> ('k, unit) prog" where
  "cat_main args =
     (if args = [] then udo (cat 0) (uexit 0) else udo (ufor args cat_file) (uexit 0))"

subsection \<open>user/wc.c\<close>

definition wc_space :: "u8 list" where
  "wc_space = [32, 13, 9, 10, 11]"

text \<open>The bytes of one read; \<^const>\<open>None\<close> when a counter overflows, which is undefined.\<close>

fun wc_bytes :: "u8 list \<Rightarrow> int \<times> int \<times> int \<times> bool \<Rightarrow> (int \<times> int \<times> int \<times> bool) option" where
  "wc_bytes [] st = Some st"
| "wc_bytes (b # bs) (l, w, c, inword) =
     (let c = c + 1; l = (if b = newline then l + 1 else l) in
      if \<not> int_ok c \<or> \<not> int_ok l then None
      else if strchr wc_space b \<noteq> None then wc_bytes bs (l, w, c, False)
      else if \<not> inword then (if int_ok (w + 1) then wc_bytes bs (l, w + 1, c, True) else None)
      else wc_bytes bs (l, w, c, inword))"

partial_function (option) wc_loop :: "int \<Rightarrow> u8 list \<Rightarrow> int \<times> int \<times> int \<times> bool \<Rightarrow> ('k, unit) prog" where
  "wc_loop fd name st s =
     ubind (usys (Sys_read fd 512)) (\<lambda>r s.
     if rv r > 0 then (case wc_bytes (take (nat (rv r)) (stored r)) st of
         None \<Rightarrow> ufault ''wc: overflow'' s
       | Some st \<Rightarrow> wc_loop fd name st s)
     else if rv r < 0 then udo (uprintf ''wc: read error\<newline>'' []) (uexit 1) s
     else (case st of (l, w, c, _) \<Rightarrow>
       uprintf ''%d %d %d %s\<newline>'' [VInt (word_of_int l), VInt (word_of_int w), VInt (word_of_int c), VStr (Some name)] s)) s"

definition wc :: "int \<Rightarrow> u8 list \<Rightarrow> ('k, unit) prog" where
  "wc fd name = wc_loop fd name (0, 0, 0, False)"

definition wc_file :: "u8 list \<Rightarrow> ('k, unit) prog" where
  "wc_file path =
     ubind (usys (Sys_open path O_RDONLY)) (\<lambda>r.
     if rv r < 0 then udo (uprintf ''wc: cannot open %s\<newline>'' [VStr (Some path)]) (uexit 1)
     else udo (wc (rv r) path) (udo (usys (Sys_close (rv r))) (uret ())))"

definition wc_main :: "u8 list list \<Rightarrow> ('k, unit) prog" where
  "wc_main args =
     (if args = [] then udo (wc 0 []) (uexit 0) else udo (ufor args wc_file) (uexit 0))"

subsection \<open>The main program of user/grep.c\<close>

definition grep_file :: "u8 list \<Rightarrow> u8 list \<Rightarrow> ('k, unit) prog" where
  "grep_file pat path =
     ubind (usys (Sys_open path O_RDONLY)) (\<lambda>r.
     if rv r < 0 then udo (uprintf ''grep: cannot open %s\<newline>'' [VStr (Some path)]) (uexit 1)
     else udo (grep pat (rv r)) (udo (usys (Sys_close (rv r))) (uret ())))"

definition grep_main :: "u8 list list \<Rightarrow> ('k, unit) prog" where
  "grep_main args = (case args of
     [] \<Rightarrow> udo (fprintf 2 ''usage: grep pattern [file ...]\<newline>'' []) (uexit 1)
   | [pat] \<Rightarrow> udo (grep pat 0) (uexit 0)
   | pat # files \<Rightarrow> udo (ufor files (grep_file pat)) (uexit 0))"

subsection \<open>user/echo.c, user/kill.c, user/ln.c, user/mkdir.c, user/rm.c, user/zombie.c\<close>

fun echo_args :: "u8 list list \<Rightarrow> ('k, unit) prog" where
  "echo_args [] = uret ()"
| "echo_args (a # as) =
     udo (usys (Sys_write 1 a))
     (udo (usys (Sys_write 1 (if as \<noteq> [] then str '' '' else [newline])))
     (echo_args as))"

definition echo_main :: "u8 list list \<Rightarrow> ('k, unit) prog" where
  "echo_main args = udo (echo_args args) (uexit 0)"

definition kill_one :: "u8 list \<Rightarrow> ('k, unit) prog" where
  "kill_one a = (case atoi a of None \<Rightarrow> ufault ''atoi: overflow''
     | Some n \<Rightarrow> udo (usys (Sys_kill n)) (uret ()))"

definition kill_main :: "u8 list list \<Rightarrow> ('k, unit) prog" where
  "kill_main args =
     (if args = [] then udo (fprintf 2 ''usage: kill pid...\<newline>'' []) (uexit 1)
      else udo (ufor args kill_one) (uexit 0))"

definition ln_main :: "u8 list list \<Rightarrow> ('k, unit) prog" where
  "ln_main args = (case args of
     [old, new] \<Rightarrow>
       ubind (usys (Sys_link old new)) (\<lambda>r.
       udo (if rv r < 0 then fprintf 2 ''link %s %s: failed\<newline>'' [VStr (Some old), VStr (Some new)] else uret ())
       (uexit 0))
   | _ \<Rightarrow> udo (fprintf 2 ''Usage: ln old new\<newline>'' []) (uexit 1))"

text \<open>The loops of \<^verbatim>\<open>mkdir\<close> and \<^verbatim>\<open>rm\<close> stop at the first failure.\<close>

fun mkdir_args :: "u8 list list \<Rightarrow> ('k, unit) prog" where
  "mkdir_args [] = uret ()"
| "mkdir_args (a # as) =
     ubind (usys (Sys_mkdir a)) (\<lambda>r.
     if rv r < 0 then fprintf 2 ''mkdir: %s failed to create\<newline>'' [VStr (Some a)] else mkdir_args as)"

definition mkdir_main :: "u8 list list \<Rightarrow> ('k, unit) prog" where
  "mkdir_main args =
     (if args = [] then udo (fprintf 2 ''Usage: mkdir files...\<newline>'' []) (uexit 1)
      else udo (mkdir_args args) (uexit 0))"

fun rm_args :: "u8 list list \<Rightarrow> ('k, unit) prog" where
  "rm_args [] = uret ()"
| "rm_args (a # as) =
     ubind (usys (Sys_unlink a)) (\<lambda>r.
     if rv r < 0 then fprintf 2 ''rm: %s failed to delete\<newline>'' [VStr (Some a)] else rm_args as)"

definition rm_main :: "u8 list list \<Rightarrow> ('k, unit) prog" where
  "rm_main args =
     (if args = [] then udo (fprintf 2 ''Usage: rm files...\<newline>'' []) (uexit 1)
      else udo (rm_args args) (uexit 0))"

definition zombie_main :: "('k, unit) prog" where
  "zombie_main =
     ubind (usys Sys_fork) (\<lambda>r.
     if rv r > 0 then udo (usys (Sys_sleep 5)) (uexit 0) else uexit 0)"

subsection \<open>user/ls.c\<close>

definition fmtname :: "u8 list \<Rightarrow> u8 list" where
  "fmtname path =
     (let p = rev (takeWhile (\<lambda>c. c \<noteq> ascii CHR ''/'') (rev path)) in
      if length p \<ge> DIRSIZ then p else p @ replicate (DIRSIZ - length p) (ascii CHR '' ''))"

text \<open>The \<^verbatim>\<open>struct stat\<close> that a call has stored.\<close>

definition read_stat :: "u8 list \<Rightarrow> stat" where
  "read_stat b = \<lparr>st_dev = le_word (take 4 b), st_ino = le_word (take 4 (drop 4 b)), st_type = le_word (take 2 (drop 8 b)),
     st_nlink = le_word (take 2 (drop 10 b)), st_size = le_word (take 8 (drop 16 b))\<rparr>"

definition ls_line :: "u8 list \<Rightarrow> stat \<Rightarrow> ('k, unit) prog" where
  "ls_line path st =
     uprintf ''%s %d %d %d\<newline>''
       [VStr (Some (fmtname path)), VInt (scast (st_type st)), VInt (st_ino st), VInt (ucast (st_size st))]"

partial_function (option) ls_entries :: "int \<Rightarrow> u8 list \<Rightarrow> ('k, unit) prog" where
  "ls_entries fd path s =
     ubind (usys (Sys_read fd 16)) (\<lambda>r s.
     if rv r \<noteq> 16 then uret () s
     else if le_word (take 2 (stored r)) = (0 :: 16 word) then ls_entries fd path s
     else let buf = path @ str ''/'' @ cstring (take DIRSIZ (drop 2 (stored r))) in
       ubind (ustat buf) (\<lambda>st s.
       if rv st < 0 then udo (uprintf ''ls: cannot stat %s\<newline>'' [VStr (Some buf)]) (ls_entries fd path) s
       else udo (ls_line buf (read_stat (stored st))) (ls_entries fd path) s) s) s"

definition ls :: "u8 list \<Rightarrow> ('k, unit) prog" where
  "ls path =
     ubind (usys (Sys_open path O_RDONLY)) (\<lambda>r.
     if rv r < 0 then fprintf 2 ''ls: cannot open %s\<newline>'' [VStr (Some path)]
     else ubind (usys (Sys_fstat (rv r))) (\<lambda>st.
     if rv st < 0 then udo (fprintf 2 ''ls: cannot stat %s\<newline>'' [VStr (Some path)]) (udo (usys (Sys_close (rv r))) (uret ()))
     else udo
       (if st_type (read_stat (stored st)) = T_DEVICE \<or> st_type (read_stat (stored st)) = T_FILE then ls_line path (read_stat (stored st))
        else if st_type (read_stat (stored st)) = T_DIR then
          if length path + 1 + DIRSIZ + 1 > 512 then uprintf ''ls: path too long\<newline>'' []
          else ls_entries (rv r) path
        else uret ())
       (udo (usys (Sys_close (rv r))) (uret ()))))"

definition ls_main :: "u8 list list \<Rightarrow> ('k, unit) prog" where
  "ls_main args = (if args = [] then udo (ls (str ''.'')) (uexit 0) else udo (ufor args ls) (uexit 0))"

subsection \<open>user/init.c\<close>

text \<open>The loop that waits for the shell: it returns when the shell has exited.\<close>

partial_function (option) init_wait :: "int \<Rightarrow> ('k, unit) prog" where
  "init_wait shell s =
     ubind (usys Sys_wait) (\<lambda>r s.
     if rv r = shell then uret () s
     else if rv r < 0 then udo (uprintf ''init: wait returned an error\<newline>'' []) (uexit 1) s
     else init_wait shell s) s"

partial_function (option) init_loop :: "unit \<Rightarrow> ('k, unit) prog" where
  "init_loop u s =
     udo (uprintf ''init: starting sh\<newline>'' []) (\<lambda>s.
     ubind (usys Sys_fork) (\<lambda>r s.
     if rv r < 0 then udo (uprintf ''init: fork failed\<newline>'' []) (uexit 1) s
     else if rv r = 0 then
       udo (usys (Sys_exec (str ''sh'') [str ''sh'']))
       (udo (uprintf ''init: exec sh failed\<newline>'' []) (uexit 1)) s
     else udo (init_wait (rv r)) (init_loop ()) s) s) s"

definition init_main :: "('k, unit) prog" where
  "init_main =
     ubind (usys (Sys_open (str ''console'') O_RDWR)) (\<lambda>r.
     udo (if rv r < 0
          then udo (usys (Sys_mknod (str ''console'') (int CONSOLE) 0))
            (udo (usys (Sys_open (str ''console'') O_RDWR)) (uret ()))
          else uret ())
     (udo (usys (Sys_dup 0))
     (udo (usys (Sys_dup 0))
     (init_loop ()))))"

subsection \<open>user/stressfs.c and user/forktest.c\<close>

text \<open>\<^verbatim>\<open>for(i = 0; i < 4; i++) if(fork() > 0) break;\<close> and the value of \<^verbatim>\<open>i\<close> behind it.\<close>

fun stressfs_fork :: "nat \<Rightarrow> nat \<Rightarrow> ('k, nat) prog" where
  "stressfs_fork i 0 = uret i"
| "stressfs_fork i (Suc k) =
     ubind (usys Sys_fork) (\<lambda>r. if rv r > 0 then uret i else stressfs_fork (i + 1) k)"

definition stressfs_main :: "('k, unit) prog" where
  "stressfs_main =
     udo (uprintf ''stressfs starting\<newline>'' [])
     (ubind (stressfs_fork 0 4) (\<lambda>i.
      let path = str ''stressfs'' @ [ascii CHR ''0'' + of_nat i]; data = replicate 512 (ascii CHR ''a'') in
      udo (uprintf ''write %d\<newline>'' [VInt (of_nat i)])
      (ubind (usys (Sys_open path (O_CREATE OR O_RDWR))) (\<lambda>r.
       udo (ufor [0..<20] (\<lambda>_. udo (usys (Sys_write (rv r) data)) (uret ())))
       (udo (usys (Sys_close (rv r)))
       (udo (uprintf ''read\<newline>'' [])
       (ubind (usys (Sys_open path O_RDONLY)) (\<lambda>r.
        udo (ufor [0..<20] (\<lambda>_. udo (usys (Sys_read (rv r) 512)) (uret ())))
        (udo (usys (Sys_close (rv r)))
        (udo (usys Sys_wait) (uexit 0)))))))))))"

definition uprint :: "string \<Rightarrow> ('k, unit) prog" where
  "uprint s = udo (usys (Sys_write 1 (str s))) (uret ())"

text \<open>The first loop of \<^verbatim>\<open>forktest\<close> counts the children that were made; the child exits.\<close>

fun forktest_fork :: "nat \<Rightarrow> nat \<Rightarrow> ('k, nat) prog" where
  "forktest_fork n 0 = uret n"
| "forktest_fork n (Suc k) =
     ubind (usys Sys_fork) (\<lambda>r.
     if rv r < 0 then uret n else if rv r = 0 then uexit 0 else forktest_fork (n + 1) k)"

fun forktest_wait :: "nat \<Rightarrow> ('k, unit) prog" where
  "forktest_wait 0 = uret ()"
| "forktest_wait (Suc n) =
     ubind (usys Sys_wait) (\<lambda>r.
     if rv r < 0 then udo (uprint ''wait stopped early\<newline>'') (uexit 1) else forktest_wait n)"

definition forktest_N :: nat where
  "forktest_N = 1000"

definition forktest :: "('k, unit) prog" where
  "forktest =
     udo (uprint ''fork test\<newline>'')
     (ubind (forktest_fork 0 forktest_N) (\<lambda>n.
      if n = forktest_N then udo (uprint ''fork claimed to work N times!\<newline>'') (uexit 1)
      else udo (forktest_wait n)
       (ubind (usys Sys_wait) (\<lambda>r.
        if rv r \<noteq> - 1 then udo (uprint ''wait got too many\<newline>'') (uexit 1)
        else uprint ''fork test OK\<newline>''))))"

definition forktest_main :: "('k, unit) prog" where
  "forktest_main = udo forktest (uexit 0)"

subsection \<open>Correctness of cat and wc\<close>

lemma read_stream_cases [consumes 1, case_names eof data]:
  assumes "0 < n"
  obtains (eof) cs' where "inp = []" "usys (Sys_read fd n) (on_stream inp cs tr) =
      Some (URet (Reply 0 []), on_stream [] cs' (tr @ [Sys_read fd n]))"
  | (data) bs rest cs' where "inp = bs @ rest" "bs \<noteq> []" "usys (Sys_read fd n) (on_stream inp cs tr) =
      Some (URet (Reply (int (length bs)) bs), on_stream rest cs' (tr @ [Sys_read fd n]))"
proof -
  obtain bs rest cs' where r: "inp = bs @ rest" "bs = [] \<longleftrightarrow> inp = []"
    "usys (Sys_read fd n) (on_stream inp cs tr) =
      Some (URet (Reply (int (length bs)) bs), on_stream rest cs' (tr @ [Sys_read fd n]))"
    using usys_read_stream [OF assms, of inp fd cs tr] by (elim exE conjE) (rule that)
  show ?thesis
  proof (cases "bs = []")
    case True
    have e: "inp = []" using r(2) True by blast
    then have "rest = []" using r(1) by simp
    then show ?thesis by (intro eof [of cs'] e) (use r(3) True in simp)
  next
    case False
    then show ?thesis by (rule data [OF r(1) _ r(3)])
  qed
qed

lemma cat_stream:
  "\<exists>cs' tr'. cat fd (on_stream inp cs tr) = Some (URet (), on_stream [] cs' tr') \<and> written 1 tr' = written 1 tr @ inp"
proof (induction "length inp" arbitrary: inp cs tr rule: less_induct)
  case less
  have n: "0 < (512 :: nat)" by simp
  from n show ?case
  proof (cases rule: read_stream_cases [where inp = inp and fd = fd and cs = cs and tr = tr])
    case (eof cs')
    then have "cat fd (on_stream inp cs tr) = Some (URet (), on_stream [] cs' (tr @ [Sys_read fd 512]))"
      by (subst cat.simps) (simp add: ubind_def uret_def)
    then show ?thesis using eof(1) by (intro exI [of _ cs'] exI [of _ "tr @ [Sys_read fd 512]"]) simp
  next
    case (data bs rest cs')
    let ?tr = "tr @ [Sys_read fd 512, Sys_write 1 bs]"
    have "length rest < length inp" using data(1,2) by simp
    from less [OF this, of cs' ?tr] obtain cs2 tr2 where
      IH: "cat fd (on_stream rest cs' ?tr) = Some (URet (), on_stream [] cs2 tr2)" "written 1 tr2 = written 1 ?tr @ rest"
      by (elim exE conjE) (rule that)
    have "cat fd (on_stream inp cs tr) = cat fd (on_stream rest cs' ?tr)"
      using data(2,3) by (subst cat.simps) (simp add: ubind_def)
    then show ?thesis using IH data(1) by (intro exI [of _ cs2] exI [of _ tr2]) simp
  qed
qed

text \<open>C32. \<^verbatim>\<open>cat\<close> copies its input to the standard output, byte for byte, however the kernel cuts it into
  reads, and returns at the end of the input, when no read fails and every write takes all its bytes.\<close>

theorem cat_correct:
  "\<exists>cs' tr'. cat fd (on_stream inp cs tr) = Some (URet (), on_stream [] cs' tr') \<and> written 1 tr' = written 1 tr @ inp"
  by (rule cat_stream)

text \<open>What \<^verbatim>\<open>wc\<close> counts: newlines, bytes that begin a word, bytes.\<close>

definition word_starts :: "u8 list \<Rightarrow> nat" where
  "word_starts s = length (filter (\<lambda>i. s ! i \<notin> set wc_space \<and> (i = 0 \<or> s ! (i - 1) \<in> set wc_space)) [0..<length s])"

definition in_word :: "u8 list \<Rightarrow> bool" where
  "in_word s \<longleftrightarrow> s \<noteq> [] \<and> last s \<notin> set wc_space"

lemma word_starts_snoc:
  "word_starts (s @ [b]) = word_starts s + (if b \<notin> set wc_space \<and> \<not> in_word s then 1 else 0)"
proof -
  let ?P = "\<lambda>s i. s ! i \<notin> set wc_space \<and> (i = 0 \<or> s ! (i - 1) \<in> set wc_space)"
  have "filter (?P (s @ [b])) [0..<length s] = filter (?P s) [0..<length s]"
    by (rule filter_cong) (auto simp: nth_append)
  moreover have "?P (s @ [b]) (length s) \<longleftrightarrow> b \<notin> set wc_space \<and> \<not> in_word s"
    by (cases s rule: rev_cases) (auto simp: in_word_def nth_append)
  ultimately show ?thesis by (simp add: word_starts_def)
qed

lemma strchr_iff: "strchr s c = None \<longleftrightarrow> c \<notin> set s" "(\<exists>q. strchr s c = Some q) \<longleftrightarrow> c \<in> set s"
  by (induction s c rule: strchr.induct) auto

lemma wc_bytes_append: "wc_bytes (xs @ ys) st = Option.bind (wc_bytes xs st) (wc_bytes ys)"
  by (induction xs st rule: wc_bytes.induct) (simp_all add: Let_def)

lemma word_starts_le: "word_starts s \<le> length s"
  unfolding word_starts_def by (rule order_trans [OF length_filter_le]) simp

lemma wc_bytes_count:
  "length s < 2 ^ 31 \<Longrightarrow>
    wc_bytes s (0, 0, 0, False) = Some (int (count_list s newline), int (word_starts s), int (length s), in_word s)"
proof (induction s rule: rev_induct)
  case Nil
  then show ?case by (simp add: word_starts_def in_word_def)
next
  case (snoc b s)
  have "in_word (s @ [b]) \<longleftrightarrow> b \<notin> set wc_space" by (simp add: in_word_def)
  moreover have "int_ok (int (length s) + 1)" "int_ok (int (count_list s newline) + 1)" "int_ok (int (count_list s newline))"
    "int_ok (int (word_starts s) + 1)"
    using snoc.prems count_le_length [of s newline] word_starts_le [of s] by (simp_all add: int_ok_def)
  moreover have "wc_bytes s (0, 0, 0, False) = Some (int (count_list s newline), int (word_starts s), int (length s), in_word s)"
    using snoc by simp
  ultimately show ?case
    by (simp add: wc_bytes_append strchr_iff word_starts_snoc Let_def)
qed

lemma wc_bytes_overflow:
  assumes "2 ^ 31 \<le> length s"
  shows "wc_bytes s (0, 0, 0, False) = None"
proof -
  let ?p = "take (2 ^ 31 - 1) s"
  obtain b r where r: "drop (2 ^ 31 - 1) s = b # r" using assms by (cases "drop (2 ^ 31 - 1) s") auto
  have p: "length ?p = 2 ^ 31 - 1" using assms by simp
  obtain l w i where "wc_bytes ?p (0, 0, 0, False) = Some (l, w, int (length ?p), i)"
    using wc_bytes_count [of ?p] p by fastforce
  moreover have "wc_bytes (b # r) (l, w, int (length ?p), i) = None"
    unfolding wc_bytes.simps Let_def p by (simp add: int_ok_def)
  moreover have "s = ?p @ b # r" unfolding r [symmetric] by (rule append_take_drop_id [symmetric])
  ultimately show ?thesis using wc_bytes_append [of ?p "b # r"] by simp
qed

definition wc_text :: "u32 \<Rightarrow> u32 \<Rightarrow> u32 \<Rightarrow> u8 list \<Rightarrow> u8 list" where
  "wc_text l w c name = num_text l 10 True @ str '' '' @ num_text w 10 True @ str '' '' @ num_text c 10 True
     @ str '' '' @ name @ [newline]"

lemma wc_print:
  "uprintf ''%d %d %d %s\<newline>'' [VInt l, VInt w, VInt c, VStr (Some name)] (on_stream inp cs tr) =
     Some (URet (), on_stream inp cs (tr @ map (\<lambda>c. Sys_write 1 [c]) (wc_text l w c name)))"
proof -
  have conv: "printf_conv (100 # f) = (CInt 10 True, 1)" "printf_conv (115 # f) = (CStr, 1)" for f
    by (simp_all add: printf_conv_def fmt_at_def byte_def)
  have n: "uprintint 1 v 10 True (on_stream inp cs tr) =
      Some (URet (), on_stream inp cs (tr @ map (\<lambda>c. Sys_write 1 [c]) (num_text v 10 True)))" for v inp cs tr
    by (rule uprintint_stream) simp
  show ?thesis
    by (simp add: uprintf_def fprintf_def ascii_def conv udo_def ubind_def uret_def n uputs_stream wc_text_def str_def newline_def)
qed

definition wc_result :: "u8 list \<Rightarrow> (int \<times> int \<times> int \<times> bool) option \<Rightarrow> ucall list \<Rightarrow> (unit uout \<times> (u8 list \<times> nat list) uproc) option \<Rightarrow> bool" where
  "wc_result name r tr x = (case r of
     None \<Rightarrow> (\<exists>t. x = Some (UFault ''wc: overflow'', t))
   | Some (l, w, c, _) \<Rightarrow> (\<exists>cs' tr'. x = Some (URet (), on_stream [] cs' tr')
       \<and> written 1 tr' = written 1 tr @ wc_text (word_of_int l) (word_of_int w) (word_of_int c) name))"

lemma wc_loop_stream: "wc_result name (wc_bytes inp st) tr (wc_loop fd name st (on_stream inp cs tr))"
proof (induction "length inp" arbitrary: inp cs tr st rule: less_induct)
  case less
  have n: "0 < (512 :: nat)" by simp
  obtain l w c b where st: "st = (l, w, c, b)" by (cases st) auto
  from n show ?case
  proof (cases rule: read_stream_cases [where inp = inp and fd = fd and cs = cs and tr = tr])
    case (eof cs')
    let ?tr = "tr @ [Sys_read fd 512] @ map (\<lambda>c. Sys_write 1 [c]) (wc_text (word_of_int l) (word_of_int w) (word_of_int c) name)"
    have "wc_loop fd name st (on_stream inp cs tr) = Some (URet (), on_stream [] cs' ?tr)"
      using eof by (subst wc_loop.simps) (simp add: ubind_def wc_print st)
    moreover have "written 1 ?tr = written 1 tr @ wc_text (word_of_int l) (word_of_int w) (word_of_int c) name" by simp
    ultimately have "wc_result name (Some st) tr (wc_loop fd name st (on_stream inp cs tr))"
      unfolding wc_result_def st option.case prod.case by blast
    then show ?thesis using eof(1) by simp
  next
    case (data bs rest cs')
    let ?s = "on_stream rest cs' (tr @ [Sys_read fd 512])"
    have l: "length rest < length inp" using data(1,2) by simp
    show ?thesis
    proof (cases "wc_bytes bs st")
      case None
      then have "wc_loop fd name st (on_stream inp cs tr) = Some (UFault ''wc: overflow'', ?s)"
        using data(2,3) by (subst wc_loop.simps) (simp add: ubind_def ufault_def)
      then show ?thesis using None data(1) by (simp add: wc_result_def wc_bytes_append)
    next
      case (Some st')
      have "wc_loop fd name st (on_stream inp cs tr) = wc_loop fd name st' ?s"
        using data(2,3) Some by (subst wc_loop.simps) (simp add: ubind_def)
      moreover have "wc_bytes inp st = wc_bytes rest st'" using data(1) Some by (simp add: wc_bytes_append)
      moreover have "wc_result name r (tr @ [Sys_read fd 512]) x = wc_result name r tr x" for r x
        by (simp add: wc_result_def split: option.split prod.split)
      ultimately show ?thesis using less [OF l, of st' "tr @ [Sys_read fd 512]" cs'] by simp
    qed
  qed
qed

text \<open>C33. \<^verbatim>\<open>wc\<close> prints the number of newlines, of words and of bytes of its input, and the name it
  was given, however the kernel cuts the input into reads; a word starts at every byte that is not white
  space and has no such byte before it. That is so for inputs shorter than two gigabytes; on any
  longer one the byte counter, an \<^verbatim>\<open>int\<close>, overflows.\<close>

theorem wc_correct:
  "(length inp < 2 ^ 31 \<longrightarrow> (\<exists>cs' tr'. wc fd name (on_stream inp cs tr) = Some (URet (), on_stream [] cs' tr')
     \<and> written 1 tr' = written 1 tr @ num_text (of_nat (count_list inp newline)) 10 True @ str '' ''
         @ num_text (of_nat (word_starts inp)) 10 True @ str '' '' @ num_text (of_nat (length inp)) 10 True
         @ str '' '' @ name @ [newline]))
   \<and> (2 ^ 31 \<le> length inp \<longrightarrow> (\<exists>t. wc fd name (on_stream inp cs tr) = Some (UFault ''wc: overflow'', t)))"
  using wc_loop_stream [of name inp "(0, 0, 0, False)" tr fd cs] wc_bytes_count [of inp] wc_bytes_overflow [of inp]
  by (auto simp: wc_def wc_result_def wc_text_def)

theorem wc_correct_witness:
  "\<exists>cs' tr'. wc 0 (str ''f'') (on_stream (str ''to be or'' @ [newline]) [2, 0, 3] []) = Some (URet (), on_stream [] cs' tr')
     \<and> written 1 tr' = str ''1 3 9 f'' @ [newline]"
proof -
  have "count_list (str ''to be or'' @ [newline]) newline = 1" "word_starts (str ''to be or'' @ [newline]) = 3"
    "num_text 1 10 True = str ''1''" "num_text 3 10 True = str ''3''" "num_text 9 10 True = str ''9''"
    by code_simp+
  then show ?thesis
    using wc_correct [of "str ''to be or'' @ [newline]" 0 "str ''f''" "[2, 0, 3]" "[]"] by (simp add: str_def)
qed

end
