(* ===== verification/Shell.thy ===== *)
theory Shell
  imports User_Programs
begin

section \<open>user/sh.c\<close>

text \<open>
  The shell. The parser works on the line \<open>s\<close>, the bytes before its NUL, with offsets into it for the
  pointers \<^verbatim>\<open>*ps\<close>, \<^verbatim>\<open>q\<close> and \<^verbatim>\<open>eq\<close>; \<^verbatim>\<open>es\<close> is its length. A command holds, like the structures
  of the source, the offsets of its words, and \<^verbatim>\<open>nulterminate\<close> writes the zeros behind them into the
  buffer. The parsing functions call one another, so they are one recursive function over the piece of
  syntax to be parsed; \<^verbatim>\<open>panic\<close> is a value, and \<^const>\<open>None\<close> would be a parser that does not
  return. \<^verbatim>\<open>malloc\<close> is taken to succeed.
\<close>

subsection \<open>Tokens\<close>

definition MAXARGS :: nat where
  "MAXARGS = 10"

datatype cmd =
    EXEC "(nat \<times> nat) list"
  | REDIR cmd nat nat u32 int
  | PIPE cmd cmd
  | LIST cmd cmd
  | BACK cmd

definition whitespace :: "u8 list" where
  "whitespace = map ascii '' '' @ [9, 13, 10, 11]"

definition sh_symbols :: "u8 list" where
  "sh_symbols = map ascii ''<|>&;()''"

function skip_space :: "u8 list \<Rightarrow> nat \<Rightarrow> nat" where
  "skip_space s p = (if p < length s \<and> strchr whitespace (s ! p) \<noteq> None then skip_space s (p + 1) else p)"
  by pat_completeness auto
termination
  by (relation "measure (\<lambda>(s, p). length s - p)") auto

function skip_word :: "u8 list \<Rightarrow> nat \<Rightarrow> nat" where
  "skip_word s p =
     (if p < length s \<and> strchr whitespace (s ! p) = None \<and> strchr sh_symbols (s ! p) = None
      then skip_word s (p + 1) else p)"
  by pat_completeness auto
termination
  by (relation "measure (\<lambda>(s, p). length s - p)") auto

declare skip_space.simps [simp del] skip_word.simps [simp del]

text \<open>\<^verbatim>\<open>gettoken\<close> returns the kind of the token, its two ends, and the new \<^verbatim>\<open>*ps\<close>.\<close>

definition gettoken :: "u8 list \<Rightarrow> nat \<Rightarrow> u8 \<times> nat \<times> nat \<times> nat" where
  "gettoken s ps =
     (let q = skip_space s ps; c = at s q;
          (ret, eq) =
            (if c = 0 then (0, q)
             else if c \<in> set (map ascii ''|();&<'') then (c, q + 1)
             else if c = ascii CHR ''>'' then
               (if at s (q + 1) = ascii CHR ''>'' then (ascii CHR ''+'', q + 2) else (c, q + 1))
             else (ascii CHR ''a'', skip_word s q))
      in (ret, q, eq, skip_space s eq))"

definition peek :: "u8 list \<Rightarrow> nat \<Rightarrow> string \<Rightarrow> bool \<times> nat" where
  "peek s ps toks =
     (let p = skip_space s ps in (at s p \<noteq> 0 \<and> strchr (map ascii toks) (at s p) \<noteq> None, p))"

subsection \<open>The parser\<close>

type_synonym presult = "(string + cmd \<times> nat) option"

definition pbind :: "presult \<Rightarrow> (cmd \<Rightarrow> nat \<Rightarrow> presult) \<Rightarrow> presult" where
  "pbind m f = Option.bind m (\<lambda>r. case r of Inl e \<Rightarrow> Some (Inl e) | Inr (c, p) \<Rightarrow> f c p)"

definition pret :: "cmd \<Rightarrow> nat \<Rightarrow> presult" where
  "pret c p = Some (Inr (c, p))"

definition ppanic :: "string \<Rightarrow> presult" where
  "ppanic e = Some (Inl e)"

lemma pbind_mono [partial_function_mono]:
  assumes "mono_option B" and "\<And>c p. mono_option (\<lambda>f. C f c p)"
  shows "mono_option (\<lambda>f. pbind (B f) (C f))"
  unfolding pbind_def
  by (intro bind_mono assms(1)) (use assms(2) in \<open>auto split: sum.splits prod.splits simp: monotone_def flat_ord_def\<close>)

lemma pbind_simps [simp]: "pbind (Some (Inr (c, p))) f = f c p" "pbind (Some (Inl e)) f = Some (Inl e)" "pbind None f = None"
  by (simp_all add: pbind_def)

text \<open>\<^verbatim>\<open>redircmd\<close> for the three redirection tokens, and the assignment to \<^verbatim>\<open>cmd->argv[argc]\<close>: the
  structure that \<^verbatim>\<open>execcmd\<close> made may be inside redirections by then.\<close>

definition redircmd :: "u8 \<Rightarrow> cmd \<Rightarrow> nat \<Rightarrow> nat \<Rightarrow> cmd" where
  "redircmd tok c q eq =
     (if tok = ascii CHR ''<'' then REDIR c q eq O_RDONLY 0
      else if tok = ascii CHR ''>'' then REDIR c q eq (O_WRONLY OR O_CREATE OR O_TRUNC) 1
      else if tok = ascii CHR ''+'' then REDIR c q eq (O_WRONLY OR O_CREATE) 1
      else c)"

fun add_arg :: "cmd \<Rightarrow> nat \<times> nat \<Rightarrow> cmd" where
  "add_arg (EXEC as) a = EXEC (as @ [a])"
| "add_arg (REDIR c q eq mode fd) a = REDIR (add_arg c a) q eq mode fd"
| "add_arg c a = c"

text \<open>The pieces of syntax: \<^verbatim>\<open>parseline\<close>, its loop over \<^verbatim>\<open>&\<close>, \<^verbatim>\<open>parsepipe\<close>, \<^verbatim>\<open>parseredirs\<close>,
  \<^verbatim>\<open>parseblock\<close>, \<^verbatim>\<open>parseexec\<close> and its loop over the arguments.\<close>

datatype syntax_part = Line | Backs cmd | Pipeline | Redirs cmd | Block | Simple | Args cmd nat

partial_function (option) parse :: "syntax_part \<Rightarrow> u8 list \<Rightarrow> nat \<Rightarrow> presult" where
  "parse part s p = (case part of
     Line \<Rightarrow>
       pbind (parse Pipeline s p) (\<lambda>c p.
       pbind (parse (Backs c) s p) (\<lambda>c p.
       case peek s p '';'' of (b, p) \<Rightarrow>
         if b then (case gettoken s p of (_, _, _, p) \<Rightarrow> pbind (parse Line s p) (\<lambda>d p. pret (LIST c d) p))
         else pret c p))
   | Backs c \<Rightarrow>
       (case peek s p ''&'' of (b, p) \<Rightarrow>
         if b then (case gettoken s p of (_, _, _, p) \<Rightarrow> parse (Backs (BACK c)) s p) else pret c p)
   | Pipeline \<Rightarrow>
       pbind (parse Simple s p) (\<lambda>c p.
       case peek s p ''|'' of (b, p) \<Rightarrow>
         if b then (case gettoken s p of (_, _, _, p) \<Rightarrow> pbind (parse Pipeline s p) (\<lambda>d p. pret (PIPE c d) p))
         else pret c p)
   | Redirs c \<Rightarrow>
       (case peek s p ''<>'' of (b, p) \<Rightarrow>
         if b then (case gettoken s p of (tok, _, _, p) \<Rightarrow>
           case gettoken s p of (t, q, eq, p) \<Rightarrow>
             if t \<noteq> ascii CHR ''a'' then ppanic ''missing file for redirection''
             else parse (Redirs (redircmd tok c q eq)) s p)
         else pret c p)
   | Block \<Rightarrow>
       (case peek s p ''('' of (b, p) \<Rightarrow>
         if \<not> b then ppanic ''parseblock''
         else case gettoken s p of (_, _, _, p) \<Rightarrow>
           pbind (parse Line s p) (\<lambda>c p.
           case peek s p '')'' of (b, p) \<Rightarrow>
             if \<not> b then ppanic ''syntax - missing )''
             else case gettoken s p of (_, _, _, p) \<Rightarrow> parse (Redirs c) s p))
   | Simple \<Rightarrow>
       (case peek s p ''('' of (b, p) \<Rightarrow>
         if b then parse Block s p
         else pbind (parse (Redirs (EXEC [])) s p) (\<lambda>c p. parse (Args c 0) s p))
   | Args c argc \<Rightarrow>
       (case peek s p ''|)&;'' of (b, p) \<Rightarrow>
         if b then pret c p
         else case gettoken s p of (tok, q, eq, p) \<Rightarrow>
           if tok = 0 then pret c p
           else if tok \<noteq> ascii CHR ''a'' then ppanic ''syntax''
           else if argc + 1 \<ge> MAXARGS then ppanic ''too many args''
           else pbind (parse (Redirs (add_arg c (q, eq))) s p) (\<lambda>c p. parse (Args c (argc + 1)) s p)))"

text \<open>\<^verbatim>\<open>nulterminate\<close> on the buffer that holds the line and its NUL.\<close>

fun nulterminate :: "cmd \<Rightarrow> u8 list \<Rightarrow> u8 list" where
  "nulterminate (EXEC as) buf = fold (\<lambda>(q, eq) b. b[eq := 0]) as buf"
| "nulterminate (REDIR c q eq mode fd) buf = (nulterminate c buf)[eq := 0]"
| "nulterminate (PIPE l r) buf = nulterminate r (nulterminate l buf)"
| "nulterminate (LIST l r) buf = nulterminate r (nulterminate l buf)"
| "nulterminate (BACK c) buf = nulterminate c buf"

text \<open>\<^verbatim>\<open>parsecmd\<close> returns the command and the buffer with its words terminated; its panics are those of
  the parser and the one for leftovers, which are printed before.\<close>

datatype shell_error = Panic string | Leftovers "u8 list"

definition parsecmd :: "u8 list \<Rightarrow> (shell_error + cmd \<times> u8 list) option" where
  "parsecmd s = (case parse Line s 0 of
     None \<Rightarrow> None
   | Some (Inl e) \<Rightarrow> Some (Inl (Panic e))
   | Some (Inr (c, p)) \<Rightarrow> (case peek s p '''' of (_, p) \<Rightarrow>
       if p \<noteq> length s then Some (Inl (Leftovers (drop p s))) else Some (Inr (c, nulterminate c (s @ [0])))))"

subsection \<open>The parser always returns\<close>

definition is_space :: "u8 \<Rightarrow> bool" where
  "is_space c \<longleftrightarrow> c \<in> set whitespace"

definition is_symbol :: "u8 \<Rightarrow> bool" where
  "is_symbol c \<longleftrightarrow> c \<in> set sh_symbols"

lemma strchr_sets: "strchr whitespace c = None \<longleftrightarrow> \<not> is_space c" "strchr sh_symbols c = None \<longleftrightarrow> \<not> is_symbol c"
  by (simp_all add: strchr_iff is_space_def is_symbol_def)

lemma skip_space_bounds:
  "p \<le> skip_space s p" "p \<le> length s \<Longrightarrow> skip_space s p \<le> length s"
  "skip_space s p < length s \<Longrightarrow> \<not> is_space (s ! skip_space s p)"
proof (induction s p rule: skip_space.induct)
  case (1 s p)
  { case 1 show ?case using "1.IH"(1) by (subst skip_space.simps) auto }
  { case 2 then show ?case using "1.IH"(2) by (subst skip_space.simps) auto }
  { case 3 then show ?case using "1.IH"(3) skip_space.simps [of s p] by (auto simp: strchr_sets split: if_splits) }
qed

lemma skip_word_bounds:
  "p \<le> skip_word s p" "p \<le> length s \<Longrightarrow> skip_word s p \<le> length s"
  "p \<le> i \<Longrightarrow> i < skip_word s p \<Longrightarrow> i < length s \<and> \<not> is_space (s ! i) \<and> \<not> is_symbol (s ! i)"
  "skip_word s p < length s \<Longrightarrow> is_space (s ! skip_word s p) \<or> is_symbol (s ! skip_word s p)"
proof (induction s p rule: skip_word.induct)
  case (1 s p)
  { case 1 show ?case using "1.IH"(1) by (subst skip_word.simps) auto }
  { case 2 then show ?case using "1.IH"(2) by (subst skip_word.simps) auto }
  { case 3 then show ?case using "1.IH"(3) skip_word.simps [of s p]
      by (cases "i = p") (auto simp: strchr_sets split: if_splits) }
  { case 4 then show ?case using "1.IH"(4) skip_word.simps [of s p] by (auto simp: strchr_sets split: if_splits) }
qed

lemma skip_space_idem [simp]: "skip_space s (skip_space s p) = skip_space s p"
  using skip_space_bounds(3) [of s p] by (subst skip_space.simps) (auto simp: strchr_sets)

text \<open>A word of the line: a longest run of bytes that are neither white space nor symbols.\<close>

definition tok_ok :: "u8 list \<Rightarrow> nat \<times> nat \<Rightarrow> bool" where
  "tok_ok s a \<longleftrightarrow> (case a of (q, eq) \<Rightarrow> q < eq \<and> eq \<le> length s
     \<and> (\<forall>i. q \<le> i \<and> i < eq \<longrightarrow> \<not> is_space (s ! i) \<and> \<not> is_symbol (s ! i))
     \<and> (eq < length s \<longrightarrow> is_space (s ! eq) \<or> is_symbol (s ! eq)))"

lemma at_0_iff: "0 \<notin> set s \<Longrightarrow> at s i = 0 \<longleftrightarrow> length s \<le> i"
  by (auto simp: at_def dest: nth_mem)

lemma gettoken_bounds:
  assumes s: "0 \<notin> set s" and p: "p \<le> length s" and tok: "gettoken s p = (t, q, eq, p')"
  shows "p \<le> q" "q \<le> eq" "eq \<le> p'" "p' \<le> length s" "q = skip_space s p" "q < length s \<Longrightarrow> t \<noteq> 0 \<and> q < eq"
    "t = ascii CHR ''a'' \<Longrightarrow> tok_ok s (q, eq)"
proof -
  have q: "q = skip_space s p" using tok by (auto simp: gettoken_def Let_def split: prod.splits)
  note b = skip_space_bounds [where s = s and p = p, folded q]
  show "p \<le> q" "q = skip_space s p" using b q by auto
  have z: "at s q = 0 \<longleftrightarrow> q = length s" using at_0_iff [OF s, of q] b(2) [OF p] by auto
  have c: "at s q = s ! q" "\<not> is_space (s ! q)" if "q < length s" using that b(3) by (simp_all add: at_def)
  consider (nul) "q = length s" "t = 0" "eq = q"
    | (one) "q < length s" "t \<noteq> 0" "t \<noteq> ascii CHR ''a''" "eq = q + 1"
    | (two) "q < length s" "t \<noteq> 0" "t \<noteq> ascii CHR ''a''" "eq = q + 2" "at s (q + 1) \<noteq> 0"
    | (word) "q < length s" "t = ascii CHR ''a''" "eq = skip_word s q" "\<not> is_symbol (s ! q)"
  proof (cases "q = length s")
    case True
    then show ?thesis using tok z q nul by (auto simp: gettoken_def Let_def split: if_splits)
  next
    case False
    then have "q < length s" using b(2) [OF p] by simp
    then show ?thesis
      using tok z c one two word unfolding gettoken_def Let_def q [symmetric]
      by (auto simp: is_symbol_def sh_symbols_def ascii_def split: if_splits)
  qed
  then have eq: "q \<le> eq \<and> eq \<le> length s \<and> (q < length s \<longrightarrow> t \<noteq> 0 \<and> q < eq) \<and> (t = ascii CHR ''a'' \<longrightarrow> tok_ok s (q, eq))"
  proof cases
    case nul
    then show ?thesis by (simp add: ascii_def)
  next
    case one
    then show ?thesis by simp
  next
    case two
    then have "q + 1 < length s" using at_0_iff [OF s, of "q + 1"] by simp
    then show ?thesis using two by simp
  next
    case word
    then have "q + 1 \<le> skip_word s q"
      using c skip_word_bounds(1) [of "q + 1" s] by (subst skip_word.simps) (simp add: strchr_sets)
    moreover have "skip_word s q \<le> length s" using word(1) by (intro skip_word_bounds(2)) simp
    ultimately show ?thesis
      using word skip_word_bounds(3,4) [where s = s and p = q] by (auto simp: tok_ok_def ascii_def)
  qed
  then show "q \<le> eq" "q < length s \<Longrightarrow> t \<noteq> 0 \<and> q < eq" "t = ascii CHR ''a'' \<Longrightarrow> tok_ok s (q, eq)" by auto
  have "p' = skip_space s eq" using tok by (auto simp: gettoken_def Let_def split: prod.splits)
  then show "eq \<le> p'" "p' \<le> length s" using skip_space_bounds(1,2) [of eq s] eq by auto
qed

lemma peek_bounds:
  assumes s: "0 \<notin> set s" and p: "p \<le> length s" and "peek s p toks = (b, p')"
  shows "p \<le> p'" "p' \<le> length s" "p' = skip_space s p" "b \<Longrightarrow> p' < length s"
  using assms skip_space_bounds(1,2) [of p s] at_0_iff [OF s, of p'] by (auto simp: peek_def Let_def)

text \<open>A token behind a successful \<^verbatim>\<open>peek\<close> advances.\<close>

lemma peek_gettoken:
  assumes "0 \<notin> set s" and "p \<le> length s" and "peek s p toks = (True, p1)" and "gettoken s p1 = (t, q, eq, p2)"
  shows "p < p2" "p2 \<le> length s"
  using peek_bounds [OF assms(1-3)] gettoken_bounds [OF assms(1) _ assms(4)] by auto

text \<open>Well-formed commands: fewer than \<^verbatim>\<open>MAXARGS\<close> arguments, so that the array has room for the null
  pointer behind them; words that are words of the line; and one of the three ways to redirect.\<close>

definition redir_modes :: "(u32 \<times> int) set" where
  "redir_modes = {(O_RDONLY, 0), (O_WRONLY OR O_CREATE OR O_TRUNC, 1), (O_WRONLY OR O_CREATE, 1)}"

fun cmd_wf :: "u8 list \<Rightarrow> cmd \<Rightarrow> bool" where
  "cmd_wf s (EXEC as) \<longleftrightarrow> length as < MAXARGS \<and> (\<forall>a \<in> set as. tok_ok s a)"
| "cmd_wf s (REDIR c q eq mode fd) \<longleftrightarrow> cmd_wf s c \<and> tok_ok s (q, eq) \<and> (mode, fd) \<in> redir_modes"
| "cmd_wf s (PIPE l r) \<longleftrightarrow> cmd_wf s l \<and> cmd_wf s r"
| "cmd_wf s (LIST l r) \<longleftrightarrow> cmd_wf s l \<and> cmd_wf s r"
| "cmd_wf s (BACK c) \<longleftrightarrow> cmd_wf s c"

text \<open>The number of arguments of a simple command inside redirections.\<close>

fun nargs :: "cmd \<Rightarrow> nat option" where
  "nargs (EXEC as) = Some (length as)"
| "nargs (REDIR c q eq mode fd) = nargs c"
| "nargs c = None"

definition parsed :: "u8 list \<Rightarrow> nat \<Rightarrow> (cmd \<Rightarrow> bool) \<Rightarrow> presult \<Rightarrow> bool" where
  "parsed s p Q m \<longleftrightarrow> (\<exists>e. m = Some (Inl e))
     \<or> (\<exists>c q. m = Some (Inr (c, q)) \<and> p \<le> q \<and> q \<le> length s \<and> cmd_wf s c \<and> Q c)"

lemma parsed_ret: "p \<le> q \<Longrightarrow> q \<le> length s \<Longrightarrow> cmd_wf s c \<Longrightarrow> Q c \<Longrightarrow> parsed s p Q (pret c q)"
  by (simp add: parsed_def pret_def)

lemma parsed_panic [simp]: "parsed s p Q (ppanic e)"
  by (simp add: parsed_def ppanic_def)

lemma parsed_later: "parsed s q Q m \<Longrightarrow> p \<le> q \<Longrightarrow> parsed s p Q m"
  by (auto simp: parsed_def)

lemma parsed_weaken: "parsed s p Q m \<Longrightarrow> (\<And>c. Q c \<Longrightarrow> Q' c) \<Longrightarrow> parsed s p Q' m"
  by (auto simp: parsed_def)

lemma parsed_bind:
  assumes "parsed s p Q m" and "\<And>c q. p \<le> q \<Longrightarrow> q \<le> length s \<Longrightarrow> cmd_wf s c \<Longrightarrow> Q c \<Longrightarrow> parsed s q Q' (f c q)"
  shows "parsed s p Q' (pbind m f)"
proof -
  from assms(1) consider e where "m = Some (Inl e)"
    | c q where "m = Some (Inr (c, q))" "p \<le> q" "q \<le> length s" "cmd_wf s c" "Q c"
    unfolding parsed_def by blast
  then show ?thesis
  proof cases
    case 1
    then show ?thesis by (simp add: parsed_def)
  next
    case (2 c q)
    then have "parsed s q Q' (f c q)" by (intro assms(2))
    then show ?thesis using parsed_later [OF _ 2(2)] 2(1) by simp
  qed
qed

text \<open>What the parser expects of the command it extends, and what it keeps of it.\<close>

fun part_pre :: "u8 list \<Rightarrow> syntax_part \<Rightarrow> bool" where
  "part_pre s (Backs c) \<longleftrightarrow> cmd_wf s c"
| "part_pre s (Redirs c) \<longleftrightarrow> cmd_wf s c"
| "part_pre s (Args c n) \<longleftrightarrow> cmd_wf s c \<and> nargs c = Some n"
| "part_pre s part \<longleftrightarrow> True"

fun part_post :: "syntax_part \<Rightarrow> cmd \<Rightarrow> bool" where
  "part_post (Redirs c) d \<longleftrightarrow> nargs d = nargs c"
| "part_post part d \<longleftrightarrow> True"

fun part_rank :: "syntax_part \<Rightarrow> nat" where
  "part_rank Line = 5"
| "part_rank Pipeline = 4"
| "part_rank Simple = 3"
| "part_rank Block = 2"
| "part_rank (Args c n) = 1"
| "part_rank _ = 0"

lemma redircmd_wf:
  assumes "cmd_wf s c" and "tok_ok s (q, eq)"
  shows "cmd_wf s (redircmd tok c q eq)" "nargs (redircmd tok c q eq) = nargs c"
  using assms by (simp_all add: redircmd_def redir_modes_def)

lemma add_arg_wf:
  assumes "cmd_wf s c" and "nargs c = Some n" and "tok_ok s a" and "n + 1 < MAXARGS"
  shows "cmd_wf s (add_arg c a)" "nargs (add_arg c a) = Some (n + 1)"
  using assms by (induction c) auto

lemma if_not_swap: "(if \<not> b then x else y) = (if b then y else x)"
  by simp

lemma parsed_peek:
  assumes s: "0 \<notin> set s" "p \<le> length s"
    and yes: "\<And>t q eq p2. p < p2 \<Longrightarrow> p2 \<le> length s \<Longrightarrow> parsed s p2 Q (F t q eq p2)"
    and no: "\<And>p1. p \<le> p1 \<Longrightarrow> p1 \<le> length s \<Longrightarrow> parsed s p Q (G p1)"
  shows "parsed s p Q (case peek s p toks of (b, p1) \<Rightarrow>
    if b then (case gettoken s p1 of (t, q, eq, p2) \<Rightarrow> F t q eq p2) else G p1)"
proof -
  obtain b p1 where b: "peek s p toks = (b, p1)" by fastforce
  obtain t q eq p2 where t: "gettoken s p1 = (t, q, eq, p2)" by (metis prod_cases4)
  show ?thesis
  proof (cases b)
    case True
    then have "p < p2" "p2 \<le> length s" using peek_gettoken [OF s _ t] b by auto
    then have "parsed s p Q (F t q eq p2)" using parsed_later [OF yes] by simp
    then show ?thesis using b t True by simp
  next
    case False
    then show ?thesis using b no [OF peek_bounds(1,2) [OF s b]] by simp
  qed
qed

text \<open>The parser at a later place of the line, or for a smaller part at the same place.\<close>

definition parsed_below :: "u8 list \<Rightarrow> nat \<Rightarrow> syntax_part \<Rightarrow> bool" where
  "parsed_below s p part \<longleftrightarrow> (\<forall>p' part'. p \<le> p' \<longrightarrow> p' \<le> length s \<longrightarrow> part_pre s part' \<longrightarrow>
     p < p' \<or> part_rank part' < part_rank part \<longrightarrow> parsed s p' (part_post part') (parse part' s p'))"

lemma parsed_belowD:
  "parsed_below s p part \<Longrightarrow> p \<le> p' \<Longrightarrow> p' \<le> length s \<Longrightarrow> part_pre s part' \<Longrightarrow>
     p < p' \<or> part_rank part' < part_rank part \<Longrightarrow> parsed s p' (part_post part') (parse part' s p')"
  unfolding parsed_below_def by blast

lemma parse_line:
  assumes s: "0 \<notin> set s" and p: "p \<le> length s" and pre: "part_pre s Line" and below: "parsed_below s p Line"
  shows "parsed s p (part_post Line) (parse Line s p)"
proof -
  note IH = parsed_belowD [OF below]
  show ?thesis proof (subst parse.simps, simp only: syntax_part.case, rule parsed_bind [OF IH], goal_cases)
    case (5 c p1)
    note c = 5
    show ?case
    proof (rule parsed_bind [OF IH], goal_cases)
      case (5 d p2)
      note d = 5
      show ?case
      proof (rule parsed_peek [OF s], goal_cases)
        case (2 t q eq p3)
        show ?case
          by (rule parsed_bind [OF IH [of p3 Line]]) (use c d 2 in \<open>auto intro!: parsed_ret\<close>)
      qed (use c d in \<open>auto intro!: parsed_ret\<close>)
    qed (use c in simp_all)
  qed (use p in simp_all)
qed

lemma parse_backs:
  assumes s: "0 \<notin> set s" and p: "p \<le> length s" and pre: "part_pre s (Backs c)" and below: "parsed_below s p (Backs c)"
  shows "parsed s p (part_post (Backs c)) (parse (Backs c) s p)"
proof -
  note IH = parsed_belowD [OF below]
  have c: "cmd_wf s c" using pre by simp
  show ?thesis proof (subst parse.simps, simp only: syntax_part.case, rule parsed_peek [OF s p], goal_cases)
    case (1 t q eq p2)
    show ?case by (rule parsed_weaken [OF IH [of p2 "Backs (BACK c)"]]) (use 1 c in simp_all)
  qed (use c in \<open>auto intro!: parsed_ret\<close>)
qed

lemma parse_pipeline:
  assumes s: "0 \<notin> set s" and p: "p \<le> length s" and pre: "part_pre s Pipeline" and below: "parsed_below s p Pipeline"
  shows "parsed s p (part_post Pipeline) (parse Pipeline s p)"
proof -
  note IH = parsed_belowD [OF below]
  show ?thesis proof (subst parse.simps, simp only: syntax_part.case, rule parsed_bind [OF IH], goal_cases)
    case (5 c p1)
    note c = 5
    show ?case
    proof (rule parsed_peek [OF s], goal_cases)
      case (2 t q eq p3)
      show ?case
        by (rule parsed_bind [OF IH [of p3 Pipeline]]) (use c 2 in \<open>auto intro!: parsed_ret\<close>)
    qed (use c in \<open>auto intro!: parsed_ret\<close>)
  qed (use p in simp_all)
qed

lemma parse_redirs:
  assumes s: "0 \<notin> set s" and p: "p \<le> length s" and pre: "part_pre s (Redirs c)" and below: "parsed_below s p (Redirs c)"
  shows "parsed s p (part_post (Redirs c)) (parse (Redirs c) s p)"
proof -
  note IH = parsed_belowD [OF below]
  have c: "cmd_wf s c" using pre by simp
  show ?thesis proof (subst parse.simps, simp only: syntax_part.case, rule parsed_peek [OF s p], goal_cases)
    case (1 tok _ _ p2)
    obtain t q eq p3 where g: "gettoken s p2 = (t, q, eq, p3)" by (metis prod_cases4)
    note b = gettoken_bounds [OF s 1(2) g]
    have "parsed s p3 (part_post (Redirs c)) (parse (Redirs (redircmd tok c q eq)) s p3)" if "t = ascii CHR ''a''"
      by (rule parsed_weaken [OF IH [of p3 "Redirs (redircmd tok c q eq)"]])
        (use redircmd_wf [OF c b(7) [OF that]] b 1 in simp_all)
    then show ?case using g b(1-3) by (auto intro: parsed_later)
  qed (use c in \<open>auto intro!: parsed_ret\<close>)
qed

lemma parse_block:
  assumes s: "0 \<notin> set s" and p: "p \<le> length s" and pre: "part_pre s Block" and below: "parsed_below s p Block"
  shows "parsed s p (part_post Block) (parse Block s p)"
proof -
  note IH = parsed_belowD [OF below]
  show ?thesis proof (subst parse.simps, simp only: syntax_part.case if_not_P if_P not_not cong: if_cong, subst if_not_swap,
      rule parsed_peek [OF s p], goal_cases)
    case (1 _ _ _ p2)
    note a = 1
    show ?case
    proof (rule parsed_bind [OF IH [of p2 Line]], goal_cases)
      case (5 c p3)
      note c = 5
      show ?case
      proof (subst if_not_swap, rule parsed_peek [OF s], goal_cases)
        case (2 _ _ _ p4)
        show ?case by (rule parsed_weaken [OF IH [of p4 "Redirs c"]]) (use a c 2 in simp_all)
      qed (use c in simp_all)
    qed (use a in simp_all)
  qed simp
qed

lemma parse_simple:
  assumes s: "0 \<notin> set s" and p: "p \<le> length s" and pre: "part_pre s Simple" and below: "parsed_below s p Simple"
  shows "parsed s p (part_post Simple) (parse Simple s p)"
proof -
  note IH = parsed_belowD [OF below]
  obtain b p1 where b: "peek s p ''('' = (b, p1)" by fastforce
  note p1 = peek_bounds [OF s p b]
  have "parsed s p1 (part_post Simple) (parse Block s p1)"
    by (rule parsed_weaken [OF IH]) (use p1 in simp_all)
  moreover have "parsed s p1 (part_post Simple) (pbind (parse (Redirs (EXEC [])) s p1) (\<lambda>c p. parse (Args c 0) s p))"
  proof (rule parsed_bind [OF IH [of p1 "Redirs (EXEC [])"]], goal_cases)
    case (5 c p2)
    then show ?case by (intro parsed_weaken [OF IH]) (use p1 in simp_all)
  qed (use p1 in \<open>simp_all add: MAXARGS_def\<close>)
  ultimately show ?thesis using b p1(1) by (subst parse.simps) (auto intro: parsed_later)
qed

lemma parse_args:
  assumes s: "0 \<notin> set s" and p: "p \<le> length s" and pre: "part_pre s (Args c n)" and below: "parsed_below s p (Args c n)"
  shows "parsed s p (part_post (Args c n)) (parse (Args c n) s p)"
proof -
  note IH = parsed_belowD [OF below]
  have c: "cmd_wf s c" "nargs c = Some n" using pre by simp_all
  obtain b p1 where b: "peek s p ''|)&;'' = (b, p1)" by fastforce
  obtain tok q eq p2 where g: "gettoken s p1 = (tok, q, eq, p2)" by (metis prod_cases4)
  note p1 = peek_bounds [OF s p b] and g2 = gettoken_bounds [OF s peek_bounds(2) [OF s p b] g]
  have "parsed s p2 (part_post (Args c n)) (pbind (parse (Redirs (add_arg c (q, eq))) s p2) (\<lambda>c p. parse (Args c (n + 1)) s p))"
    if tok: "tok = ascii CHR ''a''" "n + 1 < MAXARGS"
  proof -
    note w = add_arg_wf [OF c g2(7) [OF tok(1)] tok(2)] and lt = g2(7) [OF tok(1)]
    have "p < p2" using lt p1(1) g2(1,3) by (simp add: tok_ok_def)
    show ?thesis
    proof (rule parsed_bind [OF IH [of p2 "Redirs (add_arg c (q, eq))"]], goal_cases)
      case (5 d p3)
      then show ?case by (intro parsed_weaken [OF IH]) (use w \<open>p < p2\<close> in simp_all)
    qed (use w g2 \<open>p < p2\<close> in simp_all)
  qed
  then show ?thesis using b g p1 g2 c by (subst parse.simps) (auto intro!: parsed_ret intro: parsed_later)
qed

lemma parse_parsed:
  assumes s: "0 \<notin> set s"
  shows "p \<le> length s \<Longrightarrow> part_pre s part \<Longrightarrow> parsed s p (part_post part) (parse part s p)"
proof (induction "6 * (length s - p) + part_rank part" arbitrary: p part rule: less_induct)
  case less
  have "parsed_below s p part" unfolding parsed_below_def
  proof (intro allI impI less.hyps)
    fix p' part'
    assume "p \<le> p'" "p' \<le> length s" "p < p' \<or> part_rank part' < part_rank part"
    moreover have "part_rank part' \<le> 5" by (cases part') simp_all
    ultimately show "6 * (length s - p') + part_rank part' < 6 * (length s - p) + part_rank part" by auto
  qed
  note * = s less.prems(1) less.prems(2) this
  show ?case
    using parse_line parse_backs parse_pipeline parse_redirs parse_block parse_simple parse_args *
    by (cases part) simp_all
qed

text \<open>The words of a command: in the line, and as strings in the terminated buffer.\<close>

datatype command =
    Exec "u8 list list"
  | Redir command "u8 list" u32 int
  | Pipe command command
  | Seq command command
  | Back command

definition slice :: "u8 list \<Rightarrow> nat \<times> nat \<Rightarrow> u8 list" where
  "slice s a = (case a of (q, eq) \<Rightarrow> take (eq - q) (drop q s))"

fun with_words :: "(nat \<times> nat \<Rightarrow> u8 list) \<Rightarrow> cmd \<Rightarrow> command" where
  "with_words f (EXEC as) = Exec (map f as)"
| "with_words f (REDIR c q eq mode fd) = Redir (with_words f c) (f (q, eq)) mode fd"
| "with_words f (PIPE l r) = Pipe (with_words f l) (with_words f r)"
| "with_words f (LIST l r) = Seq (with_words f l) (with_words f r)"
| "with_words f (BACK c) = Back (with_words f c)"

definition string_at :: "u8 list \<Rightarrow> nat \<times> nat \<Rightarrow> u8 list" where
  "string_at buf a = cstring (drop (fst a) buf)"

fun ends :: "cmd \<Rightarrow> nat set" where
  "ends (EXEC as) = snd ` set as"
| "ends (REDIR c q eq mode fd) = insert eq (ends c)"
| "ends (PIPE l r) = ends l \<union> ends r"
| "ends (LIST l r) = ends l \<union> ends r"
| "ends (BACK c) = ends c"

lemma fold_zeros:
  "length (fold (\<lambda>(q, eq) b. b[eq := 0]) as buf) = length buf"
  "i < length buf \<Longrightarrow> fold (\<lambda>(q, eq) b. b[eq := 0]) as buf ! i = (if i \<in> snd ` set as then 0 else buf ! i)"
  by (induction as arbitrary: buf) (auto simp: nth_list_update split: prod.splits)

lemma length_nulterminate [simp]: "length (nulterminate c buf) = length buf"
  by (induction c arbitrary: buf) (simp_all add: fold_zeros)

lemma nulterminate_nth: "i < length buf \<Longrightarrow> nulterminate c buf ! i = (if i \<in> ends c then 0 else buf ! i)"
proof (induction c arbitrary: buf)
  case (REDIR c q eq mode fd)
  then show ?case by (cases "eq < length buf") (auto simp: nth_list_update)
qed (simp_all add: fold_zeros)

text \<open>The ends of words are delimiters, so no word is cut.\<close>

lemma wf_ends: "cmd_wf s c \<Longrightarrow> e \<in> ends c \<Longrightarrow> e \<le> length s \<and> (e < length s \<longrightarrow> is_space (s ! e) \<or> is_symbol (s ! e))"
  by (induction c) (auto simp: tok_ok_def)

lemma takeWhile_drop:
  assumes "q \<le> eq" "eq < length buf" "buf ! eq = 0" "\<And>i. q \<le> i \<Longrightarrow> i < eq \<Longrightarrow> buf ! i \<noteq> 0"
  shows "takeWhile (\<lambda>c. c \<noteq> 0) (drop q buf) = take (eq - q) (drop q buf)"
proof (rule takeWhile_eq_take_P_nth)
  fix i assume "i < eq - q" "i < length (drop q buf)"
  then show "drop q buf ! i \<noteq> 0" using assms(4) [of "q + i"] by simp
next
  assume "eq - q < length (drop q buf)"
  then show "\<not> drop q buf ! (eq - q) \<noteq> 0" using assms(1-3) by simp
qed

lemma string_at_slice:
  assumes s: "0 \<notin> set s" and a: "tok_ok s (q, eq)" and wf: "cmd_wf s c" and e: "eq \<in> ends c"
  shows "string_at (nulterminate c (s @ [0])) (q, eq) = slice s (q, eq)"
proof -
  let ?b = "nulterminate c (s @ [0])"
  have t: "q < eq" "eq \<le> length s" "\<And>i. q \<le> i \<Longrightarrow> i < eq \<Longrightarrow> \<not> is_space (s ! i) \<and> \<not> is_symbol (s ! i)"
    using a by (auto simp: tok_ok_def)
  have same: "?b ! i = s ! i" if "q \<le> i" "i < eq" for i
  proof -
    have "i \<notin> ends c" using wf_ends [OF wf, of i] t(2,3) that by auto
    then show ?thesis using that t(2) by (simp add: nulterminate_nth nth_append)
  qed
  then have "?b ! i \<noteq> 0" if "q \<le> i" "i < eq" for i using that s t(2) by (metis nth_mem order.strict_trans2)
  then have "string_at ?b (q, eq) = take (eq - q) (drop q ?b)"
    using takeWhile_drop [of q eq ?b] t e by (simp add: string_at_def nulterminate_nth)
  also have "\<dots> = slice s (q, eq)"
    using same t by (intro nth_equalityI) (simp_all add: slice_def nulterminate_nth)
  finally show ?thesis .
qed

lemma with_words_terminated:
  assumes s: "0 \<notin> set s" and wf: "cmd_wf s c"
  shows "cmd_wf s d \<Longrightarrow> ends d \<subseteq> ends c \<Longrightarrow>
    with_words (string_at (nulterminate c (s @ [0]))) d = with_words (slice s) d"
proof (induction d)
  case (EXEC as)
  then show ?case using string_at_slice [OF s _ wf] by (auto intro!: map_cong)
next
  case (REDIR d q eq mode fd)
  then show ?case using string_at_slice [OF s _ wf, of q eq] by auto
qed auto

text \<open>C27. The parser of the shell ends on every line: \<^verbatim>\<open>parsecmd\<close> returns a command or panics, for
  all inputs, although its functions call one another recursively and loop over tokens.\<close>

theorem parsecmd_returns:
  assumes "0 \<notin> set s"
  shows "\<exists>r. parsecmd s = Some r"
proof -
  have "parsed s 0 (part_post Line) (parse Line s 0)" using parse_parsed [OF assms, of 0 Line] by simp
  then show ?thesis by (auto simp: parsed_def parsecmd_def split: prod.splits)
qed

theorem parsecmd_returns_witness: "\<exists>r. parsecmd (map ascii ''(ls;(ls'') = Some r"
  by (rule parsecmd_returns) (simp add: ascii_def)

lemma parsecmd_sound:
  assumes "0 \<notin> set s" and "parsecmd s = Some (Inr (c, buf))"
  shows "cmd_wf s c \<and> with_words (string_at buf) c = with_words (slice s) c"
proof -
  have "parsed s 0 (part_post Line) (parse Line s 0)" using parse_parsed [OF assms(1), of 0 Line] by simp
  then have wf: "cmd_wf s c" and buf: "buf = nulterminate c (s @ [0])"
    using assms(2) by (auto simp: parsed_def parsecmd_def split: prod.splits if_splits)
  then show ?thesis using with_words_terminated [OF assms(1) wf wf] by simp
qed

text \<open>C28. The commands that the parser builds are well formed: every simple command has fewer than
  \<^verbatim>\<open>MAXARGS\<close> arguments, every argument and file name is a whole word of the line, and redirections
  have one of the three modes. The words are NUL-terminated in the buffer that is handed to
  \<^verbatim>\<open>runcmd\<close>, so what \<^verbatim>\<open>exec\<close> and \<^verbatim>\<open>open\<close> get are exactly the words of the line.\<close>

theorem parsecmd_wf:
  assumes "0 \<notin> set s" and "parsecmd s = Some (Inr (c, buf))"
  shows "cmd_wf s c \<and> with_words (string_at buf) c = with_words (slice s) c"
  by (rule parsecmd_sound [OF assms])

subsection \<open>Printing and parsing\<close>

definition word_ok :: "u8 list \<Rightarrow> bool" where
  "word_ok w \<longleftrightarrow> w \<noteq> [] \<and> (\<forall>c \<in> set w. c \<noteq> 0 \<and> \<not> is_space c \<and> \<not> is_symbol c)"

fun command_ok :: "command \<Rightarrow> bool" where
  "command_ok (Exec ws) \<longleftrightarrow> length ws < MAXARGS \<and> (\<forall>w \<in> set ws. word_ok w)"
| "command_ok (Redir c f mode fd) \<longleftrightarrow> command_ok c \<and> word_ok f \<and> (mode, fd) \<in> redir_modes"
| "command_ok (Pipe l r) \<longleftrightarrow> command_ok l \<and> command_ok r"
| "command_ok (Seq l r) \<longleftrightarrow> command_ok l \<and> command_ok r"
| "command_ok (Back c) \<longleftrightarrow> command_ok c"

definition redir_sign :: "u32 \<Rightarrow> string" where
  "redir_sign mode = (if mode = O_RDONLY then ''<'' else if mode = (O_WRONLY OR O_CREATE) then ''>>'' else ''>'')"

definition spaced :: "u8 list \<Rightarrow> u8 list" where
  "spaced w = w @ [32]"

datatype level = LLine | LBack | LPipe | LSimple

fun level_rank :: "level \<Rightarrow> nat" where
  "level_rank LLine = 3"
| "level_rank LBack = 2"
| "level_rank LPipe = 1"
| "level_rank LSimple = 0"

text \<open>A command as text, with parentheses where a part does not fit its place.\<close>

function (sequential) show_at :: "level \<Rightarrow> command \<Rightarrow> u8 list" where
  "show_at LLine (Seq a b) = show_at LBack a @ str '';'' @ show_at LLine b"
| "show_at LLine c = show_at LBack c"
| "show_at LBack (Back c) = show_at LBack c @ str ''&''"
| "show_at LBack c = show_at LPipe c"
| "show_at LPipe (Pipe a b) = show_at LSimple a @ str ''|'' @ show_at LPipe b"
| "show_at LPipe c = show_at LSimple c"
| "show_at LSimple (Exec ws) = concat (map spaced ws)"
| "show_at LSimple (Redir c f mode fd) = show_at LSimple c @ str (redir_sign mode) @ spaced f"
| "show_at LSimple (Seq a b) = str ''('' @ show_at LBack a @ str '';'' @ show_at LLine b @ str '')''"
| "show_at LSimple (Back c) = str ''('' @ show_at LBack c @ str ''&'' @ str '')''"
| "show_at LSimple (Pipe a b) = str ''('' @ show_at LSimple a @ str ''|'' @ show_at LPipe b @ str '')''"
  by pat_completeness auto
termination
  by (relation "measures [\<lambda>(l, c). size c, \<lambda>(l, c). level_rank l]") auto

definition nonspace :: "u8 list \<Rightarrow> bool" where
  "nonspace r \<longleftrightarrow> r = [] \<or> \<not> is_space (hd r)"

definition follow :: "string \<Rightarrow> u8 list \<Rightarrow> bool" where
  "follow F r \<longleftrightarrow> r = [] \<or> hd r \<in> set (map ascii F)"

lemma is_space_sets: "is_space c \<longleftrightarrow> c \<in> {32, 9, 13, 10, 11}" "is_symbol c \<longleftrightarrow> c \<in> {60, 124, 62, 38, 59, 40, 41}"
  by (auto simp: is_space_def whitespace_def is_symbol_def sh_symbols_def ascii_def)

lemma follow_nonspace: "follow F r \<Longrightarrow> \<forall>c \<in> set F. \<not> is_space (ascii c) \<Longrightarrow> nonspace r"
  by (auto simp: follow_def nonspace_def)

lemma at_here [simp]: "at (pre @ r) (length pre) = (if r = [] then 0 else hd r)"
  by (simp add: at_def nth_append hd_conv_nth)

lemma skip_here: "nonspace r \<Longrightarrow> skip_space (pre @ r) (length pre) = length pre"
  by (subst skip_space.simps) (auto simp: nonspace_def strchr_sets nth_append hd_conv_nth)

lemma skip_one: "nonspace r \<Longrightarrow> skip_space (pre @ 32 # r) (length pre) = length pre + 1"
  using skip_here [of r "pre @ [32]"]
  by (subst skip_space.simps) (simp add: strchr_sets is_space_sets)

lemma skip_word_here:
  assumes "\<forall>c \<in> set w. \<not> is_space c \<and> \<not> is_symbol c" and "r = [] \<or> is_space (hd r) \<or> is_symbol (hd r)"
  shows "skip_word (pre @ w @ r) (length pre) = length pre + length w"
  using assms(1)
proof (induction w arbitrary: pre)
  case Nil
  then show ?case using assms(2)
    by (subst skip_word.simps) (auto simp: strchr_sets nth_append hd_conv_nth)
next
  case (Cons c w)
  then show ?case using Cons.IH [of "pre @ [c]"]
    by (subst skip_word.simps) (simp add: strchr_sets)
qed

lemma peek_here:
  assumes "nonspace r"
  shows "peek (pre @ r) (length pre) toks = (r \<noteq> [] \<and> hd r \<noteq> 0 \<and> hd r \<in> set (map ascii toks), length pre)"
  using skip_here [OF assms, of pre] by (auto simp: peek_def Let_def strchr_iff)

lemma token_word:
  assumes "word_ok w" and "nonspace r"
  shows "gettoken (pre @ spaced w @ r) (length pre) =
    (ascii CHR ''a'', length pre, length pre + length w, length pre + length w + 1)"
proof -
  have w: "w \<noteq> []" "hd w \<noteq> 0" "\<not> is_space (hd w)" "\<not> is_symbol (hd w)"
    and all: "\<forall>c \<in> set w. \<not> is_space c \<and> \<not> is_symbol c" using assms(1) by (auto simp: word_ok_def)
  let ?s = "pre @ w @ 32 # r"
  have "skip_space ?s (length pre) = length pre" using w by (intro skip_here) (simp add: nonspace_def)
  moreover have "skip_word ?s (length pre) = length pre + length w"
    by (rule skip_word_here [OF all]) (simp add: is_space_sets)
  moreover have "skip_space ?s (length pre + length w) = length pre + length w + 1"
    using skip_one [OF assms(2), of "pre @ w"] by simp
  ultimately show ?thesis
    using w by (simp add: gettoken_def Let_def spaced_def is_symbol_def sh_symbols_def ascii_def)
qed

lemma token_symbol:
  assumes "c \<in> set (map ascii ''|();&<'')" and "nonspace r"
  shows "gettoken (pre @ c # r) (length pre) = (c, length pre, length pre + 1, length pre + 1)"
proof -
  have c: "\<not> is_space c" "c \<noteq> 0" using assms(1) by (auto simp: is_space_sets ascii_def)
  have "skip_space (pre @ c # r) (length pre) = length pre" using c by (intro skip_here) (simp add: nonspace_def)
  moreover have "skip_space (pre @ c # r) (length pre + 1) = length pre + 1"
    using skip_here [OF assms(2), of "pre @ [c]"] by simp
  ultimately show ?thesis using c assms(1) by (simp add: gettoken_def Let_def)
qed

lemma token_end: "gettoken pre (length pre) = (0, length pre, length pre, length pre)"
  using skip_here [of "[]" pre] at_here [of pre "[]"] by (simp add: gettoken_def nonspace_def Let_def)

text \<open>A redirection in the line.\<close>

lemma token_redir:
  assumes m: "(mode, fd) \<in> redir_modes" and r: "nonspace r" "r \<noteq> []" "hd r \<noteq> ascii CHR ''>''"
  shows "\<exists>tok q eq. gettoken (pre @ str (redir_sign mode) @ r) (length pre) = (tok, q, eq, length pre + length (redir_sign mode))
    \<and> (\<forall>c q eq. redircmd tok c q eq = REDIR c q eq mode fd)"
proof -
  let ?s = "\<lambda>t. pre @ t @ r"
  have sk: "skip_space (?s t) (length pre + length t) = length pre + length t" for t
    using skip_here [OF r(1), of "pre @ t"] by simp
  have st: "skip_space (?s (c # t)) (length pre) = length pre" if "\<not> is_space c" for c t
    using that by (intro skip_here) (simp add: nonspace_def)
  have a: "at (?s [x]) (Suc (length pre)) = hd r" for x using at_here [of "pre @ [x]" r] r(2) by simp
  have modes: "O_WRONLY OR O_CREATE OR O_TRUNC \<noteq> O_RDONLY" "O_WRONLY OR O_CREATE \<noteq> O_RDONLY"
    "O_WRONLY OR O_CREATE OR O_TRUNC \<noteq> (O_WRONLY OR O_CREATE)"
    by (simp_all add: O_WRONLY_def O_CREATE_def O_TRUNC_def O_RDONLY_def)
  show ?thesis
    using m r(3) sk [of "[60]"] sk [of "[62]"] sk [of "[62, 62]"] st [of 60 "[]"] st [of 62 "[]"] st [of 62 "[62]"] a [of 62] modes
      at_here [of "pre @ [62]" "62 # r"]
    by (auto simp: redir_modes_def redir_sign_def str_def ascii_def gettoken_def redircmd_def Let_def is_space_sets)
qed

definition redir_text :: "u8 list \<times> u32 \<times> int \<Rightarrow> u8 list" where
  "redir_text x = (case x of (f, mode, fd) \<Rightarrow> str (redir_sign mode) @ spaced f)"

lemma redir_text_eq: "redir_text (f, mode, fd) = str (redir_sign mode) @ spaced f"
  by (simp add: redir_text_def)

definition redirs_on :: "command \<Rightarrow> (u8 list \<times> u32 \<times> int) list \<Rightarrow> command" where
  "redirs_on c rs = foldl (\<lambda>c (f, mode, fd). Redir c f mode fd) c rs"

definition redir_ok :: "u8 list \<times> u32 \<times> int \<Rightarrow> bool" where
  "redir_ok x \<longleftrightarrow> (case x of (f, mode, fd) \<Rightarrow> word_ok f \<and> (mode, fd) \<in> redir_modes)"

definition yields :: "u8 list \<Rightarrow> nat \<Rightarrow> command \<Rightarrow> presult \<Rightarrow> bool" where
  "yields s q c m \<longleftrightarrow> (\<exists>d. m = Some (Inr (d, q)) \<and> with_words (slice s) d = c)"

lemma slice_here: "slice (pre @ w @ r) (length pre, length pre + length w) = w"
  by (simp add: slice_def)

lemma redirs_stop:
  assumes "nonspace r" and "r = [] \<or> hd r \<notin> set (map ascii ''<>'')"
  shows "parse (Redirs d) (pre @ r) (length pre) = Some (Inr (d, length pre))"
  using assms by (subst parse.simps) (auto simp: peek_here pret_def)

lemma redir_start:
  assumes "redir_ok x"
  shows "nonspace (redir_text x @ r)" "hd (redir_text x @ r) \<in> set (map ascii ''<>'')" "redir_text x \<noteq> []"
  using assms by (auto simp: redir_ok_def redir_text_def redir_sign_def nonspace_def str_def is_space_sets ascii_def
    split: prod.splits)

lemma parse_redir_texts:
  assumes "nonspace r" and "r = [] \<or> hd r \<notin> set (map ascii ''<>'')"
  shows "\<forall>x \<in> set rs. redir_ok x \<Longrightarrow> s = pre @ concat (map redir_text rs) @ r \<Longrightarrow>
    yields s (length pre + length (concat (map redir_text rs))) (redirs_on (with_words (slice s) d) rs) (parse (Redirs d) s (length pre))"
proof (induction rs arbitrary: d pre)
  case Nil
  then show ?case using redirs_stop [OF assms] by (simp add: yields_def redirs_on_def)
next
  case (Cons x rs)
  obtain f mode fd where x: "x = (f, mode, fd)" by (cases x)
  let ?rest = "concat (map redir_text rs) @ r"
  have ok: "word_ok f" "(mode, fd) \<in> redir_modes" using Cons.prems(1) by (simp_all add: x redir_ok_def)
  have ns: "nonspace ?rest" using Cons.prems(1) redir_start(1) assms(1) by (cases rs) auto
  let ?p1 = "pre @ str (redir_sign mode)"
  have s: "s = ?p1 @ spaced f @ ?rest" "s = pre @ (redir_text x @ ?rest)"
    using Cons.prems(2) by (simp_all add: x redir_text_eq)
  have f: "nonspace (spaced f @ ?rest)" "spaced f @ ?rest \<noteq> []" "hd (spaced f @ ?rest) \<noteq> ascii CHR ''>''"
    using ok(1) by (auto simp: word_ok_def nonspace_def spaced_def is_space_sets ascii_def)
  obtain tok q eq where g: "gettoken s (length pre) = (tok, q, eq, length ?p1)"
    and tok: "\<And>c q eq. redircmd tok c q eq = REDIR c q eq mode fd"
    using token_redir [OF ok(2) f, of pre] s(1) by (auto simp: str_def)
  have g2: "gettoken s (length ?p1) = (ascii CHR ''a'', length ?p1, length ?p1 + length f, length ?p1 + length f + 1)"
    using token_word [OF ok(1) ns, of ?p1] s(1) by simp
  have pk: "peek s (length pre) ''<>'' = (True, length pre)"
    using peek_here [of "redir_text x @ ?rest" pre "''<>''"] redir_start(1,2) [of x ?rest] redir_start(3) [of x] Cons.prems(1)
    unfolding s(2) by (auto simp: ascii_def)
  let ?d = "REDIR d (length ?p1) (length ?p1 + length f) mode fd"
  have "parse (Redirs d) s (length pre) = parse (Redirs ?d) s (length (pre @ redir_text x))"
    using pk g g2 tok by (subst parse.simps) (simp add: x redir_text_eq spaced_def str_def add.assoc)
  moreover have "with_words (slice s) ?d = Redir (with_words (slice s) d) f mode fd"
    using slice_here [of ?p1 f "32 # ?rest"] s(1) by (simp add: spaced_def)
  moreover have "s = (pre @ redir_text x) @ ?rest" using s(2) by simp
  ultimately show ?case
    using Cons.IH [of "pre @ redir_text x" ?d] Cons.prems(1) by (simp add: x redirs_on_def add.assoc)
qed

text \<open>The arguments of a simple command, and the redirections behind the last.\<close>

lemma args_stop:
  assumes "follow ''|)&;'' r"
  shows "parse (Args d n) (pre @ r) (length pre) = Some (Inr (d, length pre))"
proof (cases "r = []")
  case True
  have "peek pre (length pre) ''|)&;'' = (False, length pre)" using peek_here [of "[]" pre] by (simp add: nonspace_def)
  then show ?thesis using True token_end [of pre] by (subst parse.simps) (simp add: pret_def)
next
  case False
  then have "nonspace r" "hd r \<noteq> 0" "hd r \<in> set (map ascii ''|)&;'')"
    using assms by (auto simp: follow_def nonspace_def is_space_sets ascii_def)
  then have "peek (pre @ r) (length pre) ''|)&;'' = (True, length pre)" using peek_here False by simp
  then show ?thesis by (subst parse.simps) (simp add: pret_def)
qed

lemma word_start:
  assumes "word_ok w"
  shows "nonspace (spaced w @ r)" "spaced w @ r \<noteq> []" "\<not> is_symbol (hd (spaced w @ r))" "hd (spaced w @ r) \<noteq> 0"
  using assms by (auto simp: word_ok_def nonspace_def spaced_def)

lemma symbol_sets: "c \<in> set (map ascii ''<>'') \<Longrightarrow> is_symbol c" "c \<in> set (map ascii ''|)&;'') \<Longrightarrow> is_symbol c"
  "c \<in> set (map ascii ''('') \<Longrightarrow> is_symbol c"
  by (auto simp: is_space_sets ascii_def)

lemma parse_args_texts:
  assumes fw: "follow ''|)&;'' r" and rs: "\<forall>x \<in> set rs. redir_ok x"
  shows "\<forall>w \<in> set ws. word_ok w \<Longrightarrow> (ws = [] \<longrightarrow> rs = []) \<Longrightarrow> n + length ws < MAXARGS \<Longrightarrow>
    s = pre @ concat (map spaced ws) @ concat (map redir_text rs) @ r \<Longrightarrow>
    yields s (length (pre @ concat (map spaced ws) @ concat (map redir_text rs)))
      (redirs_on (Exec (map (slice s) as @ ws)) rs) (parse (Args (EXEC as) n) s (length pre))"
proof (induction ws arbitrary: as n pre)
  case Nil
  then show ?case using args_stop [OF fw, of "EXEC as" n pre] by (simp add: yields_def redirs_on_def)
next
  case (Cons w ws)
  let ?R = "concat (map redir_text rs)" and ?W = "concat (map spaced ws)"
  let ?rest = "?W @ ?R @ r" and ?p1 = "pre @ spaced w" and ?a = "(length pre, length pre + length w)"
  have w: "word_ok w" using Cons.prems(1) by simp
  have r: "nonspace r" "r = [] \<or> hd r \<notin> set (map ascii ''<>'')"
    using fw by (auto simp: follow_def nonspace_def is_space_sets ascii_def)
  have R: "nonspace (?R @ r)" using r(1) rs redir_start(1) by (cases rs) auto
  have ns: "nonspace ?rest" using R word_start(1) Cons.prems(1) by (cases ws) auto
  have s: "s = pre @ spaced w @ ?rest" using Cons.prems(4) by simp
  have pk: "peek s (length pre) ''|)&;'' = (False, length pre)"
    using peek_here [OF word_start(1) [OF w], of pre ?rest] word_start [OF w, of ?rest] symbol_sets(2) s by auto
  have g: "gettoken s (length pre) = (ascii CHR ''a'', length pre, length pre + length w, length ?p1)"
    using token_word [OF w ns, of pre] s by (simp add: spaced_def add.assoc)
  have sl: "slice s ?a = w" using slice_here [of pre w "32 # ?rest"] s by (simp add: spaced_def)
  have run: "parse (Args (EXEC as) n) s (length pre) =
      pbind (parse (Redirs (EXEC (as @ [?a]))) s (length ?p1)) (\<lambda>c p. parse (Args c (n + 1)) s p)"
    using pk g Cons.prems(3) by (subst parse.simps) (simp add: ascii_def)
  show ?case
  proof (cases "ws = []")
    case True
    have "s = ?p1 @ ?R @ r" using s True by simp
    from parse_redir_texts [OF r rs this, of "EXEC (as @ [?a])"] obtain d where
      d: "parse (Redirs (EXEC (as @ [?a]))) s (length ?p1) = Some (Inr (d, length ?p1 + length ?R))"
        "with_words (slice s) d = redirs_on (with_words (slice s) (EXEC (as @ [?a]))) rs"
      unfolding yields_def by (elim exE conjE) (rule that)
    have "parse (Args d (n + 1)) s (length ?p1 + length ?R) = Some (Inr (d, length ?p1 + length ?R))"
      using args_stop [OF fw, of d "n + 1" "?p1 @ ?R"] s True by (simp add: add.assoc)
    then show ?thesis unfolding run d(1) using d(2) sl True by (simp add: yields_def add.assoc)
  next
    case False
    then obtain v vs where "ws = v # vs" "word_ok v" using Cons.prems(1) by (cases ws) auto
    then have "\<not> is_symbol (hd ?rest)" using word_start(3) [of v] by simp
    then have "?rest = [] \<or> hd ?rest \<notin> set (map ascii ''<>'')" using symbol_sets(1) by blast
    from redirs_stop [OF ns this, of _ ?p1]
    have "parse (Redirs (EXEC (as @ [?a]))) s (length ?p1) = Some (Inr (EXEC (as @ [?a]), length ?p1))"
      using s by simp
    then have "parse (Args (EXEC as) n) s (length pre) = parse (Args (EXEC (as @ [?a])) (n + 1)) s (length ?p1)"
      unfolding run by simp
    moreover have "s = ?p1 @ ?W @ ?R @ r" using s by simp
    ultimately show ?thesis
      using Cons.IH [of "n + 1" ?p1 "as @ [?a]"] Cons.prems(1,3) False sl by simp
  qed
qed

text \<open>What it means that each of the parsing functions reads a printed command: on a line that goes on
  behind the text with a symbol that ends the piece of syntax, it returns the command and stops there.\<close>

definition simple_ok :: "command \<Rightarrow> bool" where
  "simple_ok c \<longleftrightarrow> (\<forall>pre rs r s. (\<forall>x \<in> set rs. redir_ok x) \<longrightarrow> follow ''|)&;'' r \<longrightarrow>
     s = pre @ show_at LSimple c @ concat (map redir_text rs) @ r \<longrightarrow>
     yields s (length (pre @ show_at LSimple c @ concat (map redir_text rs))) (redirs_on c rs) (parse Simple s (length pre)))"

definition pipe_ok :: "command \<Rightarrow> bool" where
  "pipe_ok c \<longleftrightarrow> (\<forall>pre r s. follow '')&;'' r \<longrightarrow> s = pre @ show_at LPipe c @ r \<longrightarrow>
     yields s (length (pre @ show_at LPipe c)) c (parse Pipeline s (length pre)))"

definition back_ok :: "command \<Rightarrow> bool" where
  "back_ok c \<longleftrightarrow> (\<forall>pre k r s. follow '');'' r \<longrightarrow> s = pre @ show_at LBack c @ replicate k 38 @ r \<longrightarrow>
     yields s (length (pre @ show_at LBack c @ replicate k (38 :: u8))) ((Back ^^ k) c)
       (pbind (parse Pipeline s (length pre)) (\<lambda>c p. parse (Backs c) s p)))"

definition line_ok :: "command \<Rightarrow> bool" where
  "line_ok c \<longleftrightarrow> (\<forall>pre r s. follow '')'' r \<longrightarrow> s = pre @ show_at LLine c @ r \<longrightarrow>
     yields s (length (pre @ show_at LLine c)) c (parse Line s (length pre)))"

lemma follow_more: "follow F r \<Longrightarrow> set F \<subseteq> set G \<Longrightarrow> follow G r"
  by (auto simp: follow_def)

lemma follow_nonspaces [simp]: "follow '')'' r \<Longrightarrow> nonspace r" "follow '');'' r \<Longrightarrow> nonspace r"
  "follow '')&;'' r \<Longrightarrow> nonspace r" "follow ''|)&;'' r \<Longrightarrow> nonspace r"
  by (auto simp: follow_def nonspace_def is_space_sets ascii_def)

lemma symbol_start [simp]: "nonspace (str '';'' @ r)" "nonspace (str ''&'' @ r)" "nonspace (str ''|'' @ r)"
  "nonspace (str ''('' @ r)" "nonspace (str '')'' @ r)"
  by (simp_all add: nonspace_def str_def is_space_sets ascii_def)

lemma show_start: "command_ok c \<Longrightarrow> nonspace r \<Longrightarrow> nonspace (show_at l c @ r)"
proof (induction l c arbitrary: r rule: show_at.induct)
  case (7 ws)
  then show ?case by (cases ws) (auto simp: word_start)
next
  case (8 c f mode fd)
  then have "nonspace (redir_text (f, mode, fd) @ r)" by (intro redir_start(1)) (simp add: redir_ok_def)
  then show ?case using 8 by (simp add: redir_text_eq)
qed (simp_all add: symbol_start)

lemma simple_okE:
  "simple_ok c \<Longrightarrow> \<forall>x \<in> set rs. redir_ok x \<Longrightarrow> follow ''|)&;'' r \<Longrightarrow>
    s = pre @ show_at LSimple c @ concat (map redir_text rs) @ r \<Longrightarrow>
    yields s (length (pre @ show_at LSimple c @ concat (map redir_text rs))) (redirs_on c rs) (parse Simple s (length pre))"
  by (simp only: simple_ok_def simp_thms)

lemma simple_okD:
  "simple_ok c \<Longrightarrow> follow ''|)&;'' r \<Longrightarrow>
    yields (pre @ show_at LSimple c @ r) (length (pre @ show_at LSimple c)) c (parse Simple (pre @ show_at LSimple c @ r) (length pre))"
  using simple_okE [of c "[]"] by (simp add: redirs_on_def)

lemma exec_simple:
  assumes ws: "\<forall>w \<in> set ws. word_ok w" "length ws < MAXARGS"
  shows "simple_ok (Exec ws)"
  unfolding simple_ok_def
proof (intro allI impI)
  fix pre rs r s
  assume rs: "\<forall>x \<in> set rs. redir_ok x" and fw: "follow ''|)&;'' r"
    and s0: "s = pre @ show_at LSimple (Exec ws) @ concat (map redir_text rs) @ r"
  let ?W = "concat (map spaced ws)" and ?R = "concat (map redir_text rs)"
  have s: "s = pre @ ?W @ ?R @ r" using s0 by simp
  have r: "nonspace r" "r = [] \<or> hd r \<notin> set (map ascii ''<>'')" "r = [] \<or> hd r \<noteq> ascii CHR ''(''"
    using fw by (auto simp: follow_def nonspace_def is_space_sets ascii_def)
  have R: "nonspace (?R @ r) \<and> (?R @ r = [] \<or> hd (?R @ r) \<noteq> ascii CHR ''('')"
  proof (cases rs)
    case (Cons x xs)
    then show ?thesis using redir_start(1,2) [of x "concat (map redir_text xs) @ r"] rs by (auto simp: ascii_def)
  qed (use r in simp)
  have start: "nonspace (?W @ ?R @ r) \<and> (?W @ ?R @ r = [] \<or> hd (?W @ ?R @ r) \<noteq> ascii CHR ''('')"
  proof (cases ws)
    case (Cons v vs)
    let ?r = "concat (map spaced vs) @ ?R @ r"
    have "nonspace (spaced v @ ?r)" "\<not> is_symbol (hd (spaced v @ ?r))" using ws(1) Cons word_start(1,3) by simp_all
    then show ?thesis using Cons symbol_sets(3) [of "hd (spaced v @ ?r)"] by auto
  qed (use R in simp)
  have pk: "peek s (length pre) ''('' = (False, length pre)" using start peek_here [of "?W @ ?R @ r" pre] s by auto
  have run: "parse Simple s (length pre) = pbind (parse (Redirs (EXEC [])) s (length pre)) (\<lambda>c p. parse (Args c 0) s p)"
    using pk by (subst parse.simps) simp
  show "yields s (length (pre @ show_at LSimple (Exec ws) @ ?R)) (redirs_on (Exec ws) rs) (parse Simple s (length pre))"
  proof (cases ws)
    case Nil
    then have "s = pre @ ?R @ r" using s by simp
    from parse_redir_texts [OF r(1,2) rs this, of "EXEC []"] obtain d where
      d: "parse (Redirs (EXEC [])) s (length pre) = Some (Inr (d, length pre + length ?R))"
        "with_words (slice s) d = redirs_on (with_words (slice s) (EXEC [])) rs"
      unfolding yields_def by (elim exE conjE) (rule that)
    have "parse (Args d 0) s (length pre + length ?R) = Some (Inr (d, length pre + length ?R))"
      using args_stop [OF fw, of d 0 "pre @ ?R"] s Nil by simp
    then show ?thesis unfolding run d(1) using d(2) Nil by (simp add: yields_def)
  next
    case (Cons v vs)
    then have "\<not> is_symbol (hd (?W @ ?R @ r))" using word_start(3) [of v] ws(1) by simp
    then have "?W @ ?R @ r = [] \<or> hd (?W @ ?R @ r) \<notin> set (map ascii ''<>'')" using symbol_sets(1) by blast
    from redirs_stop [OF conjunct1 [OF start] this, of "EXEC []" pre]
    have "parse Simple s (length pre) = parse (Args (EXEC []) 0) s (length pre)" using run s by simp
    then show ?thesis
      using parse_args_texts [OF fw rs ws(1) _ _ s, of 0 "[]"] ws(2) Cons by simp
  qed
qed

lemma redir_simple:
  assumes "simple_ok c" and "word_ok f" and "(mode, fd) \<in> redir_modes"
  shows "simple_ok (Redir c f mode fd)"
  unfolding simple_ok_def
proof (intro allI impI)
  fix pre rs r s
  assume a: "\<forall>x \<in> set rs. redir_ok x" "follow ''|)&;'' r"
    "s = pre @ show_at LSimple (Redir c f mode fd) @ concat (map redir_text rs) @ r"
  let ?rs = "(f, mode, fd) # rs"
  have "\<forall>x \<in> set ?rs. redir_ok x" "s = pre @ show_at LSimple c @ concat (map redir_text ?rs) @ r"
    using a assms by (simp_all add: redir_ok_def redir_text_eq)
  from simple_okE [OF assms(1) this(1) a(2) this(2)] show "yields s (length (pre @ show_at LSimple (Redir c f mode fd) @ concat (map redir_text rs)))
      (redirs_on (Redir c f mode fd) rs) (parse Simple s (length pre))"
    by (simp add: redirs_on_def redir_text_eq)
qed

lemma pipe_okE:
  "pipe_ok c \<Longrightarrow> follow '')&;'' r \<Longrightarrow> s = pre @ show_at LPipe c @ r \<Longrightarrow>
    yields s (length (pre @ show_at LPipe c)) c (parse Pipeline s (length pre))"
  by (simp only: pipe_ok_def simp_thms)

lemma back_okE:
  "back_ok c \<Longrightarrow> follow '');'' r \<Longrightarrow> s = pre @ show_at LBack c @ replicate k 38 @ r \<Longrightarrow>
    yields s (length (pre @ show_at LBack c @ replicate k (38 :: u8))) ((Back ^^ k) c)
      (pbind (parse Pipeline s (length pre)) (\<lambda>c p. parse (Backs c) s p))"
  by (simp only: back_ok_def simp_thms)

lemma line_okE:
  "line_ok c \<Longrightarrow> follow '')'' r \<Longrightarrow> s = pre @ show_at LLine c @ r \<Longrightarrow>
    yields s (length (pre @ show_at LLine c)) c (parse Line s (length pre))"
  by (simp only: line_ok_def simp_thms)

lemma yieldsE:
  assumes "yields s q c m"
  obtains d where "m = Some (Inr (d, q))" "with_words (slice s) d = c"
  using assms unfolding yields_def by (elim exE conjE) (rule that)

lemma yields_pret [simp]: "yields s q c (pret d p) \<longleftrightarrow> p = q \<and> with_words (slice s) d = c"
  by (auto simp: yields_def pret_def)

lemma peek_follow:
  assumes "follow F r" and "nonspace r" and "set (map ascii F) \<inter> set (map ascii toks) = {}" and "s = pre @ r"
  shows "peek s (length pre) toks = (False, length pre)"
  using peek_here [OF assms(2), of pre toks] assms(1,3,4) by (auto simp: follow_def)

lemma simple_pipe:
  assumes "simple_ok c" and eq: "show_at LPipe c = show_at LSimple c"
  shows "pipe_ok c"
  unfolding pipe_ok_def
proof (intro allI impI)
  fix pre r s
  assume r: "follow '')&;'' r" and s: "s = pre @ show_at LPipe c @ r"
  let ?p = "pre @ show_at LSimple c"
  have "follow ''|)&;'' r" using r by (rule follow_more) auto
  from yieldsE [OF simple_okD [OF assms(1) this, of pre]] obtain d
    where d: "parse Simple s (length pre) = Some (Inr (d, length ?p))" "with_words (slice s) d = c"
    using s eq by auto
  have "peek s (length ?p) ''|'' = (False, length ?p)"
    by (rule peek_follow [OF r]) (use r s eq in \<open>simp_all add: ascii_def\<close>)
  then show "yields s (length (pre @ show_at LPipe c)) c (parse Pipeline s (length pre))"
    using d eq by (subst parse.simps) simp
qed

lemma pipe_pipe:
  assumes a: "simple_ok a" and b: "pipe_ok b" "command_ok b"
  shows "pipe_ok (Pipe a b)"
  unfolding pipe_ok_def
proof (intro allI impI)
  fix pre r s
  assume r: "follow '')&;'' r" and s: "s = pre @ show_at LPipe (Pipe a b) @ r"
  let ?r = "show_at LPipe b @ r" and ?p = "pre @ show_at LSimple a"
  have s': "s = pre @ show_at LSimple a @ 124 # ?r" "s = ?p @ 124 # ?r" "s = (?p @ [124]) @ show_at LPipe b @ r"
    using s by (simp_all add: str_def ascii_def)
  have "follow ''|)&;'' (124 # ?r)" by (simp add: follow_def ascii_def)
  from yieldsE [OF simple_okD [OF a this, of pre]] obtain d
    where d: "parse Simple s (length pre) = Some (Inr (d, length ?p))" "with_words (slice s) d = a"
    using s' by auto
  have ns: "nonspace ?r" using show_start [OF b(2)] r by simp
  have pk: "peek s (length ?p) ''|'' = (True, length ?p)"
    using peek_here [of "124 # ?r" ?p "''|''"] s'(2) by (simp add: nonspace_def is_space_sets ascii_def)
  have g: "gettoken s (length ?p) = (124, length ?p, length ?p + 1, length (?p @ [124]))"
    using token_symbol [OF _ ns, of 124 ?p] s'(2) by (simp add: ascii_def)
  from yieldsE [OF pipe_okE [OF b(1) r s'(3)]] obtain e
    where e: "parse Pipeline s (length (?p @ [124])) = Some (Inr (e, length ((?p @ [124]) @ show_at LPipe b)))"
      "with_words (slice s) e = b" by auto
  have "parse Pipeline s (length pre) = pret (PIPE d e) (length ((?p @ [124]) @ show_at LPipe b))"
    using d(1) pk g e(1) by (subst parse.simps) (simp del: length_append)
  then show "yields s (length (pre @ show_at LPipe (Pipe a b))) (Pipe a b) (parse Pipeline s (length pre))"
    using d(2) e(2) by (simp add: str_def)
qed

lemma backs_run:
  assumes "follow '');'' r"
  shows "s = pre @ replicate k 38 @ r \<Longrightarrow>
    yields s (length pre + k) ((Back ^^ k) (with_words (slice s) d)) (parse (Backs d) s (length pre))"
proof (induction k arbitrary: pre d)
  case 0
  have "peek s (length pre) ''&'' = (False, length pre)"
    by (rule peek_follow [OF assms]) (use assms 0 in \<open>simp_all add: ascii_def\<close>)
  then show ?case by (subst parse.simps) simp
next
  case (Suc k)
  have s: "s = pre @ 38 # replicate k 38 @ r" "s = (pre @ [38]) @ replicate k 38 @ r" using Suc.prems by simp_all
  have ns: "nonspace (replicate k 38 @ r)"
    using follow_nonspaces(2) [OF assms] by (cases k) (simp_all add: nonspace_def is_space_sets)
  have pk: "peek s (length pre) ''&'' = (True, length pre)"
    using peek_here [of "38 # replicate k 38 @ r" pre "''&''"] s(1) by (simp add: nonspace_def is_space_sets ascii_def)
  have g: "gettoken s (length pre) = (38, length pre, length pre + 1, length (pre @ [38]))"
    using token_symbol [OF _ ns, of 38 pre] s(1) by (simp add: ascii_def)
  have "parse (Backs d) s (length pre) = parse (Backs (BACK d)) s (length (pre @ [38]))"
    using pk g by (subst parse.simps) (simp del: length_append)
  then show ?case using Suc.IH [OF s(2), of "BACK d"] by (simp add: funpow_swap1)
qed

lemma pipe_back:
  assumes "pipe_ok c" and eq: "show_at LBack c = show_at LPipe c"
  shows "back_ok c"
  unfolding back_ok_def
proof (intro allI impI)
  fix pre k r s
  assume r: "follow '');'' r" and s: "s = pre @ show_at LBack c @ replicate k 38 @ r"
  have f: "follow '')&;'' (replicate k 38 @ r)" using r by (cases k) (auto simp: follow_def ascii_def)
  have s': "s = pre @ show_at LPipe c @ replicate k 38 @ r" "s = (pre @ show_at LPipe c) @ replicate k 38 @ r"
    using s eq by simp_all
  from yieldsE [OF pipe_okE [OF assms(1) f s'(1)]] obtain d
    where d: "parse Pipeline s (length pre) = Some (Inr (d, length (pre @ show_at LPipe c)))" "with_words (slice s) d = c" .
  then show "yields s (length (pre @ show_at LBack c @ replicate k (38 :: u8))) ((Back ^^ k) c)
      (pbind (parse Pipeline s (length pre)) (\<lambda>c p. parse (Backs c) s p))"
    using backs_run [OF r s'(2), of d] eq by (simp add: add.assoc)
qed

lemma back_back:
  assumes "back_ok c"
  shows "back_ok (Back c)"
  unfolding back_ok_def
proof (intro allI impI)
  fix pre k r s
  assume r: "follow '');'' r" and s: "s = pre @ show_at LBack (Back c) @ replicate k 38 @ r"
  have "s = pre @ show_at LBack c @ replicate (Suc k) 38 @ r" using s by (simp add: str_def ascii_def)
  from back_okE [OF assms r this]
  show "yields s (length (pre @ show_at LBack (Back c) @ replicate k (38 :: u8))) ((Back ^^ k) (Back c))
      (pbind (parse Pipeline s (length pre)) (\<lambda>c p. parse (Backs c) s p))"
    by (simp add: str_def funpow_swap1)
qed

lemma pbind_assoc: "pbind (pbind m f) g = pbind m (\<lambda>c p. pbind (f c p) g)"
  by (cases m) (auto simp: pbind_def split: sum.split)

lemma line_split:
  "parse Line s p = pbind (pbind (parse Pipeline s p) (\<lambda>c p. parse (Backs c) s p)) (\<lambda>c p.
     case peek s p '';'' of (b, p) \<Rightarrow>
       if b then (case gettoken s p of (_, _, _, p) \<Rightarrow> pbind (parse Line s p) (\<lambda>d p. pret (LIST c d) p))
       else pret c p)"
  by (subst parse.simps) (simp only: pbind_assoc syntax_part.simps)

lemma back_line:
  assumes "back_ok c" and eq: "show_at LLine c = show_at LBack c"
  shows "line_ok c"
  unfolding line_ok_def
proof (intro allI impI)
  fix pre r s
  assume r: "follow '')'' r" and s: "s = pre @ show_at LLine c @ r"
  let ?p = "pre @ show_at LBack c"
  have f: "follow '');'' r" using r by (rule follow_more) auto
  have s': "s = pre @ show_at LBack c @ replicate 0 38 @ r" using s eq by simp
  from yieldsE [OF back_okE [OF assms(1) f s']] obtain d
    where d: "pbind (parse Pipeline s (length pre)) (\<lambda>c p. parse (Backs c) s p) = Some (Inr (d, length ?p))"
      "with_words (slice s) d = c" by auto
  have "peek s (length ?p) '';'' = (False, length ?p)"
    by (rule peek_follow [OF r]) (use r s eq in \<open>simp_all add: ascii_def\<close>)
  then have "parse Line s (length pre) = pret d (length ?p)"
    using d(1) line_split [of s "length pre"] by simp
  then show "yields s (length (pre @ show_at LLine c)) c (parse Line s (length pre))"
    using d(2) eq by simp
qed

lemma seq_line:
  assumes a: "back_ok a" and b: "line_ok b" "command_ok b"
  shows "line_ok (Seq a b)"
  unfolding line_ok_def
proof (intro allI impI)
  fix pre r s
  assume r: "follow '')'' r" and s: "s = pre @ show_at LLine (Seq a b) @ r"
  let ?r = "show_at LLine b @ r" and ?p = "pre @ show_at LBack a"
  have s': "s = pre @ show_at LBack a @ replicate 0 38 @ 59 # ?r" "s = ?p @ 59 # ?r" "s = (?p @ [59]) @ show_at LLine b @ r"
    using s by (simp_all add: str_def ascii_def)
  have f: "follow '');'' (59 # ?r)" by (simp add: follow_def ascii_def)
  from yieldsE [OF back_okE [OF a f s'(1)]] obtain d
    where d: "pbind (parse Pipeline s (length pre)) (\<lambda>c p. parse (Backs c) s p) = Some (Inr (d, length ?p))"
      "with_words (slice s) d = a" by auto
  have ns: "nonspace ?r" using show_start [OF b(2)] r by simp
  have pk: "peek s (length ?p) '';'' = (True, length ?p)"
    using peek_here [of "59 # ?r" ?p "'';''"] s'(2) by (simp add: nonspace_def is_space_sets ascii_def)
  have g: "gettoken s (length ?p) = (59, length ?p, length ?p + 1, length (?p @ [59]))"
    using token_symbol [OF _ ns, of 59 ?p] s'(2) by (simp add: ascii_def)
  from yieldsE [OF line_okE [OF b(1) r s'(3)]] obtain e
    where e: "parse Line s (length (?p @ [59])) = Some (Inr (e, length ((?p @ [59]) @ show_at LLine b)))"
      "with_words (slice s) e = b" by auto
  have "parse Line s (length pre) = pret (LIST d e) (length ((?p @ [59]) @ show_at LLine b))"
    using d(1) pk g e(1) line_split [of s "length pre"] by (simp del: length_append)
  then show "yields s (length (pre @ show_at LLine (Seq a b))) (Seq a b) (parse Line s (length pre))"
    using d(2) e(2) by (simp add: str_def)
qed

lemma line_simple:
  assumes c: "line_ok c" "command_ok c" and eq: "show_at LSimple c = str ''('' @ show_at LLine c @ str '')''"
  shows "simple_ok c"
  unfolding simple_ok_def
proof (intro allI impI)
  fix pre rs r s
  assume rs: "\<forall>x \<in> set rs. redir_ok x" and fw: "follow ''|)&;'' r"
    and s: "s = pre @ show_at LSimple c @ concat (map redir_text rs) @ r"
  let ?R = "concat (map redir_text rs)" and ?C = "show_at LLine c" and ?p = "pre @ [40]"
  let ?q = "?p @ ?C"
  have s': "s = pre @ 40 # ?C @ 41 # ?R @ r" "s = ?p @ ?C @ 41 # ?R @ r" "s = ?q @ 41 # ?R @ r" "s = (?q @ [41]) @ ?R @ r"
    using s eq by (simp_all add: str_def ascii_def)
  have r: "nonspace r" "r = [] \<or> hd r \<notin> set (map ascii ''<>'')"
    using fw by (auto simp: follow_def nonspace_def is_space_sets ascii_def)
  have R: "nonspace (?R @ r)" using r(1) rs redir_start(1) by (cases rs) auto
  have f: "follow '')'' (41 # ?R @ r)" by (simp add: follow_def ascii_def)
  have pk: "peek s (length pre) ''('' = (True, length pre)"
    using peek_here [of "40 # ?C @ 41 # ?R @ r" pre "''(''"] s'(1) by (simp add: nonspace_def is_space_sets ascii_def)
  have g: "gettoken s (length pre) = (40, length pre, length pre + 1, length ?p)"
    using token_symbol [OF _ show_start [OF c(2) follow_nonspaces(1) [OF f]], of 40 pre] s'(1) by (simp add: ascii_def)
  from yieldsE [OF line_okE [OF c(1) f s'(2)]] obtain d
    where d: "parse Line s (length ?p) = Some (Inr (d, length ?q))" "with_words (slice s) d = c" .
  have pk2: "peek s (length ?q) '')'' = (True, length ?q)"
    using peek_here [of "41 # ?R @ r" ?q "'')''"] s'(3) by (simp add: nonspace_def is_space_sets ascii_def)
  have g2: "gettoken s (length ?q) = (41, length ?q, length ?q + 1, length (?q @ [41]))"
    using token_symbol [OF _ R, of 41 ?q] s'(3) by (simp add: ascii_def)
  have "parse Block s (length pre) = parse (Redirs d) s (length (?q @ [41]))"
    using pk g d(1) pk2 g2 by (subst parse.simps) (simp del: length_append)
  moreover have "parse Simple s (length pre) = parse Block s (length pre)" using pk by (subst parse.simps) simp
  ultimately show "yields s (length (pre @ show_at LSimple c @ ?R)) (redirs_on c rs) (parse Simple s (length pre))"
    using parse_redir_texts [OF r rs s'(4), of d] d(2) eq by (simp add: str_def add.assoc)
qed

lemma commands_parse:
  "command_ok c \<Longrightarrow> simple_ok c \<and> pipe_ok c \<and> back_ok c \<and> line_ok c"
proof (induction c)
  case (Exec ws)
  then have "simple_ok (Exec ws)" by (simp add: exec_simple)
  then show ?case by (simp add: simple_pipe pipe_back back_line)
next
  case (Redir c f mode fd)
  then have "simple_ok (Redir c f mode fd)" by (simp add: redir_simple)
  then show ?case by (simp add: simple_pipe pipe_back back_line)
next
  case (Pipe a b)
  then have "pipe_ok (Pipe a b)" by (simp add: pipe_pipe)
  moreover from this have "line_ok (Pipe a b)" by (simp add: pipe_back back_line)
  ultimately show ?case using Pipe.prems by (simp add: line_simple pipe_back)
next
  case (Seq a b)
  then have "line_ok (Seq a b)" by (simp add: seq_line)
  moreover from this have "simple_ok (Seq a b)" using Seq.prems by (simp add: line_simple)
  ultimately show ?case by (simp add: simple_pipe pipe_back)
next
  case (Back c)
  then have b: "back_ok (Back c)" by (simp add: back_back)
  moreover from this have "line_ok (Back c)" by (simp add: back_line)
  moreover from this have "simple_ok (Back c)" using Back.prems by (simp add: line_simple)
  ultimately show ?case by (simp add: simple_pipe)
qed

lemma show_no_nul: "command_ok c \<Longrightarrow> 0 \<notin> set (show_at l c)"
  by (induction l c rule: show_at.induct)
    (auto simp: word_ok_def spaced_def str_def ascii_def redir_modes_def redir_sign_def)

lemma parsecmd_shown:
  assumes c: "command_ok c"
  shows "\<exists>d buf. parsecmd (show_at LLine c) = Some (Inr (d, buf)) \<and> with_words (slice (show_at LLine c)) d = c"
proof -
  let ?s = "show_at LLine c"
  have "line_ok c" using commands_parse [OF c] by simp
  from yieldsE [OF line_okE [OF this, of "[]" ?s "[]"]] obtain d
    where d: "parse Line ?s 0 = Some (Inr (d, length ?s))" "with_words (slice ?s) d = c" by (auto simp: follow_def)
  have "peek ?s (length ?s) '''' = (False, length ?s)" using peek_here [of "[]" ?s "''''"] by (simp add: nonspace_def)
  then show ?thesis using d by (simp add: parsecmd_def)
qed

text \<open>C25. The shell reads back what can be written down: for every command over words without white
  space, symbols and NULs, with fewer than \<^verbatim>\<open>MAXARGS\<close> arguments to each program, the line that prints
  it, with parentheses where the grammar needs them, is parsed without error, and the command that
  \<^verbatim>\<open>runcmd\<close> gets, whose words are the NUL-terminated strings in the buffer, is the one that was
  printed.\<close>

theorem parsecmd_roundtrip:
  assumes "command_ok c"
  shows "\<exists>d buf. parsecmd (show_at LLine c) = Some (Inr (d, buf)) \<and> with_words (string_at buf) d = c"
proof -
  from parsecmd_shown [OF assms] obtain d buf where
    d: "parsecmd (show_at LLine c) = Some (Inr (d, buf))" "with_words (slice (show_at LLine c)) d = c"
    by (elim exE conjE) (rule that)
  have "with_words (string_at buf) d = with_words (slice (show_at LLine c)) d"
    by (rule conjunct2 [OF parsecmd_sound [OF show_no_nul [OF assms] d(1)]])
  then show ?thesis using d by auto
qed

definition sample :: command where
  "sample = Seq (Back (Pipe (Exec [str ''cat'', str ''f'']) (Redir (Exec [str ''wc'']) (str ''out'') (O_WRONLY OR O_CREATE) 1)))
     (Redir (Seq (Exec [str ''ls'']) (Exec [])) (str ''in'') O_RDONLY 0)"

lemma sample_ok: "command_ok sample"
  by (simp add: sample_def word_ok_def str_def ascii_def is_space_sets MAXARGS_def redir_modes_def)

theorem parsecmd_roundtrip_witness:
  "show_at LLine sample = str ''cat f |wc >>out &;(ls ;)<in ''
   \<and> (\<exists>d buf. parsecmd (show_at LLine sample) = Some (Inr (d, buf)) \<and> with_words (string_at buf) d = sample)"
  using parsecmd_roundtrip [OF sample_ok]
  by (simp add: sample_def spaced_def str_def ascii_def redir_sign_def O_WRONLY_def O_CREATE_def O_TRUNC_def O_RDONLY_def)

theorem parsecmd_wf_witness:
  "\<exists>c buf. parsecmd (show_at LLine sample) = Some (Inr (c, buf)) \<and> cmd_wf (show_at LLine sample) c
     \<and> with_words (string_at buf) c = with_words (slice (show_at LLine sample)) c"
proof -
  obtain c buf where c: "parsecmd (show_at LLine sample) = Some (Inr (c, buf))"
    using parsecmd_shown [OF sample_ok] by auto
  then show ?thesis using parsecmd_wf [OF show_no_nul [OF sample_ok] c] by auto
qed

end
