(* ===== verification/Shell_Run.thy ===== *)
theory Shell_Run
  imports Shell
begin

section \<open>user/sh.c: running commands\<close>

text \<open>
  \<^verbatim>\<open>runcmd\<close>, the command loop, and what they do with processes and descriptors. \<^verbatim>\<open>runcmd\<close> is
  a program of its own in every process that \<^verbatim>\<open>fork\<close> makes: the reply to \<^verbatim>\<open>fork\<close> says which
  one it is.
\<close>

subsection \<open>The program\<close>

definition sh_panic :: "string \<Rightarrow> ('k, 'a) prog" where
  "sh_panic e = udo (fprintf 2 ''%s\<newline>'' [VStr (Some (str e))]) (uexit 1)"

definition fork1 :: "('k, int) prog" where
  "fork1 = ubind (usys Sys_fork) (\<lambda>r. if rv r = - 1 then sh_panic ''fork'' else uret (rv r))"

text \<open>An \<^verbatim>\<open>int\<close> of the array that \<^verbatim>\<open>pipe\<close> fills.\<close>

definition pipe_fd :: "reply \<Rightarrow> nat \<Rightarrow> int" where
  "pipe_fd r i = sint (le_word (take 4 (drop (4 * i) (stored r))) :: u32)"

fun runcmd :: "command \<Rightarrow> ('k, unit) prog" where
  "runcmd (Exec ws) =
     (if ws = [] then uexit 1
      else udo (usys (Sys_exec (hd ws) ws))
        (udo (fprintf 2 ''exec %s failed\<newline>'' [VStr (Some (hd ws))])
        (uexit 0)))"
| "runcmd (Redir c f mode fd) =
     udo (usys (Sys_close fd))
     (ubind (usys (Sys_open f mode)) (\<lambda>r.
      if rv r < 0 then udo (fprintf 2 ''open %s failed\<newline>'' [VStr (Some f)]) (uexit 1)
      else udo (runcmd c) (uexit 0)))"
| "runcmd (Seq l r) =
     ubind fork1 (\<lambda>pid.
     udo (if pid = 0 then runcmd l else uret ())
     (udo (usys Sys_wait)
     (udo (runcmd r)
     (uexit 0))))"
| "runcmd (Pipe l r) =
     ubind (usys Sys_pipe) (\<lambda>p.
     if rv p < 0 then sh_panic ''pipe''
     else
       ubind fork1 (\<lambda>pid.
       udo (if pid = 0 then
              udo (usys (Sys_close 1)) (udo (usys (Sys_dup (pipe_fd p 1)))
              (udo (usys (Sys_close (pipe_fd p 0))) (udo (usys (Sys_close (pipe_fd p 1)))
              (runcmd l))))
            else uret ())
       (ubind fork1 (\<lambda>pid.
       udo (if pid = 0 then
              udo (usys (Sys_close 0)) (udo (usys (Sys_dup (pipe_fd p 0)))
              (udo (usys (Sys_close (pipe_fd p 0))) (udo (usys (Sys_close (pipe_fd p 1)))
              (runcmd r))))
            else uret ())
       (udo (usys (Sys_close (pipe_fd p 0)))
       (udo (usys (Sys_close (pipe_fd p 1)))
       (udo (usys Sys_wait)
       (udo (usys Sys_wait)
       (uexit 0)))))))))"
| "runcmd (Back c) =
     ubind fork1 (\<lambda>pid.
     udo (if pid = 0 then runcmd c else uret ())
     (uexit 0))"

text \<open>\<^verbatim>\<open>runcmd(parsecmd(buf))\<close>: a parser that panics prints its message and exits.\<close>

definition run_line :: "u8 list \<Rightarrow> ('k, unit) prog" where
  "run_line line = (case parsecmd line of
     None \<Rightarrow> (\<lambda>s. None)
   | Some (Inl (Panic e)) \<Rightarrow> sh_panic e
   | Some (Inl (Leftovers rest)) \<Rightarrow> udo (fprintf 2 ''leftovers: %s\<newline>'' [VStr (Some rest)]) (sh_panic ''syntax'')
   | Some (Inr (c, buf)) \<Rightarrow> runcmd (with_words (string_at buf) c))"

definition sizeof_sh_buf :: nat where
  "sizeof_sh_buf = 100"

text \<open>\<^verbatim>\<open>getcmd\<close> returns the string in the zeroed buffer; \<^verbatim>\<open>None\<close> is its result \<open>-1\<close>.\<close>

definition getcmd :: "nat \<Rightarrow> ('k, u8 list option) prog" where
  "getcmd nbuf =
     udo (usys (Sys_write 2 (str ''$ '')))
     (ubind (gets nbuf) (\<lambda>buf. uret (if at buf 0 = 0 then None else Some (cstring buf))))"

definition chdir_line :: "u8 list \<Rightarrow> ('k, unit) prog" where
  "chdir_line buf =
     (let dir = drop 3 (butlast buf) in
      ubind (usys (Sys_chdir dir)) (\<lambda>r.
      if rv r < 0 then fprintf 2 ''cannot cd %s\<newline>'' [VStr (Some dir)] else uret ()))"

partial_function (option) sh_loop :: "unit \<Rightarrow> ('k, unit) prog" where
  "sh_loop u s =
     ubind (getcmd sizeof_sh_buf) (\<lambda>line s. case line of
       None \<Rightarrow> uexit 0 s
     | Some buf \<Rightarrow>
         if take 3 buf = str ''cd '' then udo (chdir_line buf) (sh_loop ()) s
         else ubind fork1 (\<lambda>pid.
           udo (if pid = 0 then run_line buf else uret ()) (udo (usys Sys_wait) (sh_loop ()))) s) s"

partial_function (option) sh_console :: "unit \<Rightarrow> ('k, unit) prog" where
  "sh_console u s =
     ubind (usys (Sys_open (str ''console'') O_RDWR)) (\<lambda>r s.
     if rv r \<ge> 0 then
       (if rv r \<ge> 3 then udo (usys (Sys_close (rv r))) (uret ()) s else sh_console () s)
     else uret () s) s"

definition sh_main :: "('k, unit) prog" where
  "sh_main = udo (sh_console ()) (sh_loop ())"


subsection \<open>Messages\<close>

lemma ubind_udo_uret: "ubind (udo m (uret x)) f = udo m (f x)"
proof
  fix s
  show "ubind (udo m (uret x)) f s = udo m (f x) s"
    by (cases "m s") (auto simp: udo_def ubind_def uret_def split: uout.split)
qed

text \<open>A program that returns \<open>x\<close> and changes the state of the answering side only as \<open>stays\<close> allows.\<close>

definition prints :: "('k \<Rightarrow> ucall \<Rightarrow> (reply \<times> 'k) option) \<Rightarrow> ('k \<Rightarrow> 'k \<Rightarrow> bool) \<Rightarrow> ('k, 'a) prog \<Rightarrow> 'k uproc \<Rightarrow> 'a \<Rightarrow> bool" where
  "prints ans stays m s x \<longleftrightarrow> (\<exists>t. m s = Some (URet x, t) \<and> answer t = ans \<and> stays (kst s) (kst t))"

text \<open>A side that answers every \<^verbatim>\<open>write\<close>, and what it stays of its state. Printing then returns.\<close>

locale writable =
  fixes ans :: "'k \<Rightarrow> ucall \<Rightarrow> (reply \<times> 'k) option" and stays :: "'k \<Rightarrow> 'k \<Rightarrow> bool"
  assumes write_answered: "\<exists>r k'. ans k (Sys_write fd bs) = Some (r, k') \<and> stays k k'"
    and stays_refl: "stays k k"
    and stays_trans: "stays k1 k2 \<Longrightarrow> stays k2 k3 \<Longrightarrow> stays k1 k3"
begin

lemma prints_uret: "answer s = ans \<Longrightarrow> prints ans stays (uret x) s x"
  by (simp add: prints_def uret_def stays_refl)

lemma prints_udo:
  assumes "prints ans stays m s x" and "\<And>t. answer t = ans \<Longrightarrow> prints ans stays n t y"
  shows "prints ans stays (udo m n) s y"
proof -
  from assms(1) obtain t where t: "m s = Some (URet x, t)" "answer t = ans" "stays (kst s) (kst t)"
    by (auto simp: prints_def)
  with assms(2) [OF t(2)] show ?thesis by (auto simp: prints_def udo_def ubind_def intro: stays_trans)
qed

lemma prints_uputc:
  assumes "answer s = ans"
  shows "prints ans stays (uputc fd c) s ()"
proof -
  from write_answered [of "kst s" fd "[c]"] obtain r k' where "ans (kst s) (Sys_write fd [c]) = Some (r, k')" "stays (kst s) k'"
    by auto
  with assms show ?thesis by (simp add: prints_def uputc_def udo_def ubind_def usys_def uret_def)
qed

lemma prints_uputs: "answer s = ans \<Longrightarrow> prints ans stays (uputs fd bs) s ()"
proof (induction bs arbitrary: s)
  case Nil
  then show ?case by (simp add: prints_uret)
next
  case (Cons c bs)
  show ?case unfolding uputs.simps by (rule prints_udo [OF prints_uputc [OF Cons.prems] Cons.IH])
qed

lemma prints_plain:
  assumes "\<And>t. answer t = ans \<Longrightarrow> prints ans stays (vprintf fd g as) t ()"
  shows "ascii CHR ''%'' \<notin> set f \<Longrightarrow> answer s = ans \<Longrightarrow> prints ans stays (vprintf fd (f @ g) as) s ()"
proof (induction f arbitrary: s)
  case Nil
  then show ?case by (simp add: assms)
next
  case (Cons c f)
  then have eq: "vprintf fd ((c # f) @ g) as = udo (uputc fd c) (vprintf fd (f @ g) as)" by auto
  show ?case unfolding eq by (rule prints_udo [OF prints_uputc [OF Cons.prems(2)] Cons.IH]) (use Cons.prems(1) in simp)
qed

lemma prints_string:
  assumes "ascii CHR ''%'' \<notin> set (map ascii f)" "ascii CHR ''%'' \<notin> set (map ascii g)" "answer s = ans"
  shows "prints ans stays (fprintf fd (f @ ''%s'' @ g) [VStr (Some w)]) s ()"
proof -
  let ?g = "map ascii g"
  have g: "prints ans stays (vprintf fd ?g as) t ()" if "answer t = ans" for t as
    using prints_plain [of fd "[]" as ?g t] assms(2) that by (auto simp: prints_uret)
  have conv: "printf_conv (ascii CHR ''s'' # ?g) = (CStr, 1)"
    by (simp add: printf_conv_def fmt_at_def byte_def ascii_def)
  have eq: "vprintf fd (map ascii ''%s'' @ ?g) [VStr (Some w)] = udo (uputs fd w) (vprintf fd ?g [])"
    by (simp add: conv ubind_udo_uret)
  have "prints ans stays (vprintf fd (map ascii ''%s'' @ ?g) [VStr (Some w)]) t ()" if "answer t = ans" for t
    unfolding eq by (rule prints_udo [OF prints_uputs [OF that] g])
  then show ?thesis unfolding fprintf_def map_append by (rule prints_plain [OF _ assms(1,3)])
qed

end

subsection \<open>runcmd never returns\<close>

definition exits :: "('k \<Rightarrow> ucall \<Rightarrow> (reply \<times> 'k) option) \<Rightarrow> ('k, 'a) prog \<Rightarrow> 'k uproc \<Rightarrow> bool" where
  "exits ans m s \<longleftrightarrow> (\<exists>code t. m s = Some (UExit code, t) \<and> answer t = ans)"

text \<open>A side that answers every call.\<close>

locale answering =
  fixes ans :: "'k \<Rightarrow> ucall \<Rightarrow> (reply \<times> 'k) option"
  assumes answered: "ans k c \<noteq> None"
begin

lemma exits_uexit: "answer s = ans \<Longrightarrow> exits ans (uexit c) s"
  by (simp add: exits_def uexit_def)

lemma exits_usys:
  assumes "answer s = ans" and "\<And>r t. answer t = ans \<Longrightarrow> exits ans (f r) t"
  shows "exits ans (ubind (usys c) f) s"
proof -
  obtain r k where "ans (kst s) c = Some (r, k)" using answered [of "kst s" c] by auto
  then have "ubind (usys c) f s = f r (s\<lparr>kst := k, trace := trace s @ [c]\<rparr>)" using assms(1) by (simp add: ubind_def usys_def)
  then show ?thesis using assms(2) [of "s\<lparr>kst := k, trace := trace s @ [c]\<rparr>" r] assms(1) by (simp add: exits_def)
qed

lemma exits_usys_then:
  "answer s = ans \<Longrightarrow> (\<And>t. answer t = ans \<Longrightarrow> exits ans n t) \<Longrightarrow> exits ans (udo (usys c) n) s"
  unfolding udo_def by (rule exits_usys)

lemma exits_stop: "exits ans m s \<Longrightarrow> exits ans (udo m n) s" "exits ans m s \<Longrightarrow> exits ans (ubind m f) s"
  by (auto simp: exits_def udo_def ubind_def)

end

sublocale answering \<subseteq> writable ans "\<lambda>_ _. True"
proof
  show "\<exists>r k'. ans k (Sys_write fd bs) = Some (r, k') \<and> True" for k fd bs using answered [of k "Sys_write fd bs"] by auto
qed simp_all

context answering
begin

lemma exits_printed:
  assumes "prints ans (\<lambda>_ _. True) m s x" and "\<And>t. answer t = ans \<Longrightarrow> exits ans n t"
  shows "exits ans (udo m n) s"
proof -
  obtain t where "m s = Some (URet x, t)" "answer t = ans" using assms(1) by (auto simp: prints_def)
  then show ?thesis using assms(2) by (simp add: exits_def udo_def ubind_def)
qed

lemma exits_message:
  "ascii CHR ''%'' \<notin> set (map ascii f) \<Longrightarrow> ascii CHR ''%'' \<notin> set (map ascii g) \<Longrightarrow> answer s = ans \<Longrightarrow>
    exits ans (udo (fprintf fd (f @ ''%s'' @ g) [VStr (Some w)]) (uexit c)) s"
  by (rule exits_printed [OF prints_string exits_uexit])

lemma exits_panic: "answer s = ans \<Longrightarrow> exits ans (sh_panic e) s"
  using exits_message [of "''''" "''\<newline>''" s 2 "str e" 1] by (simp add: sh_panic_def ascii_def)

lemma exits_fork1:
  assumes s: "answer s = ans" and f: "\<And>pid t. answer t = ans \<Longrightarrow> exits ans (f pid) t"
  shows "exits ans (ubind fork1 f) s"
proof -
  have "ubind fork1 f s = ubind (usys Sys_fork) (\<lambda>r. ubind (if rv r = - 1 then sh_panic ''fork'' else uret (rv r)) f) s"
    by (cases "usys Sys_fork s") (auto simp: fork1_def ubind_def split: uout.split)
  moreover have "exits ans (ubind (if rv r = - 1 then sh_panic ''fork'' else uret (rv r)) f) t" if "answer t = ans" for r t
    using exits_stop(2) [OF exits_panic [OF that]] f [OF that] by (auto simp: exits_def)
  ultimately show ?thesis
    using exits_usys [OF s, where c = Sys_fork and f = "\<lambda>r. ubind (if rv r = - 1 then sh_panic ''fork'' else uret (rv r)) f"]
    by (simp add: exits_def)
qed

lemma exits_if:
  "(b \<Longrightarrow> exits ans m s) \<Longrightarrow> (\<not> b \<Longrightarrow> exits ans n s) \<Longrightarrow> exits ans (udo (if b then m else uret ()) n) s"
proof (cases b)
  case False
  then show "(\<not> b \<Longrightarrow> exits ans n s) \<Longrightarrow> exits ans (udo (if b then m else uret ()) n) s" by (simp add: exits_def)
qed (simp add: exits_stop(1))

lemma exits_ite: "(b \<Longrightarrow> exits ans m s) \<Longrightarrow> (\<not> b \<Longrightarrow> exits ans n s) \<Longrightarrow> exits ans (if b then m else n) s"
  by simp

lemma runcmd_ends: "answer s = ans \<Longrightarrow> exits ans (runcmd c) s"
proof (induction c arbitrary: s)
  case (Exec ws)
  have "exits ans (udo (fprintf 2 ''exec %s failed\<newline>'' [VStr (Some w)]) (uexit 0 :: ('k, unit) prog)) t" if "answer t = ans" for t w
    using exits_message [of "''exec ''" "'' failed\<newline>''" t] that by (simp add: ascii_def)
  then have "exits ans (udo (usys (Sys_exec w ws)) (udo (fprintf 2 ''exec %s failed\<newline>'' [VStr (Some w)]) (uexit 0 :: ('k, unit) prog))) s" for w
    by (intro exits_usys_then Exec)
  then show ?case using Exec by (simp add: exits_uexit)
next
  case (Redir c f mode fd)
  have "exits ans (udo (fprintf 2 ''open %s failed\<newline>'' [VStr (Some f)]) (uexit 1 :: ('k, unit) prog)) t" if "answer t = ans" for t
    using exits_message [of "''open ''" "'' failed\<newline>''" t] that by (simp add: ascii_def)
  then show ?case using Redir unfolding runcmd.simps
    by (intro exits_usys_then exits_usys) (simp_all add: exits_stop(1))
next
  case (Pipe l r)
  then show ?case unfolding runcmd.simps
    by (intro exits_usys exits_ite exits_panic exits_fork1 exits_if exits_usys_then exits_uexit)
next
  case (Seq l r)
  then show ?case unfolding runcmd.simps
    by (intro exits_fork1 exits_if exits_usys_then) (simp_all add: exits_stop(1))
next
  case (Back c)
  then show ?case unfolding runcmd.simps by (intro exits_fork1 exits_if exits_uexit)
qed

end

interpretation fs: answering from_stream
  by unfold_locales (auto simp: from_stream_def Let_def split: ucall.splits prod.splits)

text \<open>C29. \<^verbatim>\<open>runcmd\<close> never returns, as its comment and its attribute say: in every process, whatever the
  kernel answers to its calls, it ends in \<^verbatim>\<open>exit\<close>, provided that every call is answered (a
  successful \<^verbatim>\<open>exec\<close> is a call that does not come back).\<close>

theorem runcmd_exits:
  assumes "\<forall>k c. answer s k c \<noteq> None"
  shows "\<exists>code t. runcmd c s = Some (UExit code, t)"
  using answering.runcmd_ends [of "answer s" s c] assms by (auto simp: answering_def exits_def)

theorem runcmd_exits_witness: "\<exists>code t. runcmd sample (on_stream [] [] []) = Some (UExit code, t)"
  by (rule runcmd_exits) (use fs.answered in \<open>simp add: on_stream_def\<close>)

subsection \<open>The descriptors of the programs that are run\<close>

text \<open>
  An answering side that keeps a process's descriptor table as the kernel does: \<^verbatim>\<open>open\<close>,
  \<^verbatim>\<open>dup\<close> and \<^verbatim>\<open>pipe\<close> take the lowest free descriptors. What \<^verbatim>\<open>fork\<close> returns, and whether
  \<^verbatim>\<open>open\<close> and \<^verbatim>\<open>pipe\<close> fail, comes from a list of numbers, so a list picks one of the processes
  that a command becomes. \<^verbatim>\<open>exec\<close> records its arguments and the table that the program would
  start with, and reports failure.
\<close>

datatype fobj = Given nat | Opened "u8 list" u32 | Read_end nat | Write_end nat

record fds =
  fd_table :: "fobj option list"
  fd_pipes :: nat
  fd_choices :: "int list"
  fd_execs :: "(u8 list list \<times> fobj option list) list"

fun lowest_free :: "'a option list \<Rightarrow> nat option" where
  "lowest_free [] = None"
| "lowest_free (None # xs) = Some 0"
| "lowest_free (Some x # xs) = map_option Suc (lowest_free xs)"

definition fd_choice :: "fds \<Rightarrow> int" where
  "fd_choice k = (case fd_choices k of [] \<Rightarrow> 1 | x # _ \<Rightarrow> x)"

definition fd_next :: "fds \<Rightarrow> fds" where
  "fd_next k = k\<lparr>fd_choices := drop 1 (fd_choices k)\<rparr>"

definition fd_take :: "fobj \<Rightarrow> fds \<Rightarrow> (reply \<times> fds) option" where
  "fd_take x k = Some (case lowest_free (fd_table k) of None \<Rightarrow> (Reply (- 1) [], k)
     | Some i \<Rightarrow> (Reply (int i) [], k\<lparr>fd_table := (fd_table k)[i := Some x]\<rparr>))"

definition fd_get :: "fds \<Rightarrow> int \<Rightarrow> fobj option" where
  "fd_get k fd = (if 0 \<le> fd \<and> nat fd < length (fd_table k) then fd_table k ! nat fd else None)"

definition fd_pipe :: "fds \<Rightarrow> (reply \<times> fds) option" where
  "fd_pipe k = Some (case lowest_free (fd_table k) of
     None \<Rightarrow> (Reply (- 1) [], k)
   | Some i \<Rightarrow> (let tab = (fd_table k)[i := Some (Read_end (fd_pipes k))] in
       case lowest_free tab of
         None \<Rightarrow> (Reply (- 1) [], k)
       | Some j \<Rightarrow> (Reply 0 (le_bytes 4 (of_nat i :: u32) @ le_bytes 4 (of_nat j :: u32)),
           k\<lparr>fd_table := tab[j := Some (Write_end (fd_pipes k))], fd_pipes := fd_pipes k + 1\<rparr>)))"

definition fd_side :: "fds \<Rightarrow> ucall \<Rightarrow> (reply \<times> fds) option" where
  "fd_side k c = (case c of
     Sys_fork \<Rightarrow> Some (Reply (fd_choice k) [], fd_next k)
   | Sys_open p mode \<Rightarrow>
       if fd_choice k < 0 then Some (Reply (- 1) [], fd_next k) else fd_take (Opened p mode) (fd_next k)
   | Sys_pipe \<Rightarrow> if fd_choice k < 0 then Some (Reply (- 1) [], fd_next k) else fd_pipe (fd_next k)
   | Sys_dup fd \<Rightarrow> (case fd_get k fd of None \<Rightarrow> Some (Reply (- 1) [], k) | Some x \<Rightarrow> fd_take x k)
   | Sys_close fd \<Rightarrow> Some (case fd_get k fd of None \<Rightarrow> (Reply (- 1) [], k)
       | Some x \<Rightarrow> (Reply 0 [], k\<lparr>fd_table := (fd_table k)[nat fd := None]\<rparr>))
   | Sys_exec p argv \<Rightarrow> Some (Reply (- 1) [], k\<lparr>fd_execs := fd_execs k @ [(argv, fd_table k)]\<rparr>)
   | _ \<Rightarrow> Some (Reply 0 [], k))"

text \<open>The table that the shell's \<^verbatim>\<open>main\<close> sets up: three open descriptors and no other.\<close>

definition std_table :: "fobj \<Rightarrow> fobj \<Rightarrow> fobj \<Rightarrow> fobj option list" where
  "std_table i o' e = Some i # Some o' # Some e # None # None # replicate 11 None"

text \<open>What a command stands for: the programs it runs, each with its standard input and output.\<close>

fun programs :: "command \<Rightarrow> fobj \<Rightarrow> fobj \<Rightarrow> nat \<Rightarrow> (u8 list list \<times> fobj \<times> fobj) set" where
  "programs (Exec ws) i o' n = (if ws = [] then {} else {(ws, i, o')})"
| "programs (Redir c f mode fd) i o' n =
     (if fd = 0 then programs c (Opened f mode) o' n else programs c i (Opened f mode) n)"
| "programs (Pipe l r) i o' n = programs l i (Write_end n) (n + 1) \<union> programs r (Read_end n) o' (n + 1)"
| "programs (Seq l r) i o' n = programs l i o' n \<union> programs r i o' n"
| "programs (Back c) i o' n = programs c i o' n"

interpretation fdw: writable fd_side "(=)"
  by unfold_locales (auto simp: fd_side_def)

interpretation fda: answering fd_side
  by unfold_locales (auto simp: fd_side_def fd_take_def fd_pipe_def split: ucall.splits option.splits)

text \<open>A process with its descriptors, and how it ends: with a list of programs executed.\<close>

definition fd_at :: "fobj option list \<Rightarrow> nat \<Rightarrow> int list \<Rightarrow> (u8 list list \<times> fobj option list) list \<Rightarrow> fds uproc \<Rightarrow> bool" where
  "fd_at tab n cs xs s \<longleftrightarrow>
     answer s = fd_side \<and> kst s = \<lparr>fd_table = tab, fd_pipes = n, fd_choices = cs, fd_execs = xs\<rparr>"

definition ends_having :: "(fds, 'a) prog \<Rightarrow> fds uproc \<Rightarrow> (u8 list list \<times> fobj option list) list \<Rightarrow> bool" where
  "ends_having m s xs \<longleftrightarrow> (\<exists>code t. m s = Some (UExit code, t) \<and> fd_execs (kst t) = xs)"

lemma run_on: "usys c s = Some (URet x, t) \<Longrightarrow> udo (usys c) n s = n t" "usys c s = Some (URet x, t) \<Longrightarrow> ubind (usys c) f s = f x t"
  "fork1 s = Some (URet y, t) \<Longrightarrow> ubind fork1 g s = g y t"
  by (simp_all add: udo_def ubind_def)

lemma ends_stop: "ends_having m s xs \<Longrightarrow> ends_having (udo m n) s xs"
  by (auto simp: ends_having_def udo_def ubind_def)

lemma ends_exit: "fd_at tab n cs xs s \<Longrightarrow> ends_having (uexit c) s xs"
  by (simp add: ends_having_def uexit_def fd_at_def)

lemma ends_message:
  assumes "fd_at tab n cs xs s" and "ascii CHR ''%'' \<notin> set (map ascii f)" "ascii CHR ''%'' \<notin> set (map ascii g)"
  shows "ends_having (udo (fprintf fd (f @ ''%s'' @ g) [VStr (Some w)]) (uexit c)) s xs"
proof -
  have "answer s = fd_side" using assms(1) by (simp add: fd_at_def)
  from fdw.prints_string [OF assms(2,3) this, of fd w] obtain t
    where "fprintf fd (f @ ''%s'' @ g) [VStr (Some w)] s = Some (URet (), t)" "kst t = kst s" by (auto simp: prints_def)
  then show ?thesis using assms(1) by (simp add: udo_def ubind_def ends_having_def uexit_def fd_at_def)
qed

definition head_choice :: "int list \<Rightarrow> int" where
  "head_choice cs = (case cs of [] \<Rightarrow> 1 | x # _ \<Rightarrow> x)"

lemma usys_fds:
  assumes "fd_at tab n cs xs s" and "fd_side \<lparr>fd_table = tab, fd_pipes = n, fd_choices = cs, fd_execs = xs\<rparr> c
      = Some (r, \<lparr>fd_table = tab', fd_pipes = n', fd_choices = cs', fd_execs = xs'\<rparr>)"
  shows "\<exists>t. usys c s = Some (URet r, t) \<and> fd_at tab' n' cs' xs' t"
  using assms by (simp add: usys_def fd_at_def)

lemma step_close:
  assumes "fd_at tab n cs xs s" "j < length tab" "tab ! j = Some x"
  shows "\<exists>t. usys (Sys_close (int j)) s = Some (URet (Reply 0 []), t) \<and> fd_at (tab[j := None]) n cs xs t"
  by (rule usys_fds [OF assms(1)]) (use assms in \<open>simp add: fd_side_def fd_get_def\<close>)

lemma step_dup:
  assumes "fd_at tab n cs xs s" "j < length tab" "tab ! j = Some x" "lowest_free tab = Some i"
  shows "\<exists>t. usys (Sys_dup (int j)) s = Some (URet (Reply (int i) []), t) \<and> fd_at (tab[i := Some x]) n cs xs t"
  by (rule usys_fds [OF assms(1)]) (use assms in \<open>simp add: fd_side_def fd_get_def fd_take_def\<close>)

lemma step_open:
  assumes "fd_at tab n cs xs s" "0 \<le> head_choice cs" "lowest_free tab = Some i"
  shows "\<exists>t. usys (Sys_open p mode) s = Some (URet (Reply (int i) []), t) \<and> fd_at (tab[i := Some (Opened p mode)]) n (drop 1 cs) xs t"
  by (rule usys_fds [OF assms(1)])
    (use assms in \<open>simp add: fd_side_def fd_choice_def fd_next_def fd_take_def head_choice_def\<close>)

lemma step_refused:
  assumes "fd_at tab n cs xs s" "head_choice cs < 0"
  shows "\<exists>t. usys (Sys_open p mode) s = Some (URet (Reply (- 1) []), t) \<and> fd_at tab n (drop 1 cs) xs t"
    "\<exists>t. usys Sys_pipe s = Some (URet (Reply (- 1) []), t) \<and> fd_at tab n (drop 1 cs) xs t"
  by (rule usys_fds [OF assms(1)]; use assms in \<open>simp add: fd_side_def fd_choice_def fd_next_def head_choice_def\<close>)+

lemma step_exec:
  assumes "fd_at tab n cs xs s"
  shows "\<exists>t. usys (Sys_exec p argv) s = Some (URet (Reply (- 1) []), t) \<and> fd_at tab n cs (xs @ [(argv, tab)]) t"
  by (rule usys_fds [OF assms]) (simp add: fd_side_def)

lemma step_wait:
  assumes "fd_at tab n cs xs s"
  shows "\<exists>t. usys Sys_wait s = Some (URet (Reply 0 []), t) \<and> fd_at tab n cs xs t"
  by (rule usys_fds [OF assms]) (simp add: fd_side_def)

lemma step_fork:
  assumes "fd_at tab n cs xs s"
  shows "(head_choice cs = - 1 \<longrightarrow> ends_having (ubind fork1 f) s xs) \<and>
    (head_choice cs \<noteq> - 1 \<longrightarrow> (\<exists>t. fork1 s = Some (URet (head_choice cs), t) \<and> fd_at tab n (drop 1 cs) xs t))"
proof -
  have "\<exists>t. usys Sys_fork s = Some (URet (Reply (head_choice cs) []), t) \<and> fd_at tab n (drop 1 cs) xs t"
    by (rule usys_fds [OF assms]) (simp add: fd_side_def fd_choice_def fd_next_def head_choice_def)
  then obtain t where t: "usys Sys_fork s = Some (URet (Reply (head_choice cs) []), t)" "fd_at tab n (drop 1 cs) xs t" by auto
  have "ends_having (sh_panic ''fork'' :: (fds, int) prog) t xs"
    using ends_message [OF t(2), of "''''" "''\<newline>''"] by (simp add: sh_panic_def ascii_def)
  then show ?thesis using t by (auto simp: fork1_def ubind_def uret_def ends_having_def)
qed

lemma std_facts:
  "lowest_free (std_table i o' e) = Some 3"
  "length (std_table i o' e) = 16" "std_table i o' e ! 0 = Some i" "std_table i o' e ! 1 = Some o'"
  "lowest_free ((std_table i o' e)[0 := None]) = Some 0" "lowest_free ((std_table i o' e)[1 := None]) = Some 1"
  "(std_table i o' e)[0 := None, 0 := Some x] = std_table x o' e"
  "(std_table i o' e)[1 := None, 1 := Some x] = std_table i x e"
  by (simp_all add: std_table_def eval_nat_numeral)

definition piped :: "fobj \<Rightarrow> fobj \<Rightarrow> fobj \<Rightarrow> nat \<Rightarrow> fobj option list" where
  "piped i o' e n = (std_table i o' e)[3 := Some (Read_end n), 4 := Some (Write_end n)]"

lemma piped_facts:
  "length (piped i o' e n) = 16" "piped i o' e n ! 0 = Some i" "piped i o' e n ! 1 = Some o'"
  "(piped i o' e n)[1 := None] ! 4 = Some (Write_end n)" "lowest_free ((piped i o' e n)[1 := None]) = Some 1"
  "(piped i o' e n)[0 := None] ! 3 = Some (Read_end n)" "lowest_free ((piped i o' e n)[0 := None]) = Some 0"
  "(piped i o' e n)[1 := None, 1 := Some x] = piped i x e n" "(piped i o' e n)[0 := None, 0 := Some x] = piped x o' e n"
  "piped i o' e n ! 3 = Some (Read_end n)" "(piped i o' e n)[3 := None] ! 4 = Some (Write_end n)"
  "(piped i o' e n)[3 := None, 4 := None] = std_table i o' e"
  by (simp_all add: piped_def std_table_def eval_nat_numeral)

lemmas fd_facts = std_facts [simplified] piped_facts [simplified]

lemma step_pipe:
  assumes "fd_at (std_table i o' e) n cs xs s" "0 \<le> head_choice cs"
  shows "\<exists>t p. usys Sys_pipe s = Some (URet p, t) \<and> rv p = 0 \<and> pipe_fd p 0 = 3 \<and> pipe_fd p 1 = 4
    \<and> fd_at (piped i o' e n) (n + 1) (drop 1 cs) xs t"
proof -
  let ?p = "Reply 0 (le_bytes 4 (3 :: u32) @ le_bytes 4 (4 :: u32))"
  have "lowest_free ((std_table i o' e)[3 := Some x]) = Some 4" for x by (simp add: std_table_def eval_nat_numeral)
  then have "\<exists>t. usys Sys_pipe s = Some (URet ?p, t) \<and> fd_at (piped i o' e n) (n + 1) (drop 1 cs) xs t"
    by (intro usys_fds [OF assms(1)])
      (use assms in \<open>simp add: fd_side_def fd_choice_def fd_next_def fd_pipe_def head_choice_def std_facts(1) piped_def\<close>)
  moreover have "pipe_fd ?p 0 = 3" "pipe_fd ?p 1 = 4" by (simp_all add: pipe_fd_def)
  ultimately show ?thesis by (auto intro!: exI [of _ ?p])
qed

text \<open>The two children of a pipeline connect themselves to the pipe and keep no other end of it.\<close>

lemma connect_left:
  assumes "fd_at (piped i o' e n) m cs xs s"
  shows "\<exists>t. fd_at (std_table i (Write_end n) e) m cs xs t \<and>
    udo (usys (Sys_close 1)) (udo (usys (Sys_dup 4)) (udo (usys (Sys_close 3)) (udo (usys (Sys_close 4)) c))) s = c t"
proof -
  obtain t1 where t1: "usys (Sys_close 1) s = Some (URet (Reply 0 []), t1)" "fd_at ((piped i o' e n)[1 := None]) m cs xs t1"
    using step_close [OF assms, of 1] by (auto simp: fd_facts)
  obtain r2 t2 where t2: "usys (Sys_dup 4) t1 = Some (URet r2, t2)" "fd_at (piped i (Write_end n) e n) m cs xs t2"
    using step_dup [OF t1(2), of 4 _ 1] by (auto simp: fd_facts)
  obtain r3 t3 where t3: "usys (Sys_close 3) t2 = Some (URet r3, t3)" "fd_at ((piped i (Write_end n) e n)[3 := None]) m cs xs t3"
    using step_close [OF t2(2), of 3] by (auto simp: fd_facts)
  obtain r4 t4 where t4: "usys (Sys_close 4) t3 = Some (URet r4, t4)" "fd_at (std_table i (Write_end n) e) m cs xs t4"
    using step_close [OF t3(2), of 4] by (auto simp: fd_facts)
  show ?thesis
    by (intro exI [of _ t4] conjI t4(2)) (simp add: run_on(1) [OF t1(1)] run_on(1) [OF t2(1)] run_on(1) [OF t3(1)] run_on(1) [OF t4(1)])
qed

lemma connect_right:
  assumes "fd_at (piped i o' e n) m cs xs s"
  shows "\<exists>t. fd_at (std_table (Read_end n) o' e) m cs xs t \<and>
    udo (usys (Sys_close 0)) (udo (usys (Sys_dup 3)) (udo (usys (Sys_close 3)) (udo (usys (Sys_close 4)) c))) s = c t"
proof -
  obtain t1 where t1: "usys (Sys_close 0) s = Some (URet (Reply 0 []), t1)" "fd_at ((piped i o' e n)[0 := None]) m cs xs t1"
    using step_close [OF assms, of 0] by (auto simp: fd_facts)
  obtain r2 t2 where t2: "usys (Sys_dup 3) t1 = Some (URet r2, t2)" "fd_at (piped (Read_end n) o' e n) m cs xs t2"
    using step_dup [OF t1(2), of 3 _ 0] by (auto simp: fd_facts)
  obtain r3 t3 where t3: "usys (Sys_close 3) t2 = Some (URet r3, t3)" "fd_at ((piped (Read_end n) o' e n)[3 := None]) m cs xs t3"
    using step_close [OF t2(2), of 3] by (auto simp: fd_facts)
  obtain r4 t4 where t4: "usys (Sys_close 4) t3 = Some (URet r4, t4)" "fd_at (std_table (Read_end n) o' e) m cs xs t4"
    using step_close [OF t3(2), of 4] by (auto simp: fd_facts)
  show ?thesis
    by (intro exI [of _ t4] conjI t4(2)) (simp add: run_on(1) [OF t1(1)] run_on(1) [OF t2(1)] run_on(1) [OF t3(1)] run_on(1) [OF t4(1)])
qed

text \<open>A run that goes on as another one ends as that one does.\<close>

definition leads :: "(fds, unit) prog \<Rightarrow> fds uproc \<Rightarrow> (fds, unit) prog \<Rightarrow> fds uproc \<Rightarrow> bool" where
  "leads m s m' t \<longleftrightarrow> (\<forall>ys. ends_having m' t ys \<longrightarrow> ends_having m s ys)"

lemma leads_eq: "m s = m' t \<Longrightarrow> leads m s m' t" "m s = udo m' n t \<Longrightarrow> leads m s m' t"
  using ends_stop [of m' t _ n] by (auto simp: leads_def ends_having_def)

lemma leads_child: "p s = udo m n t \<Longrightarrow> m t = m' u \<Longrightarrow> leads p s m' u"
  by (rule leads_eq(2) [where n = n]) (simp add: udo_def ubind_def)

lemma ends_eq: "m s = m' t \<Longrightarrow> ends_having m' t xs \<Longrightarrow> ends_having m s xs"
  by (simp add: ends_having_def)

lemma run_redir:
  fixes f :: "u8 list" and mode :: u32
  assumes s: "fd_at (std_table i o' e) n cs xs s" and fd: "fd \<in> {0, 1}"
  defines "i1 \<equiv> if fd = 0 then Opened f mode else i" and "o1 \<equiv> if fd = 0 then o' else Opened f mode"
  shows "head_choice cs < 0 \<Longrightarrow> ends_having (runcmd (Redir c f mode fd)) s xs"
    and "0 \<le> head_choice cs \<Longrightarrow> \<exists>t. fd_at (std_table i1 o1 e) n (drop 1 cs) xs t \<and> leads (runcmd (Redir c f mode fd)) s (runcmd c) t"
proof -
  obtain r1 t1 where t1: "usys (Sys_close fd) s = Some (URet r1, t1)" "fd_at ((std_table i o' e)[nat fd := None]) n cs xs t1"
    using step_close [OF s, of "nat fd"] fd by (auto simp: fd_facts)
  { assume "head_choice cs < 0"
    from step_refused(1) [OF t1(2) this, of f mode] obtain t2 where
      t2: "usys (Sys_open f mode) t1 = Some (URet (Reply (- 1) []), t2)" "fd_at ((std_table i o' e)[nat fd := None]) n (drop 1 cs) xs t2"
      by auto
    have "runcmd (Redir c f mode fd) s = udo (fprintf 2 ''open %s failed\<newline>'' [VStr (Some f)]) (uexit 1) t2"
      by (simp add: run_on(1) [OF t1(1)] run_on(2) [OF t2(1)])
    moreover have "ends_having (udo (fprintf 2 ''open %s failed\<newline>'' [VStr (Some f)]) (uexit 1 :: (fds, unit) prog)) t2 xs"
      using ends_message [OF t2(2), of "''open ''" "'' failed\<newline>''"] by (simp add: ascii_def)
    ultimately show "ends_having (runcmd (Redir c f mode fd)) s xs" by (rule ends_eq) }
  { assume "0 \<le> head_choice cs"
    moreover have "lowest_free ((std_table i o' e)[nat fd := None]) = Some (nat fd)" using fd by (auto simp: fd_facts)
    ultimately obtain t2 where
      t2: "usys (Sys_open f mode) t1 = Some (URet (Reply fd []), t2)"
        "fd_at ((std_table i o' e)[nat fd := None, nat fd := Some (Opened f mode)]) n (drop 1 cs) xs t2"
      using step_open [OF t1(2), of "nat fd" f mode] fd by auto
    have "runcmd (Redir c f mode fd) s = udo (runcmd c) (uexit 0) t2"
      using fd by (auto simp: run_on(1) [OF t1(1)] run_on(2) [OF t2(1)])
    moreover have "fd_at (std_table i1 o1 e) n (drop 1 cs) xs t2" using t2(2) fd by (auto simp: fd_facts i1_def o1_def)
    ultimately show "\<exists>t. fd_at (std_table i1 o1 e) n (drop 1 cs) xs t \<and> leads (runcmd (Redir c f mode fd)) s (runcmd c) t"
      using leads_eq(2) by blast }
qed

lemma run_seq:
  assumes s: "fd_at tab n cs xs s"
  shows "head_choice cs = - 1 \<Longrightarrow> ends_having (runcmd (Seq l r)) s xs"
    and "head_choice cs \<noteq> - 1 \<Longrightarrow> \<exists>t. fd_at tab n (drop 1 cs) xs t
      \<and> leads (runcmd (Seq l r)) s (runcmd (if head_choice cs = 0 then l else r)) t"
proof -
  show "ends_having (runcmd (Seq l r)) s xs" if "head_choice cs = - 1" using step_fork [OF s] that by simp
  assume "head_choice cs \<noteq> - 1"
  then obtain t where t: "fork1 s = Some (URet (head_choice cs), t)" "fd_at tab n (drop 1 cs) xs t" using step_fork [OF s] by auto
  from step_wait [OF t(2)] obtain u where u: "usys Sys_wait t = Some (URet (Reply 0 []), u)" "fd_at tab n (drop 1 cs) xs u" by auto
  show "\<exists>t. fd_at tab n (drop 1 cs) xs t \<and> leads (runcmd (Seq l r)) s (runcmd (if head_choice cs = 0 then l else r)) t"
  proof (cases "head_choice cs = 0")
    case True
    then have "runcmd (Seq l r) s = udo (runcmd l) (udo (usys Sys_wait) (udo (runcmd r) (uexit 0))) t"
      by (simp add: run_on(3) [OF t(1)])
    then show ?thesis using t(2) True leads_eq(2) by auto
  next
    case False
    then have "runcmd (Seq l r) s = udo (runcmd r) (uexit 0) u"
      by (simp add: run_on(3) [OF t(1)] run_on(1) [OF u(1)])
    then show ?thesis using u(2) False leads_eq(2) by auto
  qed
qed

lemma run_back:
  assumes s: "fd_at tab n cs xs s"
  shows "head_choice cs \<noteq> 0 \<Longrightarrow> ends_having (runcmd (Back c)) s xs"
    and "head_choice cs = 0 \<Longrightarrow> \<exists>t. fd_at tab n (drop 1 cs) xs t \<and> leads (runcmd (Back c)) s (runcmd c) t"
proof -
  have early: "ends_having (runcmd (Back c)) s xs" if "head_choice cs = - 1" using step_fork [OF s] that by simp
  obtain t where t: "head_choice cs \<noteq> - 1 \<longrightarrow> fork1 s = Some (URet (head_choice cs), t) \<and> fd_at tab n (drop 1 cs) xs t"
    using step_fork [OF s] by auto
  show "ends_having (runcmd (Back c)) s xs" if nz: "head_choice cs \<noteq> 0"
  proof (cases "head_choice cs = - 1")
    case False
    with t have f: "fork1 s = Some (URet (head_choice cs), t)" "fd_at tab n (drop 1 cs) xs t" by auto
    have "runcmd (Back c) s = uexit 0 t" using nz by (simp add: run_on(3) [OF f(1)])
    then show ?thesis by (rule ends_eq) (rule ends_exit [OF f(2)])
  qed (rule early)
  assume z: "head_choice cs = 0"
  with t have f: "fork1 s = Some (URet (head_choice cs), t)" "fd_at tab n (drop 1 cs) xs t" by auto
  have "runcmd (Back c) s = udo (runcmd c) (uexit 0) t" using z by (simp add: run_on(3) [OF f(1)])
  then show "\<exists>t. fd_at tab n (drop 1 cs) xs t \<and> leads (runcmd (Back c)) s (runcmd c) t" using f(2) leads_eq(2) by blast
qed

text \<open>What is left of \<^verbatim>\<open>runcmd\<close> on a pipeline when the pipe has the descriptors 3 and 4: from the second
  \<^verbatim>\<open>fork\<close> on, and from the first.\<close>

definition pipe_second :: "command \<Rightarrow> (fds, unit) prog" where
  "pipe_second d = ubind fork1 (\<lambda>pid.
     udo (if pid = 0 then
            udo (usys (Sys_close 0)) (udo (usys (Sys_dup 3)) (udo (usys (Sys_close 3)) (udo (usys (Sys_close 4)) (runcmd d))))
          else uret ())
     (udo (usys (Sys_close 3)) (udo (usys (Sys_close 4)) (udo (usys Sys_wait) (udo (usys Sys_wait) (uexit 0))))))"

definition pipe_first :: "command \<Rightarrow> command \<Rightarrow> (fds, unit) prog" where
  "pipe_first c d = ubind fork1 (\<lambda>pid.
     udo (if pid = 0 then
            udo (usys (Sys_close 1)) (udo (usys (Sys_dup 4)) (udo (usys (Sys_close 3)) (udo (usys (Sys_close 4)) (runcmd c))))
          else uret ())
     (pipe_second d))"

lemma run_pipe_second:
  assumes s: "fd_at (piped i o' e n) m cs xs s"
  shows "head_choice cs \<noteq> 0 \<Longrightarrow> ends_having (pipe_second d) s xs"
    and "head_choice cs = 0 \<Longrightarrow> \<exists>t. fd_at (std_table (Read_end n) o' e) m (drop 1 cs) xs t \<and> leads (pipe_second d) s (runcmd d) t"
proof -
  have early: "ends_having (pipe_second d) s xs" if "head_choice cs = - 1" unfolding pipe_second_def using step_fork [OF s] that by simp
  obtain t where t: "head_choice cs \<noteq> - 1 \<longrightarrow> fork1 s = Some (URet (head_choice cs), t) \<and> fd_at (piped i o' e n) m (drop 1 cs) xs t"
    using step_fork [OF s] by auto
  show "ends_having (pipe_second d) s xs" if nz: "head_choice cs \<noteq> 0"
  proof (cases "head_choice cs = - 1")
    case False
    with t have f: "fork1 s = Some (URet (head_choice cs), t)" "fd_at (piped i o' e n) m (drop 1 cs) xs t" by auto
    obtain t3 where t3: "usys (Sys_close 3) t = Some (URet (Reply 0 []), t3)" "fd_at ((piped i o' e n)[3 := None]) m (drop 1 cs) xs t3"
      using step_close [OF f(2), of 3] by (auto simp: fd_facts)
    obtain t4 where t4: "usys (Sys_close 4) t3 = Some (URet (Reply 0 []), t4)" "fd_at (std_table i o' e) m (drop 1 cs) xs t4"
      using step_close [OF t3(2), of 4] by (auto simp: fd_facts)
    obtain t5 where t5: "usys Sys_wait t4 = Some (URet (Reply 0 []), t5)" "fd_at (std_table i o' e) m (drop 1 cs) xs t5"
      using step_wait [OF t4(2)] by auto
    obtain t6 where t6: "usys Sys_wait t5 = Some (URet (Reply 0 []), t6)" "fd_at (std_table i o' e) m (drop 1 cs) xs t6"
      using step_wait [OF t5(2)] by auto
    have "pipe_second d s = uexit 0 t6"
      using nz by (simp add: pipe_second_def run_on(3) [OF f(1)] run_on(1) [OF t3(1)] run_on(1) [OF t4(1)] run_on(1) [OF t5(1)] run_on(1) [OF t6(1)])
    then show ?thesis by (rule ends_eq) (rule ends_exit [OF t6(2)])
  qed (rule early)
  assume z: "head_choice cs = 0"
  with t have f: "fork1 s = Some (URet (head_choice cs), t)" "fd_at (piped i o' e n) m (drop 1 cs) xs t" by auto
  from connect_right [OF f(2), of "runcmd d"] obtain u where u: "fd_at (std_table (Read_end n) o' e) m (drop 1 cs) xs u"
    "udo (usys (Sys_close 0)) (udo (usys (Sys_dup 3)) (udo (usys (Sys_close 3)) (udo (usys (Sys_close 4)) (runcmd d)))) t = runcmd d u"
    by auto
  have "leads (pipe_second d) s (runcmd d) u"
    by (rule leads_child [rotated], rule u(2)) (simp add: pipe_second_def run_on(3) [OF f(1)] z)
  then show "\<exists>t. fd_at (std_table (Read_end n) o' e) m (drop 1 cs) xs t \<and> leads (pipe_second d) s (runcmd d) t" using u(1) by blast
qed

lemma run_pipe_first:
  assumes s: "fd_at (piped i o' e n) m cs xs s"
  defines "q \<equiv> head_choice cs"
  shows "q = - 1 \<Longrightarrow> ends_having (pipe_first c d) s xs"
    and "q = 0 \<Longrightarrow> \<exists>t. fd_at (std_table i (Write_end n) e) m (drop 1 cs) xs t \<and> leads (pipe_first c d) s (runcmd c) t"
    and "q \<notin> {0, - 1} \<Longrightarrow> \<exists>t. fd_at (piped i o' e n) m (drop 1 cs) xs t \<and> pipe_first c d s = pipe_second d t"
proof -
  show "ends_having (pipe_first c d) s xs" if "q = - 1" unfolding pipe_first_def using step_fork [OF s] that by (simp add: q_def)
  obtain t where t: "q \<noteq> - 1 \<longrightarrow> fork1 s = Some (URet q, t) \<and> fd_at (piped i o' e n) m (drop 1 cs) xs t"
    using step_fork [OF s] by (auto simp: q_def)
  { assume "q \<notin> {0, - 1}"
    with t have f: "fork1 s = Some (URet q, t)" "fd_at (piped i o' e n) m (drop 1 cs) xs t" and q: "q \<noteq> 0" by auto
    have "pipe_first c d s = pipe_second d t" using q by (simp add: pipe_first_def run_on(3) [OF f(1)])
    then show "\<exists>t. fd_at (piped i o' e n) m (drop 1 cs) xs t \<and> pipe_first c d s = pipe_second d t" using f(2) by blast }
  assume z: "q = 0"
  with t have f: "fork1 s = Some (URet q, t)" "fd_at (piped i o' e n) m (drop 1 cs) xs t" by auto
  from connect_left [OF f(2), of "runcmd c"] obtain u where u: "fd_at (std_table i (Write_end n) e) m (drop 1 cs) xs u"
    "udo (usys (Sys_close 1)) (udo (usys (Sys_dup 4)) (udo (usys (Sys_close 3)) (udo (usys (Sys_close 4)) (runcmd c)))) t = runcmd c u"
    by auto
  have "leads (pipe_first c d) s (runcmd c) u"
    by (rule leads_child [rotated], rule u(2)) (simp add: pipe_first_def run_on(3) [OF f(1)] z)
  then show "\<exists>t. fd_at (std_table i (Write_end n) e) m (drop 1 cs) xs t \<and> leads (pipe_first c d) s (runcmd c) t" using u(1) by blast
qed

lemma run_pipe:
  assumes s: "fd_at (std_table i o' e) n cs xs s"
  shows "head_choice cs < 0 \<Longrightarrow> ends_having (runcmd (Pipe c d)) s xs"
    and "0 \<le> head_choice cs \<Longrightarrow> \<exists>t. fd_at (piped i o' e n) (n + 1) (drop 1 cs) xs t \<and> runcmd (Pipe c d) s = pipe_first c d t"
proof -
  { assume "head_choice cs < 0"
    from step_refused(2) [OF s this] obtain t where
      t: "usys Sys_pipe s = Some (URet (Reply (- 1) []), t)" "fd_at (std_table i o' e) n (drop 1 cs) xs t" by auto
    have "runcmd (Pipe c d) s = sh_panic ''pipe'' t" by (simp add: run_on(2) [OF t(1)])
    moreover have "ends_having (sh_panic ''pipe'' :: (fds, unit) prog) t xs"
      using ends_message [OF t(2), of "''''" "''\<newline>''"] by (simp add: sh_panic_def ascii_def)
    ultimately show "ends_having (runcmd (Pipe c d)) s xs" by (rule ends_eq) }
  { assume "0 \<le> head_choice cs"
    from step_pipe [OF s this] obtain t p where
      t: "usys Sys_pipe s = Some (URet p, t)" "fd_at (piped i o' e n) (n + 1) (drop 1 cs) xs t"
      and p: "rv p = 0" "pipe_fd p 0 = 3" "pipe_fd p (Suc 0) = 4" by auto
    have "runcmd (Pipe c d) s = pipe_first c d t"
      by (simp add: run_on(2) [OF t(1)] p pipe_first_def pipe_second_def cong: if_cong)
    then show "\<exists>t. fd_at (piped i o' e n) (n + 1) (drop 1 cs) xs t \<and> runcmd (Pipe c d) s = pipe_first c d t" using t(2) by blast }
qed

text \<open>Every program that some process of the command executes is one of its programs, and every one
  of them is executed by some process.\<close>

definition proc_image :: "fobj \<Rightarrow> (u8 list list \<times> fobj \<times> fobj) set \<Rightarrow> (u8 list list \<times> fobj option list) set" where
  "proc_image e ps = (\<lambda>(ws, i, o'). (ws, std_table i o' e)) ` ps"

definition execs_in :: "(fds, unit) prog \<Rightarrow> fds uproc \<Rightarrow> (u8 list list \<times> fobj option list) list \<Rightarrow>
    (u8 list list \<times> fobj option list) set \<Rightarrow> bool" where
  "execs_in m s xs S \<longleftrightarrow> (\<exists>ys. ends_having m s (xs @ ys) \<and> set ys \<subseteq> S)"

lemma execs_in_rules:
  "ends_having m s xs \<Longrightarrow> execs_in m s xs S" "leads m s m' t \<Longrightarrow> execs_in m' t xs T \<Longrightarrow> T \<subseteq> S \<Longrightarrow> execs_in m s xs S"
proof -
  show "execs_in m s xs S" if "ends_having m s xs" using that by (auto simp: execs_in_def intro: exI [of _ "[]"])
  show "execs_in m s xs S" if "leads m s m' t" "execs_in m' t xs T" "T \<subseteq> S" using that by (auto simp: execs_in_def leads_def)
qed

lemma run_exec:
  assumes s: "fd_at tab n cs xs s" and ws: "ws \<noteq> []"
  shows "ends_having (runcmd (Exec ws)) s (xs @ [(ws, tab)])"
proof -
  from step_exec [OF s, of "hd ws" ws] obtain t where
    t: "usys (Sys_exec (hd ws) ws) s = Some (URet (Reply (- 1) []), t)" "fd_at tab n cs (xs @ [(ws, tab)]) t" by auto
  have "runcmd (Exec ws) s = udo (fprintf 2 ''exec %s failed\<newline>'' [VStr (Some (hd ws))]) (uexit 0) t"
    using ws by (simp add: run_on(1) [OF t(1)])
  moreover have "ends_having (udo (fprintf 2 ''exec %s failed\<newline>'' [VStr (Some (hd ws))]) (uexit 0 :: (fds, unit) prog)) t (xs @ [(ws, tab)])"
    using ends_message [OF t(2), of "''exec ''" "'' failed\<newline>''"] by (simp add: ascii_def)
  ultimately show ?thesis by (rule ends_eq)
qed

lemma pipe_sound:
  assumes IH: "\<And>i o' n cs t. fd_at (std_table i o' e) n cs xs t \<Longrightarrow> execs_in (runcmd c) t xs (proc_image e (programs c i o' n))"
    "\<And>i o' n cs t. fd_at (std_table i o' e) n cs xs t \<Longrightarrow> execs_in (runcmd d) t xs (proc_image e (programs d i o' n))"
    and s: "fd_at (std_table i o' e) n cs xs s"
  shows "execs_in (runcmd (Pipe c d)) s xs (proc_image e (programs (Pipe c d) i o' n))"
proof -
  have sub: "proc_image e (programs c i (Write_end n) (n + 1)) \<subseteq> proc_image e (programs (Pipe c d) i o' n)"
    "proc_image e (programs d (Read_end n) o' (n + 1)) \<subseteq> proc_image e (programs (Pipe c d) i o' n)"
    unfolding proc_image_def by (rule image_mono, simp)+
  show ?thesis
  proof (cases "head_choice cs < 0")
    case True
    then show ?thesis by (rule execs_in_rules(1) [OF run_pipe(1) [OF s]])
  next
    case False
    then have "0 \<le> head_choice cs" by simp
    from run_pipe(2) [OF s this] obtain t where
      t: "fd_at (piped i o' e n) (n + 1) (drop 1 cs) xs t" "runcmd (Pipe c d) s = pipe_first c d t" by blast
    consider "head_choice (drop 1 cs) = - 1" | "head_choice (drop 1 cs) = 0" | "head_choice (drop 1 cs) \<notin> {0, - 1}" by auto
    then have "execs_in (pipe_first c d) t xs (proc_image e (programs (Pipe c d) i o' n))"
    proof cases
      case 1
      then show ?thesis by (rule execs_in_rules(1) [OF run_pipe_first(1) [OF t(1)]])
    next
      case 2
      from run_pipe_first(2) [OF t(1) this] IH(1) sub(1) show ?thesis by (fastforce elim: execs_in_rules(2))
    next
      case 3
      from run_pipe_first(3) [OF t(1) this] obtain u where
        u: "fd_at (piped i o' e n) (n + 1) (drop 1 (drop 1 cs)) xs u" "pipe_first c d t = pipe_second d u" by blast
      have "execs_in (pipe_second d) u xs (proc_image e (programs (Pipe c d) i o' n))"
      proof (cases "head_choice (drop 1 (drop 1 cs)) = 0")
        case True
        from run_pipe_second(2) [OF u(1) this] IH(2) sub(2) show ?thesis by (fastforce elim: execs_in_rules(2))
      qed (rule execs_in_rules(1) [OF run_pipe_second(1) [OF u(1)]])
      then show ?thesis using u(2) by (simp add: execs_in_def ends_having_def)
    qed
    then show ?thesis using t(2) by (simp add: execs_in_def ends_having_def)
  qed
qed

lemma runcmd_sound:
  "command_ok c \<Longrightarrow> fd_at (std_table i o' e) n cs xs s \<Longrightarrow> execs_in (runcmd c) s xs (proc_image e (programs c i o' n))"
proof (induction c arbitrary: i o' n cs s)
  case (Exec ws)
  show ?case
  proof (cases "ws = []")
    case True
    then have "ends_having (runcmd (Exec ws)) s xs" by (simp add: ends_exit [OF Exec.prems(2)])
    then show ?thesis by (rule execs_in_rules(1))
  next
    case False
    from run_exec [OF Exec.prems(2) False] False show ?thesis
      unfolding execs_in_def by (intro exI [of _ "[(ws, std_table i o' e)]"]) (simp add: proc_image_def)
  qed
next
  case (Redir c f mode fd)
  have fd: "fd \<in> {0, 1}" using Redir.prems(1) by (auto simp: redir_modes_def)
  have IH: "fd_at (std_table i o' e) n cs xs t \<Longrightarrow> execs_in (runcmd c) t xs (proc_image e (programs c i o' n))" for i o' cs t
    using Redir.IH Redir.prems(1) by simp
  show ?case
  proof (cases "head_choice cs < 0")
    case True
    then show ?thesis by (rule execs_in_rules(1) [OF run_redir(1) [OF Redir.prems(2) fd]])
  next
    case False
    then have "0 \<le> head_choice cs" by simp
    from run_redir(2) [OF Redir.prems(2) fd this] IH show ?thesis by (fastforce elim: execs_in_rules(2))
  qed
next
  case (Pipe c d)
  show ?case by (rule pipe_sound [OF _ _ Pipe.prems(2)]) (use Pipe.IH Pipe.prems(1) in simp_all)
next
  case (Seq c d)
  show ?case
  proof (cases "head_choice cs = - 1")
    case False
    let ?c = "if head_choice cs = 0 then c else d"
    from run_seq(2) [OF Seq.prems(2) False] obtain t where
      t: "fd_at (std_table i o' e) n (drop 1 cs) xs t" "leads (runcmd (Seq c d)) s (runcmd ?c) t" by blast
    have "execs_in (runcmd ?c) t xs (proc_image e (programs ?c i o' n))"
      using Seq.IH [OF _ t(1)] Seq.prems(1) by simp
    then show ?thesis by (rule execs_in_rules(2) [OF t(2)]) (simp add: proc_image_def image_mono)
  qed (rule execs_in_rules(1) [OF run_seq(1) [OF Seq.prems(2)]])
next
  case (Back c)
  show ?case
  proof (cases "head_choice cs = 0")
    case True
    from run_back(2) [OF Back.prems(2) True] Back.IH Back.prems(1) show ?thesis by (fastforce elim: execs_in_rules(2))
  qed (rule execs_in_rules(1) [OF run_back(1) [OF Back.prems(2)]])
qed

definition reaches :: "command \<Rightarrow> fobj \<Rightarrow> fobj \<Rightarrow> fobj \<Rightarrow> nat \<Rightarrow> (u8 list list \<times> fobj option list) \<Rightarrow> bool" where
  "reaches c i o' e n x \<longleftrightarrow>
     (\<exists>cs. \<forall>s xs. fd_at (std_table i o' e) n cs xs s \<longrightarrow> ends_having (runcmd c) s (xs @ [x]))"

lemma reachesI:
  assumes "reaches d i1 o1 e n1 x"
    and "\<And>cs s xs. fd_at (std_table i o' e) n (ks @ cs) xs s \<Longrightarrow>
      \<exists>t. fd_at (std_table i1 o1 e) n1 cs xs t \<and> leads (runcmd c) s (runcmd d) t"
  shows "reaches c i o' e n x"
proof -
  obtain cs where cs: "\<And>s xs. fd_at (std_table i1 o1 e) n1 cs xs s \<Longrightarrow> ends_having (runcmd d) s (xs @ [x])"
    using assms(1) by (auto simp: reaches_def)
  have "ends_having (runcmd c) s (xs @ [x])" if "fd_at (std_table i o' e) n (ks @ cs) xs s" for s xs
    using assms(2) [OF that] cs by (auto simp: leads_def)
  then show ?thesis by (auto simp: reaches_def)
qed

lemma run_pipe_left:
  assumes "fd_at (std_table i o' e) n ([1, 0] @ cs) xs s"
  shows "\<exists>t. fd_at (std_table i (Write_end n) e) (n + 1) cs xs t \<and> leads (runcmd (Pipe c d)) s (runcmd c) t"
proof -
  from run_pipe(2) [OF assms, of c d] obtain t where
    t: "fd_at (piped i o' e n) (n + 1) (0 # cs) xs t" "runcmd (Pipe c d) s = pipe_first c d t" by (auto simp: head_choice_def)
  from run_pipe_first(2) [OF t(1)] show ?thesis using t(2) by (auto simp: head_choice_def leads_def ends_having_def)
qed

lemma run_pipe_right:
  assumes "fd_at (std_table i o' e) n ([1, 1, 0] @ cs) xs s"
  shows "\<exists>t. fd_at (std_table (Read_end n) o' e) (n + 1) cs xs t \<and> leads (runcmd (Pipe c d)) s (runcmd d) t"
proof -
  from run_pipe(2) [OF assms, of c d] obtain t where
    t: "fd_at (piped i o' e n) (n + 1) (1 # 0 # cs) xs t" "runcmd (Pipe c d) s = pipe_first c d t" by (auto simp: head_choice_def)
  from run_pipe_first(3) [OF t(1), of c d] obtain u where
    u: "fd_at (piped i o' e n) (n + 1) (0 # cs) xs u" "pipe_first c d t = pipe_second d u" by (auto simp: head_choice_def)
  from run_pipe_second(2) [OF u(1)] show ?thesis using t(2) u(2) by (auto simp: head_choice_def leads_def ends_having_def)
qed

lemma runcmd_complete:
  "command_ok c \<Longrightarrow> (ws, i', o1) \<in> programs c i o' n \<Longrightarrow> reaches c i o' e n (ws, std_table i' o1 e)"
proof (induction c arbitrary: i o' n)
  case (Exec vs)
  then have "vs \<noteq> []" "ws = vs" "i' = i" "o1 = o'" by (simp_all split: if_splits)
  then show ?case unfolding reaches_def by (intro exI [of _ "[]"] allI impI) (simp only:, rule run_exec)
next
  case (Redir c f mode fd)
  have fd: "fd \<in> {0, 1}" using Redir.prems(1) by (auto simp: redir_modes_def)
  have "reaches c (if fd = 0 then Opened f mode else i) (if fd = 0 then o' else Opened f mode) e n (ws, std_table i' o1 e)"
    using Redir.IH Redir.prems by (cases "fd = 0") simp_all
  then show ?case
  proof (rule reachesI [where ks = "[1]"])
    fix cs s xs
    assume s: "fd_at (std_table i o' e) n ([1] @ cs) xs s"
    show "\<exists>t. fd_at (std_table (if fd = 0 then Opened f mode else i) (if fd = 0 then o' else Opened f mode) e) n cs xs t
        \<and> leads (runcmd (Redir c f mode fd)) s (runcmd c) t"
      using run_redir(2) [OF s fd, of f mode c] by (simp add: head_choice_def)
  qed
next
  case (Pipe c d)
  show ?case
  proof (cases "(ws, i', o1) \<in> programs c i (Write_end n) (n + 1)")
    case True
    then have "reaches c i (Write_end n) e (n + 1) (ws, std_table i' o1 e)" using Pipe.IH(1) Pipe.prems(1) by simp
    then show ?thesis by (rule reachesI) (rule run_pipe_left)
  next
    case False
    then have "reaches d (Read_end n) o' e (n + 1) (ws, std_table i' o1 e)" using Pipe.IH(2) Pipe.prems by simp
    then show ?thesis by (rule reachesI) (rule run_pipe_right)
  qed
next
  case (Seq c d)
  have run: "\<exists>t. fd_at (std_table i o' e) n cs xs t \<and> leads (runcmd (Seq c d)) s (runcmd (if k = 0 then c else d)) t"
    if "fd_at (std_table i o' e) n ([k] @ cs) xs s" "k \<noteq> - 1" for k cs s xs
    using run_seq(2) [OF that(1), of c d] that(2) by (simp add: head_choice_def)
  show ?case
  proof (cases "(ws, i', o1) \<in> programs c i o' n")
    case True
    then have "reaches c i o' e n (ws, std_table i' o1 e)" using Seq.IH(1) Seq.prems(1) by simp
    then show ?thesis by (rule reachesI [where ks = "[0]"]) (drule run, simp_all)
  next
    case False
    then have "reaches d i o' e n (ws, std_table i' o1 e)" using Seq.IH(2) Seq.prems by simp
    then show ?thesis by (rule reachesI [where ks = "[1]"]) (drule run, simp_all)
  qed
next
  case (Back c)
  then have "reaches c i o' e n (ws, std_table i' o1 e)" by simp
  then show ?case by (rule reachesI [where ks = "[0]"]) (drule run_back(2), simp_all add: head_choice_def)
qed

definition sh_child :: "fobj \<Rightarrow> fobj \<Rightarrow> fobj \<Rightarrow> int list \<Rightarrow> fds uproc" where
  "sh_child i o' e cs = \<lparr>kst = \<lparr>fd_table = std_table i o' e, fd_pipes = 0, fd_choices = cs, fd_execs = []\<rparr>,
     answer = fd_side, trace = []\<rparr>"

text \<open>C26. What the shell runs is what the command says. Taken over all the processes that a command becomes,
  the programs that are executed are exactly its programs, each with the standard input and output that
  redirections and pipes give it, the shell's standard error, and every other descriptor closed: no
  program is started with an end of a pipe besides its standard input and output.\<close>

theorem runcmd_programs:
  assumes "command_ok c"
  shows "{x. \<exists>cs code t. runcmd c (sh_child i o' e cs) = Some (UExit code, t) \<and> x \<in> set (fd_execs (kst t))}
    = {(ws, std_table i' o1 e) |ws i' o1. (ws, i', o1) \<in> programs c i o' 0}"
proof (intro equalityI subsetI)
  have start: "fd_at (std_table i o' e) 0 cs [] (sh_child i o' e cs)" for cs by (simp add: fd_at_def sh_child_def)
  { fix x
    assume "x \<in> {x. \<exists>cs code t. runcmd c (sh_child i o' e cs) = Some (UExit code, t) \<and> x \<in> set (fd_execs (kst t))}"
    then obtain cs code t where "runcmd c (sh_child i o' e cs) = Some (UExit code, t)" "x \<in> set (fd_execs (kst t))" by auto
    with runcmd_sound [OF assms start [of cs]] have "x \<in> proc_image e (programs c i o' 0)"
      by (auto simp: execs_in_def ends_having_def)
    then show "x \<in> {(ws, std_table i' o1 e) |ws i' o1. (ws, i', o1) \<in> programs c i o' 0}" by (auto simp: proc_image_def) }
  { fix x
    assume "x \<in> {(ws, std_table i' o1 e) |ws i' o1. (ws, i', o1) \<in> programs c i o' 0}"
    then have "reaches c i o' e 0 x" using runcmd_complete [OF assms] by auto
    then obtain cs where "ends_having (runcmd c) (sh_child i o' e cs) [x]" using start by (fastforce simp: reaches_def)
    then obtain code t where "runcmd c (sh_child i o' e cs) = Some (UExit code, t)" "fd_execs (kst t) = [x]"
      unfolding ends_having_def by (elim exE conjE) (rule that)
    then show "x \<in> {x. \<exists>cs code t. runcmd c (sh_child i o' e cs) = Some (UExit code, t) \<and> x \<in> set (fd_execs (kst t))}"
      by (intro CollectI exI [of _ cs] exI [of _ code] exI [of _ t]) simp }
qed

theorem runcmd_programs_witness:
  "{x. \<exists>cs code t. runcmd sample (sh_child (Given 0) (Given 1) (Given 2) cs) = Some (UExit code, t) \<and> x \<in> set (fd_execs (kst t))}
    = {([str ''cat'', str ''f''], std_table (Given 0) (Write_end 0) (Given 2)),
       ([str ''wc''], std_table (Read_end 0) (Opened (str ''out'') (O_WRONLY OR O_CREATE)) (Given 2)),
       ([str ''ls''], std_table (Opened (str ''in'') O_RDONLY) (Given 1) (Given 2))}"
proof -
  have "programs sample (Given 0) (Given 1) 0 =
    {([str ''cat'', str ''f''], Given 0, Write_end 0), ([str ''wc''], Read_end 0, Opened (str ''out'') (O_WRONLY OR O_CREATE)),
     ([str ''ls''], Opened (str ''in'') O_RDONLY, Given 1)}"
    by (simp add: sample_def insert_commute)
  then show ?thesis unfolding runcmd_programs [OF sample_ok] by (simp only:) blast
qed

end
