(* ===== verification/Umalloc.thy ===== *)
theory Umalloc
  imports User
begin

section \<open>user/umalloc.c\<close>

text \<open>
  The memory allocator of user programs. The headers of all blocks, free or not, are a map from
  addresses; pointers are numbers, and adding to a \<^verbatim>\<open>Header*\<close> counts in headers of 16 bytes. The
  searches round the circular free list are partial: \<^const>\<open>None\<close> is a search that does not end.
  Memory comes from \<^verbatim>\<open>sbrk\<close>, whose argument is an \<^verbatim>\<open>int\<close>. On a free list sorted by address, with gaps
  between the blocks, both \<^verbatim>\<open>free\<close> and \<^verbatim>\<open>malloc\<close> end, keep the list so, and move exactly the bytes of
  one block into or out of the free memory.
\<close>

subsection \<open>The allocator\<close>

record header =
  hptr :: nat
  hsize :: u32

record arena =
  hdrs :: "nat \<Rightarrow> header"
  base :: nat
  freep :: nat

abbreviation hplus :: "nat \<Rightarrow> u32 \<Rightarrow> nat" where
  "hplus p n \<equiv> p + 16 * unat n"

definition set_hdr :: "nat \<Rightarrow> (header \<Rightarrow> header) \<Rightarrow> arena \<Rightarrow> arena" where
  "set_hdr p f m = m\<lparr>hdrs := (hdrs m)(p := f (hdrs m p))\<rparr>"

text \<open>The loop of \<^verbatim>\<open>free\<close> that looks for the block behind which \<^verbatim>\<open>bp\<close> belongs, and the rest of it.\<close>

partial_function (option) free_find :: "arena \<Rightarrow> nat \<Rightarrow> nat \<Rightarrow> nat option" where
  "free_find m bp p =
     (if bp > p \<and> bp < hptr (hdrs m p) then Some p
      else if p \<ge> hptr (hdrs m p) \<and> (bp > p \<or> bp < hptr (hdrs m p)) then Some p
      else free_find m bp (hptr (hdrs m p)))"

definition free_join :: "nat \<Rightarrow> nat \<Rightarrow> arena \<Rightarrow> arena" where
  "free_join bp p m =
     (let q = hptr (hdrs m p);
          m = (if hplus bp (hsize (hdrs m bp)) = q
               then set_hdr bp (\<lambda>h. h\<lparr>hsize := hsize h + hsize (hdrs m q), hptr := hptr (hdrs m q)\<rparr>) m
               else set_hdr bp (\<lambda>h. h\<lparr>hptr := q\<rparr>) m);
          m = (if hplus p (hsize (hdrs m p)) = bp
               then set_hdr p (\<lambda>h. h\<lparr>hsize := hsize h + hsize (hdrs m bp), hptr := hptr (hdrs m bp)\<rparr>) m
               else set_hdr p (\<lambda>h. h\<lparr>hptr := bp\<rparr>) m)
      in m\<lparr>freep := p\<rparr>)"

definition ufree :: "nat \<Rightarrow> arena \<Rightarrow> arena option" where
  "ufree ap m = (let bp = ap - 16 in map_option (\<lambda>p. free_join bp p m) (free_find m bp (freep m)))"

definition morecore :: "u32 \<Rightarrow> arena \<Rightarrow> ('k, nat \<times> arena) prog" where
  "morecore nu m =
     (let nu = (if nu < 4096 then 4096 else nu) in
      ubind (usys (Sys_sbrk (sint (16 * nu)))) (\<lambda>r.
      if rv r = - 1 then uret (0, m)
      else let hp = nat (rv r); m = set_hdr hp (\<lambda>h. h\<lparr>hsize := nu\<rparr>) m in
        case ufree (hp + 16) m of None \<Rightarrow> (\<lambda>s. None) | Some m \<Rightarrow> uret (freep m, m)))"

text \<open>Taking a block that is large enough: the whole of it, or its tail.\<close>

definition malloc_take :: "u32 \<Rightarrow> nat \<Rightarrow> nat \<Rightarrow> arena \<Rightarrow> nat \<times> arena" where
  "malloc_take nunits prevp p m =
     (if hsize (hdrs m p) = nunits
      then (p + 16, (set_hdr prevp (\<lambda>h. h\<lparr>hptr := hptr (hdrs m p)\<rparr>) m)\<lparr>freep := prevp\<rparr>)
      else let sz = hsize (hdrs m p) - nunits; q = hplus p sz in
        (q + 16, (set_hdr q (\<lambda>h. h\<lparr>hsize := nunits\<rparr>) (set_hdr p (\<lambda>h. h\<lparr>hsize := sz\<rparr>) m))\<lparr>freep := prevp\<rparr>))"

partial_function (option) malloc_loop :: "u32 \<Rightarrow> nat \<Rightarrow> nat \<Rightarrow> arena \<Rightarrow> ('k, nat \<times> arena) prog" where
  "malloc_loop nunits prevp p m s =
     (if hsize (hdrs m p) \<ge> nunits then uret (malloc_take nunits prevp p m) s
      else if p = freep m then
        ubind (morecore nunits m) (\<lambda>(p, m) s.
          if p = 0 then uret (0, m) s else malloc_loop nunits p (hptr (hdrs m p)) m s) s
      else malloc_loop nunits p (hptr (hdrs m p)) m s)"

definition malloc_units :: "u32 \<Rightarrow> u32" where
  "malloc_units nbytes = ucast ((ucast nbytes + 16 - 1 :: u64) div 16 + 1)"

definition malloc_start :: "arena \<Rightarrow> arena" where
  "malloc_start m =
     (if freep m = 0 then set_hdr (base m) (\<lambda>h. \<lparr>hptr = base m, hsize = 0\<rparr>) (m\<lparr>freep := base m\<rparr>) else m)"

definition umalloc :: "u32 \<Rightarrow> arena \<Rightarrow> ('k, nat \<times> arena) prog" where
  "umalloc nbytes m =
     (let m = malloc_start m in malloc_loop (malloc_units nbytes) (freep m) (hptr (hdrs m (freep m))) m)"

subsection \<open>The free list\<close>

abbreviation blk_end :: "arena \<Rightarrow> nat \<Rightarrow> nat" where
  "blk_end m b \<equiv> hplus b (hsize (hdrs m b))"

definition blk :: "arena \<Rightarrow> nat \<Rightarrow> nat set" where
  "blk m b = {b ..< blk_end m b}"

text \<open>The blocks in the order of their addresses, with gaps between them, the last ring_path to the first.\<close>

fun chain :: "arena \<Rightarrow> nat list \<Rightarrow> bool" where
  "chain m [] \<longleftrightarrow> False"
| "chain m [x] \<longleftrightarrow> hptr (hdrs m x) = base m"
| "chain m (x # y # zs) \<longleftrightarrow> hptr (hdrs m x) = y \<and> blk_end m x < y \<and> chain m (y # zs)"

fun lead :: "arena \<Rightarrow> nat list \<Rightarrow> nat \<Rightarrow> bool" where
  "lead m [] y \<longleftrightarrow> True"
| "lead m [x] y \<longleftrightarrow> hptr (hdrs m x) = y \<and> blk_end m x < y"
| "lead m (x # z # zs) y \<longleftrightarrow> hptr (hdrs m x) = z \<and> blk_end m x < z \<and> lead m (z # zs) y"

definition heap_top :: nat where
  "heap_top = 2 ^ 36"

definition free_list :: "arena \<Rightarrow> nat list \<Rightarrow> bool" where
  "free_list m bs \<longleftrightarrow> chain m bs \<and> hd bs = base m \<and> 0 < base m \<and> hsize (hdrs m (base m)) = 0 \<and> freep m \<in> set bs
     \<and> (\<forall>b \<in> set bs. b \<noteq> base m \<longrightarrow> 0 < hsize (hdrs m b) \<and> blk_end m b \<le> heap_top)"

lemma chain_split: "chain m (xs @ y # ys) \<longleftrightarrow> lead m xs y \<and> chain m (y # ys)"
  by (induction m xs y rule: lead.induct) auto

lemma chain_cong: "(\<And>x. x \<in> set xs \<Longrightarrow> hdrs m' x = hdrs m x) \<Longrightarrow> base m' = base m \<Longrightarrow> chain m xs \<Longrightarrow> chain m' xs"
  by (induction m xs rule: chain.induct) auto

lemma lead_cong: "(\<And>x. x \<in> set xs \<Longrightarrow> hdrs m' x = hdrs m x) \<Longrightarrow> lead m xs y \<Longrightarrow> lead m' xs y"
  by (induction m xs y rule: lead.induct) auto

lemma chain_graft:
  assumes "chain m (q # zs)" "hptr (hdrs m' p) = hptr (hdrs m q)" "zs \<noteq> [] \<Longrightarrow> blk_end m' p < hd zs"
    and "\<And>x. x \<in> set zs \<Longrightarrow> hdrs m' x = hdrs m x" "base m' = base m"
  shows "chain m' (p # zs)"
proof (cases zs)
  case (Cons z ws)
  have "chain m' zs" by (rule chain_cong [of zs m' m]) (use assms Cons in auto)
  then show ?thesis using assms(1,2,3) Cons by simp
qed (use assms in simp)

lemma chain_sorted: "chain m xs \<Longrightarrow> sorted_wrt (\<lambda>x y. blk_end m x < y) xs"
proof (induction m xs rule: chain.induct)
  case (3 m x y zs)
  then have "\<forall>z \<in> set zs. y < z" by auto
  then show ?case using 3 by auto
qed auto

lemma chain_order:
  assumes "chain m (xs @ p # ys)"
  shows "\<forall>x \<in> set xs. blk_end m x < p" "\<forall>y \<in> set ys. blk_end m p < y" "\<forall>x \<in> set xs. \<forall>y \<in> set ys. blk_end m x < y"
  using chain_sorted [OF assms] by (auto simp: sorted_wrt_append)

lemma chain_distinct: "chain m bs \<Longrightarrow> distinct bs"
  by (drule chain_sorted, induction bs) fastforce+

lemma chain_next: "chain m (xs @ p # ys) \<Longrightarrow> hptr (hdrs m p) = (if ys = [] then base m else hd ys)"
  by (cases ys) (auto simp: chain_split)

lemma base_least:
  assumes "chain m bs" "hd bs = base m" "b \<in> set bs"
  shows "base m \<le> b"
proof (cases bs)
  case (Cons x xs)
  then show ?thesis using chain_order(2) [of m "[]" x xs] assms by fastforce
qed (use assms in simp)

subsection \<open>free\<close>

lemma find_ahead:
  assumes "chain m bs" "hd bs = base m" "bp \<notin> set bs" "base m < bp"
  shows "bs = us @ p # vs \<Longrightarrow> p < bp \<Longrightarrow>
    \<exists>k xs ys. free_find m bp p = Some k \<and> bs = xs @ k # ys \<and> k < bp \<and> (ys \<noteq> [] \<longrightarrow> bp < hd ys)"
proof (induction vs arbitrary: us p)
  case Nil
  then have "hptr (hdrs m p) = base m" "base m \<le> p" using chain_next assms(1,2) base_least by auto
  then have "free_find m bp p = Some p" using Nil.prems(2) by (subst free_find.simps) simp
  then show ?case using Nil by blast
next
  case (Cons v vs)
  have n: "hptr (hdrs m p) = v" using chain_next [of m us p "v # vs"] Cons.prems(1) assms(1) by simp
  have "p < v" using chain_order(2) [of m us p "v # vs"] Cons.prems(1) assms(1) by auto
  show ?case
  proof (cases "bp < v")
    case True
    then have "free_find m bp p = Some p" using n Cons.prems(2) by (subst free_find.simps) simp
    then show ?thesis using Cons.prems True by (intro exI [of _ p] exI [of _ us] exI [of _ "v # vs"]) simp
  next
    case False
    then have "v < bp" using assms(3) Cons.prems(1) by (auto simp: not_less le_less)
    moreover have "free_find m bp p = free_find m bp v"
      using n False Cons.prems(2) \<open>p < v\<close> by (subst free_find.simps) simp
    ultimately show ?thesis using Cons.IH [of "us @ [p]" v] Cons.prems(1) by simp
  qed
qed

lemma find_place:
  assumes b: "chain m bs" "hd bs = base m" "bp \<notin> set bs" "base m < bp"
  shows "bs = us @ p # vs \<Longrightarrow>
    \<exists>k xs ys. free_find m bp p = Some k \<and> bs = xs @ k # ys \<and> k < bp \<and> (ys \<noteq> [] \<longrightarrow> bp < hd ys)"
proof (induction vs arbitrary: us p)
  case Nil
  show ?case
  proof (cases "p < bp")
    case True
    then show ?thesis using find_ahead [OF b Nil] by simp
  next
    case False
    then have gt: "bp < p" using b(3) Nil by (auto simp: not_less le_less)
    have "hptr (hdrs m p) = base m" "base m \<le> p" using chain_next b(1,2) base_least Nil by auto
    then have "free_find m bp p = free_find m bp (base m)" using gt b(4) by (subst free_find.simps) auto
    moreover obtain zs where "bs = [] @ base m # zs" using b(1,2) by (cases bs) auto
    ultimately show ?thesis using find_ahead [OF b, of "[]" "base m"] b(4) by simp
  qed
next
  case (Cons v vs)
  show ?case
  proof (cases "p < bp")
    case True
    then show ?thesis using find_ahead [OF b Cons.prems] by simp
  next
    case False
    have n: "hptr (hdrs m p) = v" using chain_next [of m us p "v # vs"] Cons.prems(1) b(1) by simp
    have "p < v" using chain_order(2) [of m us p "v # vs"] Cons.prems(1) b(1) by auto
    then have "free_find m bp p = free_find m bp v" using n False by (subst free_find.simps) auto
    then show ?thesis using Cons.IH [of "us @ [p]" v] Cons.prems by simp
  qed
qed

lemma set_hdr_simps [simp]:
  "hdrs (set_hdr p f m) q = (if q = p then f (hdrs m p) else hdrs m q)" "base (set_hdr p f m) = base m" "freep (set_hdr p f m) = freep m"
  by (simp_all add: set_hdr_def)

lemma blk_set_hdr: "q \<noteq> p \<Longrightarrow> blk (set_hdr p f m) q = blk m q"
  by (simp add: blk_def)

lemma size_add:
  assumes "hplus p a = q" "hplus q b \<le> heap_top" "0 < p"
  shows "unat (a + b) = unat a + unat b"
proof -
  have "16 * (unat a + unat b) < 2 ^ 36" using assms by (simp add: heap_top_def)
  then have "unat a + unat b < 2 ^ 32" by simp
  then show ?thesis by (subst unat_add_lem [THEN iffD1]) simp_all
qed

definition join_right :: "nat \<Rightarrow> nat \<Rightarrow> arena \<Rightarrow> arena" where
  "join_right bp q m =
     (if blk_end m bp = q
      then set_hdr bp (\<lambda>h. h\<lparr>hsize := hsize h + hsize (hdrs m q), hptr := hptr (hdrs m q)\<rparr>) m
      else set_hdr bp (\<lambda>h. h\<lparr>hptr := q\<rparr>) m)"

definition join_left :: "nat \<Rightarrow> nat \<Rightarrow> arena \<Rightarrow> arena" where
  "join_left bp p m =
     (if blk_end m p = bp
      then set_hdr p (\<lambda>h. h\<lparr>hsize := hsize h + hsize (hdrs m bp), hptr := hptr (hdrs m bp)\<rparr>) m
      else set_hdr p (\<lambda>h. h\<lparr>hptr := bp\<rparr>) m)"

lemma free_join_eq: "free_join bp p m = (join_left bp p (join_right bp (hptr (hdrs m p)) m))\<lparr>freep := p\<rparr>"
  by (simp add: free_join_def join_right_def join_left_def Let_def)

lemma join_right_chain:
  assumes ys: "ys \<noteq> [] \<Longrightarrow> chain m ys \<and> blk_end m bp \<le> hd ys \<and> q = hd ys" "ys = [] \<Longrightarrow> q = base m"
    and bp: "bp \<notin> set ys" "base m < bp" "blk_end m bp \<le> heap_top" and top: "\<forall>y \<in> set ys. blk_end m y \<le> heap_top"
  shows "\<exists>zs. chain (join_right bp q m) (bp # zs) \<and> set zs \<subseteq> set ys \<and> blk_end (join_right bp q m) bp \<le> heap_top
    \<and> unat (hsize (hdrs m bp)) \<le> unat (hsize (hdrs (join_right bp q m) bp))
    \<and> (\<Union>b \<in> set (bp # zs). blk (join_right bp q m) b) = blk m bp \<union> (\<Union>b \<in> set ys. blk m b)"
proof (cases "ys \<noteq> [] \<and> blk_end m bp = q")
  case True
  then obtain zs where y: "ys = q # zs" using ys(1) by (cases ys) auto
  let ?h = "\<lambda>h. h\<lparr>hsize := hsize h + hsize (hdrs m q), hptr := hptr (hdrs m q)\<rparr>"
  have eq: "join_right bp q m = set_hdr bp ?h m" using True by (simp add: join_right_def)
  have "unat (hsize (hdrs m bp) + hsize (hdrs m q)) = unat (hsize (hdrs m bp)) + unat (hsize (hdrs m q))"
    using True bp(2) top y by (intro size_add [of bp _ q]) auto
  then have e: "blk_end (set_hdr bp ?h m) bp = blk_end m q" "unat (hsize (hdrs m bp)) \<le> unat (hsize (hdrs (set_hdr bp ?h m) bp))"
    using True by auto
  have c: "chain m (q # zs)" using ys(1) y by simp
  have "chain (set_hdr bp ?h m) (bp # zs)"
    using c e bp(1) y by (intro chain_graft [OF c]) (auto simp: neq_Nil_conv)
  moreover have "(\<Union>b \<in> set (bp # zs). blk (set_hdr bp ?h m) b) = blk m bp \<union> (\<Union>b \<in> set ys. blk m b)"
  proof -
    have "blk (set_hdr bp ?h m) bp = blk m bp \<union> blk m q" using e True unfolding blk_def by auto
    moreover have "blk (set_hdr bp ?h m) b = blk m b" if "b \<in> set zs" for b using that bp(1) y by (intro blk_set_hdr) auto
    ultimately show ?thesis by (simp add: y Un_assoc)
  qed
  moreover have "set zs \<subseteq> set ys" "blk_end (set_hdr bp ?h m) bp \<le> heap_top" using e(1) top y by auto
  ultimately show ?thesis unfolding eq using e(2) by blast
next
  case False
  let ?h = "\<lambda>h. h\<lparr>hptr := q\<rparr>"
  have "blk_end m bp \<noteq> q" using False ys bp(2) by auto
  then have eq: "join_right bp q m = set_hdr bp ?h m" by (simp add: join_right_def)
  have "chain (set_hdr bp ?h m) (bp # ys)"
  proof (cases ys)
    case Nil
    then show ?thesis using ys(2) by simp
  next
    case (Cons z ws)
    have "chain (set_hdr bp ?h m) (z # ws)" by (rule chain_cong [of _ _ m]) (use ys(1) Cons bp(1) in auto)
    then show ?thesis using ys(1) Cons \<open>blk_end m bp \<noteq> q\<close> by simp
  qed
  moreover have "(\<Union>b \<in> set (bp # ys). blk (set_hdr bp ?h m) b) = blk m bp \<union> (\<Union>b \<in> set ys. blk m b)"
    using bp(1) by (auto simp: blk_def split: if_splits)
  moreover have "blk_end (set_hdr bp ?h m) bp \<le> heap_top" "unat (hsize (hdrs m bp)) \<le> unat (hsize (hdrs (set_hdr bp ?h m) bp))"
    using bp(3) by simp_all
  ultimately show ?thesis unfolding eq by blast
qed

lemma join_left_chain:
  assumes c: "chain m (bp # zs)" "lead m xs p" and p: "p \<notin> set (bp # zs)" "p \<notin> set xs" "blk_end m p \<le> bp" "0 < p" "blk_end m bp \<le> heap_top"
  shows "\<exists>ws. chain (join_left bp p m) (xs @ p # ws) \<and> set ws \<subseteq> set (bp # zs) \<and> blk_end (join_left bp p m) p \<le> heap_top
    \<and> (blk_end m p < bp \<longrightarrow> hsize (hdrs (join_left bp p m) p) = hsize (hdrs m p))
    \<and> unat (hsize (hdrs m p)) \<le> unat (hsize (hdrs (join_left bp p m) p))
    \<and> (\<Union>b \<in> set (p # ws). blk (join_left bp p m) b) = blk m p \<union> (\<Union>b \<in> set (bp # zs). blk m b)"
proof (cases "blk_end m p = bp")
  case True
  let ?h = "\<lambda>h. h\<lparr>hsize := hsize h + hsize (hdrs m bp), hptr := hptr (hdrs m bp)\<rparr>"
  have eq: "join_left bp p m = set_hdr p ?h m" using True by (simp add: join_left_def)
  have "unat (hsize (hdrs m p) + hsize (hdrs m bp)) = unat (hsize (hdrs m p)) + unat (hsize (hdrs m bp))"
    using True p by (intro size_add [of p _ bp]) auto
  then have e: "blk_end (set_hdr p ?h m) p = blk_end m bp" "unat (hsize (hdrs m p)) \<le> unat (hsize (hdrs (set_hdr p ?h m) p))"
    using True by auto
  have "chain (set_hdr p ?h m) (p # zs)"
    using c e p(1) by (intro chain_graft [OF c(1)]) (auto simp: neq_Nil_conv)
  moreover have "lead (set_hdr p ?h m) xs p" by (rule lead_cong [of _ _ m]) (use c(2) p(2) in auto)
  moreover have "(\<Union>b \<in> set (p # zs). blk (set_hdr p ?h m) b) = blk m p \<union> (\<Union>b \<in> set (bp # zs). blk m b)"
  proof -
    have "blk (set_hdr p ?h m) p = blk m p \<union> blk m bp" using e True unfolding blk_def by auto
    moreover have "blk (set_hdr p ?h m) b = blk m b" if "b \<in> set zs" for b using that p(1) by (intro blk_set_hdr) auto
    ultimately show ?thesis by (simp add: Un_assoc)
  qed
  moreover have "set zs \<subseteq> set (bp # zs)" "blk_end (set_hdr p ?h m) p \<le> heap_top" "\<not> blk_end m p < bp" using e(1) p(5) True by auto
  ultimately show ?thesis unfolding eq chain_split using e(2) by blast
next
  case False
  let ?h = "\<lambda>h. h\<lparr>hptr := bp\<rparr>"
  have eq: "join_left bp p m = set_hdr p ?h m" using False by (simp add: join_left_def)
  have "chain (set_hdr p ?h m) (bp # zs)" by (rule chain_cong [of _ _ m]) (use c(1) p(1) in auto)
  then have "chain (set_hdr p ?h m) (p # bp # zs)" using p False by simp
  moreover have "lead (set_hdr p ?h m) xs p" by (rule lead_cong [of _ _ m]) (use c(2) p(2) in auto)
  moreover have "(\<Union>b \<in> set (p # bp # zs). blk (set_hdr p ?h m) b) = blk m p \<union> (\<Union>b \<in> set (bp # zs). blk m b)"
    using p(1) by (auto simp: blk_def split: if_splits)
  moreover have "blk_end (set_hdr p ?h m) p \<le> heap_top" "hsize (hdrs (set_hdr p ?h m) p) = hsize (hdrs m p)" using p(3,5) by simp_all
  ultimately show ?thesis unfolding eq chain_split by (metis order_refl)
qed

definition free_bytes :: "arena \<Rightarrow> nat list \<Rightarrow> nat set" where
  "free_bytes m bs = (\<Union>b \<in> set bs. blk m b)"

lemma blk_empty [simp]: "hsize (hdrs m b) = 0 \<Longrightarrow> blk m b = {}"
  by (simp add: blk_def)

lemma join_hdrs:
  "x \<noteq> bp \<Longrightarrow> hdrs (join_right bp q m) x = hdrs m x" "x \<noteq> p \<Longrightarrow> hdrs (join_left bp p m) x = hdrs m x"
  "base (join_right bp q m) = base m" "base (join_left bp p m) = base m"
  by (simp_all add: join_right_def join_left_def)

lemma blk_apart:
  assumes "blk m b \<inter> blk m c = {}" "b < c" "0 < hsize (hdrs m c)"
  shows "blk_end m b \<le> c"
proof (rule ccontr)
  assume "\<not> blk_end m b \<le> c"
  then have "c \<in> blk m b" using assms(2) by (simp add: blk_def)
  moreover have "c \<in> blk m c" using assms(3) by (simp add: blk_def word_less_nat_alt)
  ultimately show False using assms(1) by auto
qed

lemma free_list_chain_upd: "chain (m\<lparr>freep := p\<rparr>) bs = chain m bs"
  by (induction m bs rule: chain.induct) auto

text \<open>The place of a block that is freed: behind \<open>p\<close> and before the rest \<open>ys\<close> of the list.\<close>

definition fits :: "arena \<Rightarrow> nat list \<Rightarrow> nat \<Rightarrow> nat list \<Rightarrow> nat \<Rightarrow> bool" where
  "fits m xs p ys bp \<longleftrightarrow> free_list m (xs @ p # ys) \<and> bp \<notin> set (xs @ p # ys) \<and> 0 < hsize (hdrs m bp) \<and> blk_end m bp \<le> heap_top
     \<and> p < bp \<and> (ys \<noteq> [] \<longrightarrow> bp < hd ys) \<and> (\<forall>b \<in> set (xs @ p # ys). blk m b \<inter> blk m bp = {})"

lemma fitsD:
  assumes "fits m xs p ys bp"
  shows "chain m (xs @ p # ys)" "distinct (xs @ p # ys)" "bp \<notin> set (xs @ p # ys)" "p < bp" "base m \<le> p" "0 < p"
    "0 < hsize (hdrs m bp)" "blk_end m bp \<le> heap_top" "blk_end m p \<le> bp" "\<forall>y \<in> set ys. base m < y"
    "ys \<noteq> [] \<Longrightarrow> blk_end m bp \<le> hd ys" "\<forall>y \<in> set ys. 0 < hsize (hdrs m y) \<and> blk_end m y \<le> heap_top"
    "p \<noteq> base m \<Longrightarrow> 0 < hsize (hdrs m p)"
proof -
  show c: "chain m (xs @ p # ys)" and "bp \<notin> set (xs @ p # ys)" and "p < bp" and "0 < hsize (hdrs m bp)" and "blk_end m bp \<le> heap_top"
    using assms by (simp_all add: fits_def free_list_def)
  show "distinct (xs @ p # ys)" using c by (rule chain_distinct)
  show l: "base m \<le> p" using base_least [OF c] assms by (simp add: fits_def free_list_def)
  then show "0 < p" using assms by (simp add: fits_def free_list_def)
  show "blk_end m p \<le> bp" using assms by (intro blk_apart) (auto simp: fits_def)
  show gt: "\<forall>y \<in> set ys. base m < y" using chain_order(2) [OF c] l by fastforce
  show ys: "\<forall>y \<in> set ys. 0 < hsize (hdrs m y) \<and> blk_end m y \<le> heap_top" using assms gt by (auto simp: fits_def free_list_def)
  show "p \<noteq> base m \<Longrightarrow> 0 < hsize (hdrs m p)" using assms by (auto simp: fits_def free_list_def)
  assume n: "ys \<noteq> []"
  then have "hd ys \<in> set ys" by simp
  then show "blk_end m bp \<le> hd ys" using assms n ys by (intro blk_apart) (auto simp: fits_def)
qed

lemma fits_right:
  assumes "fits m xs p ys bp" defines "m1 \<equiv> join_right bp (hptr (hdrs m p)) m"
  shows "\<exists>zs. chain m1 (bp # zs) \<and> set zs \<subseteq> set ys \<and> blk_end m1 bp \<le> heap_top \<and> unat (hsize (hdrs m bp)) \<le> unat (hsize (hdrs m1 bp))
    \<and> (\<Union>b \<in> set (bp # zs). blk m1 b) = blk m bp \<union> (\<Union>b \<in> set ys. blk m b)"
  unfolding m1_def
proof (rule join_right_chain)
  note f = fitsD [OF assms(1)]
  have q: "hptr (hdrs m p) = (if ys = [] then base m else hd ys)" using f(1) by (rule chain_next)
  show "chain m ys \<and> blk_end m bp \<le> hd ys \<and> hptr (hdrs m p) = hd ys" if "ys \<noteq> []"
    using q f(1) f(11) [OF that] that by (cases ys) (auto simp: chain_split)
  show "hptr (hdrs m p) = base m" if "ys = []" using q that by simp
  show "bp \<notin> set ys" "base m < bp" "blk_end m bp \<le> heap_top" "\<forall>y \<in> set ys. blk_end m y \<le> heap_top" using f by auto
qed

lemma fits_left:
  assumes "fits m xs p ys bp" defines "m1 \<equiv> join_right bp (hptr (hdrs m p)) m"
  shows "\<exists>ws. chain (join_left bp p m1) (xs @ p # ws) \<and> set ws \<subseteq> set (bp # ys) \<and> blk_end (join_left bp p m1) p \<le> heap_top
    \<and> (blk_end m p < bp \<longrightarrow> hsize (hdrs (join_left bp p m1) p) = hsize (hdrs m p))
    \<and> unat (hsize (hdrs m p)) \<le> unat (hsize (hdrs (join_left bp p m1) p))
    \<and> (\<Union>b \<in> set (p # ws). blk (join_left bp p m1) b) = blk m p \<union> blk m bp \<union> (\<Union>b \<in> set ys. blk m b)"
proof -
  note f = fitsD [OF assms(1)]
  obtain zs where z: "chain m1 (bp # zs)" "set zs \<subseteq> set ys" "blk_end m1 bp \<le> heap_top"
    "(\<Union>b \<in> set (bp # zs). blk m1 b) = blk m bp \<union> (\<Union>b \<in> set ys. blk m b)"
    using fits_right [OF assms(1)] unfolding m1_def by blast
  have same: "x \<noteq> bp \<Longrightarrow> hdrs m1 x = hdrs m x" for x by (simp add: m1_def join_hdrs)
  have p: "hdrs m1 p = hdrs m p" "blk m1 p = blk m p" using same [of p] f(4) by (simp_all add: blk_def)
  have "\<exists>ws. chain (join_left bp p m1) (xs @ p # ws) \<and> set ws \<subseteq> set (bp # zs) \<and> blk_end (join_left bp p m1) p \<le> heap_top
    \<and> (blk_end m1 p < bp \<longrightarrow> hsize (hdrs (join_left bp p m1) p) = hsize (hdrs m1 p))
    \<and> unat (hsize (hdrs m1 p)) \<le> unat (hsize (hdrs (join_left bp p m1) p))
    \<and> (\<Union>b \<in> set (p # ws). blk (join_left bp p m1) b) = blk m1 p \<union> (\<Union>b \<in> set (bp # zs). blk m1 b)"
  proof (rule join_left_chain)
    have "x \<in> set xs \<Longrightarrow> hdrs m1 x = hdrs m x" for x using f(3) by (intro same) auto
    moreover have "lead m xs p" using f(1) by (simp add: chain_split)
    ultimately show "lead m1 xs p" by (rule lead_cong)
  qed (use z f(2,3,4,6,9) p in auto)
  then show ?thesis unfolding p z(4) Un_assoc using z(2) by (auto 4 0 simp del: UN_insert)
qed

text \<open>What \<^verbatim>\<open>free\<close> does between two neighbours of the list.\<close>

lemma free_join_list:
  assumes "fits m xs p ys bp"
  shows "\<exists>ws. free_list (free_join bp p m) (xs @ p # ws) \<and> set ws \<subseteq> set (bp # ys)
    \<and> free_bytes (free_join bp p m) (xs @ p # ws) = free_bytes m (xs @ p # ys) \<union> blk m bp"
proof -
  note f = fitsD [OF assms]
  define m1 where "m1 = join_right bp (hptr (hdrs m p)) m"
  define m2 where "m2 = join_left bp p m1"
  have eq: "free_join bp p m = m2\<lparr>freep := p\<rparr>" by (simp add: free_join_eq m1_def m2_def)
  obtain ws where w: "chain m2 (xs @ p # ws)" "set ws \<subseteq> set (bp # ys)" "blk_end m2 p \<le> heap_top"
    "blk_end m p < bp \<Longrightarrow> hsize (hdrs m2 p) = hsize (hdrs m p)" "unat (hsize (hdrs m p)) \<le> unat (hsize (hdrs m2 p))"
    "(\<Union>b \<in> set (p # ws). blk m2 b) = blk m p \<union> blk m bp \<union> (\<Union>b \<in> set ys. blk m b)"
    using fits_left [OF assms] unfolding m1_def m2_def by blast
  have b: "blk_end m1 bp \<le> heap_top" "0 < hsize (hdrs m1 bp)"
    using fits_right [OF assms] f(7) unfolding m1_def by (auto simp: word_less_nat_alt)
  have same: "hdrs m2 x = hdrs m x" if "x \<in> set xs \<union> set ys" for x
  proof -
    have "x \<noteq> p" "x \<noteq> bp" using f(2,3) that by auto
    then show ?thesis by (simp add: m1_def m2_def join_hdrs)
  qed
  have bp: "hdrs m2 bp = hdrs m1 bp" using f(4) by (simp add: m2_def join_hdrs)
  have base: "base m2 = base m" by (simp add: m1_def m2_def join_hdrs)
  have xs: "free_list m (xs @ p # ys)" using assms by (simp add: fits_def)
  have "0 < hsize (hdrs m2 x) \<and> blk_end m2 x \<le> heap_top" if x: "x \<in> set (xs @ p # ws)" "x \<noteq> base m" for x
  proof -
    consider "x \<in> set xs" | "x = p" | "x = bp" | "x \<in> set ys" using x(1) w(2) by auto
    then show ?thesis
      using xs x(2) w(3,5) f(12,13) b same [of x] bp by cases (auto simp: free_list_def word_less_nat_alt)
  qed
  moreover have "hsize (hdrs m2 (base m)) = 0"
  proof (cases "base m = p")
    case True
    then show ?thesis using w(4) f(4) xs by (simp add: free_list_def)
  next
    case False
    then have "base m \<in> set xs" using xs by (cases xs) (auto simp: free_list_def)
    then show ?thesis using same [of "base m"] xs by (simp add: free_list_def)
  qed
  moreover have "hd (xs @ p # ws) = base m" using xs by (cases xs) (auto simp: free_list_def)
  ultimately have "free_list (m2\<lparr>freep := p\<rparr>) (xs @ p # ws)"
    using w(1) xs base by (simp add: free_list_def free_list_chain_upd)
  moreover have "free_bytes (m2\<lparr>freep := p\<rparr>) (xs @ p # ws) = free_bytes m (xs @ p # ys) \<union> blk m bp"
  proof -
    have "blk (m2\<lparr>freep := p\<rparr>) x = blk m2 x" for x by (simp add: blk_def)
    moreover have "x \<in> set xs \<Longrightarrow> blk m2 x = blk m x" for x using same [of x] by (simp add: blk_def)
    ultimately have "free_bytes (m2\<lparr>freep := p\<rparr>) (xs @ p # ws) = (\<Union>b \<in> set xs. blk m b) \<union> (\<Union>b \<in> set (p # ws). blk m2 b)"
      by (simp add: free_bytes_def Un_left_commute)
    then show ?thesis unfolding w(6) by (simp add: free_bytes_def Un_ac)
  qed
  ultimately show ?thesis using w(2) unfolding eq by blast
qed

lemma free_join_hdrs: "x \<noteq> p \<Longrightarrow> x \<noteq> bp \<Longrightarrow> hdrs (free_join bp p m) x = hdrs m x" "base (free_join bp p m) = base m"
  "freep (free_join bp p m) = p"
  by (simp_all add: free_join_eq join_hdrs)

text \<open>A block that may be freed: it lies above \<^verbatim>\<open>base\<close>, and no byte of it is free.\<close>

definition live :: "arena \<Rightarrow> nat list \<Rightarrow> nat \<Rightarrow> bool" where
  "live m bs bp \<longleftrightarrow> base m < bp \<and> 0 < hsize (hdrs m bp) \<and> blk_end m bp \<le> heap_top \<and> blk m bp \<inter> free_bytes m bs = {}"

lemma live_notin: "live m bs bp \<Longrightarrow> free_list m bs \<Longrightarrow> bp \<notin> set bs"
proof
  assume l: "live m bs bp" and "bp \<in> set bs"
  then have "blk m bp \<subseteq> free_bytes m bs" by (auto simp: free_bytes_def)
  moreover have "bp \<in> blk m bp" using l by (simp add: live_def blk_def word_less_nat_alt)
  ultimately show False using l by (auto simp: live_def)
qed

lemma ufree_list:
  assumes "free_list m bs" and "live m bs bp"
  shows "\<exists>m' bs'. ufree (bp + 16) m = Some m' \<and> free_list m' bs' \<and> free_bytes m' bs' = free_bytes m bs \<union> blk m bp
    \<and> base m' = base m \<and> set bs' \<subseteq> insert bp (set bs) \<and> (\<forall>x. x \<notin> insert bp (set bs) \<longrightarrow> hdrs m' x = hdrs m x)"
proof -
  obtain us vs where s: "bs = us @ freep m # vs" using assms(1) split_list [of "freep m" bs] by (auto simp: free_list_def)
  have n: "bp \<notin> set bs" using live_notin assms by blast
  obtain k xs ys where k: "free_find m bp (freep m) = Some k" "bs = xs @ k # ys" "k < bp" "ys \<noteq> [] \<longrightarrow> bp < hd ys"
    using find_place [OF _ _ n _ s, of m] assms by (auto simp: free_list_def live_def)
  then have "fits m xs k ys bp" using assms n unfolding fits_def by (auto simp: live_def free_bytes_def)
  then obtain ws where w: "free_list (free_join bp k m) (xs @ k # ws)" "set ws \<subseteq> set (bp # ys)"
    "free_bytes (free_join bp k m) (xs @ k # ws) = free_bytes m bs \<union> blk m bp"
    using free_join_list k(2) by blast
  moreover have "ufree (bp + 16) m = Some (free_join bp k m)" using k(1) by (simp add: ufree_def)
  moreover have "hdrs (free_join bp k m) x = hdrs m x" if "x \<notin> insert bp (set bs)" for x
    using that k(2) by (intro free_join_hdrs) auto
  moreover have "set (xs @ k # ws) \<subseteq> insert bp (set bs)" using w(2) k(2) by auto
  ultimately show ?thesis by (metis free_join_hdrs(2))
qed

subsection \<open>malloc\<close>

lemma chain_pred:
  assumes c: "chain m bs" "hd bs = base m" and q: "q0 \<in> set bs" "hptr (hdrs m q0) = q" "q \<noteq> base m"
  obtains xs zs where "bs = xs @ q0 # q # zs"
proof -
  obtain xs ys where s: "bs = xs @ q0 # ys" using q(1) split_list by metis
  then have "ys \<noteq> []" "hd ys = q" using chain_next [of m xs q0 ys] c(1) q(2,3) by (auto split: if_splits)
  then show ?thesis using that s by (cases ys) auto
qed

lemma blk_disjoint: "chain m (xs @ q # zs) \<Longrightarrow> x \<in> set xs \<union> set zs \<Longrightarrow> blk m x \<inter> blk m q = {}"
  using chain_order(1,2) [of m xs q zs] by (fastforce simp: blk_def)

lemma take_all:
  assumes f: "free_list m (xs @ q0 # q # zs)" and n: "hsize (hdrs m q) = n" "0 < n"
  defines "m' \<equiv> (set_hdr q0 (\<lambda>h. h\<lparr>hptr := hptr (hdrs m q)\<rparr>) m)\<lparr>freep := q0\<rparr>"
  shows "free_list m' (xs @ q0 # zs)" "free_bytes m' (xs @ q0 # zs) = free_bytes m (xs @ q0 # q # zs) - blk m' q"
proof -
  have c: "chain m (xs @ q0 # q # zs)" and hd: "hd (xs @ q0 # q # zs) = base m" using f by (simp_all add: free_list_def)
  have d: "distinct (xs @ q0 # q # zs)" using c by (rule chain_distinct)
  have q: "blk_end m q0 < q" using c by (simp add: chain_split)
  have same: "x \<noteq> q0 \<Longrightarrow> hdrs m' x = hdrs m x" "hsize (hdrs m' x) = hsize (hdrs m x)" "blk m' x = blk m x" "base m' = base m" "freep m' = q0" for x
    by (simp_all add: m'_def blk_def)
  have other: "hdrs m' x = hdrs m x" if "x \<in> set xs \<union> set zs" for x using that d by (intro same(1)) auto
  have cq: "chain m (q # zs)" "lead m xs q0" using c by (simp_all add: chain_split)
  have "zs \<noteq> [] \<Longrightarrow> blk_end m q < hd zs" using cq(1) by (auto simp: neq_Nil_conv)
  then have "chain m' (q0 # zs)" using q other by (intro chain_graft [OF cq(1)]) (auto simp: m'_def)
  moreover have "lead m' xs q0" by (rule lead_cong [OF other cq(2)]) simp
  moreover have "hd (xs @ q0 # zs) = base m" using hd by (cases xs) auto
  ultimately show "free_list m' (xs @ q0 # zs)" using f unfolding free_list_def chain_split same by simp
  have "x \<in> set (xs @ [q0]) \<union> set zs \<Longrightarrow> blk m x \<inter> blk m q = {}" for x
    using blk_disjoint [of m "xs @ [q0]" q zs x] c by simp
  then show "free_bytes m' (xs @ q0 # zs) = free_bytes m (xs @ q0 # q # zs) - blk m' q"
    unfolding free_bytes_def same by auto
qed

lemma take_tail:
  assumes f: "free_list m (xs @ q # zs)" and n: "n < hsize (hdrs m q)" "0 < n" and p: "p \<in> set (xs @ q # zs)" and q: "q \<noteq> base m"
  defines "sz \<equiv> hsize (hdrs m q) - n"
  defines "r \<equiv> hplus q sz"
  defines "m' \<equiv> (set_hdr r (\<lambda>h. h\<lparr>hsize := n\<rparr>) (set_hdr q (\<lambda>h. h\<lparr>hsize := sz\<rparr>) m))\<lparr>freep := p\<rparr>"
  shows "free_list m' (xs @ q # zs)" "free_bytes m' (xs @ q # zs) = free_bytes m (xs @ q # zs) - blk m' r"
    "blk_end m' r = blk_end m q" "q < r" "r < blk_end m q"
proof -
  have c: "chain m (xs @ q # zs)" using f by (simp_all add: free_list_def)
  have d: "distinct (xs @ q # zs)" using c by (rule chain_distinct)
  have u: "unat sz = unat (hsize (hdrs m q)) - unat n" "unat n < unat (hsize (hdrs m q))" "0 < unat n"
    using n by (simp_all add: sz_def unat_sub word_less_nat_alt word_le_nat_alt)
  show r: "q < r" "r < blk_end m q" using u by (simp_all add: r_def)
  have rn: "r \<notin> set (xs @ q # zs)" using chain_order(1,2) [OF c] r by fastforce
  have q': "hdrs m' q = hdrs m q\<lparr>hsize := sz\<rparr>" "hsize (hdrs m' r) = n" using r by (simp_all add: m'_def)
  show e: "blk_end m' r = blk_end m q" using u unfolding q' by (simp add: r_def)
  have same: "x \<noteq> q \<Longrightarrow> x \<noteq> r \<Longrightarrow> hdrs m' x = hdrs m x" "base m' = base m" "freep m' = p" for x by (simp_all add: m'_def)
  have ends: "blk_end m' q < blk_end m q" unfolding q' using u by simp
  have other: "hdrs m' x = hdrs m x" if "x \<in> set xs \<union> set zs" for x using that d rn by (intro same(1)) auto
  have cq: "chain m (q # zs)" "lead m xs q" using c by (simp_all add: chain_split)
  have "zs \<noteq> [] \<Longrightarrow> blk_end m q < hd zs" using cq(1) by (auto simp: neq_Nil_conv)
  then have "chain m' (q # zs)" using ends other same(2) by (intro chain_graft [OF cq(1)]) (auto simp: q')
  moreover have "lead m' xs q" by (rule lead_cong [OF other cq(2)]) simp
  ultimately have "chain m' (xs @ q # zs)" by (simp add: chain_split)
  moreover have "0 < hsize (hdrs m' x) \<and> blk_end m' x \<le> heap_top" if "x \<in> set (xs @ q # zs)" "x \<noteq> base m" for x
  proof (cases "x = q")
    case True
    have "blk_end m q \<le> heap_top" using f q by (simp add: free_list_def)
    then show ?thesis using True ends u q' by (simp add: word_less_nat_alt)
  next
    case False
    then show ?thesis using that other [of x] f by (simp add: free_list_def)
  qed
  moreover have "hdrs m' (base m) = hdrs m (base m)"
  proof (rule other)
    show "base m \<in> set xs \<union> set zs" using f q by (cases xs) (auto simp: free_list_def)
  qed
  ultimately show "free_list m' (xs @ q # zs)" using f p unfolding free_list_def same by simp
  have "blk m' r \<subseteq> blk m q" "blk m' q = blk m q - blk m' r" using e r unfolding blk_def by (auto simp: q' r_def)
  moreover have "x \<in> set xs \<union> set zs \<Longrightarrow> blk m' x = blk m x" for x using other [of x] by (simp add: blk_def)
  moreover have "x \<in> set xs \<union> set zs \<Longrightarrow> blk m x \<inter> blk m q = {}" for x by (rule blk_disjoint [OF c])
  ultimately show "free_bytes m' (xs @ q # zs) = free_bytes m (xs @ q # zs) - blk m' r"
    unfolding free_bytes_def by fastforce
qed

lemma free_bytes_mem: "free_list m bs \<Longrightarrow> b \<in> set bs \<Longrightarrow> b \<in> insert (base m) (free_bytes m bs)"
  by (auto simp: free_list_def free_bytes_def blk_def word_less_nat_alt)

text \<open>Taking a block leaves the rest of the free bytes, and the block handed out may be freed again.\<close>

lemma malloc_take_list:
  assumes f: "free_list m bs" and q: "q0 \<in> set bs" "hptr (hdrs m q0) = q" "n \<le> hsize (hdrs m q)" "0 < n"
  shows "\<exists>b m' bs'. malloc_take n q0 q m = (b + 16, m') \<and> free_list m' bs' \<and> live m' bs' b \<and> hsize (hdrs m' b) = n
    \<and> blk m' b \<subseteq> free_bytes m bs \<and> free_bytes m' bs' = free_bytes m bs - blk m' b \<and> base m' = base m
    \<and> (\<forall>x. x \<notin> insert (base m) (free_bytes m bs) \<longrightarrow> hdrs m' x = hdrs m x) \<and> set bs' \<subseteq> set bs"
proof -
  have nb: "q \<noteq> base m" using f q(3,4) by (auto simp: free_list_def)
  then obtain xs zs where s: "bs = xs @ q0 # q # zs" using chain_pred [of m bs q0 q] f q by (auto simp: free_list_def)
  have gt: "base m < q" using base_least [of m bs q] nb f s by (auto simp: free_list_def)
  have top: "blk_end m q \<le> heap_top" using f nb s by (auto simp: free_list_def)
  have in_q: "blk m q \<subseteq> free_bytes m bs" using s by (auto simp: free_bytes_def)
  have q0: "q0 \<in> insert (base m) (free_bytes m bs)" using free_bytes_mem [OF f q(1)] .
  show ?thesis
  proof (cases "hsize (hdrs m q) = n")
    case True
    let ?m = "(set_hdr q0 (\<lambda>h. h\<lparr>hptr := hptr (hdrs m q)\<rparr>) m)\<lparr>freep := q0\<rparr>"
    have h: "hsize (hdrs ?m x) = hsize (hdrs m x)" for x by simp
    then have b: "blk ?m q = blk m q" by (simp add: blk_def)
    note t = take_all [OF f [unfolded s] True q(4), folded s]
    moreover have "live ?m (xs @ q0 # zs) q" unfolding live_def t(2) h using gt top True q(4) by auto
    moreover have "malloc_take n q0 q m = (q + 16, ?m)" using True by (simp add: malloc_take_def)
    moreover have "hdrs ?m x = hdrs m x" if "x \<notin> insert (base m) (free_bytes m bs)" for x using that q0 by auto
    moreover have "set (xs @ q0 # zs) \<subseteq> set bs" "base ?m = base m" using s by auto
    ultimately show ?thesis using h True in_q b by metis
  next
    case False
    define sz where "sz = hsize (hdrs m q) - n"
    define r where "r = hplus q sz"
    define m' where "m' = (set_hdr r (\<lambda>h. h\<lparr>hsize := n\<rparr>) (set_hdr q (\<lambda>h. h\<lparr>hsize := sz\<rparr>) m))\<lparr>freep := q0\<rparr>"
    have lt: "n < hsize (hdrs m q)" using q(3) False by simp
    have s': "bs = (xs @ [q0]) @ q # zs" using s by simp
    note t = take_tail [OF f [unfolded s'] lt q(4) q(1) [unfolded s'] nb, folded s' sz_def, folded r_def, folded m'_def]
    have h: "hsize (hdrs m' r) = n" by (simp add: m'_def)
    have b: "blk m' r \<subseteq> blk m q" using t(3,4) unfolding blk_def by auto
    have "blk_end m' r \<le> heap_top" unfolding t(3) by (rule top)
    moreover have "base m' < r" "0 < hsize (hdrs m' r)" using gt t(4) h q(4) by (simp_all add: m'_def)
    ultimately have "live m' bs r" unfolding live_def t(2) by blast
    moreover have "malloc_take n q0 q m = (r + 16, m')" using False by (simp add: malloc_take_def Let_def sz_def r_def m'_def)
    moreover have "hdrs m' x = hdrs m x" if "x \<notin> insert (base m) (free_bytes m bs)" for x
    proof -
      have "q \<in> blk m q" "r \<in> blk m q" using t(4,5) by (simp_all add: blk_def)
      then show ?thesis using that in_q by (auto simp: m'_def)
    qed
    moreover have "base m' = base m" by (simp add: m'_def)
    ultimately show ?thesis using t(1,2) h b in_q by (intro exI [of _ r] exI [of _ m'] exI [of _ bs]) auto
  qed
qed

text \<open>The search of \<^verbatim>\<open>malloc\<close> round the list, up to the block where it started.\<close>

fun ring_path :: "arena \<Rightarrow> nat \<Rightarrow> nat list \<Rightarrow> bool" where
  "ring_path m p [] \<longleftrightarrow> True"
| "ring_path m p (q # qs) \<longleftrightarrow> hptr (hdrs m p) = q \<and> ring_path m q qs"

lemma ring_append: "ring_path m p (xs @ y # ys) \<longleftrightarrow> ring_path m p (xs @ [y]) \<and> ring_path m y ys"
  by (induction m p xs rule: ring_path.induct) auto

lemma chain_path: "chain m (p # ys) \<Longrightarrow> ring_path m p (ys @ [base m])"
  by (induction ys arbitrary: p) auto

lemma lead_path: "lead m (x # xs) y \<Longrightarrow> ring_path m x (xs @ [y])"
  by (induction xs arbitrary: x) auto

lemma tour:
  assumes "chain m (xs @ p # ys)" "hd (xs @ p # ys) = base m"
  shows "ring_path m p (ys @ xs @ [p])"
proof (cases xs)
  case Nil
  then show ?thesis using assms chain_path [of m p ys] by simp
next
  case (Cons x us)
  have "chain m (p # ys)" "lead m xs p" using assms(1) by (simp_all only: chain_split)
  then have "ring_path m p (ys @ [x])" "ring_path m x (us @ [p])"
    using assms(2) Cons chain_path [of m p ys] lead_path [of m x us p] by simp_all
  then show ?thesis using Cons ring_append [of m p ys x "us @ [p]"] by simp
qed

lemma malloc_walk:
  assumes "ring_path m prevp (us @ [freep m])" "freep m \<notin> set us"
  shows "(\<exists>q0 q. q0 \<in> insert prevp (set us) \<and> hptr (hdrs m q0) = q \<and> n \<le> hsize (hdrs m q)
      \<and> malloc_loop n prevp (hptr (hdrs m prevp)) m s = uret (malloc_take n q0 q m) s)
    \<or> (\<forall>q \<in> set (us @ [freep m]). hsize (hdrs m q) < n)
      \<and> malloc_loop n prevp (hptr (hdrs m prevp)) m s =
        ubind (morecore n m) (\<lambda>(p, m) s. if p = 0 then uret (0, m) s else malloc_loop n p (hptr (hdrs m p)) m s) s"
  using assms
proof (induction us arbitrary: prevp)
  case Nil
  then have p: "hptr (hdrs m prevp) = freep m" by simp
  show ?case
  proof (cases "n \<le> hsize (hdrs m (freep m))")
    case True
    then have "malloc_loop n prevp (freep m) m s = uret (malloc_take n prevp (freep m) m) s" by (subst malloc_loop.simps) simp
    then show ?thesis using True p by auto
  next
    case False
    then have e: "malloc_loop n prevp (freep m) m s =
      ubind (morecore n m) (\<lambda>(p, m) s. if p = 0 then uret (0, m) s else malloc_loop n p (hptr (hdrs m p)) m s) s"
      by (subst malloc_loop.simps) simp
    show ?thesis unfolding p e using False by (intro disjI2) (simp add: not_le)
  qed
next
  case (Cons u us)
  then have p: "hptr (hdrs m prevp) = u" "u \<noteq> freep m" and l: "ring_path m u (us @ [freep m])" "freep m \<notin> set us" by auto
  show ?case
  proof (cases "n \<le> hsize (hdrs m u)")
    case True
    then have "malloc_loop n prevp u m s = uret (malloc_take n prevp u m) s" by (subst malloc_loop.simps) simp
    then show ?thesis using True p(1) by auto
  next
    case False
    then have e: "malloc_loop n prevp u m s = malloc_loop n u (hptr (hdrs m u)) m s"
      using p(2) by (subst malloc_loop.simps) simp
    have e': "malloc_loop n prevp (hptr (hdrs m prevp)) m s = malloc_loop n u (hptr (hdrs m u)) m s" using e p(1) by simp
    have s: "\<forall>q \<in> set ((u # us) @ [freep m]). hsize (hdrs m q) < n" if "\<forall>q \<in> set (us @ [freep m]). hsize (hdrs m q) < n"
      using False that by (simp add: not_le)
    from Cons.IH [OF l] show ?thesis
    proof (elim disjE conjE)
      assume "\<exists>q0 q. q0 \<in> insert u (set us) \<and> hptr (hdrs m q0) = q \<and> n \<le> hsize (hdrs m q)
        \<and> malloc_loop n u (hptr (hdrs m u)) m s = uret (malloc_take n q0 q m) s"
      then show ?thesis unfolding e' by (intro disjI1) auto
    next
      assume "\<forall>q \<in> set (us @ [freep m]). hsize (hdrs m q) < n" and "malloc_loop n u (hptr (hdrs m u)) m s =
        ubind (morecore n m) (\<lambda>(p, m) s. if p = 0 then uret (0, m) s else malloc_loop n p (hptr (hdrs m p)) m s) s"
      then show ?thesis unfolding e' using s by blast
    qed
  qed
qed

subsection \<open>The break\<close>

text \<open>
  A side that answers \<^verbatim>\<open>sbrk\<close>: the break moves by the argument and the old one is returned, or the
  reply is \<open>-1\<close> where the break would leave what the limit allows.
\<close>

definition from_break :: "nat \<Rightarrow> nat \<Rightarrow> ucall \<Rightarrow> (reply \<times> nat) option" where
  "from_break lim brk c = (case c of
     Sys_sbrk n \<Rightarrow> if 0 \<le> int brk + n \<and> int brk + n \<le> int lim then Some (Reply (int brk) [], nat (int brk + n))
       else Some (Reply (- 1) [], brk)
   | _ \<Rightarrow> Some (Reply 0 [], brk))"

definition on_break :: "nat \<Rightarrow> nat \<Rightarrow> ucall list \<Rightarrow> nat uproc" where
  "on_break lim brk tr = \<lparr>kst = brk, answer = from_break lim, trace = tr\<rparr>"

lemma usys_sbrk:
  "usys (Sys_sbrk n) (on_break lim brk tr) =
     (if 0 \<le> int brk + n \<and> int brk + n \<le> int lim
      then Some (URet (Reply (int brk) []), on_break lim (nat (int brk + n)) (tr @ [Sys_sbrk n]))
      else Some (URet (Reply (- 1) []), on_break lim brk (tr @ [Sys_sbrk n])))"
  by (simp add: usys_def on_break_def from_break_def)

lemma usys_sbrk_up:
  "usys (Sys_sbrk (int k)) (on_break lim brk tr) =
     (if brk + k \<le> lim then Some (URet (Reply (int brk) []), on_break lim (brk + k) (tr @ [Sys_sbrk (int k)]))
      else Some (URet (Reply (- 1) []), on_break lim brk (tr @ [Sys_sbrk (int k)])))"
  by (auto simp: usys_sbrk nat_add_distrib)

definition heap_ok :: "arena \<Rightarrow> nat list \<Rightarrow> nat \<Rightarrow> bool" where
  "heap_ok m bs brk \<longleftrightarrow> free_list m bs \<and> base m < brk \<and> (\<forall>b \<in> set bs. blk_end m b \<le> brk)"

lemma heap_okI:
  assumes "free_list m bs" "base m < brk" "free_bytes m bs \<subseteq> {..<brk}"
  shows "heap_ok m bs brk"
proof -
  have "blk_end m b \<le> brk" if "b \<in> set bs" for b
  proof (cases "unat (hsize (hdrs m b)) = 0")
    case True
    then show ?thesis using that assms(1,2) by (auto simp: free_list_def word_less_nat_alt)
  next
    case False
    then have "blk_end m b - 1 \<in> free_bytes m bs" using that by (auto simp: free_bytes_def blk_def intro!: bexI [of _ b])
    then have "blk_end m b - 1 < brk" using assms(3) by auto
    then show ?thesis by simp
  qed
  then show ?thesis using assms by (simp add: heap_ok_def)
qed

lemma heap_ok_bytes: "heap_ok m bs brk \<Longrightarrow> free_bytes m bs \<subseteq> {..<brk}"
  by (fastforce simp: heap_ok_def free_bytes_def blk_def)

lemma free_list_cong:
  assumes "free_list m bs" "\<And>x. x \<in> set bs \<Longrightarrow> hdrs m' x = hdrs m x" "base m' = base m" "freep m' = freep m"
  shows "free_list m' bs" "free_bytes m' bs = free_bytes m bs"
proof -
  have "chain m' bs" using assms by (intro chain_cong [of bs m' m]) (auto simp: free_list_def)
  moreover have "base m \<in> set bs" using assms(1) by (cases bs) (auto simp: free_list_def)
  ultimately show "free_list m' bs" using assms unfolding free_list_def by auto
  show "free_bytes m' bs = free_bytes m bs" using assms(2) by (auto simp: free_bytes_def blk_def)
qed

text \<open>Memory that is free without a gap is inside one block, because adjacent blocks are joined.\<close>

lemma gap_free:
  assumes f: "free_list m bs" and s: "{a ..< a + 16 * n} \<subseteq> free_bytes m bs" "0 < n"
  shows "\<exists>b \<in> set bs. n \<le> unat (hsize (hdrs m b))"
proof -
  have c: "chain m bs" using f by (simp add: free_list_def)
  obtain b where b: "b \<in> set bs" "a \<in> blk m b" using s by (fastforce simp: free_bytes_def)
  have "a + 16 * n \<le> blk_end m b"
  proof (rule ccontr)
    assume "\<not> a + 16 * n \<le> blk_end m b"
    then have "blk_end m b \<in> {a ..< a + 16 * n}" using b(2) by (simp add: blk_def)
    then obtain d where d: "d \<in> set bs" "blk_end m b \<in> blk m d" using s(1) by (fastforce simp: free_bytes_def)
    then have "d \<noteq> b" by (auto simp: blk_def)
    moreover obtain xs ys where "bs = xs @ b # ys" using split_list [OF b(1)] by blast
    ultimately have "blk_end m d < b \<or> blk_end m b < d" using chain_order(1,2) [of m xs b ys] c d(1) by auto
    then show False using d(2) by (auto simp: blk_def)
  qed
  then show ?thesis using b by (intro bexI [of _ b]) (auto simp: blk_def)
qed

definition core_units :: "u32 \<Rightarrow> u32" where
  "core_units n = (if n < 4096 then 4096 else n)"

lemma core_bytes:
  assumes "unat n < 2 ^ 27"
  shows "sint (16 * core_units n) = 16 * int (unat (core_units n))" "0 < core_units n" "n \<le> core_units n"
proof -
  let ?k = "core_units n"
  have k: "unat ?k < 134217728" using assms by (simp add: core_units_def)
  have "unat (16 * ?k) = 16 * unat ?k" using k unat_mult_lem [of 16 ?k] by simp
  then have u: "uint (16 * ?k) = 16 * int (unat ?k)" by (metis of_nat_mult of_nat_numeral uint_nat)
  then have "uint (16 * ?k) < 2147483648" using k by linarith
  then have "sint (16 * ?k) = uint (16 * ?k)" unfolding sint_uint by (intro signed_take_bit_int_eq_self order_trans [OF _ unsigned_greater_eq]) simp_all
  then show "sint (16 * ?k) = 16 * int (unat ?k)" using u by simp
  show "0 < ?k" "n \<le> ?k" by (auto simp: core_units_def word_less_nat_alt word_le_nat_alt)
qed

text \<open>The memory above the break becomes free.\<close>

lemma core_freed:
  assumes h: "heap_ok m bs brk" and nu: "0 < nu" "brk + 16 * unat nu \<le> heap_top"
  shows "\<exists>m' bs'. ufree (brk + 16) (set_hdr brk (\<lambda>h. h\<lparr>hsize := nu\<rparr>) m) = Some m' \<and> heap_ok m' bs' (hplus brk nu)
    \<and> free_bytes m' bs' = free_bytes m bs \<union> {brk ..< hplus brk nu} \<and> base m' = base m
    \<and> (\<forall>x. x \<notin> insert (base m) (free_bytes m bs \<union> {brk ..< hplus brk nu}) \<longrightarrow> hdrs m' x = hdrs m x)"
proof -
  define m1 where "m1 = set_hdr brk (\<lambda>h. h\<lparr>hsize := nu\<rparr>) m"
  have f: "free_list m bs" "base m < brk" using h by (simp_all add: heap_ok_def)
  have "brk \<notin> insert (base m) (free_bytes m bs)" using heap_ok_bytes [OF h] f(2) by auto
  then have bs: "brk \<notin> set bs" using free_bytes_mem [OF f(1)] by blast
  have "hdrs m1 x = hdrs m x" if "x \<in> set bs" for x using bs that by (auto simp: m1_def)
  then have f1: "free_list m1 bs" "free_bytes m1 bs = free_bytes m bs"
    using free_list_cong [OF f(1), of m1] by (simp_all add: m1_def)
  have b1: "blk m1 brk = {brk ..< hplus brk nu}" by (simp add: m1_def blk_def)
  then have "live m1 bs brk" unfolding live_def f1(2)
    using f(2) nu heap_ok_bytes [OF h] by (auto simp: m1_def)
  then obtain m' bs' where m': "ufree (brk + 16) m1 = Some m'" "free_list m' bs'"
    "free_bytes m' bs' = free_bytes m bs \<union> {brk ..< hplus brk nu}" "base m' = base m1" "\<forall>x. x \<notin> insert brk (set bs) \<longrightarrow> hdrs m' x = hdrs m1 x"
    using ufree_list [OF f1(1), of brk] unfolding f1(2) b1 by blast
  have "heap_ok m' bs' (hplus brk nu)"
    using m'(2,3,4) f(2) heap_ok_bytes [OF h] by (intro heap_okI) (auto simp: m1_def)
  moreover have "hdrs m' x = hdrs m x" if "x \<notin> insert (base m) (free_bytes m bs \<union> {brk ..< hplus brk nu})" for x
  proof -
    have "brk \<in> {brk ..< hplus brk nu}" using nu(1) by (simp add: word_less_nat_alt)
    then have "x \<noteq> brk" "x \<notin> set bs" using that free_bytes_mem [OF f(1), of x] by auto
    then show ?thesis using m'(5) by (simp add: m1_def)
  qed
  ultimately show ?thesis using m'(1,3,4) unfolding m1_def set_hdr_simps by blast
qed

lemma morecore_break:
  assumes h: "heap_ok m bs brk" and n: "unat n < 2 ^ 27" and lim: "lim \<le> heap_top"
  defines "brk' \<equiv> hplus brk (core_units n)"
  shows "lim < brk' \<Longrightarrow> \<exists>tr'. morecore n m (on_break lim brk tr) = Some (URet (0, m), on_break lim brk tr')"
    and "brk' \<le> lim \<Longrightarrow> \<exists>m' bs' tr'. morecore n m (on_break lim brk tr) = Some (URet (freep m', m'), on_break lim brk' tr')
      \<and> heap_ok m' bs' brk' \<and> free_bytes m' bs' = free_bytes m bs \<union> {brk ..< brk'} \<and> base m' = base m
      \<and> (\<forall>x. x \<notin> insert (base m) (free_bytes m bs \<union> {brk ..< brk'}) \<longrightarrow> hdrs m' x = hdrs m x)"
proof -
  note c = core_bytes [OF n]
  have "morecore n m = ubind (usys (Sys_sbrk (sint (16 * core_units n)))) (\<lambda>r. if rv r = - 1 then uret (0, m)
      else let hp = nat (rv r); m = set_hdr hp (\<lambda>h. h\<lparr>hsize := core_units n\<rparr>) m in
        case ufree (hp + 16) m of None \<Rightarrow> (\<lambda>s. None) | Some m \<Rightarrow> uret (freep m, m))"
    unfolding morecore_def core_units_def Let_def by (rule refl)
  moreover define k where "k = 16 * unat (core_units n)"
  moreover have "sint (16 * core_units n) = int k" using c(1) by (simp add: k_def)
  ultimately have e: "morecore n m = ubind (usys (Sys_sbrk (int k))) (\<lambda>r. if rv r = - 1 then uret (0, m)
      else let hp = nat (rv r); m = set_hdr hp (\<lambda>h. h\<lparr>hsize := core_units n\<rparr>) m in
        case ufree (hp + 16) m of None \<Rightarrow> (\<lambda>s. None) | Some m \<Rightarrow> uret (freep m, m))" by simp
  have brk': "brk' = brk + k" by (simp add: brk'_def k_def)
  show "\<exists>tr'. morecore n m (on_break lim brk tr) = Some (URet (0, m), on_break lim brk tr')" if "lim < brk'"
    using that unfolding e brk' by (auto simp: ubind_def usys_sbrk_up uret_def)
  assume l: "brk' \<le> lim"
  then obtain m' bs' where m': "ufree (brk + 16) (set_hdr brk (\<lambda>h. h\<lparr>hsize := core_units n\<rparr>) m) = Some m'" "heap_ok m' bs' brk'"
    "free_bytes m' bs' = free_bytes m bs \<union> {brk ..< brk'}" "base m' = base m"
    "\<forall>x. x \<notin> insert (base m) (free_bytes m bs \<union> {brk ..< brk'}) \<longrightarrow> hdrs m' x = hdrs m x"
    using core_freed [OF h c(2)] lim unfolding brk'_def by auto
  moreover have "\<exists>tr'. morecore n m (on_break lim brk tr) = Some (URet (freep m', m'), on_break lim brk' tr')"
    using l m'(1) unfolding e brk' by (auto simp: ubind_def usys_sbrk_up uret_def)
  ultimately show "\<exists>m' bs' tr'. morecore n m (on_break lim brk tr) = Some (URet (freep m', m'), on_break lim brk' tr')
      \<and> heap_ok m' bs' brk' \<and> free_bytes m' bs' = free_bytes m bs \<union> {brk ..< brk'} \<and> base m' = base m
      \<and> (\<forall>x. x \<notin> insert (base m) (free_bytes m bs \<union> {brk ..< brk'}) \<longrightarrow> hdrs m' x = hdrs m x)" by blast
qed

text \<open>
  A block \<open>b\<close> of \<open>n\<close> headers handed out of the free bytes \<open>F\<close>: the other bytes of \<open>F\<close> stay free, the
  block can be freed, and no header outside \<open>F\<close> changes but that of \<^verbatim>\<open>base\<close>.
\<close>

definition handed :: "arena \<Rightarrow> nat set \<Rightarrow> u32 \<Rightarrow> nat \<Rightarrow> arena \<Rightarrow> nat list \<Rightarrow> bool" where
  "handed m F n b m' bs' \<longleftrightarrow> live m' bs' b \<and> hsize (hdrs m' b) = n \<and> blk m' b \<subseteq> F \<and> free_bytes m' bs' = F - blk m' b
     \<and> base m' = base m \<and> (\<forall>x. x \<notin> insert (base m) F \<longrightarrow> hdrs m' x = hdrs m x)"

lemma malloc_round:
  assumes h: "heap_ok m bs brk" and n: "0 < n"
  shows "(\<exists>b m' bs'. malloc_loop n (freep m) (hptr (hdrs m (freep m))) m s = uret (b + 16, m') s
      \<and> heap_ok m' bs' brk \<and> handed m (free_bytes m bs) n b m' bs')
    \<or> (\<forall>b \<in> set bs. hsize (hdrs m b) < n)
      \<and> malloc_loop n (freep m) (hptr (hdrs m (freep m))) m s =
        ubind (morecore n m) (\<lambda>(p, m) s. if p = 0 then uret (0, m) s else malloc_loop n p (hptr (hdrs m p)) m s) s"
proof -
  have f: "free_list m bs" "chain m bs" "hd bs = base m" "freep m \<in> set bs" using h by (simp_all add: heap_ok_def free_list_def)
  obtain xs ys where s: "bs = xs @ freep m # ys" using split_list [OF f(4)] by blast
  have l: "ring_path m (freep m) ((ys @ xs) @ [freep m])" using tour [of m xs "freep m" ys] f(2,3) s by simp
  have d: "freep m \<notin> set (ys @ xs)" using chain_distinct [OF f(2)] s by auto
  have set: "insert (freep m) (set (ys @ xs)) = set bs" "set ((ys @ xs) @ [freep m]) = set bs" using s by auto
  from malloc_walk [OF l d, of n s, unfolded set] show ?thesis
  proof (elim disjE exE conjE)
    fix q0 q
    assume q: "q0 \<in> set bs" "hptr (hdrs m q0) = q" "n \<le> hsize (hdrs m q)"
      and e: "malloc_loop n (freep m) (hptr (hdrs m (freep m))) m s = uret (malloc_take n q0 q m) s"
    obtain b m' bs' where b: "malloc_take n q0 q m = (b + 16, m')" "free_list m' bs'" "live m' bs' b" "hsize (hdrs m' b) = n"
      "blk m' b \<subseteq> free_bytes m bs" "free_bytes m' bs' = free_bytes m bs - blk m' b" "base m' = base m"
      "\<forall>x. x \<notin> insert (base m) (free_bytes m bs) \<longrightarrow> hdrs m' x = hdrs m x"
      using malloc_take_list [OF f(1) q n] by blast
    have "heap_ok m' bs' brk" using b(2,6,7) h heap_ok_bytes [OF h] by (intro heap_okI) (auto simp: heap_ok_def)
    moreover have "handed m (free_bytes m bs) n b m' bs'" unfolding handed_def using b(3-8) by blast
    ultimately show ?thesis using e b(1) by auto
  qed simp
qed

lemma malloc_units_bound:
  assumes "unat nbytes \<le> 0x7fffffe0"
  shows "unat (malloc_units nbytes) = (unat nbytes + 15) div 16 + 1" "unat (malloc_units nbytes) < 2 ^ 27"
proof -
  let ?w = "(ucast nbytes + 16 - 1 :: u64) div 16 + 1"
  have a: "unat (ucast nbytes + 15 :: u64) = unat nbytes + 15"
    using assms unat_add_lem [of "ucast nbytes :: u64" 15] by (simp add: unsigned_ucast_eq take_bit_nat_eq_self)
  have "unat (ucast nbytes + 16 - 1 :: u64) = unat nbytes + 15" using a by (simp add: algebra_simps)
  then have d: "unat ((ucast nbytes + 16 - 1 :: u64) div 16) = (unat nbytes + 15) div 16" by (simp add: unat_div)
  have b: "(unat nbytes + 15) div 16 + 1 < 2 ^ 27" using assms by (simp add: div_less_iff_less_mult)
  then have w: "unat ?w = (unat nbytes + 15) div 16 + 1" using d unat_add_lem [of "(ucast nbytes + 16 - 1 :: u64) div 16" 1] by simp
  then show u: "unat (malloc_units nbytes) = (unat nbytes + 15) div 16 + 1"
    using b unfolding malloc_units_def by (simp add: unsigned_ucast_eq take_bit_nat_eq_self)
  then show "unat (malloc_units nbytes) < 2 ^ 27" using b by simp
qed

text \<open>The search after \<^verbatim>\<open>morecore\<close> finds a block.\<close>

lemma malloc_grown:
  assumes h: "heap_ok m bs brk" "\<forall>b \<in> set bs. hsize (hdrs m b) < n" and n: "0 < n" "unat n < 2 ^ 27" and lim: "lim \<le> heap_top"
    and e: "malloc_loop n (freep m) (hptr (hdrs m (freep m))) m (on_break lim brk tr) =
      ubind (morecore n m) (\<lambda>(p, m) s. if p = 0 then uret (0, m) s else malloc_loop n p (hptr (hdrs m p)) m s) (on_break lim brk tr)"
  defines "brk' \<equiv> hplus brk (core_units n)"
  assumes room: "brk' \<le> lim"
  shows "\<exists>b m' bs' tr'. malloc_loop n (freep m) (hptr (hdrs m (freep m))) m (on_break lim brk tr) = Some (URet (b + 16, m'), on_break lim brk' tr')
    \<and> heap_ok m' bs' brk' \<and> handed m (free_bytes m bs \<union> {brk ..< brk'}) n b m' bs'"
proof -
  obtain m1 bs1 tr1 where 1: "morecore n m (on_break lim brk tr) = Some (URet (freep m1, m1), on_break lim brk' tr1)"
    "heap_ok m1 bs1 brk'" "free_bytes m1 bs1 = free_bytes m bs \<union> {brk ..< brk'}" "base m1 = base m"
    "\<forall>x. x \<notin> insert (base m) (free_bytes m bs \<union> {brk ..< brk'}) \<longrightarrow> hdrs m1 x = hdrs m x"
    using morecore_break(2) [OF h(1) n(2) lim] room unfolding brk'_def by blast
  have f: "free_list m1 bs1" using 1(2) by (simp add: heap_ok_def)
  then have "0 < freep m1" using base_least [of m1 bs1 "freep m1"] by (auto simp: free_list_def)
  then have run: "malloc_loop n (freep m) (hptr (hdrs m (freep m))) m (on_break lim brk tr) =
      malloc_loop n (freep m1) (hptr (hdrs m1 (freep m1))) m1 (on_break lim brk' tr1)"
    unfolding e using 1(1) by (simp add: ubind_def)
  have "\<exists>b \<in> set bs1. unat (core_units n) \<le> unat (hsize (hdrs m1 b))"
    using 1(3) core_bytes(2) [OF n(2)] by (intro gap_free [OF f, of brk]) (auto simp: brk'_def word_less_nat_alt)
  then have "\<not> (\<forall>b \<in> set bs1. hsize (hdrs m1 b) < n)"
    using core_bytes(3) [OF n(2)] by (fastforce simp: word_le_nat_alt word_less_nat_alt)
  then obtain b m' bs' where b: "malloc_loop n (freep m1) (hptr (hdrs m1 (freep m1))) m1 (on_break lim brk' tr1) = uret (b + 16, m') (on_break lim brk' tr1)"
    "heap_ok m' bs' brk'" "handed m1 (free_bytes m1 bs1) n b m' bs'"
    using malloc_round [OF 1(2) n(1), of "on_break lim brk' tr1"] by blast
  then have "handed m (free_bytes m bs \<union> {brk ..< brk'}) n b m' bs'" using 1(3,4,5) by (simp add: handed_def)
  then show ?thesis using b(1,2) unfolding run uret_def by blast
qed

text \<open>C36. \<^verbatim>\<open>malloc\<close> returns, for every request of less than two gigabytes and every well-formed heap: either a
  null pointer, when no free block is large enough and \<^verbatim>\<open>sbrk\<close> refuses the memory, and then the heap is as
  before; or a pointer behind the header of a block that is large enough and was taken from the bytes that were free and
  those that \<^verbatim>\<open>sbrk\<close> added. All other such bytes are free afterwards, the free list stays sorted and
  joined, no block in use is touched, and the block can be given back to \<^verbatim>\<open>free\<close>.\<close>

theorem malloc_correct:
  fixes nbytes :: u32
  assumes "heap_ok (malloc_start m) bs brk" and "lim \<le> heap_top" and "unat nbytes \<le> 0x7fffffe0"
  shows "\<exists>p m' bs' brk' tr'. umalloc nbytes m (on_break lim brk tr) = Some (URet (p, m'), on_break lim brk' tr')
    \<and> heap_ok m' bs' brk'
    \<and> (p = 0 \<and> m' = malloc_start m \<and> bs' = bs \<and> brk' = brk \<and> lim < hplus brk (core_units (malloc_units nbytes))
         \<and> (\<forall>b \<in> set bs. unat (hsize (hdrs m' b)) < unat (malloc_units nbytes))
       \<or> (\<exists>b. p = b + 16 \<and> p + unat nbytes \<le> blk_end m' b \<and> brk \<le> brk'
         \<and> handed (malloc_start m) (free_bytes (malloc_start m) bs \<union> {brk ..< brk'}) (malloc_units nbytes) b m' bs'))"
proof -
  define n where "n = malloc_units nbytes"
  define m0 where "m0 = malloc_start m"
  define s where "s = on_break lim brk tr"
  note u = malloc_units_bound [OF assms(3), folded n_def]
  have n: "0 < n" "unat nbytes + 16 \<le> 16 * unat n" using u(1) by (simp_all add: word_less_nat_alt)
  have h: "heap_ok m0 bs brk" using assms(1) by (simp add: m0_def)
  have e: "umalloc nbytes m s = malloc_loop n (freep m0) (hptr (hdrs m0 (freep m0))) m0 s"
    by (simp add: umalloc_def Let_def n_def m0_def)
  have big: "b + 16 + unat nbytes \<le> blk_end m' b" if "handed m0 F n b m' bs'" for F b m' bs'
    using that n(2) by (simp add: handed_def)
  note fold = n_def [symmetric] m0_def [symmetric]
  show ?thesis
  proof (cases "\<exists>b m' bs'. malloc_loop n (freep m0) (hptr (hdrs m0 (freep m0))) m0 s = uret (b + 16, m') s
      \<and> heap_ok m' bs' brk \<and> handed m0 (free_bytes m0 bs) n b m' bs'")
    case True
    then obtain b m' bs' where b: "umalloc nbytes m s = Some (URet (b + 16, m'), on_break lim brk tr)" "heap_ok m' bs' brk"
      "handed m0 (free_bytes m0 bs \<union> {brk ..< brk}) n b m' bs'"
      unfolding e [symmetric] unfolding s_def uret_def by auto
    then show ?thesis unfolding fold s_def using big [OF b(3)] by (metis order_refl)
  next
    case False
    then have none: "\<forall>b \<in> set bs. hsize (hdrs m0 b) < n" and r: "umalloc nbytes m s =
        ubind (morecore n m0) (\<lambda>(p, m) s. if p = 0 then uret (0, m) s else malloc_loop n p (hptr (hdrs m p)) m s) s"
      using malloc_round [OF h n(1), of s] unfolding e by blast+
    show ?thesis
    proof (cases "lim < hplus brk (core_units n)")
      case True
      then obtain tr' where "morecore n m0 s = Some (URet (0, m0), on_break lim brk tr')"
        using morecore_break(1) [OF h u(2) assms(2)] unfolding s_def by blast
      then have "umalloc nbytes m s = Some (URet (0, m0), on_break lim brk tr')" unfolding r by (simp add: ubind_def uret_def)
      then show ?thesis unfolding fold s_def using True none h unfolding word_less_nat_alt by blast
    next
      case False
      then obtain b m' bs' tr' where b: "umalloc nbytes m s = Some (URet (b + 16, m'), on_break lim (hplus brk (core_units n)) tr')"
        "heap_ok m' bs' (hplus brk (core_units n))" "handed m0 (free_bytes m0 bs \<union> {brk ..< hplus brk (core_units n)}) n b m' bs'"
        using malloc_grown [OF h none n(1) u(2) assms(2), of tr, folded s_def, folded e, OF r] by (auto simp: not_less)
      then show ?thesis unfolding fold s_def using big [OF b(3)] by (metis le_add1)
    qed
  qed
qed

definition fresh_arena :: arena where
  "fresh_arena = \<lparr>hdrs = (\<lambda>_. \<lparr>hptr = 0, hsize = 0\<rparr>), base = 4096, freep = 0\<rparr>"

lemma fresh_heap: "0 < base m \<Longrightarrow> base m < brk \<Longrightarrow> freep m = 0 \<Longrightarrow> heap_ok (malloc_start m) [base m] brk"
  by (simp add: heap_ok_def free_list_def malloc_start_def)

theorem malloc_correct_witness:
  "\<exists>p m' bs' brk' tr'. umalloc 100 fresh_arena (on_break (2 ^ 20) 8192 []) = Some (URet (p, m'), on_break (2 ^ 20) brk' tr')
    \<and> heap_ok m' bs' brk' \<and> (\<exists>b. p = b + 16 \<and> p + 100 \<le> blk_end m' b
      \<and> handed (malloc_start fresh_arena) {8192 ..< brk'} 8 b m' bs')"
proof -
  have "heap_ok (malloc_start fresh_arena) [4096] 8192" using fresh_heap [of fresh_arena 8192] by (simp add: fresh_arena_def)
  moreover have "malloc_units 100 = 8" "core_units 8 = 4096" by code_simp+
  moreover have "free_bytes (malloc_start fresh_arena) [4096] = {}" by (simp add: free_bytes_def malloc_start_def fresh_arena_def)
  ultimately show ?thesis
    using malloc_correct [of fresh_arena "[4096]" 8192 "2 ^ 20" 100 "[]"] by (fastforce simp: heap_top_def)
qed

text \<open>C37. \<^verbatim>\<open>free\<close> returns, and puts a block in use back into the free list: the bytes of the block are free afterwards
  besides those that were, the list is sorted by address and adjacent blocks are joined, and no header
  changes outside the free memory but that of \<^verbatim>\<open>base\<close>.\<close>

theorem free_correct:
  assumes "heap_ok m bs brk" and "live m bs b" and "blk_end m b \<le> brk"
  shows "\<exists>m' bs'. ufree (b + 16) m = Some m' \<and> heap_ok m' bs' brk \<and> free_bytes m' bs' = free_bytes m bs \<union> blk m b
    \<and> (\<forall>x. x \<notin> insert (base m) (free_bytes m bs \<union> blk m b) \<longrightarrow> hdrs m' x = hdrs m x)"
proof -
  have f: "free_list m bs" using assms(1) by (simp add: heap_ok_def)
  obtain m' bs' where m': "ufree (b + 16) m = Some m'" "free_list m' bs'" "free_bytes m' bs' = free_bytes m bs \<union> blk m b"
    "base m' = base m" "\<forall>x. x \<notin> insert b (set bs) \<longrightarrow> hdrs m' x = hdrs m x"
    using ufree_list [OF f assms(2)] by blast
  have "b \<in> blk m b" using assms(2) by (simp add: live_def blk_def word_less_nat_alt)
  have "hdrs m' x = hdrs m x" if "x \<notin> insert (base m) (free_bytes m bs \<union> blk m b)" for x
  proof -
    have "x \<noteq> b" "x \<notin> set bs" using that \<open>b \<in> blk m b\<close> free_bytes_mem [OF f, of x] by auto
    then show ?thesis using m'(5) by simp
  qed
  moreover have "heap_ok m' bs' brk"
    using m'(2-4) assms(1,3) heap_ok_bytes [OF assms(1)] by (intro heap_okI) (auto simp: heap_ok_def blk_def)
  ultimately show ?thesis using m'(1,3) by blast
qed

definition used_arena :: arena where
  "used_arena = \<lparr>hdrs = (\<lambda>_. \<lparr>hptr = 0, hsize = 0\<rparr>)(4096 := \<lparr>hptr = 8192, hsize = 0\<rparr>,
     8192 := \<lparr>hptr = 4096, hsize = 4\<rparr>, 8256 := \<lparr>hptr = 0, hsize = 6\<rparr>), base = 4096, freep = 8192\<rparr>"

theorem free_correct_witness:
  "\<exists>m' bs'. ufree 8272 used_arena = Some m' \<and> heap_ok m' bs' 10000 \<and> free_bytes m' bs' = {8192 ..< 8352}"
proof -
  have "heap_ok used_arena [4096, 8192] 10000" by (simp add: heap_ok_def free_list_def used_arena_def heap_top_def)
  moreover have b: "free_bytes used_arena [4096, 8192] = {8192 ..< 8256}" "blk used_arena 8256 = {8256 ..< 8352}"
    by (simp_all add: free_bytes_def blk_def used_arena_def)
  moreover have "live used_arena [4096, 8192] 8256" unfolding live_def b by (auto simp: used_arena_def heap_top_def)
  moreover have "{8192 ..< 8256} \<union> {8256 ..< 8352} = {8192 ..< (8352 :: nat)}" by auto
  ultimately show ?thesis using free_correct [of used_arena "[4096, 8192]" 10000 8256] by (fastforce simp: used_arena_def)
qed

text \<open>C38. The number of bytes that \<^verbatim>\<open>malloc\<close> asks \<^verbatim>\<open>sbrk\<close> for is cut to an \<^verbatim>\<open>int\<close>: the first request
  of a program, for the largest number of bytes, makes the heap grow by 16 bytes and yet returns a block whose header
  claims more than four gigabytes, nearly all of it above the break.\<close>

theorem malloc_huge:
  assumes "0 < base m" and "base m < brk" and "freep m = 0" and "brk + 16 \<le> lim"
  shows "\<exists>m' tr'. umalloc 0xffffffff m (on_break lim brk tr) = Some (URet (brk + 16, m'), on_break lim (brk + 16) tr')
    \<and> blk_end m' brk = brk + 16 + 2 ^ 32"
proof -
  have u: "malloc_units 0xffffffff = 0x10000001" by code_simp
  have s: "sint (16 * 0x10000001 :: u32) = int 16" by code_simp
  define m0 where "m0 = malloc_start m"
  have m0: "freep m0 = base m" "base m0 = base m" "hdrs m0 (base m) = \<lparr>hptr = base m, hsize = 0\<rparr>"
    using assms(3) by (simp_all add: m0_def malloc_start_def)
  define m1 where "m1 = set_hdr brk (\<lambda>h. h\<lparr>hsize := 0x10000001\<rparr>) m0"
  define m2 where "m2 = free_join brk (base m) m1"
  have m1: "hdrs m1 (base m) = \<lparr>hptr = base m, hsize = 0\<rparr>" "freep m1 = base m" "hsize (hdrs m1 brk) = 0x10000001"
    using m0 assms(2) by (simp_all add: m1_def)
  then have "free_find m1 brk (freep m1) = Some (base m)" using assms(2) by (subst free_find.simps) simp
  then have uf: "ufree (brk + 16) m1 = Some m2" by (simp add: ufree_def m2_def)
  have m2: "freep m2 = base m" "hptr (hdrs m2 (base m)) = brk" "hsize (hdrs m2 brk) = 0x10000001"
    using m1 assms(2) by (simp_all add: m2_def free_join_def Let_def)
  have mc: "morecore 0x10000001 m0 (on_break lim brk tr) = Some (URet (base m, m2), on_break lim (brk + 16) (tr @ [Sys_sbrk (int 16)]))"
    using assms(4) uf s m2(1) unfolding morecore_def by (simp add: ubind_def usys_sbrk_up [of 16, simplified] uret_def m1_def)
  have "umalloc 0xffffffff m (on_break lim brk tr) = malloc_loop 0x10000001 (base m) (base m) m0 (on_break lim brk tr)"
    using m0 by (simp add: umalloc_def Let_def u m0_def [symmetric])
  also have "\<dots> = malloc_loop 0x10000001 (base m) brk m2 (on_break lim (brk + 16) (tr @ [Sys_sbrk (int 16)]))"
    using mc m0 m2 assms(1) by (subst malloc_loop.simps) (simp add: ubind_def)
  also have "\<dots> = Some (URet (malloc_take 0x10000001 (base m) brk m2), on_break lim (brk + 16) (tr @ [Sys_sbrk (int 16)]))"
    using m2(3) by (subst malloc_loop.simps) (simp add: uret_def)
  finally have "umalloc 0xffffffff m (on_break lim brk tr) =
    Some (URet (malloc_take 0x10000001 (base m) brk m2), on_break lim (brk + 16) (tr @ [Sys_sbrk (int 16)]))" .
  then show ?thesis using m2(3) assms(2) by (auto simp: malloc_take_def)
qed

theorem malloc_huge_witness:
  "\<exists>m' tr'. umalloc 0xffffffff fresh_arena (on_break (2 ^ 20) 8192 []) = Some (URet (8208, m'), on_break (2 ^ 20) 8208 tr')
    \<and> blk_end m' 8192 = 8208 + 2 ^ 32"
  using malloc_huge [of fresh_arena 8192 "2 ^ 20" "[]"] by (simp add: fresh_arena_def)

end
