(* ===== verification/Spec2Isabelle.thy ===== *)
theory Spec2Isabelle
  imports Spinlock_Protocol Sleep_Protocol Trap Asm Printf_Correct Proc_Correct Log_Correct Shell_Run Umalloc
begin

text \<open>
  A verification development of the xv6 teaching operating system for RISC-V: the kernel
  (\<^verbatim>\<open>src/kernel\<close>), and the library and programs that run on it (\<^verbatim>\<open>src/user\<close>).

  \<^bold>\<open>How the code is modelled.\<close> A kernel function is a function from the state of the machine to an outcome
  (theory \<open>Xv6_Prelude\<close>): it is done with a result, has panicked, spins on a lock that is held, has gone
  to sleep and left a state behind, loops on the CPU for ever, or has done something that C leaves
  undefined. The state is one record that grows with the layers:
  processors, control registers and physical memory (\<open>machine\<close>), processes, devices, buffers, log, inodes, files.
  Memory is a map from 64-bit addresses to bytes, and what the kernel keeps in memory pages (page tables, the free
  list, trapframes, user memory, headers on the disk) is kept there in the byte layout of the source. Integers are words
  of their width. Loops are recursive functions with termination proofs, or partial functions whose value
  \<^const>\<open>None\<close> is a loop that does not end; where a property says that code returns, it is proved. A
  user program is a function from the state of the side that answers its system calls.

  \<^bold>\<open>Kernel, from the bottom.\<close>
  \<^item> \<open>Memory\<close>, \<open>Layout\<close>, \<open>Machine\<close>, \<open>Riscv\<close>: byte encodings; \<^verbatim>\<open>param.h\<close>, \<^verbatim>\<open>memlayout.h\<close>, \<^verbatim>\<open>riscv.h\<close>;
    the processors; \<^verbatim>\<open>start.c\<close>. \<open>CString\<close>: \<^verbatim>\<open>string.c\<close>, with what its routines compute.
  \<^item> \<open>Spinlock\<close>, \<open>Spinlock_Protocol\<close>: \<^verbatim>\<open>spinlock.c\<close>, sequentially and as interleaved memory accesses of any
    number of harts, with mutual exclusion and the interrupt discipline.
  \<^item> \<open>Kalloc\<close>: \<^verbatim>\<open>kalloc.c\<close>, the linked free list and the interface \<open>page_allocator\<close> it implements.
  \<^item> \<open>Vm\<close>, \<open>Page_Table\<close>, \<open>Uvm\<close>: \<^verbatim>\<open>vm.c\<close>; the page-table tree as a map, and the functions as updates of that
    map, with no page lost or shared.
  \<^item> \<open>Proc\<close>, \<open>Calm\<close>, \<open>Frame\<close>, \<open>Proc_Correct\<close>, \<open>Sleep_Protocol\<close>: \<^verbatim>\<open>proc.c\<close> and \<^verbatim>\<open>sleeplock.c\<close>; closed forms of
    locking in a quiet kernel, what allocation leaves alone, the effect of \<^verbatim>\<open>kill\<close>, and the sleep-lock as
    interleaved steps, with mutual exclusion, no lost wakeup and progress.
  \<^item> \<open>Uart\<close>, \<open>Printf\<close>, \<open>Console\<close>, \<open>Printf_Correct\<close>: \<^verbatim>\<open>uart.c\<close>, \<^verbatim>\<open>printf.c\<close>, \<^verbatim>\<open>console.c\<close>; what
    \<^verbatim>\<open>printint\<close> sends and where its buffer is too small.
  \<^item> \<open>Virtio\<close>, \<open>Disk\<close>: \<^verbatim>\<open>virtio_disk.c\<close>; a transfer from submission to interrupt. \<open>Bio\<close>, \<open>Bcache\<close>: \<^verbatim>\<open>bio.c\<close>
    and its refinement of maps over block numbers. \<open>Log\<close>, \<open>Log_Correct\<close>: \<^verbatim>\<open>log.c\<close>; crash safety of \<^verbatim>\<open>commit\<close>,
    recovery, and the reservation of \<^verbatim>\<open>begin_op\<close>.
  \<^item> \<open>Fs\<close>, \<open>Files\<close>, \<open>Exec\<close>, \<open>Proc_Life\<close>, \<open>Sysfile\<close>, \<open>Trap\<close>: \<^verbatim>\<open>fs.c\<close>, \<^verbatim>\<open>file.c\<close> and \<^verbatim>\<open>pipe.c\<close>, \<^verbatim>\<open>exec.c\<close>,
    \<^verbatim>\<open>fork\<close> and \<^verbatim>\<open>exit\<close>, \<^verbatim>\<open>syscall.c\<close>, \<^verbatim>\<open>sysfile.c\<close> and \<^verbatim>\<open>sysproc.c\<close>, \<^verbatim>\<open>trap.c\<close>, \<^verbatim>\<open>plic.c\<close> and \<^verbatim>\<open>main.c\<close>. These
    layers are modelled function by function; no property is stated of them yet.
  \<^item> \<open>Asm\<close>: \<^verbatim>\<open>trampoline.S\<close>, \<^verbatim>\<open>swtch.S\<close>, \<^verbatim>\<open>kernelvec.S\<close>, \<^verbatim>\<open>entry.S\<close>; registers are saved and restored.

  \<^bold>\<open>User level.\<close>
  \<^item> \<open>User\<close>, \<open>User_Printf\<close>, \<open>Umalloc\<close>: \<^verbatim>\<open>ulib.c\<close>, \<^verbatim>\<open>printf.c\<close>, \<^verbatim>\<open>umalloc.c\<close>; numbers printed and read back, and the
    free list of \<^verbatim>\<open>malloc\<close> and \<^verbatim>\<open>free\<close>.
  \<^item> \<open>Grep\<close>, \<open>User_Programs\<close>: \<^verbatim>\<open>grep.c\<close> with the meaning of its patterns, and the small programs.
  \<^item> \<open>Shell\<close>, \<open>Shell_Run\<close>: \<^verbatim>\<open>sh.c\<close>; parsing is the inverse of printing and always returns, and the processes a
    command becomes execute exactly its programs with the descriptors it says.

  \<^bold>\<open>What is assumed.\<close> Code and hardware outside the sources are parameters. The disk is the
  field \<open>disk_hw\<close> of the state and is assumed to serve well-formed requests (\<open>serves\<close>); serial port and
  interrupt controller are lists of the values their registers will deliver. Properties of user programs name
  the side that answers: \<open>from_stream\<close> (reads deliver an input in arbitrary pieces, writes succeed),
  \<open>fd_side\<close> (a table of descriptors with pipes and processes, a specification of its own that is not derived from
  \<open>Sysfile\<close>) and \<open>from_break\<close> (\<^verbatim>\<open>sbrk\<close> up to a limit). Properties of kernel code that takes locks start
  in a quiet state (\<open>calm\<close>): the thread runs, and no lock is held; what other harts do in between is covered by the two
  protocol theories only.

  \<^bold>\<open>Bounds.\<close> Capacities are those of the source: \<^verbatim>\<open>NBUF\<close>, \<^verbatim>\<open>LOGSIZE\<close>, \<^verbatim>\<open>MAXOPBLOCKS\<close>, \<^verbatim>\<open>NPROC\<close>, the 16-byte buffer of
  \<^verbatim>\<open>printint\<close>, the 1023 usable bytes of the buffer of \<^verbatim>\<open>grep\<close>. Signed overflow of counters and of \<^verbatim>\<open>atoi\<close> is a fault. The only
  fuel is in loops that count: the number of completions the disk interrupt handler
  looks at is the difference of the two ring indices, and the number of processes, buffers and descriptors is fixed. The heap of a user
  program ends below \<open>2 ^ 36\<close>, where a 32-bit number of 16-byte headers still counts it.

  \<^bold>\<open>Not modelled.\<close> \<^verbatim>\<open>mkfs.c\<close>, which runs on the host before the system does; the test programs
  \<^verbatim>\<open>usertests.c\<close> and \<^verbatim>\<open>grind.c\<close>; prototypes and build files. Memory ordering weaker than
  interleaving is not modelled: \<^verbatim>\<open>__sync_synchronize\<close> has no effect in the protocols.
\<close>

end
